(* ===== verification/Prelude.thy ===== *)
theory Prelude
  imports Main "HOL-Library.Word"
begin

text \<open>
  Shared vocabulary of the development: the machine types of the C sources on the 64-bit
  targets of the application, wrap-around of \<open>size_t\<close>, the calling convention of fallible C
  functions (a success flag, an out-parameter and a state that survives failure), bit lemmas
  about splitting words into 7- and 8-bit groups, and the interfaces used by several
  components: \<open>codec\<close> (an encoder whose output its decoder reads back from the front of any
  input), \<open>byte_fifo\<close> (a first-in first-out byte buffer) and \<open>duplex\<close> (two such buffers that share a
  state and do not disturb each other).
\<close>

unbundle bit_operations_syntax

section \<open>Machine types\<close>

type_synonym byte = "8 word"
type_synonym u16 = "16 word"
type_synonym u32 = "32 word"
type_synonym u64 = "64 word"

named_theorems c_simps \<open>unfolding rules of the C calling convention\<close>
named_theorems size_simps \<open>rules about size_t arithmetic\<close>

text \<open>\<open>size_t\<close> is 64 bits wide on the targets; it is modelled as \<open>nat\<close> with the wrap written out.\<close>

definition SIZE_MAX :: nat where
  "SIZE_MAX = 2 ^ 64 - 1"

text \<open>The largest \<open>int\<close>, and the conversions between \<open>int\<close> and \<open>size_t\<close>.\<close>

definition INT_MAX :: nat where "INT_MAX = 0x7fffffff"

definition int_of_size :: "nat \<Rightarrow> int" where
  "int_of_size n = sint (of_nat n :: 32 word)"

text \<open>The cast of a \<open>long\<close> to \<open>int\<close>.\<close>

definition int_of_long :: "int \<Rightarrow> int" where
  "int_of_long i = sint (word_of_int i :: 32 word)"

definition size_of_int :: "int \<Rightarrow> nat" where
  "size_of_int i = nat (i mod 2 ^ 64)"

definition size_add :: "nat \<Rightarrow> nat \<Rightarrow> nat" where
  "size_add a b = (a + b) mod 2 ^ 64"

definition size_mul :: "nat \<Rightarrow> nat \<Rightarrow> nat" where
  "size_mul a b = (a * b) mod 2 ^ 64"

definition size_sub :: "nat \<Rightarrow> nat \<Rightarrow> nat" where
  "size_sub a b = nat ((int a - int b) mod 2 ^ 64)"

lemma size_add_small [size_simps]: "a + b < 2 ^ 64 \<Longrightarrow> size_add a b = a + b"
  by (simp add: size_add_def)

lemma size_mul_small [size_simps]: "a * b < 2 ^ 64 \<Longrightarrow> size_mul a b = a * b"
  by (simp add: size_mul_def)

lemma size_sub_small [size_simps]: "b \<le> a \<Longrightarrow> a < 2 ^ 64 \<Longrightarrow> size_sub a b = a - b"
  by (simp add: size_sub_def nat_diff_distrib flip: of_nat_diff)

lemma size_add_bound [simp]: "size_add a b < 18446744073709551616"
  by (simp add: size_add_def)

lemma int_of_size_small [size_simps]: "n \<le> INT_MAX \<Longrightarrow> int_of_size n = int n"
  by (simp add: int_of_size_def INT_MAX_def signed_of_nat signed_take_bit_int_eq_self)

lemma size_of_int_small [size_simps]: "0 \<le> i \<Longrightarrow> i < 2 ^ 64 \<Longrightarrow> size_of_int i = nat i"
  by (simp add: size_of_int_def)

text \<open>The C idiom \<open>a + b < a\<close> detects exactly the wrap-around.\<close>

lemma size_add_wraps_iff:
  assumes "a < 2 ^ 64" "b < 2 ^ 64"
  shows "size_add a b < a \<longleftrightarrow> 2 ^ 64 \<le> a + b"
proof (cases "a + b < 2 ^ 64")
  case True
  then show ?thesis by (simp add: size_add_def)
next
  case False
  then have "(a + b) mod 2 ^ 64 = a + b - 2 ^ 64"
    using assms by (simp add: mod_if)
  with False assms show ?thesis by (simp add: size_add_def)
qed

text \<open>\<open>memcmp\<close> on the bytes that both sides have.\<close>

fun memcmp :: "byte list \<Rightarrow> byte list \<Rightarrow> int" where
  "memcmp (a # as) (b # bs) = (if a < b then -1 else if b < a then 1 else memcmp as bs)"
| "memcmp _ _ = 0"

lemma memcmp_zero: "length a = length b \<Longrightarrow> memcmp a b = 0 \<longleftrightarrow> a = b"
  by (induction a b rule: list_induct2) auto

section \<open>Fallible C functions over a state\<close>

text \<open>
  A C function \<open>bool f(S *s, ..., T *out)\<close> is a HOL function from the state to an optional
  result and the state it leaves: \<open>None\<close> is the return of \<open>false\<close> and \<open>Some x\<close> the return
  of \<open>true\<close> with \<open>*out = x\<close>. The state is kept on failure, since callers can still see it.
\<close>

type_synonym ('s, 'a) act = "'s \<Rightarrow> 'a option \<times> 's"

definition ret :: "'a \<Rightarrow> ('s, 'a) act" where
  "ret x s = (Some x, s)"

definition and_then :: "('s, 'a) act \<Rightarrow> ('a \<Rightarrow> ('s, 'b) act) \<Rightarrow> ('s, 'b) act" where
  "and_then m f s = (case m s of (None, s') \<Rightarrow> (None, s') | (Some x, s') \<Rightarrow> f x s')"

lemma ret_simp [simp]: "ret x s = (Some x, s)"
  by (simp add: ret_def)

lemma and_then_Some [simp]: "m s = (Some x, s') \<Longrightarrow> and_then m f s = f x s'"
  by (simp add: and_then_def)

lemma and_then_None [simp]: "m s = (None, s') \<Longrightarrow> and_then m f s = (None, s')"
  by (simp add: and_then_def)

lemma and_then_SomeE:
  assumes "and_then m f s = (Some y, t)"
  obtains x s' where "m s = (Some x, s')" "f x s' = (Some y, t)"
  using assms by (auto simp: and_then_def split: prod.splits option.splits)

lemma and_then_cases:
  assumes "and_then m f s = r"
  obtains (fail) s' where "m s = (None, s')" "r = (None, s')"
  | (ok) x s' where "m s = (Some x, s')" "f x s' = r"
  using assms by (cases "m s"; cases "fst (m s)") (auto simp: and_then_def)

lemma and_then_assoc:
  "and_then (and_then m f) g = and_then m (\<lambda>x. and_then (f x) g)"
  by (rule ext) (auto simp: and_then_def split: prod.splits option.splits)

lemma and_then_ret: "and_then (ret x) f = f x"
  by (rule ext) simp

lemma and_then_cong [fundef_cong]:
  assumes "s = s'" "m s' = m' s'" "\<And>x t. m' s' = (Some x, t) \<Longrightarrow> f x t = f' x t"
  shows "and_then m f s = and_then m' f' s'"
  using assms by (auto simp: and_then_def split: prod.splits option.splits)

text \<open>
  A relation between the state before and after, kept by sequencing whenever it is reflexive
  and transitive: how every \<open>monotone\<close> property of a component is lifted to its composites.
\<close>

definition keeps :: "('s \<Rightarrow> 's \<Rightarrow> bool) \<Rightarrow> ('s, 'a) act \<Rightarrow> bool" where
  "keeps R m \<longleftrightarrow> (\<forall>s. R s (snd (m s)))"

lemma keepsI: "(\<And>s. R s (snd (m s))) \<Longrightarrow> keeps R m"
  by (simp add: keeps_def)

lemma keepsD: "keeps R m \<Longrightarrow> m s = (x, t) \<Longrightarrow> R s t"
  unfolding keeps_def by (metis snd_conv)

lemma keeps_ret: "reflp R \<Longrightarrow> keeps R (ret x)"
  by (auto simp: keeps_def reflp_def)

lemma keeps_and_then:
  assumes "transp R" "keeps R m" "\<And>x. keeps R (f x)"
  shows "keeps R (and_then m f)"
proof (rule keepsI)
  fix s
  show "R s (snd (and_then m f s))"
  proof (cases "m s")
    case (Pair r t)
    then have 1: "R s t" using assms(2) by (auto dest: keepsD)
    show ?thesis
    proof (cases r)
      case None
      with Pair 1 show ?thesis by simp
    next
      case (Some x)
      have "R t (snd (f x t))" using assms(3) by (simp add: keeps_def)
      with 1 have "R s (snd (f x t))" using assms(1) by (blast dest: transpD)
      with Pair Some show ?thesis by simp
    qed
  qed
qed

section \<open>Splitting words into groups of bits\<close>

lemma take_bit_extend:
  fixes v :: "'a::len word"
  shows "take_bit n v OR push_bit n (take_bit k (drop_bit n v)) = take_bit (n + k) v"
  by (rule bit_word_eqI) (auto simp: bit_simps)

lemma drop_bit_0_take: "drop_bit n v = 0 \<Longrightarrow> take_bit n v = v" for v :: "'a::len word"
  by (metis bits_ident add_0_left push_bit_of_0)

lemma drop_bit_0_bits: "drop_bit n v = 0 \<Longrightarrow> bit v i \<Longrightarrow> i < n" for v :: "'a::len word"
  by (metis drop_bit_0_take bit_take_bit_iff)

lemma word_take_bit_full: "LENGTH('a) \<le> n \<Longrightarrow> take_bit n (v :: 'a::len word) = v"
  by (rule bit_word_eqI) (auto simp: bit_simps)

lemma drop_bit_less: "v \<noteq> 0 \<Longrightarrow> 0 < n \<Longrightarrow> unat (drop_bit n (v :: 'a::len word)) < unat v"
proof -
  assume "v \<noteq> 0" "0 < n"
  have "(1::nat) < 2 ^ n" using \<open>0 < n\<close> by (intro one_less_power) auto
  moreover have "0 < unat v" using \<open>v \<noteq> 0\<close> by (simp add: unat_gt_0)
  moreover have "unat (drop_bit n v) = unat v div 2 ^ n"
    by (subst unat_drop_bit_eq) (simp add: drop_bit_eq_div)
  ultimately show ?thesis by simp
qed

lemma drop_bit_0_iff: "drop_bit n (v :: 'a::len word) = 0 \<longleftrightarrow> unat v < 2 ^ n"
proof -
  have "unat (drop_bit n v) = unat v div 2 ^ n"
    by (subst unat_drop_bit_eq) (simp add: drop_bit_eq_div)
  moreover have "drop_bit n v = 0 \<longleftrightarrow> unat (drop_bit n v) = 0" by (metis unat_0 unat_eq_zero)
  ultimately show ?thesis by (simp add: div_eq_0_iff)
qed

lemma unat_ucast_up: "LENGTH('b) \<le> LENGTH('a) \<Longrightarrow> unat (ucast (v :: 'b::len word) :: 'a::len word) = unat v"
proof -
  assume "LENGTH('b) \<le> LENGTH('a)"
  then have "(2::nat) ^ LENGTH('b) \<le> 2 ^ LENGTH('a)" by (intro power_increasing) auto
  moreover have "unat v < 2 ^ LENGTH('b)" by (rule unsigned_less)
  ultimately have "unat v < 2 ^ LENGTH('a)" by (rule order_less_le_trans [rotated])
  then show ?thesis by (simp add: unsigned_ucast_eq take_bit_eq_mod)
qed

lemma ucast_mask_group:
  fixes v :: "'a::len word"
  assumes "k \<le> LENGTH('b::len)" "LENGTH('b) \<le> LENGTH('a)"
  shows "(ucast (ucast (take_bit k v) :: 'b word) :: 'a word) = take_bit k v"
  using assms by (intro bit_word_eqI) (auto simp: bit_simps)

lemma and_mask_take_bit_7: "(x :: 'a::len word) AND 0x7F = take_bit 7 x"
  by (simp add: take_bit_eq_mask mask_numeral)

lemma and_mask_take_bit_8: "(x :: 'a::len word) AND 0xFF = take_bit 8 x"
  by (simp add: take_bit_eq_mask mask_numeral)

named_theorems const_bits \<open>the bits of the masks the sources use\<close>

lemma bit_7F [const_bits]: "bit (0x7F :: 'a::len word) n \<longleftrightarrow> n < 7 \<and> n < LENGTH('a)"
proof -
  have "(0x7F :: 'a word) = mask 7" by (simp add: mask_numeral)
  then show ?thesis by (simp only: bit_mask_iff) (auto simp: exp_eq_0_imp_not_bit possible_bit_word)
qed

lemma bit_80 [const_bits]: "bit (0x80 :: 'a::len word) n \<longleftrightarrow> n = 7 \<and> n < LENGTH('a)"
proof -
  have "(0x80 :: 'a word) = push_bit 7 1" by (simp add: push_bit_eq_mult)
  then show ?thesis by (simp only: bit_push_bit_iff) (auto simp: possible_bit_word bit_1_iff)
qed

lemma bit_7F_int [const_bits]: "bit (0x7F :: int) n \<longleftrightarrow> n < 7"
proof -
  have "(0x7F :: int) = mask 7" by (simp add: mask_numeral)
  then show ?thesis by (simp only: bit_mask_iff) simp
qed

lemma bit_80_int [const_bits]: "bit (0x80 :: int) n \<longleftrightarrow> n = 7"
proof -
  have "(0x80 :: int) = push_bit 7 1" by (simp add: push_bit_eq_mult)
  then show ?thesis by (simp only: bit_push_bit_iff) (auto simp: bit_1_iff)
qed

lemma bit_70 [const_bits]: "bit (0x70 :: byte) n \<longleftrightarrow> 4 \<le> n \<and> n < 7"
proof -
  have "(0x70 :: byte) = push_bit 4 (mask 3)" by (simp add: push_bit_eq_mult mask_numeral)
  then show ?thesis by (simp only: bit_push_bit_iff bit_mask_iff) (auto simp: possible_bit_word)
qed

lemma bit_70_int [const_bits]: "bit (0x70 :: int) n \<longleftrightarrow> 4 \<le> n \<and> n < 7"
proof -
  have "(0x70 :: int) = push_bit 4 (mask 3)" by (simp add: push_bit_eq_mult mask_numeral)
  then show ?thesis by (simp only: bit_push_bit_iff bit_mask_iff) auto
qed

section \<open>Interface: encoders with a left-inverse decoder\<close>

text \<open>
  \<open>enc\<close> writes a value, \<open>dec\<close> reads one value off the front of the input and returns the
  rest. The only law is that reading what was written gives the value back and leaves what
  follows it; unambiguity and the round trip of sequences follow from it for every codec of
  the code base.
\<close>

locale codec =
  fixes enc :: "'a \<Rightarrow> byte list"
    and dec :: "byte list \<Rightarrow> ('a \<times> byte list) option"
    and ok :: "'a \<Rightarrow> bool"
  assumes dec_enc: "ok x \<Longrightarrow> dec (enc x @ rest) = Some (x, rest)"
begin

lemma enc_inj: "ok x \<Longrightarrow> ok y \<Longrightarrow> enc x = enc y \<Longrightarrow> x = y"
  by (metis dec_enc option.inject prod.inject)

lemma enc_prefix_free: "ok x \<Longrightarrow> ok y \<Longrightarrow> enc x @ r = enc y @ r' \<Longrightarrow> x = y \<and> r = r'"
  by (metis dec_enc option.inject prod.inject)

lemma enc_append_unique:
  "\<forall>x \<in> set xs. ok x \<Longrightarrow> \<forall>y \<in> set ys. ok y \<Longrightarrow> length xs = length ys \<Longrightarrow>
   concat (map enc xs) @ r = concat (map enc ys) @ r' \<Longrightarrow> xs = ys \<and> r = r'"
proof (induction xs arbitrary: ys)
  case Nil
  then show ?case by simp
next
  case (Cons x xs)
  then obtain y ys' where ys: "ys = y # ys'" by (cases ys) auto
  from Cons.prems ys have "enc x @ (concat (map enc xs) @ r) = enc y @ (concat (map enc ys') @ r')"
    by simp
  moreover have "ok x" "ok y" using Cons.prems ys by auto
  ultimately have "x = y \<and> concat (map enc xs) @ r = concat (map enc ys') @ r'"
    by (intro enc_prefix_free)
  moreover have "\<forall>x \<in> set xs. ok x" "\<forall>y \<in> set ys'. ok y" "length xs = length ys'"
    using Cons.prems ys by auto
  ultimately show ?case using Cons.IH [of ys'] ys by blast
qed

end

section \<open>Interface: first-in first-out byte buffers\<close>

text \<open>
  What the readers and writers of a bounded buffer rely on: \<open>push\<close> accepts a prefix of the
  bytes offered (how many is its result) and \<open>pop\<close> delivers a prefix of what is queued.
\<close>

locale byte_fifo =
  fixes abs :: "'q \<Rightarrow> byte list"
    and inv :: "'q \<Rightarrow> bool"
    and push :: "byte list \<Rightarrow> 'q \<Rightarrow> nat \<times> 'q"
    and pop :: "nat \<Rightarrow> 'q \<Rightarrow> byte list \<times> 'q"
  assumes push_abs: "inv q \<Longrightarrow> push bs q = (n, q') \<Longrightarrow> abs q' = abs q @ take n bs \<and> n \<le> length bs"
    and push_inv: "inv q \<Longrightarrow> push bs q = (n, q') \<Longrightarrow> inv q'"
    and pop_abs: "inv q \<Longrightarrow> pop k q = (out, q') \<Longrightarrow> abs q = out @ abs q'"
    and pop_inv: "inv q \<Longrightarrow> pop k q = (out, q') \<Longrightarrow> inv q'"
begin

text \<open>
  A run of the buffer: pushes and pops in any order, collecting the bytes that were accepted
  and the bytes that came out.
\<close>

fun run :: "(byte list + nat) list \<Rightarrow> 'q \<Rightarrow> byte list \<times> byte list \<times> 'q" where
  "run [] q = ([], [], q)"
| "run (Inl bs # es) q =
     (let (n, q') = push bs q; (i, out, q'') = run es q' in (take n bs @ i, out, q''))"
| "run (Inr k # es) q =
     (let (o1, q') = pop k q; (i, out, q'') = run es q' in (i, o1 @ out, q''))"

lemma run_order:
  "inv q \<Longrightarrow> run es q = (i, out, q') \<Longrightarrow> abs q @ i = out @ abs q' \<and> inv q'"
proof (induction es q arbitrary: i out q' rule: run.induct)
  case (1 q)
  then show ?case by simp
next
  case (2 bs es q)
  obtain n q1 where p: "push bs q = (n, q1)" by fastforce
  obtain i' o' where r: "run es q1 = (i', o', q')" "i = take n bs @ i'" "out = o'"
    using 2(3) p by (auto split: prod.splits)
  have "abs q1 @ i' = o' @ abs q' \<and> inv q'"
    using "2.IH" p r push_inv 2(2) by auto
  with push_abs [OF 2(2) p] r show ?case by simp
next
  case (3 k es q)
  obtain o1 q1 where p: "pop k q = (o1, q1)" by fastforce
  obtain i' o' where r: "run es q1 = (i', o', q')" "i = i'" "out = o1 @ o'"
    using 3(3) p by (auto split: prod.splits)
  have "abs q1 @ i' = o' @ abs q' \<and> inv q'"
    using "3.IH" p r pop_inv 3(2) by auto
  with pop_abs [OF 3(2) p] r show ?case by simp
qed

end

text \<open>
  Two such buffers over one state, one in each direction; the operations of one direction do not
  disturb the other.
\<close>

datatype duplex_event = Up_write "byte list" | Up_read nat | Down_write "byte list" | Down_read nat

locale duplex =
  up: byte_fifo abs1 inv push1 pop1 + down: byte_fifo abs2 inv push2 pop2
  for abs1 abs2 :: "'q \<Rightarrow> byte list" and inv push1 pop1 push2 pop2 +
  assumes push1_frame: "inv q \<Longrightarrow> push1 bs q = (n, q') \<Longrightarrow> abs2 q' = abs2 q"
    and pop1_frame: "inv q \<Longrightarrow> pop1 k q = (out, q') \<Longrightarrow> abs2 q' = abs2 q"
    and push2_frame: "inv q \<Longrightarrow> push2 bs q = (n, q') \<Longrightarrow> abs1 q' = abs1 q"
    and pop2_frame: "inv q \<Longrightarrow> pop2 k q = (out, q') \<Longrightarrow> abs1 q' = abs1 q"
begin

fun exchange :: "duplex_event list \<Rightarrow> 'q \<Rightarrow> (byte list \<times> byte list) \<times> (byte list \<times> byte list) \<times> 'q" where
  "exchange [] q = (([], []), ([], []), q)"
| "exchange (Up_write bs # es) q =
     (let (n, q') = push1 bs q; ((i, out), d, q'') = exchange es q' in ((take n bs @ i, out), d, q''))"
| "exchange (Up_read k # es) q =
     (let (o1, q') = pop1 k q; ((i, out), d, q'') = exchange es q' in ((i, o1 @ out), d, q''))"
| "exchange (Down_write bs # es) q =
     (let (n, q') = push2 bs q; (u, (i, out), q'') = exchange es q' in (u, (take n bs @ i, out), q''))"
| "exchange (Down_read k # es) q =
     (let (o1, q') = pop2 k q; (u, (i, out), q'') = exchange es q' in (u, (i, o1 @ out), q''))"

lemma exchange_order:
  "inv q \<Longrightarrow> exchange es q = ((i1, o1), (i2, o2), q') \<Longrightarrow>
   abs1 q @ i1 = o1 @ abs1 q' \<and> abs2 q @ i2 = o2 @ abs2 q' \<and> inv q'"
proof (induction es q arbitrary: i1 o1 i2 o2 q' rule: exchange.induct)
  case (1 q)
  then show ?case by simp
next
  case (2 bs es q)
  obtain n r where p: "push1 bs q = (n, r)" by fastforce
  obtain i where e: "exchange es r = ((i, o1), (i2, o2), q')" "i1 = take n bs @ i"
    using 2(3) p by (auto split: prod.splits)
  from "2.IH" [OF p [symmetric] refl _ e(1)] up.push_inv [OF 2(2) p] up.push_abs [OF 2(2) p] push1_frame [OF 2(2) p]
  show ?case by (simp add: e(2))
next
  case (3 k es q)
  obtain out r where p: "pop1 k q = (out, r)" by fastforce
  obtain out' where e: "exchange es r = ((i1, out'), (i2, o2), q')" "o1 = out @ out'"
    using 3(3) p by (auto split: prod.splits)
  from "3.IH" [OF p [symmetric] refl _ e(1)] up.pop_inv [OF 3(2) p] up.pop_abs [OF 3(2) p] pop1_frame [OF 3(2) p]
  show ?case by (simp add: e(2))
next
  case (4 bs es q)
  obtain n r where p: "push2 bs q = (n, r)" by fastforce
  obtain i where e: "exchange es r = ((i1, o1), (i, o2), q')" "i2 = take n bs @ i"
    using 4(3) p by (auto split: prod.splits)
  from "4.IH" [OF p [symmetric] refl _ e(1)] down.push_inv [OF 4(2) p] down.push_abs [OF 4(2) p] push2_frame [OF 4(2) p]
  show ?case by (simp add: e(2))
next
  case (5 k es q)
  obtain out r where p: "pop2 k q = (out, r)" by fastforce
  obtain out' where e: "exchange es r = ((i1, o1), (i2, out'), q')" "o2 = out @ out'"
    using 5(3) p by (auto split: prod.splits)
  from "5.IH" [OF p [symmetric] refl _ e(1)] down.pop_inv [OF 5(2) p] down.pop_abs [OF 5(2) p] pop2_frame [OF 5(2) p]
  show ?case by (simp add: e(2))
qed

end

end
