(* ===== verification/PbStream.thy ===== *)
theory PbStream
  imports Prelude
begin

text \<open>
  The streams of nanopb (\<open>pb_ostream_t\<close> of \<open>pb_encode.h\<close>, \<open>pb_istream_t\<close> of
  \<open>pb_decode.h\<close>) and the functions that move bytes through them. A stream is a callback with
  its state, a byte limit and the first error message. The callback is \<open>NULL\<close> (a sizing
  stream), the memory-buffer callback of the library (\<open>buf_write\<close>, \<open>buf_read\<close>) or a
  function of the user of the library, which is a parameter here.
\<close>

section \<open>Output streams\<close>

text \<open>
  \<open>Buf_sink mem pos\<close> is the library's buffer callback: the buffer given to
  \<open>pb_ostream_from_buffer\<close> and the write position \<open>state\<close> in it.
\<close>

datatype 'u sink =
    Sizing
  | Buf_sink "byte list" nat
  | User_sink "'u \<Rightarrow> byte list \<Rightarrow> bool \<times> 'u" 'u

record 'u ostream =
  sink :: "'u sink"
  max_size :: nat
  bytes_written :: nat
  oerrmsg :: "string option"

type_synonym ('u, 'a) oact = "('u ostream, 'a) act"

text \<open>\<open>PB_RETURN_ERROR\<close>: the first message set on a stream stays.\<close>

definition oerr :: "string \<Rightarrow> ('u, 'a) oact" where
  "oerr msg s = (None, s\<lparr>oerrmsg := Some (case oerrmsg s of Some m \<Rightarrow> m | None \<Rightarrow> msg)\<rparr>)"

definition buf_write :: "byte list \<Rightarrow> nat \<Rightarrow> byte list \<Rightarrow> byte list" where
  "buf_write mem pos bs = take pos mem @ bs @ drop (pos + length bs) mem"

fun sink_write :: "'u sink \<Rightarrow> byte list \<Rightarrow> bool \<times> 'u sink" where
  "sink_write Sizing bs = (True, Sizing)"
| "sink_write (Buf_sink mem pos) bs = (True, Buf_sink (buf_write mem pos bs) (pos + length bs))"
| "sink_write (User_sink cb u) bs = (case cb u bs of (r, u') \<Rightarrow> (r, User_sink cb u'))"

definition pb_ostream_from_buffer :: "byte list \<Rightarrow> nat \<Rightarrow> 'u ostream" where
  "pb_ostream_from_buffer buf bufsize =
     \<lparr>sink = Buf_sink buf 0, max_size = bufsize, bytes_written = 0, oerrmsg = None\<rparr>"

definition PB_OSTREAM_SIZING :: "'u ostream" where
  "PB_OSTREAM_SIZING = \<lparr>sink = Sizing, max_size = 0, bytes_written = 0, oerrmsg = None\<rparr>"

fun is_sizing :: "'u sink \<Rightarrow> bool" where
  "is_sizing Sizing = True"
| "is_sizing (Buf_sink _ _) = False"
| "is_sizing (User_sink _ _) = False"

fun is_buf :: "'u sink \<Rightarrow> bool" where
  "is_buf Sizing = False"
| "is_buf (Buf_sink _ _) = True"
| "is_buf (User_sink _ _) = False"

text \<open>
  \<open>pb_write(stream, buf, count)\<close>. The buffer is the bytes from the pointer on; a sizing stream
  looks only at \<open>count\<close>, so that \<open>NULL\<close> is the empty list there.
\<close>

definition pb_write :: "byte list \<Rightarrow> nat \<Rightarrow> ('u, unit) oact" where
  "pb_write buf count s =
     (if 0 < count \<and> \<not> is_sizing (sink s) then
        if size_add (bytes_written s) count < bytes_written s \<or>
           size_add (bytes_written s) count > max_size s
        then oerr ''stream full'' s
        else case sink_write (sink s) (take count buf) of
            (False, k) \<Rightarrow> oerr ''io error'' (s\<lparr>sink := k\<rparr>)
          | (True, k) \<Rightarrow> (Some (), s\<lparr>sink := k, bytes_written := size_add (bytes_written s) count\<rparr>)
      else (Some (), s\<lparr>bytes_written := size_add (bytes_written s) count\<rparr>))"

section \<open>Input streams\<close>

text \<open>
  \<open>Buf_source m\<close> is the library's buffer callback \<open>buf_read\<close> with its read pointer: the
  bytes of memory from the pointer on.
\<close>

datatype 'u source =
    Buf_source "byte list"
  | User_source "'u \<Rightarrow> nat \<Rightarrow> byte list option \<times> 'u" 'u

record 'u istream =
  source :: "'u source"
  bytes_left :: nat
  ierrmsg :: "string option"

type_synonym ('u, 'a) iact = "('u istream, 'a) act"

definition ierr :: "string \<Rightarrow> ('u, 'a) iact" where
  "ierr msg s = (None, s\<lparr>ierrmsg := Some (case ierrmsg s of Some m \<Rightarrow> m | None \<Rightarrow> msg)\<rparr>)"

definition buf_read :: "byte list \<Rightarrow> nat \<Rightarrow> byte list option \<times> byte list" where
  "buf_read m n = (Some (take n m), drop n m)"

fun source_read :: "'u source \<Rightarrow> nat \<Rightarrow> byte list option \<times> 'u source" where
  "source_read (Buf_source m) n = (case buf_read m n of (r, m') \<Rightarrow> (r, Buf_source m'))"
| "source_read (User_source cb u) n = (case cb u n of (r, u') \<Rightarrow> (r, User_source cb u'))"

fun is_buf_read :: "'u source \<Rightarrow> bool" where
  "is_buf_read (Buf_source _) = True"
| "is_buf_read (User_source _ _) = False"

definition pb_istream_from_buffer :: "byte list \<Rightarrow> nat \<Rightarrow> 'u istream" where
  "pb_istream_from_buffer buf bufsize =
     \<lparr>source = Buf_source buf, bytes_left = bufsize, ierrmsg = None\<rparr>"

text \<open>\<open>pb_read\<close> with a buffer: the checks, the callback and the bookkeeping.\<close>

definition pb_read_buf :: "nat \<Rightarrow> ('u, byte list) iact" where
  "pb_read_buf count s =
     (if count = 0 then (Some [], s)
      else if bytes_left s < count then ierr ''end-of-stream'' s
      else case source_read (source s) count of
          (None, k) \<Rightarrow> ierr ''io error'' (s\<lparr>source := k\<rparr>)
        | (Some bs, k) \<Rightarrow> (Some bs, s\<lparr>source := k, bytes_left := bytes_left s - count\<rparr>))"

text \<open>\<open>pb_read\<close> without a buffer on a custom stream: 16 bytes at a time into a scratch buffer.\<close>

fun pb_read_skip :: "nat \<Rightarrow> ('u, byte list) iact" where
  "pb_read_skip count s =
     (if count > 16 then and_then (pb_read_buf 16) (\<lambda>_. pb_read_skip (count - 16)) s
      else pb_read_buf count s)"

declare pb_read_skip.simps [simp del]

text \<open>
  \<open>pb_read(stream, buf, count)\<close>, the flag telling whether \<open>buf\<close> is \<open>NULL\<close>; the result is
  what was stored in \<open>buf\<close>, nothing when it is \<open>NULL\<close>.
\<close>

definition pb_read :: "bool \<Rightarrow> nat \<Rightarrow> ('u, byte list) iact" where
  "pb_read buf_null count s =
     (if count = 0 then (Some [], s)
      else if buf_null then
        and_then (if is_buf_read (source s) then pb_read_buf count else pb_read_skip count)
          (\<lambda>_. ret []) s
      else pb_read_buf count s)"

definition pb_readbyte :: "('u, byte) iact" where
  "pb_readbyte s =
     (if bytes_left s = 0 then ierr ''end-of-stream'' s
      else case source_read (source s) 1 of
          (None, k) \<Rightarrow> ierr ''io error'' (s\<lparr>source := k\<rparr>)
        | (Some bs, k) \<Rightarrow> (Some (hd bs), s\<lparr>source := k, bytes_left := bytes_left s - 1\<rparr>))"

section \<open>Reading: position and limit stay in step\<close>

text \<open>
  \<open>advances s t\<close>: what is left of the limit only shrinks, and the read pointer of a buffer has
  moved by exactly the amount the limit shrank. Every decoding function of the library keeps
  this relation, whatever it returns.
\<close>

definition advances :: "'u istream \<Rightarrow> 'u istream \<Rightarrow> bool" where
  "advances s t \<longleftrightarrow> bytes_left t \<le> bytes_left s \<and>
     is_buf_read (source t) = is_buf_read (source s) \<and>
     (\<forall>m. source s = Buf_source m \<longrightarrow> source t = Buf_source (drop (bytes_left s - bytes_left t) m))"

definition wf_istream :: "'u istream \<Rightarrow> bool" where
  "wf_istream s \<longleftrightarrow> (\<forall>m. source s = Buf_source m \<longrightarrow> bytes_left s \<le> length m)"

lemma advances_refl: "reflp advances"
  by (simp add: reflp_def advances_def)

lemma advances_trans: "transp advances"
proof (rule transpI)
  fix s t u :: "'u istream"
  assume "advances s t" "advances t u"
  then show "advances s u" by (auto simp: advances_def)
qed

lemma advances_wf: "advances s t \<Longrightarrow> wf_istream s \<Longrightarrow> wf_istream t"
  by (cases "source s"; cases "source t") (auto simp: advances_def wf_istream_def)

lemma advances_bytes_left: "advances s t \<Longrightarrow> bytes_left t \<le> bytes_left s"
  by (simp add: advances_def)

lemma ierr_None [simp]: "ierr msg s \<noteq> (Some x, t)"
  by (simp add: ierr_def)

lemma ierr_advances [simp]: "advances s (snd (ierr msg s))"
  by (simp add: ierr_def advances_def)

lemma ierr_keeps: "keeps advances (ierr msg)"
  by (rule keepsI) simp

lemma source_read_Buf_None [simp]: "source_read (Buf_source m) n \<noteq> (None, k)"
  by (simp add: buf_read_def)

lemma source_read_frame:
  "source_read k n = (r, k') \<Longrightarrow> is_buf_read k' = is_buf_read k \<and>
     (\<forall>m. k = Buf_source m \<longrightarrow> r = Some (take n m) \<and> k' = Buf_source (drop n m))"
  by (cases k) (auto simp: buf_read_def split: prod.splits)

lemma source_read_User_Buf [simp]: "source_read (User_source cb u) n \<noteq> (r, Buf_source m)"
  by (auto split: prod.splits)

lemma pb_read_buf_keeps: "keeps advances (pb_read_buf n)"
proof (rule keepsI)
  fix s :: "'u istream"
  show "advances s (snd (pb_read_buf n s))"
  proof (cases "source_read (source s) n")
    case (Pair r k)
    then show ?thesis
      using source_read_frame [OF Pair]
      by (cases r) (auto simp: pb_read_buf_def advances_def ierr_def)
  qed
qed

lemma pb_read_skip_keeps: "keeps advances (pb_read_skip n)"
proof (induction n rule: less_induct)
  case (less n)
  show ?case
  proof (cases "n > 16")
    case True
    then have "pb_read_skip n = (and_then (pb_read_buf 16) (\<lambda>_. pb_read_skip (n - 16)) :: ('a, byte list) iact)"
      by (intro ext) (simp add: pb_read_skip.simps [of n])
    then show ?thesis
      using less True by (auto intro!: keeps_and_then advances_trans pb_read_buf_keeps)
  next
    case False
    then have "pb_read_skip n = (pb_read_buf n :: ('a, byte list) iact)"
      by (intro ext) (simp add: pb_read_skip.simps [of n])
    then show ?thesis by (simp add: pb_read_buf_keeps)
  qed
qed

lemma pb_read_keeps: "keeps advances (pb_read nul n)"
proof (rule keepsI)
  fix s :: "'u istream"
  have "keeps advances (and_then (if is_buf_read (source s) then pb_read_buf n else pb_read_skip n)
      (\<lambda>_. ret []) :: ('u, byte list) iact)"
    by (auto intro!: keeps_and_then advances_trans pb_read_buf_keeps pb_read_skip_keeps
        keeps_ret advances_refl)
  then show "advances s (snd (pb_read nul n s))"
    using pb_read_buf_keeps [of n] advances_refl
    by (auto simp: pb_read_def keeps_def reflp_def)
qed

lemma pb_readbyte_keeps: "keeps advances pb_readbyte"
proof (rule keepsI)
  fix s :: "'u istream"
  show "advances s (snd (pb_readbyte s))"
  proof (cases "source_read (source s) 1")
    case (Pair r k)
    then show ?thesis
      using source_read_frame [OF Pair]
      by (cases r) (auto simp: pb_readbyte_def advances_def ierr_def)
  qed
qed

lemma pb_readbyte_less: "pb_readbyte s = (Some b, t) \<Longrightarrow> bytes_left t < bytes_left s"
  by (auto simp: pb_readbyte_def split: if_splits prod.splits option.splits)

lemma pb_read_buf_less: "pb_read_buf n s = (Some b, t) \<Longrightarrow> 0 < n \<Longrightarrow> bytes_left t < bytes_left s"
  by (auto simp: pb_read_buf_def split: if_splits prod.splits option.splits)

text \<open>Buffer streams, where the bytes are known.\<close>

lemma pb_readbyte_Buf [simp]:
  "pb_readbyte \<lparr>source = Buf_source (b # m), bytes_left = Suc n, ierrmsg = e\<rparr> =
   (Some b, \<lparr>source = Buf_source m, bytes_left = n, ierrmsg = e\<rparr>)"
  by (simp add: pb_readbyte_def buf_read_def)

lemma pb_read_buf_Buf:
  "length bs = n \<Longrightarrow> n \<le> l \<Longrightarrow>
   pb_read_buf n \<lparr>source = Buf_source (bs @ m), bytes_left = l, ierrmsg = e\<rparr> =
   (Some bs, \<lparr>source = Buf_source m, bytes_left = l - n, ierrmsg = e\<rparr>)"
  by (auto simp: pb_read_buf_def buf_read_def)

lemma pb_read_Buf:
  "length bs = n \<Longrightarrow> n \<le> l \<Longrightarrow>
   pb_read nul n \<lparr>source = Buf_source (bs @ m), bytes_left = l, ierrmsg = e\<rparr> =
   (Some (if nul then [] else bs), \<lparr>source = Buf_source m, bytes_left = l - n, ierrmsg = e\<rparr>)"
  by (auto simp: pb_read_def pb_read_buf_Buf and_then_def)

lemma pb_read_short:
  "bytes_left s < n \<Longrightarrow> is_buf_read (source s) \<Longrightarrow> pb_read nul n s = ierr ''end-of-stream'' s"
  by (auto simp: pb_read_def pb_read_buf_def and_then_def ierr_def)

section \<open>Interface: read callbacks\<close>

text \<open>
  What \<open>pb_decode.h\<close> asks of the callback of a custom stream: it delivers the next \<open>n\<close> bytes
  of whatever it reads from (\<open>pending\<close>). A reliable callback does not fail while it has them.
\<close>

locale read_callback =
  fixes cb :: "'u \<Rightarrow> nat \<Rightarrow> byte list option \<times> 'u"
    and pending :: "'u \<Rightarrow> byte list"
  assumes cb_Some: "n \<le> length (pending u) \<Longrightarrow> cb u n = (Some bs, u') \<Longrightarrow>
      pending u = bs @ pending u' \<and> length bs = n"

locale reliable_callback = read_callback +
  assumes cb_total: "n \<le> length (pending u) \<Longrightarrow> \<exists>bs u'. cb u n = (Some bs, u')"
begin

lemma pb_read_buf_user:
  assumes "n \<le> bytes_left s" "bytes_left s \<le> length (pending u)" "source s = User_source cb u"
  shows "\<exists>u'. pb_read_buf n s =
      (Some (take n (pending u)), s\<lparr>source := User_source cb u', bytes_left := bytes_left s - n\<rparr>) \<and>
    pending u' = drop n (pending u)"
proof (cases "n = 0")
  case True
  then show ?thesis using assms by (intro exI [of _ u]) (simp add: pb_read_buf_def)
next
  case False
  obtain bs u' where cb: "cb u n = (Some bs, u')"
    using assms cb_total [of n u] by auto
  with assms have "pending u = bs @ pending u'" "length bs = n"
    using cb_Some [of n u bs u'] by auto
  with cb assms False show ?thesis by (intro exI [of _ u']) (auto simp: pb_read_buf_def)
qed

text \<open>Skipping in 16-byte pieces ends where one read of the whole length would.\<close>

lemma pb_read_skip_user:
  assumes "n \<le> bytes_left s" "bytes_left s \<le> length (pending u)" "source s = User_source cb u"
  shows "\<exists>r u'. pb_read_skip n s =
      (Some r, s\<lparr>source := User_source cb u', bytes_left := bytes_left s - n\<rparr>) \<and>
    pending u' = drop n (pending u)"
  using assms
proof (induction n arbitrary: s u rule: less_induct)
  case (less n)
  show ?case
  proof (cases "n > 16")
    case True
    obtain u1 where r: "pb_read_buf 16 s = (Some (take 16 (pending u)),
        s\<lparr>source := User_source cb u1, bytes_left := bytes_left s - 16\<rparr>)"
      and p: "pending u1 = drop 16 (pending u)"
      using pb_read_buf_user [of 16 s u] True less.prems by auto
    let ?t = "s\<lparr>source := User_source cb u1, bytes_left := bytes_left s - 16\<rparr>"
    have "\<exists>q u2. pb_read_skip (n - 16) ?t =
        (Some q, ?t\<lparr>source := User_source cb u2, bytes_left := bytes_left ?t - (n - 16)\<rparr>) \<and>
      pending u2 = drop (n - 16) (pending u1)"
      by (rule less.IH) (use True less.prems p in auto)
    then obtain q u2 where "pb_read_skip (n - 16) ?t =
        (Some q, ?t\<lparr>source := User_source cb u2, bytes_left := bytes_left ?t - (n - 16)\<rparr>)"
      and "pending u2 = drop (n - 16) (pending u1)" by blast
    with True r p show ?thesis by (auto simp: pb_read_skip.simps [of n])
  next
    case False
    then show ?thesis
      using pb_read_buf_user [of n s u] less.prems by (auto simp: pb_read_skip.simps [of n])
  qed
qed

end

interpretation buf: reliable_callback buf_read "\<lambda>m. m"
  by unfold_locales (auto simp: buf_read_def)

section \<open>Writing: only the window of the stream is touched\<close>

definition wf_ostream :: "'u ostream \<Rightarrow> bool" where
  "wf_ostream s \<longleftrightarrow> (\<not> is_sizing (sink s) \<longrightarrow> bytes_written s \<le> max_size s \<and> max_size s < 2 ^ 64) \<and>
     (\<forall>mem pos. sink s = Buf_sink mem pos \<longrightarrow> pos + (max_size s - bytes_written s) \<le> length mem)"

text \<open>
  \<open>extends s t\<close>: from a well-formed stream, \<open>t\<close> is well-formed with the same limit, and on a
  buffer what happened is exactly the writing of some bytes at the old position, as many as
  the counter grew.
\<close>

definition extends :: "'u ostream \<Rightarrow> 'u ostream \<Rightarrow> bool" where
  "extends s t \<longleftrightarrow> (wf_ostream s \<longrightarrow> wf_ostream t \<and> max_size t = max_size s \<and>
     is_sizing (sink t) = is_sizing (sink s) \<and> is_buf (sink t) = is_buf (sink s) \<and>
     (\<not> is_sizing (sink s) \<longrightarrow> bytes_written s \<le> bytes_written t) \<and>
     (\<forall>mem pos. sink s = Buf_sink mem pos \<longrightarrow>
        (\<exists>bs. sink t = Buf_sink (buf_write mem pos bs) (pos + length bs) \<and>
              bytes_written t = bytes_written s + length bs)))"

lemma length_buf_write [simp]:
  "pos + length bs \<le> length mem \<Longrightarrow> length (buf_write mem pos bs) = length mem"
  by (simp add: buf_write_def)

lemma buf_write_Nil [simp]: "buf_write mem pos [] = mem"
  by (simp add: buf_write_def)

lemma buf_write_append:
  "pos + length a \<le> length mem \<Longrightarrow>
   buf_write (buf_write mem pos a) (pos + length a) b = buf_write mem pos (a @ b)"
  by (simp add: buf_write_def add.commute [of "length b"] add.assoc)

lemma take_buf_write:
  "pos \<le> length mem \<Longrightarrow> take (pos + length bs) (buf_write mem pos bs) = take pos mem @ bs"
  by (simp add: buf_write_def)

lemma extends_refl: "reflp extends"
  by (auto simp: reflp_def extends_def)

lemma extends_trans: "transp extends"
proof (rule transpI)
  fix s t u :: "'u ostream"
  assume st: "extends s t" and tu: "extends t u"
  show "extends s u"
  proof (cases "sink s")
    case (Buf_sink mem pos)
    {
      assume wf: "wf_ostream s"
      then obtain a where a: "sink t = Buf_sink (buf_write mem pos a) (pos + length a)"
          "bytes_written t = bytes_written s + length a" "wf_ostream t" "max_size t = max_size s"
        using st Buf_sink by (auto simp: extends_def)
      moreover obtain b where b: "sink u = Buf_sink (buf_write (buf_write mem pos a) (pos + length a) b)
            (pos + length a + length b)"
          "bytes_written u = bytes_written t + length b"
        using tu a by (auto simp: extends_def)
      moreover have "pos + length a \<le> length mem"
        using wf a(2,3,4) Buf_sink by (auto simp: wf_ostream_def a(1))
      ultimately have "sink u = Buf_sink (buf_write mem pos (a @ b)) (pos + length (a @ b)) \<and>
          bytes_written u = bytes_written s + length (a @ b)"
        by (simp add: buf_write_append)
      then have "\<exists>bs. sink u = Buf_sink (buf_write mem pos bs) (pos + length bs) \<and>
          bytes_written u = bytes_written s + length bs" by blast
    }
    with st tu Buf_sink show ?thesis by (auto simp: extends_def)
  next
    case Sizing
    with st tu show ?thesis by (auto simp: extends_def)
  next
    case User_sink
    with st tu show ?thesis by (auto simp: extends_def)
  qed
qed

lemma oerr_None [simp]: "oerr msg s \<noteq> (Some x, t)"
  by (simp add: oerr_def)

lemma oerr_extends [simp]: "extends s (snd (oerr msg s))"
  by (auto simp: oerr_def extends_def wf_ostream_def intro: exI [of _ "[]"])

lemma oerr_keeps: "keeps extends (oerr msg)"
  by (rule keepsI) simp

lemma pb_write_sizing [simp]:
  "is_sizing (sink s) \<Longrightarrow> pb_write buf n s = (Some (), s\<lparr>bytes_written := size_add (bytes_written s) n\<rparr>)"
  by (simp add: pb_write_def)

lemma pb_write_0: "wf_ostream s \<Longrightarrow> \<not> is_sizing (sink s) \<Longrightarrow> pb_write buf 0 s = (Some (), s)"
  by (simp add: pb_write_def wf_ostream_def size_simps)

lemma pb_write_Buf:
  assumes "wf_ostream s" "sink s = Buf_sink mem pos" "bytes_written s + length bs \<le> max_size s"
  shows "pb_write bs (length bs) s = (Some (),
     s\<lparr>sink := Buf_sink (buf_write mem pos bs) (pos + length bs),
       bytes_written := bytes_written s + length bs\<rparr>)"
proof (cases "bs = []")
  case True
  with assms show ?thesis by (simp add: pb_write_0)
next
  case False
  from assms have "bytes_written s + length bs < 2 ^ 64" by (auto simp: wf_ostream_def)
  with False assms show ?thesis by (simp add: pb_write_def size_simps)
qed

lemma pb_write_full:
  assumes "wf_ostream s" "\<not> is_sizing (sink s)" "max_size s < bytes_written s + n" "n < 2 ^ 64"
  shows "pb_write buf n s = oerr ''stream full'' s"
proof -
  have "bytes_written s < 2 ^ 64" using assms by (auto simp: wf_ostream_def)
  then have "size_add (bytes_written s) n < bytes_written s \<or> max_size s < size_add (bytes_written s) n"
    using assms size_add_wraps_iff [of "bytes_written s" n]
    by (cases "bytes_written s + n < 2 ^ 64") (auto simp: size_simps)
  with assms show ?thesis by (auto simp: pb_write_def wf_ostream_def)
qed

text \<open>A write whose count is the length of its data, as every caller of the library passes.\<close>

lemma pb_write_extends:
  assumes "length bs < 2 ^ 64"
  shows "extends s (snd (pb_write bs (length bs) s))"
proof (cases "wf_ostream s")
  case False
  then show ?thesis by (simp add: extends_def)
next
  case wf: True
  show ?thesis
  proof (cases "sink s")
    case Sizing
    with wf show ?thesis by (simp add: extends_def wf_ostream_def)
  next
    case (Buf_sink mem pos)
    show ?thesis
    proof (cases "bytes_written s + length bs \<le> max_size s")
      case True
      with wf Buf_sink show ?thesis
        by (auto simp: pb_write_Buf extends_def wf_ostream_def)
    next
      case False
      with wf Buf_sink assms show ?thesis
        by (simp add: pb_write_full)
    qed
  next
    case (User_sink cb u)
    show ?thesis
    proof (cases "bytes_written s + length bs \<le> max_size s")
      case True
      then have "bytes_written s + length bs < 2 ^ 64" using wf User_sink by (auto simp: wf_ostream_def)
      with True wf User_sink show ?thesis
        by (auto simp: pb_write_def extends_def wf_ostream_def size_simps oerr_def split: prod.splits bool.splits)
    next
      case False
      with wf User_sink assms show ?thesis
        by (simp add: pb_write_full)
    qed
  qed
qed

lemma pb_write_keeps: "length bs < 2 ^ 64 \<Longrightarrow> n = length bs \<Longrightarrow> keeps extends (pb_write bs n)"
  by (auto intro!: keepsI pb_write_extends)

end
