(* ===== verification/PbVarint.thy ===== *)
theory PbVarint
  imports PbStream
begin

text \<open>
  The scalar wire formats of nanopb: base-128 varints (plain, zig-zag and the 32-bit reader used
  for tags and lengths) and little-endian fixed-width integers, from \<open>pb_encode.c\<close> and
  \<open>pb_decode.c\<close>. Each pair of routines is shown to be a \<open>codec\<close>.
\<close>

section \<open>Encoding\<close>

text \<open>The loop of \<open>pb_encode_varint\<close>: what it leaves in \<open>buffer[0 .. i)\<close>.\<close>

function varint_loop :: "u64 \<Rightarrow> byte list" where
  "varint_loop v =
     (if v = 0 then [] else ucast ((v AND 0x7F) OR 0x80) # varint_loop (drop_bit 7 v))"
  by pat_completeness auto
termination
  by (relation "measure unat") (auto simp: drop_bit_less simp del: word_neq_0_conv)

declare varint_loop.simps [simp del]

text \<open>The bytes \<open>pb_encode_varint\<close> hands to \<open>pb_write\<close>.\<close>

definition varint_bytes :: "u64 \<Rightarrow> byte list" where
  "varint_bytes v =
     (if v \<le> 0x7F then [ucast v]
      else let b = varint_loop v in b[length b - 1 := (b ! (length b - 1)) AND 0x7F])"

definition pb_encode_varint :: "u64 \<Rightarrow> ('u, unit) oact" where
  "pb_encode_varint v = pb_write (varint_bytes v) (length (varint_bytes v))"

text \<open>\<open>int64_t\<close> is the 64-bit word read with \<open>sint\<close>.\<close>

definition zigzag :: "u64 \<Rightarrow> u64" where
  "zigzag v = (if sint v < 0 then NOT (push_bit 1 v) else push_bit 1 v)"

definition pb_encode_svarint :: "u64 \<Rightarrow> ('u, unit) oact" where
  "pb_encode_svarint v = pb_encode_varint (zigzag v)"

definition fixed32_bytes :: "u32 \<Rightarrow> byte list" where
  "fixed32_bytes val =
     [ucast (val AND 0xFF), ucast (drop_bit 8 val AND 0xFF),
      ucast (drop_bit 16 val AND 0xFF), ucast (drop_bit 24 val AND 0xFF)]"

definition pb_encode_fixed32 :: "u32 \<Rightarrow> ('u, unit) oact" where
  "pb_encode_fixed32 val = pb_write (fixed32_bytes val) 4"

definition fixed64_bytes :: "u64 \<Rightarrow> byte list" where
  "fixed64_bytes val =
     [ucast (val AND 0xFF), ucast (drop_bit 8 val AND 0xFF),
      ucast (drop_bit 16 val AND 0xFF), ucast (drop_bit 24 val AND 0xFF),
      ucast (drop_bit 32 val AND 0xFF), ucast (drop_bit 40 val AND 0xFF),
      ucast (drop_bit 48 val AND 0xFF), ucast (drop_bit 56 val AND 0xFF)]"

definition pb_encode_fixed64 :: "u64 \<Rightarrow> ('u, unit) oact" where
  "pb_encode_fixed64 val = pb_write (fixed64_bytes val) 8"

section \<open>Decoding\<close>

text \<open>
  The loop of \<open>pb_decode_varint\<close>. \<open>uint_fast8_t\<close> is 8 bits wide on the targets, so \<open>bitpos\<close>
  is an 8-bit word. Every round consumes a byte, which is why it ends.
\<close>

function (sequential) decode_varint_loop :: "8 word \<Rightarrow> u64 \<Rightarrow> ('u, u64) iact" where
  "decode_varint_loop bitpos result s =
     (if 64 \<le> bitpos then ierr ''varint overflow'' s
      else and_then pb_readbyte (\<lambda>b t.
        let result' = result OR push_bit (unat bitpos) (ucast (b AND 0x7F))
        in if b AND 0x80 \<noteq> 0 then decode_varint_loop (bitpos + 7) result' t else (Some result', t)) s)"
  by pat_completeness auto
termination
  by (relation "measure (\<lambda>(_, _, s). bytes_left s)") (auto dest: pb_readbyte_less)

declare decode_varint_loop.simps [simp del]

definition pb_decode_varint :: "('u, u64) iact" where
  "pb_decode_varint = decode_varint_loop 0 0"

text \<open>
  The multibyte loop of \<open>pb_decode_varint32_eof\<close>. Nothing in it bounds \<open>bitpos\<close>, which wraps
  around at 256.
\<close>

function (sequential) decode_varint32_loop :: "8 word \<Rightarrow> u32 \<Rightarrow> ('u, u32) iact" where
  "decode_varint32_loop bitpos result s =
     and_then pb_readbyte (\<lambda>b t.
       let sign_extension = (if bitpos < 63 then 0xFF else 0x01);
           result' = (if 32 \<le> bitpos then result
                      else result OR push_bit (unat bitpos) (ucast (b AND 0x7F)));
           bitpos' = bitpos + 7
       in if 32 \<le> bitpos \<and> b AND 0x7F \<noteq> 0 \<and> (drop_bit 31 result = 0 \<or> b \<noteq> sign_extension)
          then ierr ''varint overflow'' t
          else if b AND 0x80 \<noteq> 0 then decode_varint32_loop bitpos' result' t
          else if bitpos' = 35 \<and> b AND 0x70 \<noteq> 0 then ierr ''varint overflow'' t
          else (Some result', t)) s"
  by pat_completeness auto
termination
  by (relation "measure (\<lambda>(_, _, s). bytes_left s)") (auto dest: pb_readbyte_less)

declare decode_varint32_loop.simps [simp del]

definition decode_varint32_rest :: "byte \<Rightarrow> ('u, u32) iact" where
  "decode_varint32_rest b =
     (if b AND 0x80 = 0 then ret (ucast b) else decode_varint32_loop 7 (ucast (b AND 0x7F)))"

text \<open>The third component tells whether \<open>*eof\<close> was set to true.\<close>

definition pb_decode_varint32_eof :: "'u istream \<Rightarrow> u32 option \<times> 'u istream \<times> bool" where
  "pb_decode_varint32_eof s =
     (case pb_readbyte s of
        (None, t) \<Rightarrow> (None, t, bytes_left t = 0)
      | (Some b, t) \<Rightarrow> (case decode_varint32_rest b t of (r, t') \<Rightarrow> (r, t', False)))"

definition pb_decode_varint32 :: "('u, u32) iact" where
  "pb_decode_varint32 s = (case pb_decode_varint32_eof s of (r, t, _) \<Rightarrow> (r, t))"

definition unzigzag :: "u64 \<Rightarrow> u64" where
  "unzigzag v = (if v AND 1 \<noteq> 0 then NOT (drop_bit 1 v) else drop_bit 1 v)"

definition pb_decode_svarint :: "('u, u64) iact" where
  "pb_decode_svarint = and_then pb_decode_varint (\<lambda>v. ret (unzigzag v))"

definition le32 :: "byte list \<Rightarrow> u32" where
  "le32 b = push_bit 0 (ucast (b ! 0)) OR push_bit 8 (ucast (b ! 1)) OR
            push_bit 16 (ucast (b ! 2)) OR push_bit 24 (ucast (b ! 3))"

definition pb_decode_fixed32 :: "('u, u32) iact" where
  "pb_decode_fixed32 = and_then (pb_read False 4) (\<lambda>b. ret (le32 b))"

definition le64 :: "byte list \<Rightarrow> u64" where
  "le64 b = push_bit 0 (ucast (b ! 0)) OR push_bit 8 (ucast (b ! 1)) OR
            push_bit 16 (ucast (b ! 2)) OR push_bit 24 (ucast (b ! 3)) OR
            push_bit 32 (ucast (b ! 4)) OR push_bit 40 (ucast (b ! 5)) OR
            push_bit 48 (ucast (b ! 6)) OR push_bit 56 (ucast (b ! 7))"

definition pb_decode_fixed64 :: "('u, u64) iact" where
  "pb_decode_fixed64 = and_then (pb_read False 8) (\<lambda>b. ret (le64 b))"

section \<open>The shape of a varint\<close>

text \<open>A word of at most seven bits survives as a byte, with the continuation bit clear.\<close>

lemma septet:
  assumes "drop_bit 7 w = (0 :: u64)"
  shows "(ucast (ucast w :: byte) :: u64) = w" "(ucast w :: byte) AND 0x80 = 0"
    "(ucast w :: byte) AND 0x7F = ucast w" "(ucast (w OR 0x80) :: byte) AND 0x7F = ucast w"
    "w AND 0x7F = w"
  using drop_bit_0_bits [OF assms]
  by (auto intro!: bit_word_eqI simp: bit_simps const_bits) fastforce+

lemma le_7F_iff: "v \<le> (0x7F :: u64) \<longleftrightarrow> drop_bit 7 v = 0"
proof -
  have "drop_bit 7 v = 0 \<longleftrightarrow> unat (drop_bit 7 v) = 0"
    by (simp add: unat_eq_0)
  also have "\<dots> \<longleftrightarrow> unat v div 128 = 0"
    by (subst unat_drop_bit_eq) (simp add: drop_bit_eq_div)
  also have "\<dots> \<longleftrightarrow> v \<le> 0x7F" by (simp add: word_le_nat_alt) arith
  finally show ?thesis ..
qed

lemma varint_loop_ne: "v \<noteq> 0 \<Longrightarrow> varint_loop v \<noteq> []"
  by (subst varint_loop.simps) simp

lemma group_and_7F [simp]: "(ucast ((v AND 0x7F) OR 0x80) :: byte) AND 0x7F = ucast (v AND (0x7F :: u64))"
  by (rule bit_word_eqI) (auto simp: bit_simps const_bits)

lemma group_and_80 [simp]: "(ucast ((v AND 0x7F) OR 0x80) :: byte) AND 0x80 = 0x80" for v :: u64
  by (rule bit_word_eqI) (auto simp: bit_simps const_bits)

lemma ucast_7F_group: "(ucast (ucast (v AND (0x7F :: u64)) :: byte) :: u64) = take_bit 7 v"
  by (simp add: and_mask_take_bit_7 ucast_mask_group)

lemma varint_bytes_small: "drop_bit 7 v = 0 \<Longrightarrow> varint_bytes v = [ucast v]"
  by (simp add: varint_bytes_def le_7F_iff)

lemma varint_bytes_step:
  assumes "drop_bit 7 v \<noteq> 0"
  shows "varint_bytes v = ucast ((v AND 0x7F) OR 0x80) # varint_bytes (drop_bit 7 v)"
proof -
  let ?w = "drop_bit 7 v"
  let ?clr = "\<lambda>b :: byte list. b[length b - 1 := (b ! (length b - 1)) AND 0x7F]"
  have v0: "v \<noteq> 0" using assms by auto
  have clr_Cons: "?clr (x # xs) = x # ?clr xs" if "xs \<noteq> []" for x xs
    using that by (cases "length xs") auto
  have w: "?clr (varint_loop ?w) = varint_bytes ?w"
  proof (cases "drop_bit 7 ?w = 0")
    case False
    then show ?thesis by (simp add: varint_bytes_def le_7F_iff Let_def)
  next
    case True
    then have "varint_loop ?w = [ucast ((?w AND 0x7F) OR 0x80)]"
      using assms varint_loop.simps [of ?w] varint_loop.simps [of "drop_bit 7 ?w"] by simp
    then show ?thesis
      using True by (simp add: varint_bytes_small septet)
  qed
  have "varint_bytes v = ?clr (varint_loop v)"
    using assms by (simp add: varint_bytes_def le_7F_iff Let_def)
  also have "varint_loop v = ucast ((v AND 0x7F) OR 0x80) # varint_loop ?w"
    using v0 by (subst varint_loop.simps) simp
  also have "?clr \<dots> = ucast ((v AND 0x7F) OR 0x80) # ?clr (varint_loop ?w)"
    using varint_loop_ne [OF assms] by (rule clr_Cons)
  finally show ?thesis by (simp only: w)
qed

lemma byte_70: "drop_bit 4 w = 0 \<Longrightarrow> (ucast (w :: u64) :: byte) AND 0x70 = 0"
  by (intro bit_word_eqI) (auto simp: bit_simps const_bits dest: drop_bit_0_bits)

text \<open>Ten bytes are enough: \<open>buffer[10]\<close> is never overrun.\<close>

lemma varint_bytes_length_aux:
  "drop_bit (7 * Suc k) v = 0 \<Longrightarrow> length (varint_bytes v) \<le> Suc k \<and> varint_bytes v \<noteq> []"
proof (induction k arbitrary: v)
  case 0
  then show ?case by (simp add: varint_bytes_small)
next
  case (Suc k)
  show ?case
  proof (cases "drop_bit 7 v = 0")
    case True
    then show ?thesis by (simp add: varint_bytes_small)
  next
    case False
    have "drop_bit (7 * Suc k) (drop_bit 7 v) = 0" using Suc.prems by simp
    from Suc.IH [OF this] False show ?thesis by (simp add: varint_bytes_step)
  qed
qed

lemma varint_bytes_length: "length (varint_bytes v) \<le> 10" "varint_bytes v \<noteq> []"
  using varint_bytes_length_aux [of 9 v] by auto

section \<open>Reading back\<close>

abbreviation buf_istream :: "byte list \<Rightarrow> nat \<Rightarrow> string option \<Rightarrow> 'u istream" where
  "buf_istream m l e \<equiv> \<lparr>source = Buf_source m, bytes_left = l, ierrmsg = e\<rparr>"

lemma decode_varint_loop_bytes:
  assumes "n \<le> 63"
  shows "decode_varint_loop (of_nat n) (take_bit n v)
      (buf_istream (varint_bytes (drop_bit n v) @ m) (length (varint_bytes (drop_bit n v)) + l) e) =
    (Some v, buf_istream m l e)"
  using assms
proof (induction "63 - n" arbitrary: n rule: less_induct)
  case less
  let ?w = "drop_bit n v"
  have n: "unat (of_nat n :: 8 word) = n" using less.prems by (simp add: unat_of_nat)
  have le: "\<not> 64 \<le> (of_nat n :: 8 word)"
    using less.prems n by (simp add: word_le_nat_alt)
  have grp: "take_bit n v OR push_bit n (take_bit 7 ?w) = take_bit (n + 7) v"
    by (rule take_bit_extend)
  show ?case
  proof (cases "drop_bit 7 ?w = 0")
    case True
    have "take_bit (n + 7) v = v"
      using True by (intro drop_bit_0_take) (simp add: add.commute)
    moreover note septet [OF True]
    ultimately show ?thesis
      using True le n grp
      by (subst decode_varint_loop.simps) (simp add: varint_bytes_small and_then_def drop_bit_0_take)
  next
    case False
    have n63: "n + 7 \<le> 63"
    proof (rule ccontr)
      assume "\<not> n + 7 \<le> 63"
      then have "drop_bit 7 ?w = 0" by (intro bit_word_eqI) (auto simp: bit_simps)
      with False show False by simp
    qed
    have "63 - (n + 7) < 63 - n" using n63 by simp
    note IH = less.hyps [OF this n63]
    have d: "drop_bit 7 ?w = drop_bit (n + 7) v" by (simp add: add.commute)
    show ?thesis
      using False le n IH n63
      by (subst decode_varint_loop.simps)
        (simp add: varint_bytes_step and_then_def ucast_7F_group grp Let_def d del: drop_bit_drop_bit)
  qed
qed

lemma pb_decode_varint_bytes:
  "pb_decode_varint (buf_istream (varint_bytes v @ m) (length (varint_bytes v) + l) e) =
   (Some v, buf_istream m l e)"
  using decode_varint_loop_bytes [of 0 v m l e] by (simp add: pb_decode_varint_def)

section \<open>Codecs\<close>

text \<open>A decoder run on a memory buffer, as a function on the bytes.\<close>

definition run_buf :: "(unit, 'a) iact \<Rightarrow> byte list \<Rightarrow> ('a \<times> byte list) option" where
  "run_buf m bs =
     (case m (buf_istream bs (length bs) None) of
        (Some x, t) \<Rightarrow> (case source t of Buf_source r \<Rightarrow> Some (x, r) | User_source _ _ \<Rightarrow> None)
      | (None, t) \<Rightarrow> None)"

lemma zigzag_inverse: "unzigzag (zigzag v) = v"
proof (cases "sint v < 0")
  case True
  then have msb: "bit v 63"
    using bit_last_iff [of v] by simp
  have "NOT (push_bit 1 v) AND 1 \<noteq> 0"
  proof
    assume "NOT (push_bit 1 v) AND 1 = 0"
    then have "bit (NOT (push_bit 1 v) AND 1) 0 = bit (0 :: u64) 0" by (rule arg_cong)
    then show False by (simp add: bit_simps bit_0 even_and_iff)
  qed
  then have "unzigzag (zigzag v) = NOT (drop_bit 1 (NOT (push_bit 1 v)))"
    using True by (simp add: unzigzag_def zigzag_def)
  also have "\<dots> = v"
  proof (rule bit_word_eqI)
    fix i assume "i < LENGTH(64)"
    then show "bit (NOT (drop_bit 1 (NOT (push_bit 1 v)))) i = bit v i"
      using msb by (cases "i = 63") (auto simp: bit_simps mult.commute [of v 2] bit_double_iff)
  qed
  finally show ?thesis .
next
  case False
  then have msb: "\<not> bit v 63"
    using bit_last_iff [of v] by simp
  have "push_bit 1 v AND 1 = (0 :: u64)"
    by (rule bit_word_eqI) (auto simp: bit_simps mult.commute [of v 2] bit_double_iff)
  moreover have "drop_bit 1 (push_bit 1 v) = v"
  proof (rule bit_word_eqI)
    fix i assume "i < LENGTH(64)"
    then show "bit (drop_bit 1 (push_bit 1 v)) i = bit v i"
      using msb by (cases "i = 63") (auto simp: bit_simps mult.commute [of v 2] bit_double_iff)
  qed
  ultimately show ?thesis using False by (simp add: unzigzag_def zigzag_def)
qed

lemma le32_fixed32: "le32 (fixed32_bytes v @ m) = v"
  using take_bit_extend [of 8 v 8] take_bit_extend [of 16 v 8] take_bit_extend [of 24 v 8]
  by (simp add: le32_def fixed32_bytes_def and_mask_take_bit_8 ucast_mask_group word_take_bit_full
      flip: or.assoc)

lemma le64_fixed64: "le64 (fixed64_bytes v @ m) = v"
  using take_bit_extend [of 8 v 8] take_bit_extend [of 16 v 8] take_bit_extend [of 24 v 8]
    take_bit_extend [of 32 v 8] take_bit_extend [of 40 v 8] take_bit_extend [of 48 v 8]
    take_bit_extend [of 56 v 8]
  by (simp add: le64_def fixed64_bytes_def and_mask_take_bit_8 ucast_mask_group word_take_bit_full
      flip: or.assoc)

lemma length_fixed [simp]: "length (fixed32_bytes w) = 4" "length (fixed64_bytes v) = 8"
  by (simp_all add: fixed32_bytes_def fixed64_bytes_def)

section \<open>The 32-bit reader\<close>

lemma group32: "(ucast (ucast (drop_bit n (ucast v :: u64) AND 0x7F) :: byte) :: u32) = take_bit 7 (drop_bit n v)"
  for v :: u32
  by (rule bit_word_eqI) (auto simp: bit_simps and_mask_take_bit_7 dest: bit_imp_le_length)

lemma unat_bitpos: "n < 256 \<Longrightarrow> unat (of_nat n :: 8 word) = n"
  by (simp add: unat_of_nat)

lemma bitpos_le [simp]: "n < 256 \<Longrightarrow> (32 \<le> (of_nat n :: 8 word)) = (32 \<le> n)"
  by (simp add: word_le_nat_alt unat_bitpos)

lemma bitpos_35 [simp]: "n < 249 \<Longrightarrow> ((of_nat n + 7 :: 8 word) = 35) = (n = 28)"
proof -
  assume "n < 249"
  then have "unat (of_nat n + 7 :: 8 word) = n + 7"
    using unat_bitpos [of "n + 7"] by simp
  then show ?thesis by (auto simp: word_unat_eq_iff)
qed

lemma decode_varint32_loop_bytes:
  assumes "7 dvd n" "n \<le> 28"
  shows "decode_varint32_loop (of_nat n) (take_bit n v)
      (buf_istream (varint_bytes (drop_bit n (ucast v)) @ m)
         (length (varint_bytes (drop_bit n (ucast v))) + l) e) =
    (Some v, buf_istream m l e)"
  using assms
proof (induction "35 - n" arbitrary: n rule: less_induct)
  case less
  let ?w = "drop_bit n (ucast v :: u64)"
  have n: "unat (of_nat n :: 8 word) = n" and n32: "\<not> 32 \<le> n" and n256: "n < 249"
    using less.prems by (auto simp: unat_bitpos)
  have grp: "take_bit n v OR push_bit n (take_bit 7 (drop_bit n v)) = take_bit (n + 7) v"
    by (rule take_bit_extend)
  show ?case
  proof (cases "drop_bit 7 ?w = 0")
    case True
    have v: "take_bit (n + 7) v = v"
    proof (rule drop_bit_0_take, rule bit_word_eqI)
      fix i assume "i < LENGTH(32)"
      have "bit (drop_bit 7 ?w) i = bit (0 :: u64) i" by (simp only: True)
      with \<open>i < LENGTH(32)\<close> show "bit (drop_bit (n + 7) v) i = bit 0 i"
        by (auto simp: bit_simps add.commute [of n 7] add.assoc dest: bit_imp_le_length)
    qed
    have "n = 28 \<Longrightarrow> (ucast ?w :: byte) AND 0x70 = 0"
    proof (rule byte_70)
      assume "n = 28"
      then show "drop_bit 4 ?w = 0"
        by (intro bit_word_eqI) (auto simp: bit_simps dest: bit_imp_le_length)
    qed
    moreover have "(ucast (ucast ?w :: byte) :: u32) = take_bit 7 (drop_bit n v)"
      using group32 [of n v] septet [OF True] by simp
    ultimately show ?thesis
      using True n n32 n256 grp v septet [OF True]
      by (subst decode_varint32_loop.simps) (auto simp: varint_bytes_small and_then_def)
  next
    case False
    have n28: "n + 7 \<le> 28"
    proof (rule ccontr)
      assume "\<not> n + 7 \<le> 28"
      with less.prems have "n = 28" by (auto elim!: dvdE)
      then have "drop_bit 7 ?w = 0"
        by (intro bit_word_eqI) (auto simp: bit_simps dest: bit_imp_le_length)
      with False show False by simp
    qed
    moreover have "35 - (n + 7) < 35 - n" "7 dvd n + 7" using n28 less.prems by auto
    ultimately have IH: "decode_varint32_loop (of_nat (n + 7)) (take_bit (n + 7) v)
      (buf_istream (varint_bytes (drop_bit (n + 7) (ucast v)) @ m)
         (length (varint_bytes (drop_bit (n + 7) (ucast v))) + l) e) =
      (Some v, buf_istream m l e :: 'a istream)"
      by (intro less.hyps)
    have d: "drop_bit 7 ?w = drop_bit (n + 7) (ucast v)" by (simp add: add.commute)
    show ?thesis
      using False n n32 n256 IH n28
      by (subst decode_varint32_loop.simps)
        (simp add: varint_bytes_step and_then_def group32 grp Let_def d del: drop_bit_drop_bit)
  qed
qed

lemma varint_first_byte:
  "\<exists>b r. varint_bytes v = b # r \<and> ((b AND 0x80 = 0) = (drop_bit 7 v = 0)) \<and>
     b AND 0x7F = ucast (v AND 0x7F) \<and> (drop_bit 7 v = 0 \<longrightarrow> r = [] \<and> b = ucast v) \<and>
     (drop_bit 7 v \<noteq> 0 \<longrightarrow> r = varint_bytes (drop_bit 7 v))"
  by (cases "drop_bit 7 v = 0") (simp_all add: varint_bytes_small varint_bytes_step septet)

lemma pb_decode_varint32_bytes:
  "pb_decode_varint32 (buf_istream (varint_bytes (ucast (v :: u32)) @ m)
      (length (varint_bytes (ucast v)) + l) e) = (Some v, buf_istream m l e)"
proof -
  let ?w = "ucast v :: u64"
  show ?thesis
  proof (cases "drop_bit 7 ?w = 0")
    case True
    have "(ucast (ucast ?w :: byte) :: u32) = v"
    proof -
      have "i < 8" if "bit v i" for i
      proof -
        from that have "bit ?w i" by (auto simp: bit_simps dest: bit_imp_le_length)
        with True have "i < 7" by (rule drop_bit_0_bits)
        then show ?thesis by simp
      qed
      then show ?thesis by (intro bit_word_eqI) (auto simp: bit_simps dest: bit_imp_le_length)
    qed
    with True show ?thesis
      by (simp add: varint_bytes_small pb_decode_varint32_def pb_decode_varint32_eof_def
          decode_varint32_rest_def septet)
  next
    case False
    have g: "(ucast (ucast (?w AND 0x7F) :: byte) :: u32) = take_bit 7 v"
      using group32 [of 0 v] by simp
    have d: "drop_bit 7 ?w = drop_bit 7 (ucast v)" by simp
    show ?thesis
      using False
      by (simp add: varint_bytes_step pb_decode_varint32_def pb_decode_varint32_eof_def
          decode_varint32_rest_def g decode_varint32_loop_bytes [of 7 v m l e, simplified])
  qed
qed

text \<open>Past bit 32, a group with a one in it is refused when bit 31 of the result is clear.\<close>

lemma decode_varint32_loop_tail:
  assumes "35 \<le> n" "n \<le> 63" "drop_bit 31 r = 0" "w \<noteq> 0" "drop_bit (64 - n) w = 0"
  shows "\<exists>t. decode_varint32_loop (of_nat n) r
      (buf_istream (varint_bytes w @ m) (length (varint_bytes w) + l) None) = (None, t) \<and>
      ierrmsg t = Some ''varint overflow''"
  using assms
proof (induction "63 - n" arbitrary: n w rule: less_induct)
  case less
  obtain b bs where v: "varint_bytes w = b # bs" and b80: "(b AND 0x80 = 0) = (drop_bit 7 w = 0)"
    and b7F: "b AND 0x7F = ucast (w AND 0x7F)"
    and small: "drop_bit 7 w = 0 \<longrightarrow> bs = [] \<and> b = ucast w"
    and step: "drop_bit 7 w \<noteq> 0 \<longrightarrow> bs = varint_bytes (drop_bit 7 w)"
    using varint_first_byte [of w] by blast
  have n: "32 \<le> n" "n < 249" using less.prems by auto
  show ?case
  proof (cases "b AND 0x7F = 0")
    case False
    with v n less.prems show ?thesis
      by (subst decode_varint32_loop.simps) (simp add: and_then_def ierr_def)
  next
    case True
    then have w7: "drop_bit 7 w \<noteq> 0"
    proof -
      have "drop_bit 7 w = 0 \<Longrightarrow> w = 0"
        using True b7F septet [of w] by (metis unsigned_0)
      with less.prems show ?thesis by blast
    qed
    have n56: "n + 7 \<le> 63"
    proof (rule ccontr)
      assume "\<not> n + 7 \<le> 63"
      then have "drop_bit 7 w = 0"
        using less.prems(2,5) by (intro bit_word_eqI) (auto simp: bit_simps dest!: drop_bit_0_bits)
      with w7 show False by simp
    qed
    have "63 - (n + 7) < 63 - n" "35 \<le> n + 7" "drop_bit (64 - (n + 7)) (drop_bit 7 w) = 0"
      using n56 less.prems by (auto simp: less_imp_le)
    from less.hyps [OF this(1,2) n56 less.prems(3) w7 this(3)]
    show ?thesis using v n True w7 step b80 less.prems
      by (subst decode_varint32_loop.simps) (simp add: and_then_def)
  qed
qed

lemma decode_varint32_loop_overflow:
  fixes v :: u64
  assumes "7 dvd n" "n \<le> 28" "drop_bit 32 v \<noteq> 0" "\<not> bit v 31"
  shows "\<exists>t. decode_varint32_loop (of_nat n) (ucast (take_bit n v))
      (buf_istream (varint_bytes (drop_bit n v) @ m) (length (varint_bytes (drop_bit n v)) + l) None) =
      (None, t) \<and> ierrmsg t = Some ''varint overflow''"
  using assms
proof (induction "35 - n" arbitrary: n rule: less_induct)
  case less
  let ?w = "drop_bit n v"
  obtain b bs where vb: "varint_bytes ?w = b # bs" and b80: "(b AND 0x80 = 0) = (drop_bit 7 ?w = 0)"
    and b7F: "b AND 0x7F = ucast (?w AND 0x7F)"
    and small: "drop_bit 7 ?w = 0 \<longrightarrow> bs = [] \<and> b = ucast ?w"
    and step: "drop_bit 7 ?w \<noteq> 0 \<longrightarrow> bs = varint_bytes (drop_bit 7 ?w)"
    using varint_first_byte [of ?w] by blast
  have n: "unat (of_nat n :: 8 word) = n" "\<not> 32 \<le> n" "n < 249"
    using less.prems by (auto simp: unat_bitpos)
  have d: "drop_bit 7 ?w = drop_bit (n + 7) v" by (simp add: add.commute)
  have r: "ucast (take_bit n v) OR push_bit n (ucast (b AND 0x7F) :: u32) = ucast (take_bit (n + 7) v)"
    unfolding b7F by (rule bit_word_eqI) (auto simp: bit_simps const_bits)
  show ?case
  proof (cases "drop_bit 7 ?w = 0")
    case True
    have n28: "n = 28"
    proof (rule ccontr)
      assume "n \<noteq> 28"
      with less.prems have "n \<le> 21" by (auto elim!: dvdE)
      moreover have "drop_bit (n + 7) v = 0" using True d by simp
      ultimately have "drop_bit 32 v = 0"
        by (intro bit_word_eqI) (auto simp: bit_simps dest!: drop_bit_0_bits)
      with less.prems show False by simp
    qed
    have "b AND 0x70 \<noteq> 0"
    proof
      assume z: "b AND 0x70 = 0"
      have "bit v i \<longrightarrow> i < 32" for i
      proof (cases "i < 35")
        case False
        then show ?thesis using True n28 drop_bit_0_bits [of 35 v i] by auto
      next
        case lt: True
        have "bit (b AND 0x70) (i - 28) = bit (0 :: byte) (i - 28)" by (simp only: z)
        moreover have "b = ucast ?w" using small True by simp
        ultimately show ?thesis using lt n28 by (auto simp: bit_simps const_bits)
      qed
      then have "drop_bit 32 v = 0" by (intro bit_word_eqI) (auto simp: bit_simps)
      with less.prems show False by simp
    qed
    with n28 b80 True vb n show ?thesis
      by (subst decode_varint32_loop.simps) (auto simp: and_then_def ierr_def)
  next
    case False
    then have b80': "b AND 0x80 \<noteq> 0" using b80 by simp
    show ?thesis
    proof (cases "n = 28")
      case True
      have r31: "drop_bit 31 (ucast (take_bit 35 v) :: u32) = 0"
        using less.prems(4) by (intro bit_word_eqI) (auto simp: bit_simps)
      have "drop_bit (64 - 35) (drop_bit 35 v) = 0" by (intro bit_word_eqI) (auto simp: bit_simps)
      then obtain t where "decode_varint32_loop (of_nat 35) (ucast (take_bit 35 v))
          (buf_istream (varint_bytes (drop_bit 35 v) @ m) (length (varint_bytes (drop_bit 35 v)) + l) None)
          = (None, t :: 'a istream)" "ierrmsg t = Some ''varint overflow''"
        using decode_varint32_loop_tail [OF _ _ r31, of 35 "drop_bit 35 v"] False True by auto
      with True vb step False b80' r n show ?thesis
        by (subst decode_varint32_loop.simps) (auto simp: and_then_def)
    next
      case False': False
      then have "35 - (n + 7) < 35 - n" "7 dvd n + 7" "n + 7 \<le> 28"
        using less.prems by (auto elim!: dvdE)
      note IH = less.hyps [OF this less.prems(3,4)]
      from IH show ?thesis using vb step False b80' r n d
        by (subst decode_varint32_loop.simps) (simp add: and_then_def del: drop_bit_drop_bit)
    qed
  qed
qed

lemma pb_decode_varint32_overflow:
  fixes v :: u64
  assumes "2 ^ 32 \<le> unat v" "\<not> bit v 31"
  shows "\<exists>t :: 'u istream.
     pb_decode_varint32 (buf_istream (varint_bytes v @ m) (length (varint_bytes v) + l) None) =
     (None, t) \<and> ierrmsg t = Some ''varint overflow''"
proof -
  have d32: "drop_bit 32 v \<noteq> 0"
  proof
    assume "drop_bit 32 v = 0"
    then have "unat (drop_bit 32 v) = 0" by simp
    then have "drop_bit 32 (unat v) = 0" by (simp only: unat_drop_bit_eq)
    with assms(1) show False by (simp add: drop_bit_eq_div)
  qed
  have d7: "drop_bit 7 v \<noteq> 0"
  proof
    assume z: "drop_bit 7 v = 0"
    have "drop_bit 32 v = drop_bit 25 (drop_bit 7 v)" by simp
    also have "\<dots> = 0" by (simp only: z) simp
    finally show False using d32 by simp
  qed
  have "(ucast (ucast (v AND 0x7F) :: byte) :: u32) = ucast (take_bit 7 v)"
    by (rule bit_word_eqI) (auto simp: bit_simps and_mask_take_bit_7)
  moreover obtain t :: "'u istream" where
    "decode_varint32_loop (of_nat 7) (ucast (take_bit 7 v))
      (buf_istream (varint_bytes (drop_bit 7 v) @ m) (length (varint_bytes (drop_bit 7 v)) + l) None) =
      (None, t)" "ierrmsg t = Some ''varint overflow''"
    using decode_varint32_loop_overflow [of 7 v m l] assms(2) d32 by auto
  ultimately show ?thesis
    using d7 by (auto simp: varint_bytes_step pb_decode_varint32_def pb_decode_varint32_eof_def
        decode_varint32_rest_def)
qed

section \<open>Every decoder advances\<close>

lemma decode_varint_loop_keeps: "keeps advances (decode_varint_loop p r)"
proof (rule keepsI)
  fix s :: "'u istream"
  show "advances s (snd (decode_varint_loop p r s))"
  proof (induction p r s rule: decode_varint_loop.induct)
    case (1 p r s)
    show ?case
    proof (cases "64 \<le> p \<or> fst (pb_readbyte s) = None")
      case True
      then show ?thesis
        using pb_readbyte_keeps [unfolded keeps_def, rule_format, of s]
        by (subst decode_varint_loop.simps) (auto simp: and_then_def split: prod.splits option.splits)
    next
      case False
      then obtain b t where b: "pb_readbyte s = (Some b, t)" by (cases "pb_readbyte s") auto
      then have st: "advances s t" by (rule keepsD [OF pb_readbyte_keeps])
      show ?thesis
      proof (cases "b AND 0x80 \<noteq> 0")
        case True
        then have "advances t (snd (decode_varint_loop (p + 7)
            (r OR push_bit (unat p) (ucast (b AND 0x7F))) t))"
          using "1" False b by auto
        with st have "advances s (snd (decode_varint_loop (p + 7)
            (r OR push_bit (unat p) (ucast (b AND 0x7F))) t))"
          using advances_trans by (blast dest: transpD)
        with True False b show ?thesis by (subst decode_varint_loop.simps) simp
      next
        case nc: False
        with False b st show ?thesis by (subst decode_varint_loop.simps) simp
      qed
    qed
  qed
qed

lemma decode_varint32_loop_keeps: "keeps advances (decode_varint32_loop p r)"
proof (rule keepsI)
  fix s :: "'u istream"
  show "advances s (snd (decode_varint32_loop p r s))"
  proof (induction p r s rule: decode_varint32_loop.induct)
    case (1 p r s)
    show ?case
    proof (cases "pb_readbyte s")
      case (Pair x t)
      then have st: "advances s t" by (rule keepsD [OF pb_readbyte_keeps])
      have err: "advances s (snd (ierr msg t :: u32 option \<times> 'u istream))" for msg
        using st advances_trans by (blast intro: ierr_advances dest: transpD)
      show ?thesis
      proof (cases x)
        case None
        with Pair st show ?thesis by (subst decode_varint32_loop.simps) simp
      next
        case (Some b)
        have rec: "advances s (snd (decode_varint32_loop (p + 7)
            (if 32 \<le> p then r else r OR push_bit (unat p) (ucast (b AND 0x7F))) t))"
          if "b AND 0x80 \<noteq> 0" "\<not> (32 \<le> p \<and> b AND 0x7F \<noteq> 0 \<and>
            (drop_bit 31 r = 0 \<or> b \<noteq> (if p < 63 then 0xFF else 0x01)))"
        proof -
          have "advances t (snd (decode_varint32_loop (p + 7)
            (if 32 \<le> p then r else r OR push_bit (unat p) (ucast (b AND 0x7F))) t))"
            using "1" [OF _ refl refl refl, of b t] Pair Some that by simp
          with st show ?thesis using advances_trans by (blast dest: transpD)
        qed
        show ?thesis
          using Pair Some st err rec
          by (subst decode_varint32_loop.simps) (simp add: Let_def)
      qed
    qed
  qed
qed

lemma pb_decode_varint_keeps: "keeps advances pb_decode_varint"
  by (simp add: pb_decode_varint_def decode_varint_loop_keeps)

lemma decode_varint32_rest_keeps: "keeps advances (decode_varint32_rest b)"
  by (simp add: decode_varint32_rest_def decode_varint32_loop_keeps keeps_ret advances_refl)

lemma pb_decode_varint32_eof_advances:
  assumes "pb_decode_varint32_eof s = (r, t, e)"
  shows "advances s t"
proof (cases "pb_readbyte s")
  case (Pair x u)
  then have su: "advances s u" by (rule keepsD [OF pb_readbyte_keeps])
  show ?thesis
  proof (cases x)
    case None
    with Pair su assms show ?thesis by (simp add: pb_decode_varint32_eof_def)
  next
    case (Some b)
    with Pair assms have "decode_varint32_rest b u = (r, t)"
      by (auto simp: pb_decode_varint32_eof_def split: prod.splits)
    then have "advances u t" by (rule keepsD [OF decode_varint32_rest_keeps])
    with su show ?thesis using advances_trans by (blast dest: transpD)
  qed
qed

lemma pb_decode_varint32_keeps: "keeps advances pb_decode_varint32"
  by (rule keepsI)
    (auto simp: pb_decode_varint32_def split: prod.splits dest: pb_decode_varint32_eof_advances)

lemma pb_decode_svarint_keeps: "keeps advances pb_decode_svarint"
  by (simp add: pb_decode_svarint_def keeps_and_then keeps_ret advances_refl advances_trans
      pb_decode_varint_keeps)

lemma pb_decode_fixed_keeps: "keeps advances pb_decode_fixed32" "keeps advances pb_decode_fixed64"
  by (simp_all add: pb_decode_fixed32_def pb_decode_fixed64_def keeps_and_then keeps_ret
      advances_refl advances_trans pb_read_keeps)

section \<open>The codecs of the wire format\<close>

interpretation varint: codec varint_bytes "run_buf pb_decode_varint" "\<lambda>_. True"
  by unfold_locales (simp add: run_buf_def pb_decode_varint_bytes)

interpretation varint32: codec "\<lambda>v :: u32. varint_bytes (ucast v)" "run_buf pb_decode_varint32" "\<lambda>_. True"
  by unfold_locales (simp add: run_buf_def pb_decode_varint32_bytes)

interpretation svarint: codec "\<lambda>v. varint_bytes (zigzag v)" "run_buf pb_decode_svarint" "\<lambda>_. True"
  by unfold_locales
    (simp add: run_buf_def pb_decode_svarint_def and_then_def pb_decode_varint_bytes zigzag_inverse)

lemma pb_decode_fixed32_bytes:
  "pb_decode_fixed32 (buf_istream (fixed32_bytes v @ m) (4 + l) e) = (Some v, buf_istream m l e)"
  using le32_fixed32 [of v "[]"]
  by (simp add: pb_decode_fixed32_def and_then_def pb_read_Buf)

lemma pb_decode_fixed64_bytes:
  "pb_decode_fixed64 (buf_istream (fixed64_bytes v @ m) (8 + l) e) = (Some v, buf_istream m l e)"
  using le64_fixed64 [of v "[]"]
  by (simp add: pb_decode_fixed64_def and_then_def pb_read_Buf)

interpretation fixed32: codec fixed32_bytes "run_buf pb_decode_fixed32" "\<lambda>_. True"
  by unfold_locales (simp add: run_buf_def pb_decode_fixed32_bytes)

interpretation fixed64: codec fixed64_bytes "run_buf pb_decode_fixed64" "\<lambda>_. True"
  by unfold_locales (simp add: run_buf_def pb_decode_fixed64_bytes)

section \<open>Properties\<close>

text \<open>C27: what \<open>pb_encode_varint\<close> writes to a memory stream with ten bytes of room, \<open>pb_decode_varint\<close>
  reads back from the place it was written to, consuming exactly those bytes; nothing before the
  write position has changed.\<close>

theorem pb_varint_stream_roundtrip:
  assumes "wf_ostream s" "sink s = Buf_sink mem pos" "bytes_written s + 10 \<le> max_size s"
  shows "\<exists>mem' pos' t. pb_encode_varint v s = (Some (), t) \<and> sink t = Buf_sink mem' pos' \<and>
     take pos mem' = take pos mem \<and> pos' \<le> pos + 10 \<and>
     pb_decode_varint (buf_istream (drop pos mem') (pos' - pos) e) =
       (Some v, buf_istream (drop pos' mem') 0 e)"
proof -
  let ?b = "varint_bytes v"
  have len: "length ?b \<le> 10" by (rule varint_bytes_length)
  have room: "pos + length ?b \<le> length mem"
    using assms len by (auto simp: wf_ostream_def)
  have w: "pb_encode_varint v s = (Some (), s\<lparr>sink := Buf_sink (buf_write mem pos ?b) (pos + length ?b),
      bytes_written := bytes_written s + length ?b\<rparr>)"
    unfolding pb_encode_varint_def using assms len by (intro pb_write_Buf) auto
  have d: "drop pos (buf_write mem pos ?b) = ?b @ drop (pos + length ?b) mem"
    "drop (pos + length ?b) (buf_write mem pos ?b) = drop (pos + length ?b) mem"
    "take pos (buf_write mem pos ?b) = take pos mem"
    using room by (auto simp: buf_write_def)
  show ?thesis
    using w d len pb_decode_varint_bytes [of v "drop (pos + length ?b) mem" 0 e] by auto
qed

theorem pb_varint_stream_roundtrip_witness:
  "\<exists>mem' pos' t. pb_encode_varint 300 (pb_ostream_from_buffer (replicate 12 7) 12 :: unit ostream) =
       (Some (), t) \<and> sink t = Buf_sink mem' pos' \<and> take 0 mem' = take 0 (replicate 12 7) \<and> pos' \<le> 0 + 10 \<and>
     pb_decode_varint (buf_istream (drop 0 mem') (pos' - 0) None :: unit istream) =
       (Some 300, buf_istream (drop pos' mem') 0 None)"
  by (rule pb_varint_stream_roundtrip) (simp_all add: wf_ostream_def pb_ostream_from_buffer_def)

text \<open>a sequence of zig-zag encoded signed integers, packed one after the other as in a packed
  array, can be read in only one way: two sequences of the same length with the same bytes are
  equal and are followed by the same bytes.\<close>

theorem pb_svarint_unambiguous:
  assumes "length xs = length ys"
    "concat (map (\<lambda>v. varint_bytes (zigzag v)) xs) @ r = concat (map (\<lambda>v. varint_bytes (zigzag v)) ys) @ r'"
  shows "xs = ys \<and> r = r'"
  using assms by (intro svarint.enc_append_unique) auto

theorem pb_svarint_unambiguous_witness:
  "[1, - 1] = [1, - 1 :: u64] \<and> [7] = [7 :: byte]"
  by (rule pb_svarint_unambiguous) simp_all

text \<open>\<open>pb_decode_varint32\<close> on the varint of a 64-bit value: a value that fits 32 bits is returned
  and exactly its bytes are consumed; a larger one with bit 31 clear (so no sign-extended negative
  number) is refused with "varint overflow".\<close>

theorem pb_decode_varint32_range:
  "(unat v < 2 ^ 32 \<longrightarrow>
     pb_decode_varint32 (buf_istream (varint_bytes v @ m) (length (varint_bytes v) + l) None) =
       (Some (ucast v), buf_istream m l None :: 'u istream)) \<and>
   (2 ^ 32 \<le> unat v \<and> \<not> bit v 31 \<longrightarrow>
     (\<exists>t :: 'u istream.
        pb_decode_varint32 (buf_istream (varint_bytes v @ m) (length (varint_bytes v) + l) None) =
        (None, t) \<and> ierrmsg t = Some ''varint overflow''))"
proof (intro conjI impI)
  assume "unat v < 2 ^ 32"
  then have "(ucast (ucast v :: u32) :: u64) = v"
    by (simp add: word_unat_eq_iff unsigned_ucast_eq unsigned_take_bit_eq
        take_bit_nat_eq_self_iff)
  then show "pb_decode_varint32 (buf_istream (varint_bytes v @ m) (length (varint_bytes v) + l) None) =
       (Some (ucast v), buf_istream m l None :: 'u istream)"
    using pb_decode_varint32_bytes [of "ucast v" m l None, where ?'a = 'u] by simp
next
  assume "2 ^ 32 \<le> unat v \<and> \<not> bit v 31"
  then show "\<exists>t :: 'u istream.
        pb_decode_varint32 (buf_istream (varint_bytes v @ m) (length (varint_bytes v) + l) None) =
        (None, t) \<and> ierrmsg t = Some ''varint overflow''"
    by (intro pb_decode_varint32_overflow) auto
qed

theorem pb_decode_varint32_range_witness:
  "pb_decode_varint32 (buf_istream (varint_bytes 300 @ [9]) (length (varint_bytes 300) + 1) None) =
     (Some (ucast (300 :: u64)), buf_istream [9] 1 None :: unit istream)"
proof -
  have "unat (300 :: u64) < 2 ^ 32" by simp
  then show ?thesis using pb_decode_varint32_range [of 300 "[9]" 1, where ?'u = unit] by blast
qed

text \<open>nothing bounds the bit position in the multibyte loop of \<open>pb_decode_varint32_eof\<close>, and it
  wraps around in its 8-bit variable: 37 continuation bytes without data followed by the byte 1
  are not refused but decode to 8.\<close>

theorem pb_decode_varint32_bitpos_wraps:
  "fst (pb_decode_varint32 (buf_istream (replicate 37 0x80 @ [1]) 38 None :: unit istream)) = Some 8"
  by code_simp

end
