(* ===== verification/PbWire.thy ===== *)
theory PbWire
  imports PbVarint
begin

text \<open>
  Between the scalars and the messages of nanopb: tags and wire types, length-delimited strings,
  substreams, and the functions that skip or copy a value of a given wire type.
\<close>

text \<open>
  \<open>pb_wire_type_t\<close> is an enumeration with four constants, but \<open>pb_decode_tag\<close> casts any 3-bit
  number to it; it is a number here.
\<close>

type_synonym pb_wire_type = u32

definition PB_WT_VARINT :: pb_wire_type where "PB_WT_VARINT = 0"
definition PB_WT_64BIT :: pb_wire_type where "PB_WT_64BIT = 1"
definition PB_WT_STRING :: pb_wire_type where "PB_WT_STRING = 2"
definition PB_WT_32BIT :: pb_wire_type where "PB_WT_32BIT = 5"

lemmas PB_WT_defs = PB_WT_VARINT_def PB_WT_64BIT_def PB_WT_STRING_def PB_WT_32BIT_def

section \<open>Writing\<close>

definition pb_encode_tag :: "pb_wire_type \<Rightarrow> u32 \<Rightarrow> ('u, unit) oact" where
  "pb_encode_tag wiretype field_number =
     pb_encode_varint (push_bit 3 (ucast field_number) OR ucast wiretype)"

definition pb_encode_string :: "byte list \<Rightarrow> nat \<Rightarrow> ('u, unit) oact" where
  "pb_encode_string buffer n =
     and_then (pb_encode_varint (of_nat n)) (\<lambda>_. pb_write buffer n)"

section \<open>Reading\<close>

text \<open>\<open>pb_decode_tag\<close>: the wire type and the tag, and the final value of \<open>*eof\<close>.\<close>

definition pb_decode_tag :: "'u istream \<Rightarrow> (pb_wire_type \<times> u32) option \<times> 'u istream \<times> bool" where
  "pb_decode_tag s =
     (case pb_decode_varint32_eof s of
        (None, t, eof) \<Rightarrow> (None, t, eof)
      | (Some temp, t, eof) \<Rightarrow>
          if temp = 0 then (None, t, True)
          else (Some (temp AND 7, drop_bit 3 temp), t, eof))"

function (sequential) pb_skip_varint :: "('u, unit) iact" where
  "pb_skip_varint s =
     and_then (pb_read False 1) (\<lambda>b t.
       if hd b AND 0x80 \<noteq> 0 then pb_skip_varint t else (Some (), t)) s"
  by pat_completeness auto
termination
  by (relation "measure bytes_left")
    (auto simp: pb_read_def dest: pb_read_buf_less)

declare pb_skip_varint.simps [simp del]

definition pb_skip_string :: "('u, unit) iact" where
  "pb_skip_string =
     and_then pb_decode_varint32 (\<lambda>len. and_then (pb_read True (unat len)) (\<lambda>_. ret ()))"

definition pb_skip_field :: "pb_wire_type \<Rightarrow> ('u, unit) iact" where
  "pb_skip_field wire_type =
     (if wire_type = PB_WT_VARINT then pb_skip_varint
      else if wire_type = PB_WT_64BIT then and_then (pb_read True 8) (\<lambda>_. ret ())
      else if wire_type = PB_WT_STRING then pb_skip_string
      else if wire_type = PB_WT_32BIT then and_then (pb_read True 4) (\<lambda>_. ret ())
      else ierr ''invalid wire_type'')"

text \<open>
  The varint branch of \<open>read_raw_value\<close>: at most \<open>max_size\<close> bytes are copied, and overrunning it
  is an error without a message.
\<close>

fun read_raw_varint :: "nat \<Rightarrow> ('u, byte list) iact" where
  "read_raw_varint 0 s = (None, s)"
| "read_raw_varint (Suc room) s =
     and_then (pb_read False 1) (\<lambda>b.
       if hd b AND 0x80 \<noteq> 0 then and_then (read_raw_varint room) (\<lambda>bs. ret (hd b # bs))
       else ret [hd b]) s"

definition read_raw_value :: "pb_wire_type \<Rightarrow> nat \<Rightarrow> ('u, byte list) iact" where
  "read_raw_value wire_type max_n =
     (if wire_type = PB_WT_VARINT then read_raw_varint max_n
      else if wire_type = PB_WT_64BIT then pb_read False 8
      else if wire_type = PB_WT_32BIT then pb_read False 4
      else ierr ''invalid wire_type'')"

text \<open>\<open>pb_make_string_substream\<close> returns the substream; the parent keeps what is left after it.\<close>

definition pb_make_string_substream :: "('u, 'u istream) iact" where
  "pb_make_string_substream =
     and_then pb_decode_varint32 (\<lambda>n s.
       if bytes_left s < unat n then ierr ''parent stream too short'' s
       else (Some (s\<lparr>bytes_left := unat n\<rparr>), s\<lparr>bytes_left := bytes_left s - unat n\<rparr>))"

definition pb_close_string_substream :: "'u istream \<Rightarrow> ('u, unit) iact" where
  "pb_close_string_substream sub s =
     (case (if bytes_left sub \<noteq> 0 then pb_read True (bytes_left sub) sub else (Some [], sub)) of
        (None, sub') \<Rightarrow> (None, s)
      | (Some _, sub') \<Rightarrow> (Some (), s\<lparr>source := source sub', ierrmsg := ierrmsg sub'\<rparr>))"

section \<open>Every reader advances\<close>

lemma pb_decode_tag_advances: "pb_decode_tag s = (r, t, e) \<Longrightarrow> advances s t"
  by (auto simp: pb_decode_tag_def split: prod.splits option.splits if_splits
      dest: pb_decode_varint32_eof_advances)

lemma pb_skip_varint_keeps: "keeps advances pb_skip_varint"
proof (rule keepsI)
  fix s :: "'u istream"
  show "advances s (snd (pb_skip_varint s))"
  proof (induction s rule: pb_skip_varint.induct)
    case (1 s)
    show ?case
    proof (cases "pb_read False 1 s")
      case (Pair x t)
      then have st: "advances s t" by (rule keepsD [OF pb_read_keeps])
      have rec: "advances s (snd (pb_skip_varint t))" if "x = Some b" "hd b AND 0x80 \<noteq> 0" for b
      proof -
        have "advances t (snd (pb_skip_varint t))" using "1" Pair that by auto
        with st show ?thesis using advances_trans by (blast dest: transpD)
      qed
      then show ?thesis
        using Pair st by (subst pb_skip_varint.simps) (cases x; auto)
    qed
  qed
qed

lemma pb_skip_string_keeps: "keeps advances pb_skip_string"
  by (simp add: pb_skip_string_def keeps_and_then keeps_ret advances_refl advances_trans
      pb_read_keeps pb_decode_varint32_keeps)

lemma pb_skip_field_keeps: "keeps advances (pb_skip_field w)"
  by (simp add: pb_skip_field_def keeps_and_then keeps_ret advances_refl advances_trans
      pb_read_keeps pb_skip_varint_keeps pb_skip_string_keeps ierr_keeps)

lemma keeps_fail: "keeps advances (\<lambda>s. (None, s))"
  by (simp add: keeps_def advances_def)

lemma read_raw_varint_keeps: "keeps advances (read_raw_varint n)"
proof (induction n)
  case 0
  have "read_raw_varint 0 = (\<lambda>s. (None, s) :: byte list option \<times> 'a istream)" by auto
  then show ?case using keeps_fail by metis
next
  case (Suc n)
  have "read_raw_varint (Suc n) = (and_then (pb_read False 1) (\<lambda>b.
      if hd b AND 0x80 \<noteq> 0 then and_then (read_raw_varint n) (\<lambda>bs. ret (hd b # bs))
      else ret [hd b]) :: ('a, byte list) iact)"
    by (rule ext) simp
  then show ?case
    using Suc by (simp add: keeps_and_then keeps_ret advances_refl advances_trans pb_read_keeps)
qed

lemma read_raw_value_keeps: "keeps advances (read_raw_value w n)"
  by (simp add: read_raw_value_def read_raw_varint_keeps pb_read_keeps ierr_keeps)

section \<open>What writing and reading have in common\<close>

lemma pb_decode_varint32_eof_bytes:
  "pb_decode_varint32_eof (buf_istream (varint_bytes (ucast (v :: u32)) @ m)
      (length (varint_bytes (ucast v)) + l) e) = (Some v, buf_istream m l e, False)"
proof -
  let ?s = "buf_istream (varint_bytes (ucast v) @ m) (length (varint_bytes (ucast v)) + l) e :: 'a istream"
  have "pb_decode_varint32 ?s = (Some v, buf_istream m l e)"
    by (rule pb_decode_varint32_bytes)
  moreover obtain r t f where p: "pb_decode_varint32_eof ?s = (r, t, f)"
    using prod_cases3 by blast
  moreover have "r \<noteq> None \<Longrightarrow> f = False"
    using p by (auto simp: pb_decode_varint32_eof_def split: prod.splits option.splits)
  ultimately show ?thesis by (auto simp: pb_decode_varint32_def)
qed

text \<open>The number \<open>pb_encode_tag\<close> writes, for tags the wire format allows.\<close>

lemma tag_word:
  fixes f w :: u32
  assumes "unat f < 2 ^ 29" "unat w < 8"
  shows "push_bit 3 (ucast f) OR ucast w = (ucast (push_bit 3 f OR w) :: u64)"
    "(push_bit 3 f OR w) AND 7 = w" "drop_bit 3 (push_bit 3 f OR w) = f"
proof -
  have f: "bit f i \<Longrightarrow> i < 29" for i
  proof -
    have "take_bit 29 f = f"
      using assms(1) by (simp add: word_unat_eq_iff unsigned_take_bit_eq take_bit_nat_eq_self_iff)
    then show "bit f i \<Longrightarrow> i < 29" by (metis bit_take_bit_iff)
  qed
  have w: "bit w i \<Longrightarrow> i < 3" for i
  proof -
    have "take_bit 3 w = w"
      using assms(2) by (simp add: word_unat_eq_iff unsigned_take_bit_eq take_bit_nat_eq_self_iff)
    then show "bit w i \<Longrightarrow> i < 3" by (metis bit_take_bit_iff)
  qed
  have m: "(7 :: u32) = mask 3" by (simp add: mask_numeral)
  show "push_bit 3 (ucast f) OR ucast w = (ucast (push_bit 3 f OR w) :: u64)"
    by (rule bit_word_eqI) (auto simp: bit_simps dest: f w)
  show "(push_bit 3 f OR w) AND 7 = w"
    unfolding m by (rule bit_word_eqI) (auto simp: bit_simps dest: w)
  show "drop_bit 3 (push_bit 3 f OR w) = f"
    by (rule bit_word_eqI) (auto simp: bit_simps dest: f w)
qed

definition tag_bytes :: "pb_wire_type \<Rightarrow> u32 \<Rightarrow> byte list" where
  "tag_bytes w f = varint_bytes (push_bit 3 (ucast f) OR ucast w)"

lemma pb_encode_tag_bytes:
  "pb_encode_tag w f = pb_write (tag_bytes w f) (length (tag_bytes w f))"
  by (simp add: pb_encode_tag_def pb_encode_varint_def tag_bytes_def)

lemma pb_decode_tag_bytes:
  assumes "unat f < 2 ^ 29" "unat w < 8" "f \<noteq> 0"
  shows "pb_decode_tag (buf_istream (tag_bytes w f @ m) (length (tag_bytes w f) + l) e) =
    (Some (w, f), buf_istream m l e, False)"
proof -
  have "push_bit 3 f OR w \<noteq> 0"
    using tag_word(3) [OF assms(1,2)] assms(3) by (metis drop_bit_of_0)
  then show ?thesis
    using tag_word [OF assms(1,2)]
    by (simp add: pb_decode_tag_def tag_bytes_def pb_decode_varint32_eof_bytes)
qed

definition string_bytes :: "byte list \<Rightarrow> byte list" where
  "string_bytes bs = varint_bytes (of_nat (length bs)) @ bs"

lemma string_length_word:
  "n < 2 ^ 32 \<Longrightarrow> (of_nat n :: u64) = ucast (of_nat n :: u32) \<and> unat (of_nat n :: u32) = n"
proof -
  assume n: "n < 2 ^ 32"
  then have "take_bit 32 n = n" "take_bit 64 n = n" by (auto intro: take_bit_nat_eq_self)
  then show ?thesis
    by (simp add: word_unat_eq_iff unsigned_ucast_eq unsigned_take_bit_eq unsigned_of_nat)
qed

lemma pb_skip_varint_bytes:
  "pb_skip_varint (buf_istream (varint_bytes v @ m) (length (varint_bytes v) + l) e) =
   (Some (), buf_istream m l e)"
proof (induction "unat v" arbitrary: v rule: less_induct)
  case less
  obtain b bs where v: "varint_bytes v = b # bs" and b80: "(b AND 0x80 = 0) = (drop_bit 7 v = 0)"
    and small: "drop_bit 7 v = 0 \<longrightarrow> bs = []"
    and step: "drop_bit 7 v \<noteq> 0 \<longrightarrow> bs = varint_bytes (drop_bit 7 v)"
    using varint_first_byte [of v] by blast
  have rd: "pb_read False 1 (buf_istream (b # (bs @ m)) (Suc (length bs + l)) e :: 'a istream) =
      (Some [b], buf_istream (bs @ m) (length bs + l) e)"
    using pb_read_Buf [of "[b]" 1 "Suc (length bs + l)" False "bs @ m" e] by simp
  show ?case
  proof (cases "drop_bit 7 v = 0")
    case True
    with v b80 small rd show ?thesis by (subst pb_skip_varint.simps) simp
  next
    case False
    then have "unat (drop_bit 7 v) < unat v" by (intro drop_bit_less) auto
    from less.hyps [OF this] show ?thesis
      using False v b80 step rd by (subst pb_skip_varint.simps) simp
  qed
qed

lemma pb_skip_string_bytes:
  assumes "length bs < 2 ^ 32"
  shows "pb_skip_string (buf_istream (string_bytes bs @ m) (length (string_bytes bs) + l) e) =
    (Some (), buf_istream m l e)"
  using string_length_word [OF assms]
  by (simp add: pb_skip_string_def string_bytes_def and_then_def pb_read_Buf add.assoc
      pb_decode_varint32_bytes)

text \<open>The pairs of a wire type and an encoding that the field encoders produce.\<close>

inductive wire_value :: "pb_wire_type \<Rightarrow> byte list \<Rightarrow> bool" where
  varint: "wire_value PB_WT_VARINT (varint_bytes v)"
| fixed64: "wire_value PB_WT_64BIT (fixed64_bytes v)"
| fixed32: "wire_value PB_WT_32BIT (fixed32_bytes w)"
| string: "length bs < 2 ^ 32 \<Longrightarrow> wire_value PB_WT_STRING (string_bytes bs)"

lemma pb_skip_field_bytes:
  assumes "wire_value w bs"
  shows "pb_skip_field w (buf_istream (bs @ m) (length bs + l) e) = (Some (), buf_istream m l e)"
  using assms
proof cases
  case (varint v)
  then show ?thesis by (simp add: pb_skip_field_def PB_WT_defs pb_skip_varint_bytes)
next
  case (fixed64 v)
  then show ?thesis by (simp add: pb_skip_field_def PB_WT_defs and_then_def pb_read_Buf)
next
  case (fixed32 v)
  then show ?thesis by (simp add: pb_skip_field_def PB_WT_defs and_then_def pb_read_Buf)
next
  case (string b)
  then show ?thesis by (simp add: pb_skip_field_def PB_WT_defs pb_skip_string_bytes)
qed

lemma read_raw_varint_length:
  "read_raw_varint n s = (Some bs, t) \<Longrightarrow> 0 < length bs \<and> length bs \<le> n"
proof (induction n arbitrary: s bs t)
  case 0
  then show ?case by simp
next
  case (Suc n)
  then show ?case
    by (fastforce elim!: and_then_SomeE split: if_splits)
qed

text \<open>Closing a substream after any advancing reader.\<close>

lemma pb_read_rest:
  assumes "source s = Buf_source m" "bytes_left s \<le> length m"
  shows "\<exists>r. pb_read True (bytes_left s) s =
    (Some r, s\<lparr>source := Buf_source (drop (bytes_left s) m), bytes_left := 0\<rparr>)"
  using assms by (auto simp: pb_read_def pb_read_buf_def buf_read_def and_then_def)

lemma substream_close:
  assumes wf: "wf_istream s" "source s = Buf_source m"
    and mk: "pb_make_string_substream s = (Some sub, s')"
    and rd: "keeps advances f" "f sub = (r, sub')"
  shows "\<exists>t. pb_close_string_substream sub' s' = (Some (), t) \<and> bytes_left t = bytes_left s' \<and>
    source t = Buf_source (drop (bytes_left s - bytes_left s') m) \<and> wf_istream t"
proof -
  obtain n u where n: "pb_decode_varint32 s = (Some n, u)" "unat n \<le> bytes_left u"
      "sub = u\<lparr>bytes_left := unat n\<rparr>" "s' = u\<lparr>bytes_left := bytes_left u - unat n\<rparr>"
    using mk by (auto simp: pb_make_string_substream_def elim!: and_then_SomeE split: if_splits)
  have su: "advances s u" using n(1) by (rule keepsD [OF pb_decode_varint32_keeps])
  let ?m = "drop (bytes_left s - bytes_left u) m"
  have u: "source u = Buf_source ?m" "bytes_left u \<le> length ?m" "bytes_left u \<le> bytes_left s"
    using su wf by (auto simp: advances_def wf_istream_def)
  have sub: "advances sub sub'" using rd by (rule keepsD)
  let ?m' = "drop (unat n - bytes_left sub') ?m"
  have sub': "source sub' = Buf_source ?m'" "bytes_left sub' \<le> length ?m'" "bytes_left sub' \<le> unat n"
    using sub u n by (auto simp: advances_def)
  obtain r' where c: "pb_read True (bytes_left sub') sub' = (Some r',
      sub'\<lparr>source := Buf_source (drop (bytes_left sub') ?m'), bytes_left := 0\<rparr>)"
    using pb_read_rest [OF sub'(1,2)] by blast
  have "drop (bytes_left sub') ?m' = drop (bytes_left s - bytes_left s') m"
    using sub'(3) n(2,4) u(3) by (simp add: add.commute)
  then show ?thesis
    using c sub' n(2,4) u wf
    by (cases "bytes_left sub' = 0") (auto simp: pb_close_string_substream_def wf_istream_def)
qed

section \<open>Properties\<close>

text \<open>a field header written by \<open>pb_encode_tag\<close> for any tag of the wire format (1 to 2^29 - 1)
  is read back by \<open>pb_decode_tag\<close> with the same wire type and tag, without the end-of-message flag.\<close>

theorem pb_tag_roundtrip:
  assumes "unat f < 2 ^ 29" "f \<noteq> 0" "unat w < 8"
    "wf_ostream s" "sink s = Buf_sink mem pos" "bytes_written s + 10 \<le> max_size s"
  shows "\<exists>mem' pos' t. pb_encode_tag w f s = (Some (), t) \<and> sink t = Buf_sink mem' pos' \<and>
     pb_decode_tag (buf_istream (drop pos mem') (pos' - pos) e) =
       (Some (w, f), buf_istream (drop pos' mem') 0 e, False)"
proof -
  let ?b = "tag_bytes w f"
  have len: "length ?b \<le> 10" by (simp add: tag_bytes_def varint_bytes_length)
  have room: "pos + length ?b \<le> length mem"
    using assms len by (auto simp: wf_ostream_def)
  have wr: "pb_encode_tag w f s = (Some (), s\<lparr>sink := Buf_sink (buf_write mem pos ?b) (pos + length ?b),
      bytes_written := bytes_written s + length ?b\<rparr>)"
    unfolding pb_encode_tag_bytes using assms len by (intro pb_write_Buf) auto
  have d: "drop pos (buf_write mem pos ?b) = ?b @ drop (pos + length ?b) mem"
    "drop (pos + length ?b) (buf_write mem pos ?b) = drop (pos + length ?b) mem"
    using room by (auto simp: buf_write_def)
  show ?thesis
    using wr d pb_decode_tag_bytes [OF assms(1,3,2), of "drop (pos + length ?b) mem" 0 e] by auto
qed

theorem pb_tag_roundtrip_witness:
  "\<exists>mem' pos' t. pb_encode_tag 2 100000 (pb_ostream_from_buffer (replicate 12 7) 12 :: unit ostream) =
       (Some (), t) \<and> sink t = Buf_sink mem' pos' \<and>
     pb_decode_tag (buf_istream (drop 0 mem') (pos' - 0) None :: unit istream) =
       (Some (2, 100000), buf_istream (drop pos' mem') 0 None, False)"
  by (rule pb_tag_roundtrip) (simp_all add: wf_ostream_def pb_ostream_from_buffer_def)

text \<open>\<open>pb_skip_field\<close> moves past exactly one value of the wire type it is given, for every
  encoding the field encoders produce: varints of any 64-bit value, fixed-width integers and
  length-delimited strings shorter than 2^32.\<close>

theorem pb_skip_field_skips_value:
  assumes "wire_value w bs"
  shows "pb_skip_field w (buf_istream (bs @ m) (length bs + l) e) = (Some (), buf_istream m l e)"
  using assms by (rule pb_skip_field_bytes)

theorem pb_skip_field_skips_value_witness:
  "pb_skip_field PB_WT_STRING (buf_istream (string_bytes [1, 2, 3] @ [9, 9]) (length (string_bytes [1, 2, 3]) + 2) None) =
     (Some (), buf_istream [9, 9] 2 None :: unit istream)"
  by (rule pb_skip_field_skips_value, rule wire_value.string) simp

text \<open>whatever a reader does inside a length-delimited substream of a memory stream (read all of
  it, part of it, or fail in the middle), closing the substream leaves the parent right after the
  string, with the read pointer in step with its limit.\<close>

theorem pb_substream_close_position:
  assumes "wf_istream s" "source s = Buf_source m" "pb_make_string_substream s = (Some sub, s')"
    "keeps advances f" "f sub = (r, sub')"
  shows "\<exists>t. pb_close_string_substream sub' s' = (Some (), t) \<and> bytes_left t = bytes_left s' \<and>
    source t = Buf_source (drop (bytes_left s - bytes_left s') m) \<and> wf_istream t"
  using assms by (rule substream_close)

theorem pb_substream_close_position_witness:
  "\<exists>t. pb_close_string_substream (snd (pb_readbyte (buf_istream [8, 9, 10] 2 None)))
         (buf_istream [8, 9, 10] 1 None :: unit istream) = (Some (), t) \<and>
     bytes_left t = 1 \<and> source t = Buf_source (drop (4 - 1) [2, 8, 9, 10]) \<and> wf_istream t"
proof -
  let ?s = "buf_istream [2, 8, 9, 10] 4 None :: unit istream"
  have mk: "pb_make_string_substream ?s = (Some (buf_istream [8, 9, 10] 2 None), buf_istream [8, 9, 10] 1 None)"
    using pb_decode_varint32_bytes [of 2 "[8, 9, 10]" 3 None, where ?'a = unit]
    by (simp add: pb_make_string_substream_def and_then_def varint_bytes_def)
  have "wf_istream ?s" "source ?s = Buf_source [2, 8, 9, 10]" by (simp_all add: wf_istream_def)
  from pb_substream_close_position [OF this mk pb_readbyte_keeps prod.collapse [symmetric]]
  show ?thesis by simp
qed

end
