(* ===== verification/PbField.thy ===== *)
theory PbField
  imports PbWire
begin

text \<open>
  Message descriptors of nanopb (\<open>pb_field_t\<close> of \<open>pb.h\<close>) and the field iterator of
  \<open>pb_common.c\<close>. A descriptor array is a list that ends with an entry of tag 0; a message
  structure is a region of memory given by its address. Addresses are natural numbers.
\<close>

section \<open>Descriptors\<close>

type_synonym addr = nat

record pb_field =
  tag :: u32
  ftype :: byte
  data_offset :: nat
  size_offset :: int
  data_size :: nat
  array_size :: nat
  ptr :: addr

definition PB_SIZE_MAX :: nat where "PB_SIZE_MAX = 2 ^ 32 - 1"
definition SIZEOF_PTR :: nat where "SIZEOF_PTR = 8"

definition PB_LTYPE_BOOL :: byte where "PB_LTYPE_BOOL = 0x00"
definition PB_LTYPE_VARINT :: byte where "PB_LTYPE_VARINT = 0x01"
definition PB_LTYPE_UVARINT :: byte where "PB_LTYPE_UVARINT = 0x02"
definition PB_LTYPE_SVARINT :: byte where "PB_LTYPE_SVARINT = 0x03"
definition PB_LTYPE_FIXED32 :: byte where "PB_LTYPE_FIXED32 = 0x04"
definition PB_LTYPE_FIXED64 :: byte where "PB_LTYPE_FIXED64 = 0x05"
definition PB_LTYPE_LAST_PACKABLE :: byte where "PB_LTYPE_LAST_PACKABLE = 0x05"
definition PB_LTYPE_BYTES :: byte where "PB_LTYPE_BYTES = 0x06"
definition PB_LTYPE_STRING :: byte where "PB_LTYPE_STRING = 0x07"
definition PB_LTYPE_SUBMESSAGE :: byte where "PB_LTYPE_SUBMESSAGE = 0x08"
definition PB_LTYPE_EXTENSION :: byte where "PB_LTYPE_EXTENSION = 0x09"
definition PB_LTYPE_FIXED_LENGTH_BYTES :: byte where "PB_LTYPE_FIXED_LENGTH_BYTES = 0x0A"

definition PB_HTYPE_REQUIRED :: byte where "PB_HTYPE_REQUIRED = 0x00"
definition PB_HTYPE_OPTIONAL :: byte where "PB_HTYPE_OPTIONAL = 0x10"
definition PB_HTYPE_REPEATED :: byte where "PB_HTYPE_REPEATED = 0x20"
definition PB_HTYPE_ONEOF :: byte where "PB_HTYPE_ONEOF = 0x30"

definition PB_ATYPE_STATIC :: byte where "PB_ATYPE_STATIC = 0x00"
definition PB_ATYPE_POINTER :: byte where "PB_ATYPE_POINTER = 0x80"
definition PB_ATYPE_CALLBACK :: byte where "PB_ATYPE_CALLBACK = 0x40"

definition PB_ATYPE :: "byte \<Rightarrow> byte" where "PB_ATYPE x = x AND 0xC0"
definition PB_HTYPE :: "byte \<Rightarrow> byte" where "PB_HTYPE x = x AND 0x30"
definition PB_LTYPE :: "byte \<Rightarrow> byte" where "PB_LTYPE x = x AND 0x0F"

lemmas PB_LTYPE_defs = PB_LTYPE_BOOL_def PB_LTYPE_VARINT_def PB_LTYPE_UVARINT_def
  PB_LTYPE_SVARINT_def PB_LTYPE_FIXED32_def PB_LTYPE_FIXED64_def PB_LTYPE_LAST_PACKABLE_def
  PB_LTYPE_BYTES_def PB_LTYPE_STRING_def PB_LTYPE_SUBMESSAGE_def PB_LTYPE_EXTENSION_def
  PB_LTYPE_FIXED_LENGTH_BYTES_def
lemmas PB_HTYPE_defs = PB_HTYPE_REQUIRED_def PB_HTYPE_OPTIONAL_def PB_HTYPE_REPEATED_def
  PB_HTYPE_ONEOF_def
lemmas PB_ATYPE_defs = PB_ATYPE_STATIC_def PB_ATYPE_POINTER_def PB_ATYPE_CALLBACK_def
lemmas PB_TYPE_defs = PB_LTYPE_defs PB_HTYPE_defs PB_ATYPE_defs PB_ATYPE_def PB_HTYPE_def PB_LTYPE_def

text \<open>Pointer arithmetic on 64-bit addresses.\<close>

definition addr_add :: "addr \<Rightarrow> int \<Rightarrow> addr" where
  "addr_add a off = nat ((int a + off) mod 2 ^ 64)"

section \<open>The iterator\<close>

record field_iter =
  start :: "pb_field list"
  pos :: nat
  required_field_index :: nat
  dest_struct :: addr
  pData :: addr
  pSize :: addr

definition cur :: "field_iter \<Rightarrow> pb_field" where
  "cur it = start it ! pos it"

definition pb_field_iter_begin :: "pb_field list \<Rightarrow> addr \<Rightarrow> bool \<times> field_iter" where
  "pb_field_iter_begin fs dest =
     (let f = fs ! 0;
          pdata = addr_add dest (int (data_offset f));
          it = \<lparr>start = fs, pos = 0, required_field_index = 0, dest_struct = dest,
                pData = pdata, pSize = addr_add pdata (size_offset f)\<rparr>
      in (tag f \<noteq> 0, it))"

definition pb_field_iter_next :: "field_iter \<Rightarrow> bool \<times> field_iter" where
  "pb_field_iter_next it =
     (let prev_field = cur it in
      if tag prev_field = 0 then (False, it)
      else
        let it1 = it\<lparr>pos := pos it + 1\<rparr>; f = cur it1 in
        if tag f = 0 then (False, snd (pb_field_iter_begin (start it) (dest_struct it)))
        else if PB_HTYPE (ftype prev_field) = PB_HTYPE_ONEOF \<and>
                PB_HTYPE (ftype f) = PB_HTYPE_ONEOF \<and> data_offset f = PB_SIZE_MAX
        then (True, it1)
        else
          let prev_size =
                (if PB_ATYPE (ftype prev_field) = PB_ATYPE_STATIC \<and>
                    PB_HTYPE (ftype prev_field) = PB_HTYPE_REPEATED
                 then size_mul (data_size prev_field) (array_size prev_field)
                 else if PB_ATYPE (ftype prev_field) = PB_ATYPE_POINTER then SIZEOF_PTR
                 else data_size prev_field);
              required = (if PB_HTYPE (ftype prev_field) = PB_HTYPE_REQUIRED
                          then required_field_index it1 + 1 else required_field_index it1);
              pdata = addr_add (pData it1) (int prev_size + int (data_offset f))
          in (True, it1\<lparr>required_field_index := required, pData := pdata,
                        pSize := addr_add pdata (size_offset f)\<rparr>))"

text \<open>
  The do-while loop of \<open>pb_field_iter_find\<close>. The iterator goes round the array, so one round is
  enough; the count of array entries bounds it, and for a terminated array it never runs out.
\<close>

fun iter_find_loop :: "nat \<Rightarrow> (pb_field \<Rightarrow> bool) \<Rightarrow> nat \<Rightarrow> field_iter \<Rightarrow> bool \<times> field_iter" where
  "iter_find_loop 0 p start_pos it = (False, it)"
| "iter_find_loop (Suc n) p start_pos it =
     (if p (cur it) then (True, it)
      else let it' = snd (pb_field_iter_next it)
           in if pos it' \<noteq> start_pos then iter_find_loop n p start_pos it' else (False, it'))"

definition pb_field_iter_find :: "u32 \<Rightarrow> field_iter \<Rightarrow> bool \<times> field_iter" where
  "pb_field_iter_find t it =
     iter_find_loop (length (start it)) (\<lambda>f. tag f = t \<and> PB_LTYPE (ftype f) \<noteq> PB_LTYPE_EXTENSION)
       (pos it) it"

section \<open>The iterator depends only on its position\<close>

text \<open>A terminated array: entries with a tag, then one with tag 0.\<close>

definition wf_fields :: "pb_field list \<Rightarrow> bool" where
  "wf_fields fs \<longleftrightarrow> fs \<noteq> [] \<and> tag (last fs) = 0 \<and> (\<forall>f \<in> set (butlast fs). tag f \<noteq> 0)"

abbreviation field_count :: "pb_field list \<Rightarrow> nat" where
  "field_count fs \<equiv> length fs - 1"

fun iter_at :: "pb_field list \<Rightarrow> addr \<Rightarrow> nat \<Rightarrow> field_iter" where
  "iter_at fs dest 0 = snd (pb_field_iter_begin fs dest)"
| "iter_at fs dest (Suc i) = snd (pb_field_iter_next (iter_at fs dest i))"

lemma wf_fields_nth: "wf_fields fs \<Longrightarrow> i < length fs \<Longrightarrow> tag (fs ! i) = 0 \<longleftrightarrow> i = field_count fs"
proof -
  assume wf: "wf_fields fs" and i: "i < length fs"
  show ?thesis
  proof (cases "i = field_count fs")
    case True
    then show ?thesis using wf by (auto simp: wf_fields_def last_conv_nth)
  next
    case False
    then have "i < length (butlast fs)" using i by simp
    then have "fs ! i \<in> set (butlast fs)" using nth_mem [of i "butlast fs"] by (simp add: nth_butlast)
    then show ?thesis using wf False by (auto simp: wf_fields_def)
  qed
qed

lemma iter_next_frame:
  "start (snd (pb_field_iter_next it)) = start it"
  "dest_struct (snd (pb_field_iter_next it)) = dest_struct it"
  by (simp_all add: pb_field_iter_next_def pb_field_iter_begin_def Let_def)

lemma iter_at_frame [simp]: "start (iter_at fs d i) = fs" "dest_struct (iter_at fs d i) = d"
  by (induction i) (simp_all add: iter_next_frame pb_field_iter_begin_def Let_def)

lemma iter_next_pos:
  assumes "wf_fields (start it)" "pos it < field_count (start it)"
  shows "Suc (pos it) < field_count (start it) \<Longrightarrow>
      pos (snd (pb_field_iter_next it)) = Suc (pos it) \<and> fst (pb_field_iter_next it)"
    "Suc (pos it) = field_count (start it) \<Longrightarrow>
      pb_field_iter_next it = (False, iter_at (start it) (dest_struct it) 0)"
  using assms wf_fields_nth [OF assms(1), of "pos it"] wf_fields_nth [OF assms(1), of "Suc (pos it)"]
  by (auto simp: pb_field_iter_next_def cur_def Let_def)

lemma pos_iter_at:
  assumes "wf_fields fs" "i < field_count fs"
  shows "pos (iter_at fs d i) = i"
  using assms(2)
proof (induction i)
  case 0
  then show ?case by (simp add: pb_field_iter_begin_def Let_def)
next
  case (Suc i)
  then show ?case
    using iter_next_pos(1) [of "iter_at fs d i"] assms(1) by simp
qed

lemma cur_iter_at: "wf_fields fs \<Longrightarrow> i < field_count fs \<Longrightarrow> cur (iter_at fs d i) = fs ! i"
  by (simp add: cur_def pos_iter_at)

lemma iter_next_iter_at:
  assumes "wf_fields fs" "i < field_count fs"
  shows "pb_field_iter_next (iter_at fs d i) =
    (Suc i < field_count fs, iter_at fs d (if Suc i < field_count fs then Suc i else 0))"
proof (cases "Suc i < field_count fs")
  case True
  then show ?thesis
    using iter_next_pos(1) [of "iter_at fs d i"] assms by (simp add: pos_iter_at prod_eq_iff)
next
  case False
  then show ?thesis
    using iter_next_pos(2) [of "iter_at fs d i"] assms by (simp add: pos_iter_at)
qed

declare iter_at.simps [simp del]

text \<open>The positions the loop of \<open>pb_field_iter_find\<close> still has to see when it is at \<open>c\<close>.\<close>

definition to_see :: "nat \<Rightarrow> nat \<Rightarrow> nat \<Rightarrow> nat set" where
  "to_see n i c = {j. j < n \<and> (if i \<le> c then c \<le> j \<or> j < i else c \<le> j \<and> j < i)}"

definition left_to_see :: "nat \<Rightarrow> nat \<Rightarrow> nat \<Rightarrow> nat" where
  "left_to_see n i c = (if i \<le> c then n - c + i else i - c)"

lemma iter_find_loop_spec:
  assumes "wf_fields fs" "i < field_count fs" "c < field_count fs"
    "left_to_see (field_count fs) i c \<le> n" "iter_find_loop n p i (iter_at fs d c) = (b, it)"
  shows "(b \<longrightarrow> (\<exists>j < field_count fs. it = iter_at fs d j \<and> p (fs ! j))) \<and>
    (\<not> b \<longrightarrow> it = iter_at fs d i \<and> (\<forall>j \<in> to_see (field_count fs) i c. \<not> p (fs ! j)))"
  using assms(3-)
proof (induction n arbitrary: c)
  case 0
  then show ?case by (auto simp: left_to_see_def split: if_splits)
next
  case (Suc n)
  let ?n = "field_count fs"
  let ?c = "if Suc c < ?n then Suc c else 0"
  show ?case
  proof (cases "p (fs ! c)")
    case True
    with Suc.prems assms(1) show ?thesis by (auto simp: cur_iter_at)
  next
    case False
    have nxt: "snd (pb_field_iter_next (iter_at fs d c)) = iter_at fs d ?c"
      using iter_next_iter_at [OF assms(1) Suc.prems(1)] by simp
    have c: "?c < ?n" using Suc.prems(1) by auto
    show ?thesis
    proof (cases "?c = i")
      case True
      then have "to_see ?n i c = {c}"
        using assms(2) Suc.prems(1) by (auto simp: to_see_def split: if_splits)
      with True False Suc.prems assms(1) nxt c show ?thesis
        by (auto simp: cur_iter_at pos_iter_at)
    next
      case ne: False
      then have "left_to_see ?n i ?c \<le> n"
        using Suc.prems(1,2) assms(2) by (auto simp: left_to_see_def split: if_splits)
      moreover have "iter_find_loop n p i (iter_at fs d ?c) = (b, it)"
        using Suc.prems(1,3) False ne assms(1) nxt c by (simp add: cur_iter_at pos_iter_at)
      ultimately have IH: "(b \<longrightarrow> (\<exists>j < ?n. it = iter_at fs d j \<and> p (fs ! j))) \<and>
          (\<not> b \<longrightarrow> it = iter_at fs d i \<and> (\<forall>j \<in> to_see ?n i ?c. \<not> p (fs ! j)))"
        using Suc.IH [OF c] by blast
      have "to_see ?n i c \<subseteq> insert c (to_see ?n i ?c)"
        using ne Suc.prems(1) assms(2) by (auto simp: to_see_def split: if_splits)
      with IH False show ?thesis by blast
    qed
  qed
qed

lemma pb_field_iter_find_spec:
  assumes "wf_fields fs" "i < field_count fs" "pb_field_iter_find t (iter_at fs d i) = (b, it)"
  shows "(b \<longrightarrow> (\<exists>j < field_count fs. it = iter_at fs d j \<and> tag (fs ! j) = t \<and>
        PB_LTYPE (ftype (fs ! j)) \<noteq> PB_LTYPE_EXTENSION)) \<and>
    (\<not> b \<longrightarrow> it = iter_at fs d i \<and>
      (\<forall>j < field_count fs. tag (fs ! j) = t \<longrightarrow> PB_LTYPE (ftype (fs ! j)) = PB_LTYPE_EXTENSION))"
proof -
  have "left_to_see (field_count fs) i i \<le> length fs"
    using assms(2) by (auto simp: left_to_see_def)
  moreover have "to_see (field_count fs) i i = {..<field_count fs}"
    by (auto simp: to_see_def)
  ultimately show ?thesis
    using iter_find_loop_spec [OF assms(1,2,2), of "length fs"
        "\<lambda>f. tag f = t \<and> PB_LTYPE (ftype f) \<noteq> PB_LTYPE_EXTENSION" d b it] assms(3)
    by (auto simp: pb_field_iter_find_def pos_iter_at [OF assms(1,2)])
qed

lemma pb_field_iter_find_index:
  assumes "wf_fields fs" "i < field_count fs" "distinct (map tag fs)"
    and "j < field_count fs" "PB_LTYPE (ftype (fs ! j)) \<noteq> PB_LTYPE_EXTENSION"
  shows "pb_field_iter_find (tag (fs ! j)) (iter_at fs d i) = (True, iter_at fs d j)"
proof -
  obtain b it where r: "pb_field_iter_find (tag (fs ! j)) (iter_at fs d i) = (b, it)"
    by fastforce
  have "k = j" if "k < field_count fs" "tag (fs ! k) = tag (fs ! j)" for k
    using that assms(3,4) nth_eq_iff_index_eq [of "map tag fs" k j] by auto
  then show ?thesis
    using pb_field_iter_find_spec [OF assms(1,2) r] r assms(4,5) by auto
qed

section \<open>Properties\<close>

text \<open>C26: in a terminated descriptor array, \<open>pb_field_iter_find\<close> started at any field finds a tag
  that a (non-extension) field has, and then the iterator is the one that a scan from the
  beginning reaches at that field: its data pointer does not depend on where the search began.
  When no field has the tag it comes back to where it started.\<close>

theorem pb_field_iter_find_correct:
  assumes "wf_fields fs" "i < field_count fs" "distinct (map tag fs)"
  shows "(\<forall>j < field_count fs. PB_LTYPE (ftype (fs ! j)) \<noteq> PB_LTYPE_EXTENSION \<longrightarrow>
      pb_field_iter_find (tag (fs ! j)) (iter_at fs d i) = (True, iter_at fs d j)) \<and>
    (\<forall>t. t \<notin> tag ` set (butlast fs) \<longrightarrow>
      pb_field_iter_find t (iter_at fs d i) = (False, iter_at fs d i))"
proof (intro conjI allI impI)
  fix j assume "j < field_count fs" "PB_LTYPE (ftype (fs ! j)) \<noteq> PB_LTYPE_EXTENSION"
  then show "pb_field_iter_find (tag (fs ! j)) (iter_at fs d i) = (True, iter_at fs d j)"
    by (rule pb_field_iter_find_index [OF assms])
next
  fix t assume t: "t \<notin> tag ` set (butlast fs)"
  obtain b it where r: "pb_field_iter_find t (iter_at fs d i) = (b, it)" by fastforce
  have "tag (fs ! k) \<noteq> t" if "k < field_count fs" for k
  proof -
    have "fs ! k \<in> set (butlast fs)"
      using that nth_mem [of k "butlast fs"] by (simp add: nth_butlast)
    with t show ?thesis by auto
  qed
  then show "pb_field_iter_find t (iter_at fs d i) = (False, iter_at fs d i)"
    using pb_field_iter_find_spec [OF assms(1,2) r] r by auto
qed

text \<open>A descriptor array with a required int32, an optional int32 with a has-flag and a repeated one.\<close>

definition example_fields :: "pb_field list" where
  "example_fields =
     [\<lparr>tag = 1, ftype = 0x01, data_offset = 0, size_offset = 0, data_size = 4, array_size = 0, ptr = 0\<rparr>,
      \<lparr>tag = 2, ftype = 0x11, data_offset = 4, size_offset = -4, data_size = 4, array_size = 0, ptr = 0\<rparr>,
      \<lparr>tag = 7, ftype = 0x21, data_offset = 4, size_offset = -4, data_size = 4, array_size = 3, ptr = 0\<rparr>,
      \<lparr>tag = 0, ftype = 0, data_offset = 0, size_offset = 0, data_size = 0, array_size = 0, ptr = 0\<rparr>]"

lemma wf_example_fields: "wf_fields example_fields" "distinct (map tag example_fields)"
  by (simp_all add: example_fields_def wf_fields_def)

theorem pb_field_iter_find_correct_witness:
  "pb_field_iter_find 1 (iter_at example_fields 1000 2) = (True, iter_at example_fields 1000 0)"
proof -
  have "2 < field_count example_fields" "0 < field_count example_fields"
    "PB_LTYPE (ftype (example_fields ! 0)) \<noteq> PB_LTYPE_EXTENSION" "tag (example_fields ! 0) = 1"
    by (simp_all add: example_fields_def PB_TYPE_defs)
  then show ?thesis
    using pb_field_iter_find_correct [OF wf_example_fields(1) _ wf_example_fields(2), of 2 1000] by metis
qed

end
