(* ===== verification/PbMem.thy ===== *)
theory PbMem
  imports PbField
begin

text \<open>
  The memory the message structures of nanopb live in: one address space of bytes, read and
  written with the little-endian layout and the type sizes of the 64-bit targets, and the
  \<open>realloc\<close>/\<open>free\<close> of the C library. The allocator hands out fresh addresses, fails beyond a
  limit that is part of the state, and records a \<open>free\<close> or \<open>realloc\<close> of an address that is not
  allocated. Also: functions that may run out of fuel, for the routines that recurse along
  pointers.
\<close>

section \<open>Memory\<close>

record mem =
  cells :: "addr \<Rightarrow> byte"
  blocks :: "addr \<Rightarrow> nat option"
  brk :: addr
  heap_limit :: addr
  bad_free :: bool

definition load :: "mem \<Rightarrow> addr \<Rightarrow> nat \<Rightarrow> byte list" where
  "load m a n = map (\<lambda>i. cells m (a + i)) [0..<n]"

definition store :: "addr \<Rightarrow> byte list \<Rightarrow> mem \<Rightarrow> mem" where
  "store a bs m = m\<lparr>cells := (\<lambda>x. if a \<le> x \<and> x < a + length bs then bs ! (x - a) else cells m x)\<rparr>"

lemma length_load [simp]: "length (load m a n) = n"
  by (simp add: load_def)

lemma load_store_same [simp]: "n = length bs \<Longrightarrow> load (store a bs m) a n = bs"
  by (auto simp: load_def store_def intro: nth_equalityI)

lemma load_store_other [simp]:
  "a + n \<le> b \<or> b + length bs \<le> a \<Longrightarrow> load (store b bs m) a n = load m a n"
  by (auto simp: load_def store_def)

lemma store_frame [simp]:
  "blocks (store a bs m) = blocks m" "brk (store a bs m) = brk m"
  "heap_limit (store a bs m) = heap_limit m" "bad_free (store a bs m) = bad_free m"
  by (simp_all add: store_def)

definition load_u16 :: "mem \<Rightarrow> addr \<Rightarrow> u16" where
  "load_u16 m a = ucast (cells m a) OR push_bit 8 (ucast (cells m (a + 1)))"

definition load_u32 :: "mem \<Rightarrow> addr \<Rightarrow> u32" where
  "load_u32 m a = le32 (load m a 4)"

definition load_u64 :: "mem \<Rightarrow> addr \<Rightarrow> u64" where
  "load_u64 m a = le64 (load m a 8)"

definition load_ptr :: "mem \<Rightarrow> addr \<Rightarrow> addr" where
  "load_ptr m a = unat (load_u64 m a)"

definition u16_bytes :: "u16 \<Rightarrow> byte list" where
  "u16_bytes w = [ucast w, ucast (drop_bit 8 w)]"

definition store_u32 :: "addr \<Rightarrow> u32 \<Rightarrow> mem \<Rightarrow> mem" where
  "store_u32 a w = store a (fixed32_bytes w)"

definition store_u64 :: "addr \<Rightarrow> u64 \<Rightarrow> mem \<Rightarrow> mem" where
  "store_u64 a w = store a (fixed64_bytes w)"

definition store_ptr :: "addr \<Rightarrow> addr \<Rightarrow> mem \<Rightarrow> mem" where
  "store_ptr a p = store_u64 a (of_nat p)"

lemma load_store_u32 [simp]: "load_u32 (store_u32 a w m) a = w"
  using le32_fixed32 [of w "[]"] by (simp add: load_u32_def store_u32_def)

lemma load_store_u64 [simp]: "load_u64 (store_u64 a w m) a = w"
  using le64_fixed64 [of w "[]"] by (simp add: load_u64_def store_u64_def)

lemma load_store_ptr [simp]: "p < 2 ^ 64 \<Longrightarrow> load_ptr (store_ptr a p m) a = p"
  by (simp add: load_ptr_def store_ptr_def unat_of_nat)

lemma store_word_frame [simp]:
  "blocks (store_u32 a w m) = blocks m" "brk (store_u32 a w m) = brk m"
  "heap_limit (store_u32 a w m) = heap_limit m" "bad_free (store_u32 a w m) = bad_free m"
  "blocks (store_u64 a v m) = blocks m" "brk (store_u64 a v m) = brk m"
  "heap_limit (store_u64 a v m) = heap_limit m" "bad_free (store_u64 a v m) = bad_free m"
  "blocks (store_ptr a p m) = blocks m" "brk (store_ptr a p m) = brk m"
  "heap_limit (store_ptr a p m) = heap_limit m" "bad_free (store_ptr a p m) = bad_free m"
  by (simp_all add: store_u32_def store_u64_def store_ptr_def)

text \<open>\<open>memset(p, 0, n)\<close>\<close>

definition store_zeros :: "addr \<Rightarrow> nat \<Rightarrow> mem \<Rightarrow> mem" where
  "store_zeros a n = store a (replicate n 0)"

section \<open>realloc and free of the C library\<close>

definition pb_free :: "addr \<Rightarrow> mem \<Rightarrow> mem" where
  "pb_free p m =
     (if p = 0 then m
      else case blocks m p of
          None \<Rightarrow> m\<lparr>bad_free := True\<rparr>
        | Some n \<Rightarrow> m\<lparr>blocks := (blocks m)(p := None)\<rparr>)"

definition pb_realloc :: "addr \<Rightarrow> nat \<Rightarrow> mem \<Rightarrow> addr \<times> mem" where
  "pb_realloc p n m =
     (if p \<noteq> 0 \<and> blocks m p = None then (0, m\<lparr>bad_free := True\<rparr>)
      else if heap_limit m < brk m + n then (0, m)
      else
        let new_p = brk m;
            old = (if p = 0 then [] else load m p (min n (the (blocks m p))));
            m1 = pb_free p m
        in (new_p, store new_p old (m1\<lparr>blocks := (blocks m1)(new_p \<mapsto> n), brk := brk m + max 1 n\<rparr>)))"

section \<open>Functions with fuel\<close>

text \<open>
  Routines that follow pointers have a bound on the depth of the calls. The outer \<open>None\<close> means
  that the bound was reached; it never means that the C function returned.
\<close>

type_synonym ('s, 'a) fact = "'s \<Rightarrow> ('a option \<times> 's) option"

definition fdo :: "('s, 'a) act \<Rightarrow> ('s, 'a) fact" where
  "fdo m s = Some (m s)"

definition fthen :: "('s, 'a) fact \<Rightarrow> ('a \<Rightarrow> ('s, 'b) fact) \<Rightarrow> ('s, 'b) fact" where
  "fthen m f s = (case m s of
       None \<Rightarrow> None
     | Some (None, s') \<Rightarrow> Some (None, s')
     | Some (Some x, s') \<Rightarrow> f x s')"

lemma fthen_cong [fundef_cong]:
  assumes "s = s'" "m s' = m' s'" "\<And>x t. m' s' = Some (Some x, t) \<Longrightarrow> f x t = f' x t"
  shows "fthen m f s = fthen m' f' s'"
  using assms by (auto simp: fthen_def split: prod.splits option.splits)

lemma fdo_simp [simp]: "fdo m s = Some (m s)"
  by (simp add: fdo_def)

lemma fdo_ret: "fdo (ret x) = (\<lambda>s. Some (Some x, s))"
  by (rule ext) simp

lemma fthen_simps [simp]:
  "m s = None \<Longrightarrow> fthen m f s = None"
  "m s = Some (None, t) \<Longrightarrow> fthen m f s = Some (None, t)"
  "m s = Some (Some x, t) \<Longrightarrow> fthen m f s = f x t"
  by (simp_all add: fthen_def)

lemma fthen_fdo: "fthen (fdo m) (\<lambda>x. fdo (f x)) = fdo (and_then m f)"
  by (rule ext) (auto simp: fthen_def and_then_def split: prod.splits option.splits)

text \<open>More fuel does not change a result: \<open>refines\<close> is kept by sequencing.\<close>

definition refines :: "('s, 'a) fact \<Rightarrow> ('s, 'a) fact \<Rightarrow> bool" where
  "refines m m' \<longleftrightarrow> (\<forall>s r. m s = Some r \<longrightarrow> m' s = Some r)"

lemma refines_refl [simp]: "refines m m"
  by (simp add: refines_def)

lemma refines_None [simp]: "refines (\<lambda>s. None) m"
  by (simp add: refines_def)

lemma refines_fthen:
  "refines m m' \<Longrightarrow> (\<And>x. refines (f x) (f' x)) \<Longrightarrow> refines (fthen m f) (fthen m' f')"
  by (fastforce simp: refines_def fthen_def split: option.splits prod.splits)

text \<open>A relation on states kept by every run that returns.\<close>

definition fkeeps :: "('s \<Rightarrow> 's \<Rightarrow> bool) \<Rightarrow> ('s, 'a) fact \<Rightarrow> bool" where
  "fkeeps R m \<longleftrightarrow> (\<forall>s r t. m s = Some (r, t) \<longrightarrow> R s t)"

lemma fkeepsI: "(\<And>s r t. m s = Some (r, t) \<Longrightarrow> R s t) \<Longrightarrow> fkeeps R m"
  by (simp add: fkeeps_def)

lemma fkeepsD: "fkeeps R m \<Longrightarrow> m s = Some (r, t) \<Longrightarrow> R s t"
  by (simp add: fkeeps_def)

lemma fkeeps_fdo [simp]: "fkeeps R (fdo m) = keeps R m"
  by (simp add: fkeeps_def keeps_def prod_eq_iff)

lemma fkeeps_None [simp]: "fkeeps R (\<lambda>s. None)"
  by (simp add: fkeeps_def)

lemma fkeeps_fthen:
  assumes "transp R" "fkeeps R m" "\<And>x. fkeeps R (f x)"
  shows "fkeeps R (fthen m f)"
proof (rule fkeepsI)
  fix s r t
  assume run: "fthen m f s = Some (r, t)"
  then obtain q u where m: "m s = Some (q, u)" by (cases "m s") auto
  with assms(2) have su: "R s u" by (rule fkeepsD)
  show "R s t"
  proof (cases q)
    case None
    with run m su show ?thesis by simp
  next
    case (Some x)
    with run m have "f x u = Some (r, t)" by simp
    with assms(3) have "R u t" by (rule fkeepsD)
    with su assms(1) show ?thesis by (blast dest: transpD)
  qed
qed

end
