(* ===== verification/PbEncode.thy ===== *)
theory PbEncode
  imports PbMem
begin

text \<open>
  The message encoder of nanopb (\<open>pb_encode.c\<close>): a message structure in memory and its
  descriptor array are walked with the field iterator and written to an output stream. The
  callbacks of the application are parameters; they are given the memory and do not change it.
  Functions that follow pointers have fuel (see \<open>PbMem\<close>); \<open>None\<close> is also the result where the C
  code has no defined behaviour (a \<open>NULL\<close> entry of \<open>PB_ENCODERS\<close>, a oneof without a size field).
\<close>

section \<open>The surroundings of the encoder\<close>

text \<open>
  \<open>tables\<close> are the descriptor arrays in the constant data of the program, \<open>encode_fn\<close> and
  \<open>ext_encode_fn\<close> the functions at the code addresses stored in \<open>pb_callback_t\<close> and
  \<open>pb_extension_type_t\<close>.
\<close>

record 'u enc_env =
  tables :: "addr \<Rightarrow> pb_field list"
  encode_fn :: "addr \<Rightarrow> pb_field \<Rightarrow> addr \<Rightarrow> mem \<Rightarrow> ('u, unit) oact"
  ext_encode_fn :: "addr \<Rightarrow> addr \<Rightarrow> mem \<Rightarrow> ('u, unit) oact"

type_synonym ('u, 'a) ofact = "('u ostream, 'a) fact"
type_synonym 'u msg_encoder = "pb_field list \<Rightarrow> addr \<Rightarrow> ('u, unit) ofact"

text \<open>\<open>sizeof(bool)\<close> is 1: the loop of \<open>safe_read_bool\<close>.\<close>

definition safe_read_bool :: "mem \<Rightarrow> addr \<Rightarrow> bool" where
  "safe_read_bool m p = list_ex (\<lambda>b. b \<noteq> 0) (load m p 1)"

text \<open>Fields of \<open>pb_callback_t\<close>, \<open>pb_extension_t\<close> and \<open>pb_extension_type_t\<close> (8-byte pointers).\<close>

definition callback_func :: "mem \<Rightarrow> addr \<Rightarrow> addr" where "callback_func m cb = load_ptr m cb"
definition callback_arg :: "addr \<Rightarrow> addr" where "callback_arg cb = cb + 8"
definition ext_type :: "mem \<Rightarrow> addr \<Rightarrow> addr" where "ext_type m ext = load_ptr m ext"
definition ext_dest :: "addr \<Rightarrow> addr" where "ext_dest ext = ext + 8"
definition ext_next :: "mem \<Rightarrow> addr \<Rightarrow> addr" where "ext_next m ext = load_ptr m (ext + 16)"
definition ext_type_decode :: "mem \<Rightarrow> addr \<Rightarrow> addr" where "ext_type_decode m ty = load_ptr m ty"
definition ext_type_encode :: "mem \<Rightarrow> addr \<Rightarrow> addr" where "ext_type_encode m ty = load_ptr m (ty + 8)"
definition ext_type_arg :: "mem \<Rightarrow> addr \<Rightarrow> addr" where "ext_type_arg m ty = load_ptr m (ty + 16)"

section \<open>The proto3 presence test\<close>

text \<open>
  The do-while loop over the fields of a submessage. The iterator visits each entry of the array
  once, so the length of the array bounds the loop.
\<close>

fun iter_all :: "nat \<Rightarrow> (pb_field \<Rightarrow> addr \<Rightarrow> bool option) \<Rightarrow> field_iter \<Rightarrow> bool option" where
  "iter_all 0 p it = None"
| "iter_all (Suc k) p it =
     (case p (cur it) (pData it) of
        None \<Rightarrow> None
      | Some False \<Rightarrow> Some False
      | Some True \<Rightarrow>
          (case pb_field_iter_next it of
             (True, it') \<Rightarrow> iter_all k p it'
           | (False, _) \<Rightarrow> Some True))"

fun pb_check_proto3_default_value ::
  "nat \<Rightarrow> (addr \<Rightarrow> pb_field list) \<Rightarrow> mem \<Rightarrow> pb_field \<Rightarrow> addr \<Rightarrow> bool option" where
  "pb_check_proto3_default_value 0 tbl m field pdata = None"
| "pb_check_proto3_default_value (Suc n) tbl m field pdata =
     (let ty = ftype field;
          psize = addr_add pdata (size_offset field);
          rest =
            (if PB_ATYPE ty = PB_ATYPE_STATIC \<and> PB_LTYPE ty = PB_LTYPE_BYTES
               then Some (load_u32 m pdata = 0)
             else if PB_ATYPE ty = PB_ATYPE_STATIC \<and> PB_LTYPE ty = PB_LTYPE_STRING
               then Some (cells m pdata = 0)
             else if PB_ATYPE ty = PB_ATYPE_STATIC \<and> PB_LTYPE ty = PB_LTYPE_FIXED_LENGTH_BYTES
               then Some (data_size field = 0)
             else if PB_ATYPE ty = PB_ATYPE_STATIC \<and> PB_LTYPE ty = PB_LTYPE_SUBMESSAGE
               then (case pb_field_iter_begin (tbl (ptr field)) pdata of
                       (False, _) \<Rightarrow> Some True
                     | (True, it) \<Rightarrow>
                         iter_all (length (tbl (ptr field)))
                           (\<lambda>f d. pb_check_proto3_default_value n tbl m f d) it)
             else if PB_ATYPE ty = PB_ATYPE_POINTER \<and> PB_LTYPE ty > PB_LTYPE_LAST_PACKABLE
               then Some (load_ptr m pdata = 0)
             else Some (list_all (\<lambda>b. b = 0) (load m pdata (data_size field))))
      in if PB_HTYPE ty = PB_HTYPE_REQUIRED then Some False
         else if PB_HTYPE ty = PB_HTYPE_REPEATED \<and> size_offset field \<noteq> 0
           then Some (load_u32 m psize = 0)
         else if PB_HTYPE ty = PB_HTYPE_REPEATED \<and> PB_ATYPE ty = PB_ATYPE_STATIC then Some False
         else if PB_HTYPE ty = PB_HTYPE_ONEOF then Some (load_u32 m psize = 0)
         else if PB_HTYPE ty = PB_HTYPE_OPTIONAL \<and> size_offset field \<noteq> 0
           then Some (safe_read_bool m psize = False)
         else rest)"

declare pb_check_proto3_default_value.simps [simp del]

section \<open>Encoders of single values\<close>

definition pb_encode_tag_for_field :: "pb_field \<Rightarrow> ('u, unit) oact" where
  "pb_encode_tag_for_field field =
     (let l = PB_LTYPE (ftype field) in
      if l = PB_LTYPE_BOOL \<or> l = PB_LTYPE_VARINT \<or> l = PB_LTYPE_UVARINT \<or> l = PB_LTYPE_SVARINT
        then pb_encode_tag PB_WT_VARINT (tag field)
      else if l = PB_LTYPE_FIXED32 then pb_encode_tag PB_WT_32BIT (tag field)
      else if l = PB_LTYPE_FIXED64 then pb_encode_tag PB_WT_64BIT (tag field)
      else if l = PB_LTYPE_BYTES \<or> l = PB_LTYPE_STRING \<or> l = PB_LTYPE_SUBMESSAGE \<or>
              l = PB_LTYPE_FIXED_LENGTH_BYTES
        then pb_encode_tag PB_WT_STRING (tag field)
      else oerr ''invalid field type'')"

definition pb_enc_bool :: "mem \<Rightarrow> pb_field \<Rightarrow> addr \<Rightarrow> ('u, unit) oact" where
  "pb_enc_bool m field src = pb_encode_varint (if safe_read_bool m src then 1 else 0)"

text \<open>Reading a signed or unsigned integer of \<open>data_size\<close> bytes into 64 bits.\<close>

definition load_signed :: "mem \<Rightarrow> nat \<Rightarrow> addr \<Rightarrow> u64 option" where
  "load_signed m n src =
     (if n = 1 then Some (scast (cells m src))
      else if n = 2 then Some (scast (load_u16 m src))
      else if n = 4 then Some (scast (load_u32 m src))
      else if n = 8 then Some (load_u64 m src)
      else None)"

definition load_unsigned :: "mem \<Rightarrow> nat \<Rightarrow> addr \<Rightarrow> u64 option" where
  "load_unsigned m n src =
     (if n = 1 then Some (ucast (cells m src))
      else if n = 2 then Some (ucast (load_u16 m src))
      else if n = 4 then Some (ucast (load_u32 m src))
      else if n = 8 then Some (load_u64 m src)
      else None)"

definition pb_enc_varint :: "mem \<Rightarrow> pb_field \<Rightarrow> addr \<Rightarrow> ('u, unit) oact" where
  "pb_enc_varint m field src =
     (case load_signed m (data_size field) src of
        None \<Rightarrow> oerr ''invalid data_size''
      | Some value \<Rightarrow> pb_encode_varint value)"

definition pb_enc_uvarint :: "mem \<Rightarrow> pb_field \<Rightarrow> addr \<Rightarrow> ('u, unit) oact" where
  "pb_enc_uvarint m field src =
     (case load_unsigned m (data_size field) src of
        None \<Rightarrow> oerr ''invalid data_size''
      | Some value \<Rightarrow> pb_encode_varint value)"

definition pb_enc_svarint :: "mem \<Rightarrow> pb_field \<Rightarrow> addr \<Rightarrow> ('u, unit) oact" where
  "pb_enc_svarint m field src =
     (case load_signed m (data_size field) src of
        None \<Rightarrow> oerr ''invalid data_size''
      | Some value \<Rightarrow> pb_encode_svarint value)"

definition pb_enc_fixed64 :: "mem \<Rightarrow> pb_field \<Rightarrow> addr \<Rightarrow> ('u, unit) oact" where
  "pb_enc_fixed64 m field src = pb_encode_fixed64 (load_u64 m src)"

definition pb_enc_fixed32 :: "mem \<Rightarrow> pb_field \<Rightarrow> addr \<Rightarrow> ('u, unit) oact" where
  "pb_enc_fixed32 m field src = pb_encode_fixed32 (load_u32 m src)"

text \<open>\<open>pb_bytes_array_t\<close>: a 4-byte size and the bytes after it.\<close>

definition bytes_offset :: nat where "bytes_offset = 4"

definition PB_BYTES_ARRAY_T_ALLOCSIZE :: "nat \<Rightarrow> nat" where
  "PB_BYTES_ARRAY_T_ALLOCSIZE n = size_add n bytes_offset"

definition pb_enc_bytes :: "mem \<Rightarrow> pb_field \<Rightarrow> addr \<Rightarrow> ('u, unit) oact" where
  "pb_enc_bytes m field src =
     (if src = 0 then pb_encode_string [] 0
      else
        let n = unat (load_u32 m src); allocsize = PB_BYTES_ARRAY_T_ALLOCSIZE n in
        if allocsize < n \<or>
           PB_ATYPE (ftype field) = PB_ATYPE_STATIC \<and> data_size field < allocsize
        then oerr ''bytes size exceeded''
        else pb_encode_string (load m (src + bytes_offset) n) n)"

text \<open>The loop that looks for the terminator, at most \<open>k\<close> characters far.\<close>

fun strn_len :: "mem \<Rightarrow> nat \<Rightarrow> addr \<Rightarrow> nat" where
  "strn_len m k p = (if k = 0 \<or> cells m p = 0 then 0 else Suc (strn_len m (k - 1) (p + 1)))"

declare strn_len.simps [simp del]

definition pb_enc_string :: "mem \<Rightarrow> pb_field \<Rightarrow> addr \<Rightarrow> ('u, unit) oact" where
  "pb_enc_string m field src =
     (let max_n = (if PB_ATYPE (ftype field) = PB_ATYPE_POINTER then SIZE_MAX else data_size field);
          n = (if src = 0 then 0 else strn_len m max_n src)
      in pb_encode_string (load m src n) n)"

definition pb_enc_fixed_length_bytes :: "mem \<Rightarrow> pb_field \<Rightarrow> addr \<Rightarrow> ('u, unit) oact" where
  "pb_enc_fixed_length_bytes m field src =
     pb_encode_string (load m src (data_size field)) (data_size field)"

section \<open>Submessages\<close>

text \<open>
  \<open>pb_encode_submessage\<close> with the recursive call \<open>pb_encode\<close> as an argument: a sizing pass, the
  length, and a second pass into a substream whose limit is that length.
\<close>

definition pb_encode_submessage_with :: "('u, unit) ofact \<Rightarrow> ('u, unit) ofact" where
  "pb_encode_submessage_with enc s =
     (case enc PB_OSTREAM_SIZING of
        None \<Rightarrow> None
      | Some (None, sub) \<Rightarrow> Some (None, s\<lparr>oerrmsg := oerrmsg sub\<rparr>)
      | Some (Some _, sub) \<Rightarrow>
          let n = bytes_written sub in
          fthen (fdo (pb_encode_varint (of_nat n))) (\<lambda>_ t.
            if is_sizing (sink t) then fdo (pb_write [] n) t
            else if max_size t < size_add (bytes_written t) n then fdo (oerr ''stream full'') t
            else
              case enc \<lparr>sink = sink t, max_size = n, bytes_written = 0, oerrmsg = None\<rparr> of
                None \<Rightarrow> None
              | Some (status, sub2) \<Rightarrow>
                  let t2 = t\<lparr>bytes_written := size_add (bytes_written t) (bytes_written sub2),
                             sink := sink sub2, oerrmsg := oerrmsg sub2\<rparr>
                  in if bytes_written sub2 \<noteq> n then fdo (oerr ''submsg size changed'') t2
                     else Some (status, t2)) s)"

definition pb_enc_submessage :: "'u enc_env \<Rightarrow> 'u msg_encoder \<Rightarrow> pb_field \<Rightarrow> addr \<Rightarrow> ('u, unit) ofact" where
  "pb_enc_submessage E enc field src =
     (if ptr field = 0 then fdo (oerr ''invalid field descriptor'')
      else pb_encode_submessage_with (enc (tables E (ptr field)) src))"

text \<open>The dispatch table \<open>PB_ENCODERS\<close>.\<close>

definition PB_ENCODERS ::
  "'u enc_env \<Rightarrow> 'u msg_encoder \<Rightarrow> mem \<Rightarrow> byte \<Rightarrow> pb_field \<Rightarrow> addr \<Rightarrow> ('u, unit) ofact" where
  "PB_ENCODERS E enc m l field src =
     (if l = PB_LTYPE_BOOL then fdo (pb_enc_bool m field src)
      else if l = PB_LTYPE_VARINT then fdo (pb_enc_varint m field src)
      else if l = PB_LTYPE_UVARINT then fdo (pb_enc_uvarint m field src)
      else if l = PB_LTYPE_SVARINT then fdo (pb_enc_svarint m field src)
      else if l = PB_LTYPE_FIXED32 then fdo (pb_enc_fixed32 m field src)
      else if l = PB_LTYPE_FIXED64 then fdo (pb_enc_fixed64 m field src)
      else if l = PB_LTYPE_BYTES then fdo (pb_enc_bytes m field src)
      else if l = PB_LTYPE_STRING then fdo (pb_enc_string m field src)
      else if l = PB_LTYPE_SUBMESSAGE then pb_enc_submessage E enc field src
      else if l = PB_LTYPE_FIXED_LENGTH_BYTES then fdo (pb_enc_fixed_length_bytes m field src)
      else (\<lambda>s. None))"

section \<open>Fields\<close>

text \<open>The \<open>for\<close> loops of \<open>encode_array\<close>: \<open>n\<close> items of \<open>step\<close> bytes from address \<open>p\<close> on.\<close>

fun for_items :: "nat \<Rightarrow> nat \<Rightarrow> (addr \<Rightarrow> ('u, unit) ofact) \<Rightarrow> addr \<Rightarrow> ('u, unit) ofact" where
  "for_items 0 step f p = fdo (ret ())"
| "for_items (Suc n) step f p = fthen (f p) (\<lambda>_. for_items n step f (p + step))"

definition encode_array ::
  "mem \<Rightarrow> pb_field \<Rightarrow> addr \<Rightarrow> nat \<Rightarrow> (addr \<Rightarrow> ('u, unit) ofact) \<Rightarrow> ('u, unit) ofact" where
  "encode_array m field pdata count func =
     (if count = 0 then fdo (ret ())
      else if PB_ATYPE (ftype field) \<noteq> PB_ATYPE_POINTER \<and> array_size field < count
        then fdo (oerr ''array max size exceeded'')
      else if PB_LTYPE (ftype field) \<le> PB_LTYPE_LAST_PACKABLE then
        fthen (fdo (pb_encode_tag PB_WT_STRING (tag field))) (\<lambda>_ s.
          let psize =
            (if PB_LTYPE (ftype field) = PB_LTYPE_FIXED32 then Some (Some (size_mul 4 count))
             else if PB_LTYPE (ftype field) = PB_LTYPE_FIXED64 then Some (Some (size_mul 8 count))
             else map_option (\<lambda>(r, t). map_option (\<lambda>_. bytes_written t) r)
                    (for_items count (data_size field) func pdata PB_OSTREAM_SIZING))
          in case psize of
               None \<Rightarrow> None
             | Some None \<Rightarrow> Some (None, s)
             | Some (Some n) \<Rightarrow>
                 fthen (fdo (pb_encode_varint (of_nat n))) (\<lambda>_ t.
                   if is_sizing (sink t) then fdo (pb_write [] n) t
                   else for_items count (data_size field) func pdata t) s)
      else
        for_items count (data_size field)
          (\<lambda>p. fthen (fdo (pb_encode_tag_for_field field)) (\<lambda>_.
             if PB_ATYPE (ftype field) = PB_ATYPE_POINTER \<and>
                (PB_LTYPE (ftype field) = PB_LTYPE_STRING \<or> PB_LTYPE (ftype field) = PB_LTYPE_BYTES)
             then func (load_ptr m p) else func p)) pdata)"

definition encode_basic_field ::
  "nat \<Rightarrow> 'u enc_env \<Rightarrow> 'u msg_encoder \<Rightarrow> mem \<Rightarrow> pb_field \<Rightarrow> addr \<Rightarrow> ('u, unit) ofact" where
  "encode_basic_field n E enc m field pdata0 =
     (let ty = ftype field;
          func = PB_ENCODERS E enc m (PB_LTYPE ty) field;
          psize = addr_add pdata0 (size_offset field);
          has0 = (if size_offset field \<noteq> 0 then Some False
                  else if PB_HTYPE ty = PB_HTYPE_OPTIONAL
                  then map_option Not (pb_check_proto3_default_value n (tables E) m field pdata0)
                  else Some True);
          pdata = (if PB_ATYPE ty = PB_ATYPE_POINTER then load_ptr m pdata0 else pdata0)
      in case has0 of
           None \<Rightarrow> (\<lambda>s. None)
         | Some h \<Rightarrow>
             let implicit_has = (if PB_ATYPE ty = PB_ATYPE_POINTER then pdata \<noteq> 0 else h);
                 field_item = fthen (fdo (pb_encode_tag_for_field field)) (\<lambda>_. func pdata)
             in if PB_HTYPE ty = PB_HTYPE_REQUIRED then
                  if pdata = 0 then fdo (oerr ''missing required field'') else field_item
                else if PB_HTYPE ty = PB_HTYPE_OPTIONAL then
                  if (if size_offset field \<noteq> 0 then safe_read_bool m psize else implicit_has)
                  then field_item else fdo (ret ())
                else if PB_HTYPE ty = PB_HTYPE_REPEATED then
                  encode_array m field pdata
                    (if size_offset field \<noteq> 0 then unat (load_u32 m psize) else array_size field)
                    func
                else if PB_HTYPE ty = PB_HTYPE_ONEOF then
                  if size_offset field = 0 then (\<lambda>s. None)
                  else if load_u32 m psize = tag field then field_item else fdo (ret ())
                else fdo (oerr ''invalid field type''))"

definition encode_callback_field :: "'u enc_env \<Rightarrow> mem \<Rightarrow> pb_field \<Rightarrow> addr \<Rightarrow> ('u, unit) oact" where
  "encode_callback_field E m field pdata s =
     (if callback_func m pdata \<noteq> 0 then
        case encode_fn E (callback_func m pdata) field (callback_arg pdata) m s of
          (None, t) \<Rightarrow> oerr ''callback error'' t
        | (Some _, t) \<Rightarrow> (Some (), t)
      else (Some (), s))"

definition encode_field ::
  "nat \<Rightarrow> 'u enc_env \<Rightarrow> 'u msg_encoder \<Rightarrow> mem \<Rightarrow> pb_field \<Rightarrow> addr \<Rightarrow> ('u, unit) ofact" where
  "encode_field n E enc m field pdata =
     (let a = PB_ATYPE (ftype field) in
      if a = PB_ATYPE_STATIC \<or> a = PB_ATYPE_POINTER then encode_basic_field n E enc m field pdata
      else if a = PB_ATYPE_CALLBACK then fdo (encode_callback_field E m field pdata)
      else fdo (oerr ''invalid field type''))"

section \<open>Extensions\<close>

definition default_extension_encoder ::
  "nat \<Rightarrow> 'u enc_env \<Rightarrow> 'u msg_encoder \<Rightarrow> mem \<Rightarrow> addr \<Rightarrow> ('u, unit) ofact" where
  "default_extension_encoder n E enc m ext =
     (let field = tables E (ext_type_arg m (ext_type m ext)) ! 0 in
      if PB_ATYPE (ftype field) = PB_ATYPE_POINTER
      then encode_field n E enc m field (ext_dest ext)
      else encode_field n E enc m field (load_ptr m (ext_dest ext)))"

text \<open>The \<open>while\<close> loop over the list of registered extensions.\<close>

fun extension_loop ::
  "nat \<Rightarrow> nat \<Rightarrow> 'u enc_env \<Rightarrow> 'u msg_encoder \<Rightarrow> mem \<Rightarrow> addr \<Rightarrow> ('u, unit) ofact" where
  "extension_loop 0 n E enc m ext = (if ext = 0 then fdo (ret ()) else (\<lambda>s. None))"
| "extension_loop (Suc k) n E enc m ext =
     (if ext = 0 then fdo (ret ())
      else
        let encode = ext_type_encode m (ext_type m ext) in
        fthen (if encode \<noteq> 0 then fdo (ext_encode_fn E encode ext m)
               else default_extension_encoder n E enc m ext)
          (\<lambda>_. extension_loop k n E enc m (ext_next m ext)))"

definition encode_extension_field ::
  "nat \<Rightarrow> 'u enc_env \<Rightarrow> 'u msg_encoder \<Rightarrow> mem \<Rightarrow> addr \<Rightarrow> ('u, unit) ofact" where
  "encode_extension_field n E enc m pdata = extension_loop n n E enc m (load_ptr m pdata)"

section \<open>Messages\<close>

fun iter_encode :: "nat \<Rightarrow> (pb_field \<Rightarrow> addr \<Rightarrow> ('u, unit) ofact) \<Rightarrow> field_iter \<Rightarrow> ('u, unit) ofact" where
  "iter_encode 0 f it = (\<lambda>s. None)"
| "iter_encode (Suc k) f it =
     fthen (f (cur it) (pData it))
       (\<lambda>_. case pb_field_iter_next it of
              (True, it') \<Rightarrow> iter_encode k f it'
            | (False, _) \<Rightarrow> fdo (ret ()))"

fun pb_encode :: "nat \<Rightarrow> 'u enc_env \<Rightarrow> mem \<Rightarrow> pb_field list \<Rightarrow> addr \<Rightarrow> ('u, unit) ofact" where
  "pb_encode 0 E m fs src = (\<lambda>s. None)"
| "pb_encode (Suc n) E m fs src =
     (let enc = (\<lambda>fs' src'. pb_encode n E m fs' src') in
      case pb_field_iter_begin fs src of
        (False, _) \<Rightarrow> fdo (ret ())
      | (True, it) \<Rightarrow>
          iter_encode (length fs)
            (\<lambda>field pdata.
               if PB_LTYPE (ftype field) = PB_LTYPE_EXTENSION
               then encode_extension_field n E enc m pdata
               else encode_field n E enc m field pdata) it)"

declare pb_encode.simps [simp del]

definition pb_encode_submessage :: "nat \<Rightarrow> 'u enc_env \<Rightarrow> mem \<Rightarrow> pb_field list \<Rightarrow> addr \<Rightarrow> ('u, unit) ofact" where
  "pb_encode_submessage n E m fs src = pb_encode_submessage_with (pb_encode n E m fs src)"

definition pb_encode_delimited :: "nat \<Rightarrow> 'u enc_env \<Rightarrow> mem \<Rightarrow> pb_field list \<Rightarrow> addr \<Rightarrow> ('u, unit) ofact" where
  "pb_encode_delimited n E m fs src = pb_encode_submessage n E m fs src"

definition pb_encode_nullterminated :: "nat \<Rightarrow> 'u enc_env \<Rightarrow> mem \<Rightarrow> pb_field list \<Rightarrow> addr \<Rightarrow> ('u, unit) ofact" where
  "pb_encode_nullterminated n E m fs src =
     fthen (pb_encode n E m fs src) (\<lambda>_. fdo (pb_write [0] 1))"

definition pb_get_encoded_size :: "nat \<Rightarrow> 'u enc_env \<Rightarrow> mem \<Rightarrow> pb_field list \<Rightarrow> addr \<Rightarrow> nat option option" where
  "pb_get_encoded_size n E m fs src =
     map_option (\<lambda>(r, t). map_option (\<lambda>_. bytes_written t) r) (pb_encode n E m fs src PB_OSTREAM_SIZING)"


section \<open>The bytes an encoder emits\<close>

text \<open>
  \<open>emits m bs\<close>: on a sizing stream \<open>m\<close> succeeds and counts the length of \<open>bs\<close>; on a buffer it
  writes exactly \<open>bs\<close> when they fit, and otherwise fails. \<open>never m\<close>: \<open>m\<close> succeeds on no stream.
\<close>

definition emits :: "('u, unit) ofact \<Rightarrow> byte list \<Rightarrow> bool" where
  "emits m bs \<longleftrightarrow>
     (\<forall>s. is_sizing (sink s) \<and> bytes_written s < 2 ^ 64 \<longrightarrow>
        m s = Some (Some (), s\<lparr>bytes_written := size_add (bytes_written s) (length bs)\<rparr>)) \<and>
     (\<forall>s mem p. sink s = Buf_sink mem p \<and> wf_ostream s \<and> oerrmsg s = None \<and> max_size s < 2 ^ 63 \<and> length bs < 2 ^ 63 \<longrightarrow>
        (if bytes_written s + length bs \<le> max_size s
         then m s = Some (Some (), s\<lparr>sink := Buf_sink (buf_write mem p bs) (p + length bs),
                                    bytes_written := bytes_written s + length bs\<rparr>)
         else \<exists>t. m s = Some (None, t)))"

definition never :: "('u, unit) ofact \<Rightarrow> bool" where
  "never m \<longleftrightarrow> (\<forall>s u t. m s \<noteq> Some (Some u, t))"

lemma emits_sizing:
  "emits m bs \<Longrightarrow> is_sizing (sink s) \<Longrightarrow> bytes_written s < 2 ^ 64 \<Longrightarrow>
   m s = Some (Some (), s\<lparr>bytes_written := size_add (bytes_written s) (length bs)\<rparr>)"
  by (simp add: emits_def)

lemma emits_PB_OSTREAM_SIZING:
  "emits m bs \<Longrightarrow> m PB_OSTREAM_SIZING =
   Some (Some (), PB_OSTREAM_SIZING\<lparr>bytes_written := length bs mod 2 ^ 64\<rparr>)"
  by (subst emits_sizing) (simp_all add: PB_OSTREAM_SIZING_def size_add_def)

lemma emits_Buf:
  "emits m bs \<Longrightarrow> sink s = Buf_sink mem p \<Longrightarrow> wf_ostream s \<Longrightarrow> oerrmsg s = None \<Longrightarrow> max_size s < 2 ^ 63 \<Longrightarrow>
   length bs < 2 ^ 63 \<Longrightarrow> bytes_written s + length bs \<le> max_size s \<Longrightarrow>
   m s = Some (Some (), s\<lparr>sink := Buf_sink (buf_write mem p bs) (p + length bs),
                         bytes_written := bytes_written s + length bs\<rparr>)"
  by (auto simp: emits_def)

lemma emits_Buf_full:
  "emits m bs \<Longrightarrow> sink s = Buf_sink mem p \<Longrightarrow> wf_ostream s \<Longrightarrow> oerrmsg s = None \<Longrightarrow> max_size s < 2 ^ 63 \<Longrightarrow>
   length bs < 2 ^ 63 \<Longrightarrow> max_size s < bytes_written s + length bs \<Longrightarrow> \<exists>t. m s = Some (None, t)"
  by (auto simp: emits_def)

lemma emitsI:
  assumes "\<And>s. is_sizing (sink s) \<Longrightarrow> bytes_written s < 2 ^ 64 \<Longrightarrow>
      m s = Some (Some (), s\<lparr>bytes_written := size_add (bytes_written s) (length bs)\<rparr>)"
    and "\<And>s mem p. sink s = Buf_sink mem p \<Longrightarrow> wf_ostream s \<Longrightarrow> oerrmsg s = None \<Longrightarrow> max_size s < 2 ^ 63 \<Longrightarrow>
      length bs < 2 ^ 63 \<Longrightarrow> bytes_written s + length bs \<le> max_size s \<Longrightarrow>
      m s = Some (Some (), s\<lparr>sink := Buf_sink (buf_write mem p bs) (p + length bs),
                            bytes_written := bytes_written s + length bs\<rparr>)"
    and "\<And>s mem p. sink s = Buf_sink mem p \<Longrightarrow> wf_ostream s \<Longrightarrow> oerrmsg s = None \<Longrightarrow> max_size s < 2 ^ 63 \<Longrightarrow>
      length bs < 2 ^ 63 \<Longrightarrow> max_size s < bytes_written s + length bs \<Longrightarrow> \<exists>t. m s = Some (None, t)"
  shows "emits m bs"
  using assms by (auto simp: emits_def)

lemma size_add_add: "size_add (size_add a b) c = size_add a (b + c)"
  by (simp add: size_add_def mod_add_left_eq add.assoc)

lemma size_add_mod: "size_add a (b mod 18446744073709551616) = size_add a b"
  by (simp add: size_add_def mod_add_right_eq)

lemma emits_ret: "emits (fdo (ret ())) []"
  by (rule emitsI) (simp_all add: size_add_def wf_ostream_def)

lemma emits_write: "emits (fdo (pb_write bs (length bs))) bs"
proof (rule emitsI)
  fix s :: "'u ostream" and mem p
  assume "sink s = Buf_sink mem p" "wf_ostream s" "length bs < 2 ^ 63" "max_size s < bytes_written s + length bs"
  then have "pb_write bs (length bs) s = oerr ''stream full'' s"
    by (intro pb_write_full) auto
  then show "\<exists>t. fdo (pb_write bs (length bs)) s = Some (None, t)"
    by (simp add: oerr_def)
qed (simp_all add: pb_write_Buf)

lemma emits_fthen:
  assumes a: "emits m bs" and b: "emits k cs"
  shows "emits (fthen m (\<lambda>_. k)) (bs @ cs)"
proof (rule emitsI)
  fix s :: "'a ostream" and mem p
  assume s: "sink s = Buf_sink mem p" "wf_ostream s" "oerrmsg s = None" "max_size s < 2 ^ 63" "length (bs @ cs) < 2 ^ 63"
  let ?t = "s\<lparr>sink := Buf_sink (buf_write mem p bs) (p + length bs), bytes_written := bytes_written s + length bs\<rparr>"
  have m: "m s = Some (Some (), ?t)" if "bytes_written s + length bs \<le> max_size s"
    using emits_Buf [OF a s(1-4)] s(5) that by simp
  have wft: "wf_ostream ?t" if "bytes_written s + length bs \<le> max_size s"
    using s that by (auto simp: wf_ostream_def)
  {
    assume "bytes_written s + length (bs @ cs) \<le> max_size s"
    then show "fthen m (\<lambda>_. k) s = Some (Some (), s\<lparr>sink := Buf_sink (buf_write mem p (bs @ cs))
        (p + length (bs @ cs)), bytes_written := bytes_written s + length (bs @ cs)\<rparr>)"
      using m wft emits_Buf [OF b, of ?t] s by (simp add: buf_write_append wf_ostream_def add.assoc)
  }
  assume full: "max_size s < bytes_written s + length (bs @ cs)"
  show "\<exists>t. fthen m (\<lambda>_. k) s = Some (None, t)"
  proof (cases "bytes_written s + length bs \<le> max_size s")
    case True
    then show ?thesis
      using m wft emits_Buf_full [OF b, of ?t] s full by (simp add: add.assoc)
  next
    case False
    then show ?thesis
      using emits_Buf_full [OF a s(1-4)] s(5) by (auto simp: fthen_def)
  qed
next
  fix s :: "'a ostream"
  assume "is_sizing (sink s)" "bytes_written s < 2 ^ 64"
  then show "fthen m (\<lambda>_. k) s = Some (Some (), s\<lparr>bytes_written := size_add (bytes_written s) (length (bs @ cs))\<rparr>)"
    using emits_sizing [OF a, of s] emits_sizing [OF b] by (simp add: size_add_add)
qed

lemma neverD: "never m \<Longrightarrow> m s \<noteq> Some (Some u, t)"
  by (auto simp: never_def)

lemma never_oerr: "never (fdo (oerr msg))"
  by (simp add: never_def oerr_def)

lemma never_fthen: "never m \<or> never k \<Longrightarrow> never (fthen m (\<lambda>_. k))"
  by (auto simp: never_def fthen_def split: option.splits prod.splits)

section \<open>Lengths, strings and submessages\<close>

lemma emits_varint: "emits (fdo (pb_encode_varint v)) (varint_bytes v)"
  by (simp add: pb_encode_varint_def emits_write)

lemma emits_string:
  assumes "n = length bs"
  shows "emits (fdo (pb_encode_string bs n)) (string_bytes bs)"
proof -
  have "fdo (pb_encode_string bs n) =
      (fthen (fdo (pb_encode_varint (of_nat n))) (\<lambda>_. fdo (pb_write bs n)) :: ('a, unit) ofact)"
    by (simp add: pb_encode_string_def fthen_fdo)
  then show ?thesis
    using emits_fthen [OF emits_varint [of "of_nat n"] emits_write [of bs]] assms
    by (simp add: string_bytes_def)
qed

text \<open>The simplifier writes \<open>2 ^ 64\<close> as a numeral; the rule has that form.\<close>

lemma of_nat_mod_64: "(of_nat (n mod 18446744073709551616) :: u64) = of_nat n"
proof -
  have "n mod 18446744073709551616 = take_bit 64 n" by (simp add: take_bit_eq_mod)
  then show ?thesis
    by (simp only:) (rule bit_word_eqI, simp add: bit_simps)
qed

text \<open>The submessage writes the length-prefixed bytes of its content; the second pass cannot differ.\<close>

lemma emits_submessage:
  assumes enc: "emits enc bs"
  shows "emits (pb_encode_submessage_with enc) (string_bytes bs)"
proof (rule emitsI)
  let ?n = "length bs mod 2 ^ 64"
  let ?v = "varint_bytes (of_nat (length bs))"
  note [simp] = emits_PB_OSTREAM_SIZING [OF enc]
  {
    fix s :: "'a ostream"
    assume s: "is_sizing (sink s)" "bytes_written s < 2 ^ 64"
    note emits_sizing [OF emits_varint [of "of_nat (length bs)"], of s]
    then show "pb_encode_submessage_with enc s =
        Some (Some (), s\<lparr>bytes_written := size_add (bytes_written s) (length (string_bytes bs))\<rparr>)"
      using s by (simp add: pb_encode_submessage_with_def Let_def of_nat_mod_64 string_bytes_def size_add_add size_add_mod)
  }
  fix s :: "'a ostream" and mem p
  assume s: "sink s = Buf_sink mem p" "wf_ostream s" "oerrmsg s = None" "max_size s < 2 ^ 63" "length (string_bytes bs) < 2 ^ 63"
  have len: "length bs < 2 ^ 63" "?n = length bs" "length ?v < 2 ^ 63"
    using s(5) by (auto simp: string_bytes_def)
  let ?t = "s\<lparr>sink := Buf_sink (buf_write mem p ?v) (p + length ?v), bytes_written := bytes_written s + length ?v\<rparr>"
  have wr: "pb_encode_varint (of_nat (length bs)) s = (Some (), ?t)"
    if "bytes_written s + length ?v \<le> max_size s"
    using emits_Buf [OF emits_varint [of "of_nat (length bs)"] s(1-4) len(3) that] by simp
  have add: "size_add (bytes_written ?t) (length bs) = bytes_written s + length ?v + length bs"
    if "bytes_written s + length ?v \<le> max_size s"
    using that s(4) len(1) by (simp add: size_simps)
  {
    assume fits: "bytes_written s + length (string_bytes bs) \<le> max_size s"
    let ?sub = "\<lparr>sink = sink ?t, max_size = length bs, bytes_written = 0, oerrmsg = None\<rparr>"
    have "wf_ostream ?sub"
      using s fits len by (auto simp: wf_ostream_def string_bytes_def)
    then have sub: "enc ?sub = Some (Some (), ?sub\<lparr>sink := Buf_sink (buf_write mem p (?v @ bs))
        (p + length (?v @ bs)), bytes_written := length bs\<rparr>)"
      using emits_Buf [OF enc, of ?sub] len s fits
      by (simp add: buf_write_append wf_ostream_def string_bytes_def add.assoc)
    show "pb_encode_submessage_with enc s = Some (Some (), s\<lparr>sink := Buf_sink (buf_write mem p (string_bytes bs))
        (p + length (string_bytes bs)), bytes_written := bytes_written s + length (string_bytes bs)\<rparr>)"
      using wr add sub fits len s(3)
      by (cases s) (simp add: pb_encode_submessage_with_def Let_def of_nat_mod_64 string_bytes_def add.assoc)
  }
  assume full: "max_size s < bytes_written s + length (string_bytes bs)"
  show "\<exists>t. pb_encode_submessage_with enc s = Some (None, t)"
  proof (cases "bytes_written s + length ?v \<le> max_size s")
    case True
    with wr add full len show ?thesis
      by (simp add: pb_encode_submessage_with_def Let_def string_bytes_def add.assoc oerr_def)
  next
    case False
    then obtain t where "pb_encode_varint (of_nat (length bs)) s = (None, t)"
      using emits_Buf_full [OF emits_varint [of "of_nat (length bs)"] s(1-4) len(3)] by auto
    with len show ?thesis
      by (simp add: pb_encode_submessage_with_def Let_def)
  qed
qed


text \<open>Arrays: on a sizing stream the packed data is only counted.\<close>

lemma emits_sized:
  assumes "emits items bs" "n = length bs mod 2 ^ 64"
  shows "emits (\<lambda>t. if is_sizing (sink t) then fdo (pb_write [] n) t else items t) bs"
  using assms by (intro emitsI) (auto simp: size_add_mod dest: emits_Buf emits_Buf_full)

lemma never_sizing: "never m \<Longrightarrow> map_option (\<lambda>(r, t). map_option (g t) r) (m s) \<in> {None, Some None}"
  by (cases "m s"; cases "fst (the (m s))") (auto dest: neverD)

lemma emits_for_items:
  "(\<And>p. \<exists>bs. length bs = k \<and> emits (f p) bs) \<Longrightarrow> \<exists>bs. length bs = k * n \<and> emits (for_items n step f p) bs"
proof (induction n arbitrary: p)
  case 0
  show ?case using emits_ret by (intro exI [of _ "[]"] conjI) (simp_all only: for_items.simps list.size mult_0_right)
next
  case (Suc n)
  obtain a where a: "length a = k" "emits (f p) a" using Suc.prems by blast
  obtain b where b: "length b = k * n" "emits (for_items n step f (p + step)) b"
    using Suc.IH Suc.prems by blast
  show ?case
    using emits_fthen [OF a(2) b(2)] a(1) b(1) by (intro exI [of _ "a @ b"]) auto
qed

lemma fixed_items:
  "emits (fdo (pb_enc_fixed32 m field p)) (fixed32_bytes (load_u32 m p))"
  "emits (fdo (pb_enc_fixed64 m field p)) (fixed64_bytes (load_u64 m p))"
  using emits_write [of "fixed32_bytes (load_u32 m p)"] emits_write [of "fixed64_bytes (load_u64 m p)"]
  by (simp_all add: pb_enc_fixed32_def pb_enc_fixed64_def pb_encode_fixed32_def pb_encode_fixed64_def)


end
