(* ===== verification/PbRelease.thy ===== *)
theory PbRelease
  imports PbEncode
begin

text \<open>
  The part of the nanopb decoder that works on the message structure alone
  (\<open>pb_decode.c\<close>): setting a structure to its default values before decoding and releasing what
  a structure has allocated. Both follow the descriptor tables \<open>tbl\<close> and the lists of extensions;
  they cannot fail, and \<open>None\<close> is the end of the fuel.
\<close>

section \<open>Walking over a message\<close>

text \<open>The do-while loop over the fields of a message, for functions of the memory.\<close>

fun iter_mem :: "nat \<Rightarrow> (field_iter \<Rightarrow> mem \<Rightarrow> mem option) \<Rightarrow> field_iter \<Rightarrow> mem \<Rightarrow> mem option" where
  "iter_mem 0 f it m = None"
| "iter_mem (Suc k) f it m =
     (case f it m of
        None \<Rightarrow> None
      | Some m' \<Rightarrow>
          (case pb_field_iter_next it of
             (True, it') \<Rightarrow> iter_mem k f it' m'
           | (False, _) \<Rightarrow> Some m'))"

text \<open>A counted loop over the items of an array, \<open>step\<close> bytes apart.\<close>

fun mem_items :: "nat \<Rightarrow> nat \<Rightarrow> (addr \<Rightarrow> mem \<Rightarrow> mem option) \<Rightarrow> addr \<Rightarrow> mem \<Rightarrow> mem option" where
  "mem_items 0 step f p m = Some m"
| "mem_items (Suc k) step f p m =
     (case f p m of None \<Rightarrow> None | Some m' \<Rightarrow> mem_items k step f (p + step) m')"

text \<open>The last field of \<open>pb_extension_t\<close>.\<close>

definition ext_found :: "addr \<Rightarrow> addr" where "ext_found ext = ext + 24"

definition iter_from_extension :: "(addr \<Rightarrow> pb_field list) \<Rightarrow> mem \<Rightarrow> addr \<Rightarrow> field_iter" where
  "iter_from_extension tbl m ext =
     (let fs = tbl (ext_type_arg m (ext_type m ext));
          dest = load_ptr m (ext_dest ext);
          it = (snd (pb_field_iter_begin fs dest))\<lparr>pData := dest, pSize := ext_found ext\<rparr>
      in if PB_ATYPE (ftype (fs ! 0)) = PB_ATYPE_POINTER then it\<lparr>pData := ext_dest ext\<rparr> else it)"

section \<open>Default values\<close>

fun pb_field_set_to_default :: "nat \<Rightarrow> (addr \<Rightarrow> pb_field list) \<Rightarrow> field_iter \<Rightarrow> mem \<Rightarrow> mem option"
  and ext_set_to_default :: "nat \<Rightarrow> (addr \<Rightarrow> pb_field list) \<Rightarrow> addr \<Rightarrow> mem \<Rightarrow> mem option"
  and pb_message_set_to_defaults :: "nat \<Rightarrow> (addr \<Rightarrow> pb_field list) \<Rightarrow> pb_field list \<Rightarrow> addr \<Rightarrow> mem \<Rightarrow> mem option"
where
  "pb_field_set_to_default 0 tbl it m = None"
| "pb_field_set_to_default (Suc n) tbl it m =
     (let f = cur it; ty = ftype f in
      if PB_LTYPE ty = PB_LTYPE_EXTENSION then ext_set_to_default n tbl (load_ptr m (pData it)) m
      else if PB_ATYPE ty = PB_ATYPE_STATIC then
        let has_flag = (PB_HTYPE ty = PB_HTYPE_OPTIONAL \<and> pSize it \<noteq> pData it);
            counted = (PB_HTYPE ty = PB_HTYPE_REPEATED \<or> PB_HTYPE ty = PB_HTYPE_ONEOF)
        in if \<not> has_flag \<and> counted then Some (store_u32 (pSize it) 0 m)
           else
             let m1 = (if has_flag then store (pSize it) [0] m else m) in
             if PB_LTYPE ty = PB_LTYPE_SUBMESSAGE
             then pb_message_set_to_defaults n tbl (tbl (ptr f)) (pData it) m1
             else if ptr f \<noteq> 0 then Some (store (pData it) (load m1 (ptr f) (data_size f)) m1)
             else Some (store_zeros (pData it) (data_size f) m1)
      else if PB_ATYPE ty = PB_ATYPE_POINTER then
        let m1 = store_ptr (pData it) 0 m in
        if PB_HTYPE ty = PB_HTYPE_REPEATED \<or> PB_HTYPE ty = PB_HTYPE_ONEOF
        then Some (store_u32 (pSize it) 0 m1) else Some m1
      else Some m)"
| "ext_set_to_default 0 tbl ext m = (if ext = 0 then Some m else None)"
| "ext_set_to_default (Suc n) tbl ext m =
     (if ext = 0 then Some m
      else
        let m1 = store (ext_found ext) [0] m in
        case pb_field_set_to_default n tbl (iter_from_extension tbl m1 ext) m1 of
          None \<Rightarrow> None
        | Some m2 \<Rightarrow> ext_set_to_default n tbl (ext_next m2 ext) m2)"
| "pb_message_set_to_defaults 0 tbl fs dest m = None"
| "pb_message_set_to_defaults (Suc n) tbl fs dest m =
     (case pb_field_iter_begin fs dest of
        (False, _) \<Rightarrow> Some m
      | (True, it) \<Rightarrow> iter_mem (length fs) (\<lambda>it' m'. pb_field_set_to_default n tbl it' m') it m)"

declare pb_field_set_to_default.simps [simp del] ext_set_to_default.simps [simp del]
  pb_message_set_to_defaults.simps [simp del]

section \<open>Release\<close>

text \<open>The loop over the entries of a repeated string or bytes field.\<close>

fun free_entries :: "nat \<Rightarrow> addr \<Rightarrow> mem \<Rightarrow> mem" where
  "free_entries 0 item m = m"
| "free_entries (Suc k) item m =
     free_entries k (item + SIZEOF_PTR) (store_ptr item 0 (pb_free (load_ptr m item) m))"

definition release_count :: "mem \<Rightarrow> field_iter \<Rightarrow> nat" where
  "release_count m it =
     (let f = cur it; static = (PB_ATYPE (ftype f) = PB_ATYPE_STATIC) in
      if PB_HTYPE (ftype f) = PB_HTYPE_REPEATED then
        let count = (if static \<and> pSize it = pData it then array_size f
                     else unat (load_u32 m (pSize it)))
        in if static \<and> array_size f < count then array_size f else count
      else 1)"

text \<open>The end of \<open>pb_release_single_field\<close>, for pointer fields.\<close>

definition release_pointer :: "field_iter \<Rightarrow> mem \<Rightarrow> mem" where
  "release_pointer it m =
     (let f = cur it; ty = ftype f;
          m1 = (if PB_HTYPE ty = PB_HTYPE_REPEATED \<and>
                   (PB_LTYPE ty = PB_LTYPE_STRING \<or> PB_LTYPE ty = PB_LTYPE_BYTES)
                then free_entries (unat (load_u32 m (pSize it))) (load_ptr m (pData it)) m else m);
          m2 = (if PB_HTYPE ty = PB_HTYPE_REPEATED then store_u32 (pSize it) 0 m1 else m1)
      in store_ptr (pData it) 0 (pb_free (load_ptr m2 (pData it)) m2))"

fun pb_release_single_field :: "nat \<Rightarrow> (addr \<Rightarrow> pb_field list) \<Rightarrow> field_iter \<Rightarrow> mem \<Rightarrow> mem option"
  and ext_release :: "nat \<Rightarrow> (addr \<Rightarrow> pb_field list) \<Rightarrow> addr \<Rightarrow> mem \<Rightarrow> mem option"
  and pb_release :: "nat \<Rightarrow> (addr \<Rightarrow> pb_field list) \<Rightarrow> pb_field list \<Rightarrow> addr \<Rightarrow> mem \<Rightarrow> mem option"
where
  "pb_release_single_field 0 tbl it m = None"
| "pb_release_single_field (Suc n) tbl it m =
     (let f = cur it; ty = ftype f in
      if PB_HTYPE ty = PB_HTYPE_ONEOF \<and> load_u32 m (pSize it) \<noteq> tag f then Some m
      else
        let inner =
          (if PB_LTYPE ty = PB_LTYPE_EXTENSION then ext_release n tbl (load_ptr m (pData it)) m
           else if PB_LTYPE ty = PB_LTYPE_SUBMESSAGE \<and> PB_ATYPE ty \<noteq> PB_ATYPE_CALLBACK then
             let item = (if PB_ATYPE ty = PB_ATYPE_POINTER then load_ptr m (pData it) else pData it) in
             if item \<noteq> 0
             then mem_items (release_count m it) (data_size f)
                    (\<lambda>p m'. pb_release n tbl (tbl (ptr f)) p m') item m
             else Some m
           else Some m)
        in case inner of
             None \<Rightarrow> None
           | Some m1 \<Rightarrow> Some (if PB_ATYPE ty = PB_ATYPE_POINTER then release_pointer it m1 else m1))"
| "ext_release 0 tbl ext m = (if ext = 0 then Some m else None)"
| "ext_release (Suc n) tbl ext m =
     (if ext = 0 then Some m
      else
        case pb_release_single_field n tbl (iter_from_extension tbl m ext) m of
          None \<Rightarrow> None
        | Some m1 \<Rightarrow> ext_release n tbl (ext_next m1 ext) m1)"
| "pb_release 0 tbl fs dest m = None"
| "pb_release (Suc n) tbl fs dest m =
     (if dest = 0 then Some m
      else
        case pb_field_iter_begin fs dest of
          (False, _) \<Rightarrow> Some m
        | (True, it) \<Rightarrow> iter_mem (length fs) (\<lambda>it' m'. pb_release_single_field n tbl it' m') it m)"

declare pb_release_single_field.simps [simp del] ext_release.simps [simp del] pb_release.simps [simp del]

end
