(* ===== verification/PbDecode.thy ===== *)
theory PbDecode
  imports PbRelease
begin

text \<open>
  The message decoder of nanopb (\<open>pb_decode.c\<close>). The state is the input stream together with
  the memory the message is built in. The callbacks of the application are parameters. Fuel bounds
  the nesting of calls (see \<open>PbMem\<close>); loops over the stream are bounded by what is left of it, so
  that a loop only runs out when a callback does not consume anything. \<open>None\<close> is also the result
  where the C code has no defined behaviour (a \<open>NULL\<close> entry of \<open>PB_DECODERS\<close>, a division by a
  zero \<open>data_size\<close>).
\<close>

section \<open>The state of the decoder\<close>

type_synonym 'u dstate = "'u istream \<times> mem"
type_synonym ('u, 'a) dact = "('u dstate, 'a) act"
type_synonym ('u, 'a) dfact = "('u dstate, 'a) fact"

text \<open>
  \<open>decode_fn\<close> and \<open>ext_decode_fn\<close> are the functions at the code addresses stored in messages and
  extension types; \<open>stack_slot n\<close> is where \<open>pb_decode_noinit\<close> keeps its local \<open>fixed_count_size\<close>,
  whose address it takes, at nesting level \<open>n\<close>.
\<close>

record 'u dec_env =
  dtables :: "addr \<Rightarrow> pb_field list"
  decode_fn :: "addr \<Rightarrow> pb_field \<Rightarrow> addr \<Rightarrow> ('u, unit) dact"
  ext_decode_fn :: "addr \<Rightarrow> addr \<Rightarrow> u32 \<Rightarrow> pb_wire_type \<Rightarrow> ('u, unit) dact"
  stack_slot :: "nat \<Rightarrow> addr"

text \<open>\<open>pb_decode\<close> or \<open>pb_decode_noinit\<close>, as the flag says, of a submessage.\<close>

type_synonym 'u msg_decoder = "bool \<Rightarrow> pb_field list \<Rightarrow> addr \<Rightarrow> ('u, unit) dfact"

definition on_stream :: "('u, 'a) iact \<Rightarrow> ('u, 'a) dact" where
  "on_stream f = (\<lambda>(s, m). case f s of (r, t) \<Rightarrow> (r, (t, m)))"

definition on_mem :: "(mem \<Rightarrow> mem) \<Rightarrow> ('u, unit) dact" where
  "on_mem g = (\<lambda>(s, m). (Some (), (s, g m)))"

definition on_mem_fuel :: "(mem \<Rightarrow> mem option) \<Rightarrow> ('u, unit) dfact" where
  "on_mem_fuel g = (\<lambda>(s, m). map_option (\<lambda>m'. (Some (), (s, m'))) (g m))"

definition derr :: "string \<Rightarrow> ('u, 'a) dact" where
  "derr msg = on_stream (ierr msg)"

text \<open>Code that looks at the stream or the memory, and code that runs whatever came before returned.\<close>

definition with_state :: "('u istream \<Rightarrow> mem \<Rightarrow> 'u dstate \<Rightarrow> 'r) \<Rightarrow> 'u dstate \<Rightarrow> 'r" where
  "with_state f = (\<lambda>(s, m). f s m (s, m))"

lemma with_state_pair [simp]: "with_state f (s, m) = f s m (s, m)"
  by (simp add: with_state_def)

definition finally_mem :: "(mem \<Rightarrow> mem) \<Rightarrow> ('u, 'a) dact \<Rightarrow> ('u, 'a) dact" where
  "finally_mem g f = (\<lambda>st. case f st of (r, (s, m)) \<Rightarrow> (r, (s, g m)))"

section \<open>Decoders of single values\<close>

definition pb_dec_bool :: "pb_field \<Rightarrow> addr \<Rightarrow> ('u, unit) dact" where
  "pb_dec_bool field dest =
     and_then (on_stream pb_decode_varint32) (\<lambda>value. on_mem (store dest [if value \<noteq> 0 then 1 else 0]))"

text \<open>\<open>pb_decode_bool\<close> passes a \<open>NULL\<close> descriptor, which is not looked at.\<close>

definition pb_decode_bool :: "addr \<Rightarrow> ('u, unit) dact" where
  "pb_decode_bool dest =
     pb_dec_bool \<lparr>tag = 0, ftype = 0, data_offset = 0, size_offset = 0, data_size = 0, array_size = 0, ptr = 0\<rparr> dest"

text \<open>\<open>if (clamped != value) PB_RETURN_ERROR(stream, "integer too large")\<close>\<close>

definition clamp_check :: "u64 \<Rightarrow> u64 \<Rightarrow> ('u, unit) dact" where
  "clamp_check clamped value = (if clamped \<noteq> value then derr ''integer too large'' else ret ())"

text \<open>Storing a 64-bit value into a signed or unsigned field of \<open>data_size\<close> bytes.\<close>

definition store_signed :: "nat \<Rightarrow> addr \<Rightarrow> u64 \<Rightarrow> ('u, unit) dact" where
  "store_signed n dest value =
     (if n = 8 then and_then (on_mem (store_u64 dest value)) (\<lambda>_. clamp_check value value)
      else if n = 4 then
        and_then (on_mem (store_u32 dest (ucast value))) (\<lambda>_. clamp_check (scast (ucast value :: u32)) value)
      else if n = 2 then
        and_then (on_mem (store dest (u16_bytes (ucast value)))) (\<lambda>_. clamp_check (scast (ucast value :: u16)) value)
      else if n = 1 then
        and_then (on_mem (store dest [ucast value])) (\<lambda>_. clamp_check (scast (ucast value :: byte)) value)
      else derr ''invalid data_size'')"

definition store_unsigned :: "nat \<Rightarrow> addr \<Rightarrow> u64 \<Rightarrow> ('u, unit) dact" where
  "store_unsigned n dest value =
     (if n = 8 then and_then (on_mem (store_u64 dest value)) (\<lambda>_. clamp_check value value)
      else if n = 4 then
        and_then (on_mem (store_u32 dest (ucast value))) (\<lambda>_. clamp_check (ucast (ucast value :: u32)) value)
      else if n = 2 then
        and_then (on_mem (store dest (u16_bytes (ucast value)))) (\<lambda>_. clamp_check (ucast (ucast value :: u16)) value)
      else if n = 1 then
        and_then (on_mem (store dest [ucast value])) (\<lambda>_. clamp_check (ucast (ucast value :: byte)) value)
      else derr ''invalid data_size'')"

definition pb_dec_varint :: "pb_field \<Rightarrow> addr \<Rightarrow> ('u, unit) dact" where
  "pb_dec_varint field dest =
     and_then (on_stream pb_decode_varint) (\<lambda>value.
       store_signed (data_size field) dest
         (if data_size field = 8 then value else scast (ucast value :: u32)))"

definition pb_dec_uvarint :: "pb_field \<Rightarrow> addr \<Rightarrow> ('u, unit) dact" where
  "pb_dec_uvarint field dest =
     and_then (on_stream pb_decode_varint) (\<lambda>value. store_unsigned (data_size field) dest value)"

definition pb_dec_svarint :: "pb_field \<Rightarrow> addr \<Rightarrow> ('u, unit) dact" where
  "pb_dec_svarint field dest =
     and_then (on_stream pb_decode_svarint) (\<lambda>value. store_signed (data_size field) dest value)"

definition pb_dec_fixed32 :: "pb_field \<Rightarrow> addr \<Rightarrow> ('u, unit) dact" where
  "pb_dec_fixed32 field dest =
     and_then (on_stream pb_decode_fixed32) (\<lambda>value. on_mem (store_u32 dest value))"

definition pb_dec_fixed64 :: "pb_field \<Rightarrow> addr \<Rightarrow> ('u, unit) dact" where
  "pb_dec_fixed64 field dest =
     and_then (on_stream pb_decode_fixed64) (\<lambda>value. on_mem (store_u64 dest value))"

section \<open>Memory for pointer fields\<close>

definition allocate_field :: "addr \<Rightarrow> nat \<Rightarrow> nat \<Rightarrow> ('u, unit) dact" where
  "allocate_field pdata dsize asize = with_state (\<lambda>s m.
     if dsize = 0 \<or> asize = 0 then derr ''invalid size''
     else if (2 ^ 32 \<le> dsize \<or> 2 ^ 32 \<le> asize) \<and> SIZE_MAX div asize < dsize
       then derr ''size too large''
     else case pb_realloc (load_ptr m pdata) (size_mul asize dsize) m of
         (q, m') \<Rightarrow>
           and_then (on_mem (\<lambda>_. m')) (\<lambda>_.
             if q = 0 then derr ''realloc failed'' else on_mem (store_ptr pdata q)))"

section \<open>Bytes and strings\<close>

text \<open>\<open>pb_read\<close> into memory; what a failing callback leaves in the destination is not modelled.\<close>

definition read_into :: "addr \<Rightarrow> nat \<Rightarrow> ('u, unit) dact" where
  "read_into dest n = and_then (on_stream (pb_read (dest = 0) n)) (\<lambda>bs. on_mem (store dest bs))"

definition pb_dec_bytes :: "pb_field \<Rightarrow> addr \<Rightarrow> ('u, unit) dact" where
  "pb_dec_bytes field dest =
     and_then (on_stream pb_decode_varint32) (\<lambda>n. with_state (\<lambda>s m.
       let alloc_size = PB_BYTES_ARRAY_T_ALLOCSIZE (unat n);
           fill = (\<lambda>bdest. and_then (on_mem (store_u32 bdest n)) (\<lambda>_. read_into (bdest + bytes_offset) (unat n)))
       in if PB_SIZE_MAX < unat n then derr ''bytes overflow''
          else if alloc_size < unat n then derr ''size too large''
          else if PB_ATYPE (ftype field) = PB_ATYPE_POINTER then
            if bytes_left s < unat n then derr ''end-of-stream''
            else and_then (allocate_field dest alloc_size 1)
                   (\<lambda>_. with_state (\<lambda>s' m'. fill (load_ptr m' dest)))
          else if data_size field < alloc_size then derr ''bytes overflow''
          else fill dest))"

definition pb_dec_string :: "pb_field \<Rightarrow> addr \<Rightarrow> ('u, unit) dact" where
  "pb_dec_string field dest =
     and_then (on_stream pb_decode_varint32) (\<lambda>n. with_state (\<lambda>s m.
       let alloc_size = unat (n + 1);
           fill = (\<lambda>d. finally_mem (store (d + unat n) [0]) (read_into d (unat n)))
       in if alloc_size < unat n then derr ''size too large''
          else if PB_ATYPE (ftype field) = PB_ATYPE_POINTER then
            if bytes_left s < unat n then derr ''end-of-stream''
            else and_then (allocate_field dest alloc_size 1)
                   (\<lambda>_. with_state (\<lambda>s' m'. fill (load_ptr m' dest)))
          else if data_size field < alloc_size then derr ''string overflow''
          else fill dest))"

definition pb_dec_fixed_length_bytes :: "pb_field \<Rightarrow> addr \<Rightarrow> ('u, unit) dact" where
  "pb_dec_fixed_length_bytes field dest =
     and_then (on_stream pb_decode_varint32) (\<lambda>n.
       if PB_SIZE_MAX < unat n then derr ''bytes overflow''
       else if n = 0 then on_mem (store_zeros dest (data_size field))
       else if unat n \<noteq> data_size field then derr ''incorrect fixed length bytes size''
       else read_into dest (data_size field))"

section \<open>Submessages\<close>

text \<open>
  Running a decoder on a substream: the substream is closed afterwards, whatever the decoder
  returned, and the status of the decoder is the result unless closing fails.
\<close>

definition in_substream :: "('u, 'a) dfact \<Rightarrow> 'u istream \<Rightarrow> ('u, 'a) dfact" where
  "in_substream body sub = (\<lambda>(s, m).
     case body (sub, m) of
       None \<Rightarrow> None
     | Some (status, (sub', m')) \<Rightarrow>
         (case pb_close_string_substream sub' s of
            (None, t) \<Rightarrow> Some (None, (t, m'))
          | (Some _, t) \<Rightarrow> Some (status, (t, m'))))"

definition pb_dec_submessage :: "'u dec_env \<Rightarrow> 'u msg_decoder \<Rightarrow> pb_field \<Rightarrow> addr \<Rightarrow> ('u, unit) dfact" where
  "pb_dec_submessage E dec field dest =
     fthen (fdo (on_stream pb_make_string_substream)) (\<lambda>sub.
       if ptr field = 0 then fdo (derr ''invalid field descriptor'')
       else in_substream
              (dec (PB_HTYPE (ftype field) = PB_HTYPE_REPEATED) (dtables E (ptr field)) dest) sub)"

definition PB_DECODERS ::
  "'u dec_env \<Rightarrow> 'u msg_decoder \<Rightarrow> byte \<Rightarrow> pb_field \<Rightarrow> addr \<Rightarrow> ('u, unit) dfact" where
  "PB_DECODERS E dec l field dest =
     (if l = PB_LTYPE_BOOL then fdo (pb_dec_bool field dest)
      else if l = PB_LTYPE_VARINT then fdo (pb_dec_varint field dest)
      else if l = PB_LTYPE_UVARINT then fdo (pb_dec_uvarint field dest)
      else if l = PB_LTYPE_SVARINT then fdo (pb_dec_svarint field dest)
      else if l = PB_LTYPE_FIXED32 then fdo (pb_dec_fixed32 field dest)
      else if l = PB_LTYPE_FIXED64 then fdo (pb_dec_fixed64 field dest)
      else if l = PB_LTYPE_BYTES then fdo (pb_dec_bytes field dest)
      else if l = PB_LTYPE_STRING then fdo (pb_dec_string field dest)
      else if l = PB_LTYPE_SUBMESSAGE then pb_dec_submessage E dec field dest
      else if l = PB_LTYPE_FIXED_LENGTH_BYTES then fdo (pb_dec_fixed_length_bytes field dest)
      else (\<lambda>s. None))"

section \<open>Static fields\<close>

text \<open>\<open>iter->pos->data_size * ( *size)\<close> is a product of two 32-bit numbers.\<close>

definition item_addr :: "addr \<Rightarrow> pb_field \<Rightarrow> u32 \<Rightarrow> addr" where
  "item_addr base f n = base + (data_size f * unat n) mod 2 ^ 32"

text \<open>The loop over a packed array, at most \<open>array_size\<close> entries.\<close>

fun packed_static_loop :: "nat \<Rightarrow> (addr \<Rightarrow> ('u, unit) dfact) \<Rightarrow> field_iter \<Rightarrow> ('u, unit) dfact" where
  "packed_static_loop 0 func it = (\<lambda>_. None)"
| "packed_static_loop (Suc k) func it = with_state (\<lambda>s m.
     let n = load_u32 m (pSize it) in
     if 0 < bytes_left s \<and> unat n < array_size (cur it) then
       fthen (func (item_addr (pData it) (cur it) n)) (\<lambda>_.
         fthen (fdo (on_mem (\<lambda>m'. store_u32 (pSize it) (load_u32 m' (pSize it) + 1) m')))
           (\<lambda>_. packed_static_loop k func it))
     else fdo (ret ()))"

definition decode_static_field ::
  "nat \<Rightarrow> 'u dec_env \<Rightarrow> 'u msg_decoder \<Rightarrow> pb_wire_type \<Rightarrow> field_iter \<Rightarrow> ('u, unit) dfact" where
  "decode_static_field n E dec wire_type it =
     (let f = cur it; ty = ftype f; func = PB_DECODERS E dec (PB_LTYPE ty) f in
      if PB_HTYPE ty = PB_HTYPE_REQUIRED then func (pData it)
      else if PB_HTYPE ty = PB_HTYPE_OPTIONAL then
        fthen (fdo (if pSize it \<noteq> pData it then on_mem (store (pSize it) [1]) else ret ()))
          (\<lambda>_. func (pData it))
      else if PB_HTYPE ty = PB_HTYPE_REPEATED then
        if wire_type = PB_WT_STRING \<and> PB_LTYPE ty \<le> PB_LTYPE_LAST_PACKABLE then
          fthen (fdo (on_stream pb_make_string_substream)) (\<lambda>sub (s, m).
            case packed_static_loop (Suc (bytes_left sub)) func it (sub, m) of
              None \<Rightarrow> None
            | Some (status, (sub', m')) \<Rightarrow>
                if bytes_left sub' \<noteq> 0 then fdo (derr ''array overflow'') (s, m')
                else case pb_close_string_substream sub' s of
                    (None, t) \<Rightarrow> Some (None, (t, m'))
                  | (Some _, t) \<Rightarrow> Some (status, (t, m')))
        else with_state (\<lambda>s m.
          let size = load_u32 m (pSize it) in
          fthen (fdo (on_mem (store_u32 (pSize it) (size + 1)))) (\<lambda>_.
            if array_size f \<le> unat size then fdo (derr ''array overflow'')
            else func (item_addr (pData it) f size)))
      else if PB_HTYPE ty = PB_HTYPE_ONEOF then
        fthen (on_mem_fuel (\<lambda>m.
            if PB_LTYPE ty = PB_LTYPE_SUBMESSAGE \<and> load_u32 m (pSize it) \<noteq> tag f
            then pb_message_set_to_defaults n (dtables E) (dtables E (ptr f)) (pData it)
                   (store_zeros (pData it) (data_size f) m)
            else Some m))
          (\<lambda>_. fthen (fdo (on_mem (store_u32 (pSize it) (tag f)))) (\<lambda>_. func (pData it)))
      else fdo (derr ''invalid field type''))"

section \<open>Pointer fields\<close>

definition initialize_pointer_field ::
  "nat \<Rightarrow> (addr \<Rightarrow> pb_field list) \<Rightarrow> addr \<Rightarrow> field_iter \<Rightarrow> mem \<Rightarrow> mem option" where
  "initialize_pointer_field n tbl item it m =
     (let f = cur it; l = PB_LTYPE (ftype f) in
      if l = PB_LTYPE_STRING \<or> l = PB_LTYPE_BYTES then Some (store_ptr item 0 m)
      else if l = PB_LTYPE_SUBMESSAGE then
        pb_message_set_to_defaults n tbl (tbl (ptr f)) item (store_zeros item (data_size f) m)
      else Some m)"

text \<open>
  The loop over a packed array with growing storage. Its result tells whether it stopped because
  the 32-bit count is at its maximum.
\<close>

fun packed_pointer_loop ::
  "nat \<Rightarrow> nat \<Rightarrow> (addr \<Rightarrow> pb_field list) \<Rightarrow> (addr \<Rightarrow> ('u, unit) dfact) \<Rightarrow> field_iter \<Rightarrow> nat \<Rightarrow> ('u, bool) dfact" where
  "packed_pointer_loop 0 n tbl func it allocated = (\<lambda>_. None)"
| "packed_pointer_loop (Suc k) n tbl func it allocated = with_state (\<lambda>s m.
     let f = cur it; size = load_u32 m (pSize it) in
     if bytes_left s = 0 then fdo (ret False)
     else if unat size = PB_SIZE_MAX then fdo (ret True)
     else
       let grow = (unat size + 1 > allocated);
           remain = (bytes_left s - 1) div data_size f + 1;
           allocated' = (if grow then
                           (if remain < size_sub PB_SIZE_MAX allocated
                            then size_add allocated remain else size_add allocated 1)
                         else allocated)
       in if grow \<and> data_size f = 0 then (\<lambda>_. None)
          else
            fthen (fdo (if grow then allocate_field (pData it) (data_size f) allocated' else ret ()))
              (\<lambda>_. with_state (\<lambda>s1 m1.
                 let item = item_addr (load_ptr m1 (pData it)) f (load_u32 m1 (pSize it)) in
                 fthen (on_mem_fuel (initialize_pointer_field n tbl item it)) (\<lambda>_.
                   fthen (func item) (\<lambda>_.
                     fthen (fdo (on_mem (\<lambda>m'. store_u32 (pSize it) (load_u32 m' (pSize it) + 1) m')))
                       (\<lambda>_. packed_pointer_loop k n tbl func it allocated'))))))"

definition decode_pointer_field ::
  "nat \<Rightarrow> 'u dec_env \<Rightarrow> 'u msg_decoder \<Rightarrow> pb_wire_type \<Rightarrow> field_iter \<Rightarrow> ('u, unit) dfact" where
  "decode_pointer_field n E dec wire_type it =
     (let f = cur it; ty = ftype f; func = PB_DECODERS E dec (PB_LTYPE ty) f in
      if PB_HTYPE ty = PB_HTYPE_REQUIRED \<or> PB_HTYPE ty = PB_HTYPE_OPTIONAL \<or> PB_HTYPE ty = PB_HTYPE_ONEOF then
        fthen (on_mem_fuel (\<lambda>m.
            if PB_LTYPE ty = PB_LTYPE_SUBMESSAGE \<and> load_ptr m (pData it) \<noteq> 0
            then pb_release_single_field n (dtables E) it m else Some m))
          (\<lambda>_. fthen (fdo (if PB_HTYPE ty = PB_HTYPE_ONEOF then on_mem (store_u32 (pSize it) (tag f)) else ret ()))
            (\<lambda>_. if PB_LTYPE ty = PB_LTYPE_STRING \<or> PB_LTYPE ty = PB_LTYPE_BYTES then func (pData it)
                 else
                   fthen (fdo (allocate_field (pData it) (data_size f) 1)) (\<lambda>_.
                     fthen (on_mem_fuel (\<lambda>m. initialize_pointer_field n (dtables E) (load_ptr m (pData it)) it m))
                       (\<lambda>_. with_state (\<lambda>_ m. func (load_ptr m (pData it)))))))
      else if PB_HTYPE ty = PB_HTYPE_REPEATED then
        if wire_type = PB_WT_STRING \<and> PB_LTYPE ty \<le> PB_LTYPE_LAST_PACKABLE then
          with_state (\<lambda>_ m0.
            fthen (fdo (on_stream pb_make_string_substream)) (\<lambda>sub (s, m).
              case packed_pointer_loop (Suc (bytes_left sub)) n (dtables E) func it
                     (unat (load_u32 m0 (pSize it))) (sub, m) of
                None \<Rightarrow> None
              | Some (status, (sub', m')) \<Rightarrow>
                  let s1 = (if status = Some True then s\<lparr>ierrmsg := Some ''too many array entries''\<rparr> else s) in
                  (case pb_close_string_substream sub' s1 of
                     (None, t) \<Rightarrow> Some (None, (t, m'))
                   | (Some _, t) \<Rightarrow> Some (if status = Some False then Some () else None, (t, m')))))
        else
          with_state (\<lambda>_ m.
            let size = load_u32 m (pSize it) in
            if unat size = PB_SIZE_MAX then fdo (derr ''too many array entries'')
            else
              fthen (fdo (allocate_field (pData it) (data_size f) (unat (size + 1)))) (\<lambda>_.
                with_state (\<lambda>_ m1.
                  let item = item_addr (load_ptr m1 (pData it)) f (load_u32 m1 (pSize it)) in
                  fthen (fdo (on_mem (\<lambda>m'. store_u32 (pSize it) (load_u32 m' (pSize it) + 1) m'))) (\<lambda>_.
                    fthen (on_mem_fuel (initialize_pointer_field n (dtables E) item it)) (\<lambda>_. func item)))))
      else fdo (derr ''invalid field type''))"


section \<open>Callback fields\<close>

text \<open>
  The do-while loop that calls the application until the substream is empty. A callback that
  returns \<open>true\<close> without reading would keep the C loop going for ever; here it exhausts the bound.
\<close>

fun callback_loop :: "nat \<Rightarrow> ('u, unit) dact \<Rightarrow> ('u, unit) dfact" where
  "callback_loop 0 cb = (\<lambda>_. None)"
| "callback_loop (Suc k) cb =
     fthen (fdo cb) (\<lambda>_. with_state (\<lambda>s m.
       if bytes_left s \<noteq> 0 then callback_loop k cb else fdo (ret ())))"

definition decode_callback_field ::
  "'u dec_env \<Rightarrow> pb_wire_type \<Rightarrow> field_iter \<Rightarrow> ('u, unit) dfact" where
  "decode_callback_field E wire_type it = with_state (\<lambda>_ m0.
     let decode = callback_func m0 (pData it);
         cb = decode_fn E decode (cur it) (callback_arg (pData it)) in
     if pData it = 0 \<or> decode = 0 then fdo (on_stream (pb_skip_field wire_type))
     else if wire_type = PB_WT_STRING then
       fthen (fdo (on_stream pb_make_string_substream)) (\<lambda>sub (s, m).
         case callback_loop (Suc (bytes_left sub)) cb (sub, m) of
           None \<Rightarrow> None
         | Some (None, (sub', m')) \<Rightarrow> fdo (derr ''callback failed'') (s, m')
         | Some (Some _, (sub', m')) \<Rightarrow> fdo (on_stream (pb_close_string_substream sub')) (s, m'))
     else
       fthen (fdo (on_stream (read_raw_value wire_type 10))) (\<lambda>buffer (s, m).
         case cb (pb_istream_from_buffer buffer (length buffer), m) of
           (status, (_, m')) \<Rightarrow> Some (status, (s, m'))))"

section \<open>Fields\<close>

text \<open>\<open>pb_release_union_field\<close> moves the iterator to the old member of the union and back.\<close>

definition pb_release_union_field ::
  "nat \<Rightarrow> (addr \<Rightarrow> pb_field list) \<Rightarrow> field_iter \<Rightarrow> ('u, field_iter) dfact" where
  "pb_release_union_field n tbl it = with_state (\<lambda>_ m.
     let old_tag = load_u32 m (pSize it); new_tag = tag (cur it) in
     if old_tag = 0 then fdo (ret it)
     else if old_tag = new_tag then fdo (ret it)
     else case pb_field_iter_find old_tag it of (found1, it1) \<Rightarrow>
       if \<not> found1 then fdo (derr ''invalid union tag'')
       else
         fthen (on_mem_fuel (pb_release_single_field n tbl it1)) (\<lambda>_.
           case pb_field_iter_find new_tag it1 of (found2, it2) \<Rightarrow>
             if \<not> found2 then fdo (derr ''iterator error'')
             else
               fthen (fdo (on_mem (\<lambda>m'. if PB_ATYPE (ftype (cur it2)) = PB_ATYPE_POINTER
                                     then store_ptr (pData it2) 0 m' else m')))
                 (\<lambda>_. fdo (ret it2))))"

definition decode_field ::
  "nat \<Rightarrow> 'u dec_env \<Rightarrow> 'u msg_decoder \<Rightarrow> pb_wire_type \<Rightarrow> field_iter \<Rightarrow> ('u, field_iter) dfact" where
  "decode_field n E dec wire_type it0 =
     fthen (if PB_HTYPE (ftype (cur it0)) = PB_HTYPE_ONEOF
            then pb_release_union_field n (dtables E) it0 else fdo (ret it0))
       (\<lambda>it. let a = PB_ATYPE (ftype (cur it)) in
          fthen (if a = PB_ATYPE_STATIC then decode_static_field n E dec wire_type it
                 else if a = PB_ATYPE_POINTER then decode_pointer_field n E dec wire_type it
                 else if a = PB_ATYPE_CALLBACK then decode_callback_field E wire_type it
                 else fdo (derr ''invalid field type''))
            (\<lambda>_. fdo (ret it)))"

section \<open>Extensions\<close>

definition default_extension_decoder ::
  "nat \<Rightarrow> 'u dec_env \<Rightarrow> 'u msg_decoder \<Rightarrow> addr \<Rightarrow> u32 \<Rightarrow> pb_wire_type \<Rightarrow> ('u, unit) dfact" where
  "default_extension_decoder n E dec ext t wire_type =
     with_state (\<lambda>_ m.
       let field = dtables E (ext_type_arg m (ext_type m ext)) ! 0 in
       if tag field \<noteq> t then fdo (ret ())
       else
         let it = iter_from_extension (dtables E) m ext in
         fthen (fdo (on_mem (store (ext_found ext) [1]))) (\<lambda>_.
           fthen (decode_field n E dec wire_type it) (\<lambda>_. fdo (ret ()))))"

text \<open>The loop tries one extension after the other until one of them has read something.\<close>

fun extension_decode_loop ::
  "nat \<Rightarrow> nat \<Rightarrow> 'u dec_env \<Rightarrow> 'u msg_decoder \<Rightarrow> u32 \<Rightarrow> pb_wire_type \<Rightarrow> nat \<Rightarrow> addr \<Rightarrow> ('u, unit) dfact" where
  "extension_decode_loop 0 n E dec t wire_type left ext = with_state (\<lambda>s m.
     if ext = 0 \<or> bytes_left s \<noteq> left then fdo (ret ()) else (\<lambda>_. None))"
| "extension_decode_loop (Suc k) n E dec t wire_type left ext = with_state (\<lambda>s m.
     if ext = 0 \<or> bytes_left s \<noteq> left then fdo (ret ())
     else
       let decode = ext_type_decode m (ext_type m ext) in
       fthen (if decode \<noteq> 0 then fdo (ext_decode_fn E decode ext t wire_type)
              else default_extension_decoder n E dec ext t wire_type)
         (\<lambda>_. with_state (\<lambda>_ m'. extension_decode_loop k n E dec t wire_type left (ext_next m' ext))))"

definition decode_extension ::
  "nat \<Rightarrow> 'u dec_env \<Rightarrow> 'u msg_decoder \<Rightarrow> u32 \<Rightarrow> pb_wire_type \<Rightarrow> field_iter \<Rightarrow> ('u, unit) dfact" where
  "decode_extension n E dec t wire_type it = with_state (\<lambda>s m.
     extension_decode_loop n n E dec t wire_type (bytes_left s) (load_ptr m (pData it)))"

definition find_extension_field :: "field_iter \<Rightarrow> bool \<times> field_iter" where
  "find_extension_field it =
     iter_find_loop (length (start it)) (\<lambda>f. PB_LTYPE (ftype f) = PB_LTYPE_EXTENSION) (pos it) it"

section \<open>Messages\<close>

definition PB_MAX_REQUIRED_FIELDS :: nat where "PB_MAX_REQUIRED_FIELDS = 64"

text \<open>
  The local variables of \<open>pb_decode_noinit\<close>; \<open>fixed_count_size\<close> is in memory at its stack slot and
  \<open>fixed_count_field\<close> is a position in the descriptor array.
\<close>

record noinit_locals =
  fields_seen :: "u32 list"
  extension_range_start :: u32
  iter :: field_iter
  fixed_count_field :: "nat option"

definition wrong_fixed_count :: "addr \<Rightarrow> noinit_locals \<Rightarrow> mem \<Rightarrow> bool" where
  "wrong_fixed_count slot v m =
     (case fixed_count_field v of
        None \<Rightarrow> False
      | Some p \<Rightarrow> unat (load_u32 m slot) \<noteq> array_size (start (iter v) ! p))"

text \<open>A tag that is not in the descriptor: an extension, or skipped.\<close>

definition decode_unknown ::
  "nat \<Rightarrow> 'u dec_env \<Rightarrow> 'u msg_decoder \<Rightarrow> u32 \<Rightarrow> pb_wire_type \<Rightarrow> noinit_locals \<Rightarrow> ('u, noinit_locals) dfact" where
  "decode_unknown n E dec t wire_type v =
     (let skip = (\<lambda>v'. fthen (fdo (on_stream (pb_skip_field wire_type))) (\<lambda>_. fdo (ret v'))) in
      if extension_range_start v \<le> t then
        case find_extension_field (iter v) of (found, it) \<Rightarrow>
          let v1 = v\<lparr>iter := it, extension_range_start := (if found then tag (cur it) else - 1)\<rparr> in
          if extension_range_start v1 \<le> t then
            with_state (\<lambda>s _.
              fthen (decode_extension n E dec t wire_type it) (\<lambda>_. with_state (\<lambda>s' _.
                if bytes_left s' \<noteq> bytes_left s then fdo (ret v1) else skip v1)))
          else skip v1
      else skip v)"

text \<open>A tag of the descriptor, the iterator being at its field.\<close>

definition mark_required :: "noinit_locals \<Rightarrow> noinit_locals" where
  "mark_required v =
     (let i = required_field_index (iter v) in
      if PB_HTYPE (ftype (cur (iter v))) = PB_HTYPE_REQUIRED \<and> i < PB_MAX_REQUIRED_FIELDS
      then v\<lparr>fields_seen := (fields_seen v)[i div 32 := fields_seen v ! (i div 32) OR push_bit (i mod 32) 1]\<rparr>
      else v)"

definition decode_known ::
  "nat \<Rightarrow> 'u dec_env \<Rightarrow> 'u msg_decoder \<Rightarrow> addr \<Rightarrow> pb_wire_type \<Rightarrow> noinit_locals \<Rightarrow> ('u, noinit_locals) dfact" where
  "decode_known n E dec slot wire_type v =
     (let it = iter v;
          fixed = (PB_HTYPE (ftype (cur it)) = PB_HTYPE_REPEATED \<and> pSize it = pData it);
          fresh = (fixed_count_field v \<noteq> Some (pos it)) in
      fthen (with_state (\<lambda>_ m.
          if fixed \<and> fresh \<and> wrong_fixed_count slot v m
          then fdo (derr ''wrong size for fixed count field'')
          else if fixed \<and> fresh then fdo (on_mem (store_u32 slot 0)) else fdo (ret ())))
        (\<lambda>_. let v1 = (if fixed then v\<lparr>fixed_count_field := Some (pos it), iter := it\<lparr>pSize := slot\<rparr>\<rparr> else v);
                 v2 = mark_required v1 in
             fthen (decode_field n E dec wire_type (iter v2)) (\<lambda>it'. fdo (ret (v2\<lparr>iter := it'\<rparr>)))))"

text \<open>The loop over the fields of the stream.\<close>

fun decode_loop ::
  "nat \<Rightarrow> nat \<Rightarrow> 'u dec_env \<Rightarrow> 'u msg_decoder \<Rightarrow> addr \<Rightarrow> noinit_locals \<Rightarrow> ('u, noinit_locals) dfact" where
  "decode_loop 0 n E dec slot v = (\<lambda>_. None)"
| "decode_loop (Suc k) n E dec slot v = (\<lambda>(s, m).
     if bytes_left s = 0 then Some (Some v, (s, m))
     else
       case pb_decode_tag s of
         (None, t, eof) \<Rightarrow> Some (if eof then Some v else None, (t, m))
       | (Some (wire_type, tg), t, eof) \<Rightarrow>
           fthen (case pb_field_iter_find tg (iter v) of (found, it) \<Rightarrow>
                    if found then decode_known n E dec slot wire_type (v\<lparr>iter := it\<rparr>)
                    else decode_unknown n E dec tg wire_type (v\<lparr>iter := it\<rparr>))
             (\<lambda>v'. decode_loop k n E dec slot v') (t, m))"

text \<open>Seeking to the end of the descriptor array to count the required fields.\<close>

fun seek_end :: "nat \<Rightarrow> field_iter \<Rightarrow> nat \<times> byte \<times> field_iter" where
  "seek_end 0 it = (required_field_index it, ftype (cur it), it)"
| "seek_end (Suc k) it =
     (case pb_field_iter_next it of
        (True, it') \<Rightarrow> seek_end k it'
      | (False, it') \<Rightarrow> (required_field_index it, ftype (cur it), it'))"

definition req_field_count :: "field_iter \<Rightarrow> nat" where
  "req_field_count it =
     (case seek_end (length (start it)) it of
        (count, last_type, it') \<Rightarrow>
          min PB_MAX_REQUIRED_FIELDS
            (if PB_HTYPE last_type = PB_HTYPE_REQUIRED \<and> tag (cur it') \<noteq> 0 then count + 1 else count))"

definition all_required_seen :: "nat \<Rightarrow> u32 list \<Rightarrow> bool" where
  "all_required_seen count seen \<longleftrightarrow>
     (\<forall>i \<in> set [0..<count div 32]. seen ! i = - 1) \<and>
     (count mod 32 \<noteq> 0 \<longrightarrow> seen ! (count div 32) = drop_bit (32 - count mod 32) (- 1))"

definition finish_noinit :: "addr \<Rightarrow> noinit_locals \<Rightarrow> ('u, unit) dact" where
  "finish_noinit slot v = with_state (\<lambda>_ m.
     if wrong_fixed_count slot v m then derr ''wrong size for fixed count field''
     else if \<not> all_required_seen (req_field_count (iter v)) (fields_seen v)
       then derr ''missing required field''
     else ret ())"

text \<open>\<open>pb_decode\<close>, given its call of \<open>pb_decode_noinit\<close>.\<close>

definition pb_decode_with ::
  "nat \<Rightarrow> 'u dec_env \<Rightarrow> pb_field list \<Rightarrow> addr \<Rightarrow> ('u, unit) dfact \<Rightarrow> ('u, unit) dfact" where
  "pb_decode_with n E fs dest noinit =
     fthen (on_mem_fuel (pb_message_set_to_defaults n (dtables E) fs dest)) (\<lambda>_ st.
       case noinit st of
         None \<Rightarrow> None
       | Some (Some u, st') \<Rightarrow> Some (Some u, st')
       | Some (None, (s, m)) \<Rightarrow>
           map_option (\<lambda>m'. (None, (s, m'))) (pb_release n (dtables E) fs dest m))"

fun pb_decode_noinit :: "nat \<Rightarrow> 'u dec_env \<Rightarrow> pb_field list \<Rightarrow> addr \<Rightarrow> ('u, unit) dfact" where
  "pb_decode_noinit 0 E fs dest = (\<lambda>_. None)"
| "pb_decode_noinit (Suc n) E fs dest = with_state (\<lambda>s _.
     let dec = (\<lambda>init fs' d. if init then pb_decode_with n E fs' d (pb_decode_noinit n E fs' d)
                             else pb_decode_noinit n E fs' d);
         slot = stack_slot E n;
         v = \<lparr>fields_seen = [0, 0], extension_range_start = 0,
              iter = snd (pb_field_iter_begin fs dest), fixed_count_field = None\<rparr>
     in fthen (fdo (on_mem (store_u32 slot 0))) (\<lambda>_.
          fthen (decode_loop (Suc (bytes_left s)) n E dec slot v) (\<lambda>v'. fdo (finish_noinit slot v'))))"

declare pb_decode_noinit.simps [simp del]

definition pb_decode :: "nat \<Rightarrow> 'u dec_env \<Rightarrow> pb_field list \<Rightarrow> addr \<Rightarrow> ('u, unit) dfact" where
  "pb_decode n E fs dest = pb_decode_with n E fs dest (pb_decode_noinit n E fs dest)"

definition pb_decode_delimited_noinit :: "nat \<Rightarrow> 'u dec_env \<Rightarrow> pb_field list \<Rightarrow> addr \<Rightarrow> ('u, unit) dfact" where
  "pb_decode_delimited_noinit n E fs dest =
     fthen (fdo (on_stream pb_make_string_substream)) (in_substream (pb_decode_noinit n E fs dest))"

definition pb_decode_delimited :: "nat \<Rightarrow> 'u dec_env \<Rightarrow> pb_field list \<Rightarrow> addr \<Rightarrow> ('u, unit) dfact" where
  "pb_decode_delimited n E fs dest =
     fthen (fdo (on_stream pb_make_string_substream)) (in_substream (pb_decode n E fs dest))"

definition pb_decode_nullterminated :: "nat \<Rightarrow> 'u dec_env \<Rightarrow> pb_field list \<Rightarrow> addr \<Rightarrow> ('u, unit) dfact" where
  "pb_decode_nullterminated n E fs dest = pb_decode n E fs dest"

end
