(* ===== verification/PbDecodeFacts.thy ===== *)
theory PbDecodeFacts
  imports PbDecode
begin

text \<open>
  What is proved about the message decoder of \<open>PbDecode\<close>: the position of a memory stream never
  passes its limit, substreams close where they should, and every decoding function that succeeds
  moves the position forward, which is what the loops need to end (PbDecodeEnds).
\<close>

section \<open>The position of the stream\<close>

text \<open>
  After a failure the position of a memory stream may lag behind its limit (an unclosed substream
  has already been taken off the limit of its parent), never the other way round.
\<close>

definition behind :: "'u istream \<Rightarrow> 'u istream \<Rightarrow> bool" where
  "behind s t \<longleftrightarrow> bytes_left t \<le> bytes_left s \<and> is_buf_read (source t) = is_buf_read (source s) \<and>
     (\<forall>m. source s = Buf_source m \<longrightarrow>
        (\<exists>k \<le> bytes_left s - bytes_left t. source t = Buf_source (drop k m)))"

lemma advances_behind: "advances s t \<Longrightarrow> behind s t"
  by (auto simp: advances_def behind_def)

lemma behind_refl [simp]: "behind s s"
  by (auto simp: behind_def intro: exI [of _ 0])

lemma behind_trans: "behind s t \<Longrightarrow> behind t u \<Longrightarrow> behind s u"
  unfolding behind_def
proof (intro conjI allI impI; (elim conjE)?)
  fix m
  assume st: "bytes_left t \<le> bytes_left s"
      "\<forall>m. source s = Buf_source m \<longrightarrow> (\<exists>k \<le> bytes_left s - bytes_left t. source t = Buf_source (drop k m))"
    and tu: "bytes_left u \<le> bytes_left t"
      "\<forall>m. source t = Buf_source m \<longrightarrow> (\<exists>k \<le> bytes_left t - bytes_left u. source u = Buf_source (drop k m))"
    and m: "source s = Buf_source m"
  obtain k where k: "k \<le> bytes_left s - bytes_left t" "source t = Buf_source (drop k m)"
    using st(2) m by blast
  obtain l where l: "l \<le> bytes_left t - bytes_left u" "source u = Buf_source (drop l (drop k m))"
    using tu(2) k(2) by blast
  show "\<exists>k \<le> bytes_left s - bytes_left u. source u = Buf_source (drop k m)"
    using k l st(1) tu(1) by (intro exI [of _ "l + k"]) auto
qed auto

lemma behind_wf: "behind s t \<Longrightarrow> wf_istream s \<Longrightarrow> wf_istream t"
  unfolding wf_istream_def behind_def
  by (cases "source s"; cases "source t") fastforce+

text \<open>The outcome of a decoding function from \<open>s\<close>.\<close>

definition outcome :: "'a option \<Rightarrow> 'u istream \<Rightarrow> 'u istream \<Rightarrow> bool" where
  "outcome r s t \<longleftrightarrow> (if r = None then behind s t else advances s t)"

definition progresses :: "('u, 'a) dfact \<Rightarrow> bool" where
  "progresses f \<longleftrightarrow> (\<forall>s m r t m'. f (s, m) = Some (r, (t, m')) \<longrightarrow> outcome r s t)"

named_theorems progress_intros \<open>decoding functions that progress\<close>

lemma outcome_behind: "outcome r s t \<Longrightarrow> behind s t"
  by (auto simp: outcome_def advances_behind split: if_splits)

lemma outcome_trans: "advances s t \<Longrightarrow> outcome r t u \<Longrightarrow> outcome r s u"
  using behind_trans [OF advances_behind] advances_trans
  by (auto simp: outcome_def split: if_splits dest: transpD)

lemma outcome_refl [simp]: "outcome r s s"
  using advances_refl by (auto simp: outcome_def reflp_def)

lemma progressesD: "progresses f \<Longrightarrow> f (s, m) = Some (r, (t, m')) \<Longrightarrow> outcome r s t"
  unfolding progresses_def by blast

lemma progressesI: "(\<And>s m r t m'. f (s, m) = Some (r, (t, m')) \<Longrightarrow> outcome r s t) \<Longrightarrow> progresses f"
  by (auto simp: progresses_def)

lemma progress_fthen [progress_intros]:
  assumes "progresses f" "\<And>x. progresses (g x)"
  shows "progresses (fthen f g)"
proof (rule progressesI)
  fix s m r t m'
  assume run: "fthen f g (s, m) = Some (r, (t, m'))"
  then obtain q u m1 where f: "f (s, m) = Some (q, (u, m1))"
    by (cases "f (s, m)") auto
  have su: "outcome q s u" using assms(1) f by (rule progressesD)
  show "outcome r s t"
  proof (cases q)
    case None
    with run f su show ?thesis by (simp add: outcome_def)
  next
    case (Some x)
    with run f have "g x (u, m1) = Some (r, (t, m'))" by simp
    with assms(2) have "outcome r u t" by (rule progressesD)
    moreover have "advances s u" using su Some by (simp add: outcome_def)
    ultimately show ?thesis by (rule outcome_trans [rotated])
  qed
qed

lemma progress_stream [progress_intros]: "keeps advances f \<Longrightarrow> progresses (fdo (on_stream f))"
proof (rule progressesI)
  fix s m r t m'
  assume "keeps advances f" "fdo (on_stream f) (s, m) = Some (r, (t, m'))"
  then have "advances s t" by (auto simp: on_stream_def dest: keepsD split: prod.splits)
  then show "outcome r s t" by (simp add: outcome_def advances_behind)
qed

lemma progress_basic [progress_intros]:
  "progresses (fdo (ret x))" "progresses (fdo (derr msg))" "progresses (fdo (on_mem g))"
  "progresses (on_mem_fuel h)" "progresses (\<lambda>_. None)"
proof -
  show "progresses (fdo (derr msg))"
    unfolding derr_def by (intro progress_stream ierr_keeps)
qed (auto simp: progresses_def on_mem_def on_mem_fuel_def)

lemma progress_if [progress_intros]:
  "(b \<Longrightarrow> progresses x) \<Longrightarrow> (\<not> b \<Longrightarrow> progresses y) \<Longrightarrow> progresses (if b then x else y)"
  by simp

lemma progress_state [progress_intros]:
  "(\<And>s m. progresses (f s m)) \<Longrightarrow> progresses (with_state f)"
  unfolding progresses_def with_state_def by simp

lemma progress_fdo_state [progress_intros]:
  "(\<And>s m. progresses (fdo (g s m))) \<Longrightarrow> progresses (fdo (with_state g))"
  unfolding progresses_def with_state_def fdo_def by simp

lemma progress_and_then [progress_intros]:
  "progresses (fdo f) \<Longrightarrow> (\<And>x. progresses (fdo (g x))) \<Longrightarrow> progresses (fdo (and_then f g))"
  using progress_fthen [of "fdo f" "\<lambda>x. fdo (g x)"] by (simp only: fthen_fdo)

lemma progress_fdo_if [progress_intros]:
  "(b \<Longrightarrow> progresses (fdo x)) \<Longrightarrow> (\<not> b \<Longrightarrow> progresses (fdo y)) \<Longrightarrow> progresses (fdo (if b then x else y))"
  by simp

lemma progress_case_prod [progress_intros]:
  "(\<And>a b. x = (a, b) \<Longrightarrow> progresses (f a b)) \<Longrightarrow> progresses (case x of (a, b) \<Rightarrow> f a b)"
  by (cases x) simp

lemma progress_fdo_case_prod [progress_intros]:
  "(\<And>a b. x = (a, b) \<Longrightarrow> progresses (fdo (g a b))) \<Longrightarrow> progresses (fdo (case x of (a, b) \<Rightarrow> g a b))"
  by (cases x) simp

lemma progress_finally [progress_intros]: "progresses (fdo f) \<Longrightarrow> progresses (fdo (finally_mem g f))"
  unfolding progresses_def finally_mem_def fdo_def by (force split: prod.splits)

section \<open>Substreams\<close>

lemma pb_read_skip_left: "pb_read_skip n s = (Some r, t) \<Longrightarrow> bytes_left t = bytes_left s - n"
proof (induction n arbitrary: s r t rule: less_induct)
  case (less n)
  have one: "pb_read_buf k s = (Some x, u) \<Longrightarrow> bytes_left u = bytes_left s - k \<and> k \<le> bytes_left s" for k s x u
    by (auto simp: pb_read_buf_def split: if_splits prod.splits option.splits)
  show ?case
  proof (cases "n > 16")
    case True
    then obtain x u where xu: "pb_read_buf 16 s = (Some x, u)" "pb_read_skip (n - 16) u = (Some r, t)"
      using less.prems by (subst (asm) pb_read_skip.simps) (auto elim!: and_then_SomeE)
    with less.IH [of "n - 16" u r t] one [OF xu(1)] True show ?thesis by auto
  next
    case False
    with less.prems have "pb_read_buf n s = (Some r, t)" by (subst (asm) pb_read_skip.simps) simp
    then show ?thesis using one by blast
  qed
qed

lemma pb_read_left: "pb_read nul n s = (Some r, t) \<Longrightarrow> bytes_left t = bytes_left s - n"
  by (auto simp: pb_read_def pb_read_buf_def split: if_splits prod.splits option.splits
      elim!: and_then_SomeE dest: pb_read_skip_left)

lemma substream_frame:
  assumes mk: "pb_make_string_substream s = (Some sub, s')"
    and sub: "behind sub sub'"
    and cl: "pb_close_string_substream sub' s' = (r, t)"
  shows "behind s t" "r \<noteq> None \<Longrightarrow> advances sub sub' \<Longrightarrow> advances s t"
proof -
  obtain n u where n: "pb_decode_varint32 s = (Some n, u)" "unat n \<le> bytes_left u"
      "sub = u\<lparr>bytes_left := unat n\<rparr>" "s' = u\<lparr>bytes_left := bytes_left u - unat n\<rparr>"
    using mk by (auto simp: pb_make_string_substream_def elim!: and_then_SomeE split: if_splits)
  have su: "advances s u" using n(1) by (rule keepsD [OF pb_decode_varint32_keeps])
  have s': "behind u s'" using n(2,4) by (auto simp: behind_def intro: exI [of _ 0])
  obtain q v where q: "(if bytes_left sub' \<noteq> 0 then pb_read True (bytes_left sub') sub' else (Some [], sub')) = (q, v)"
    by fastforce
  have qv: "advances sub' v" using q keepsD [OF pb_read_keeps] advances_refl
    by (auto simp: reflp_def split: if_splits)
  have "behind u t \<and> (r \<noteq> None \<and> advances sub sub' \<longrightarrow> advances u t)"
  proof (cases q)
    case None
    then show ?thesis using cl q s' by (simp add: pb_close_string_substream_def)
  next
    case (Some x)
    then have t: "t = s'\<lparr>source := source v, ierrmsg := ierrmsg v\<rparr>"
      using cl q by (simp add: pb_close_string_substream_def)
    have v0: "bytes_left v = 0" using q Some pb_read_left by (fastforce split: if_splits)
    have bv: "behind sub v" using behind_trans [OF sub advances_behind [OF qv]] .
    then have "behind u t"
      using n(2,3,4) t v0 by (auto simp: behind_def)
    moreover have "advances u t" if "advances sub sub'"
    proof -
      have "advances sub v" using that qv advances_trans by (blast dest: transpD)
      then show ?thesis using n(2,3,4) t v0 by (auto simp: advances_def)
    qed
    ultimately show ?thesis by blast
  qed
  then show "behind s t" "r \<noteq> None \<Longrightarrow> advances sub sub' \<Longrightarrow> advances s t"
    using su behind_trans [OF advances_behind [OF su]] advances_trans by (blast dest: transpD)+
qed

lemma make_behind: "pb_make_string_substream s = (r, t) \<Longrightarrow> behind s t"
proof -
  assume mk: "pb_make_string_substream s = (r, t)"
  show ?thesis
  proof (cases "pb_decode_varint32 s")
    case (Pair q u)
    then have su: "behind s u" using keepsD [OF pb_decode_varint32_keeps] advances_behind by blast
    have "behind u t"
      using mk Pair ierr_advances [of u] advances_behind
      by (cases q) (auto simp: pb_make_string_substream_def ierr_def behind_def split: if_splits
          intro: exI [of _ 0])
    with su show ?thesis by (rule behind_trans)
  qed
qed

text \<open>What a function may do between making a substream and closing it.\<close>

lemma progress_substream:
  assumes "\<And>sub s' s m r t m'. pb_make_string_substream s = (Some sub, s') \<Longrightarrow>
      k sub (s', m) = Some (r, (t, m')) \<Longrightarrow> outcome r s t"
  shows "progresses (fthen (fdo (on_stream pb_make_string_substream)) k)"
proof (rule progressesI)
  fix s m r t m'
  assume run: "fthen (fdo (on_stream pb_make_string_substream)) k (s, m) = Some (r, (t, m'))"
  obtain q s' where mk: "pb_make_string_substream s = (q, s')" by fastforce
  show "outcome r s t"
  proof (cases q)
    case None
    then show ?thesis using run mk make_behind [OF mk] by (auto simp: on_stream_def outcome_def)
  next
    case (Some sub)
    then show ?thesis using run mk assms by (auto simp: on_stream_def)
  qed
qed

lemma outcome_None: "behind s t \<Longrightarrow> outcome None s t"
  by (simp add: outcome_def)

lemma make_derr:
  assumes "pb_make_string_substream s = (Some sub, s')" "derr msg (s', m) = (r, (t, m'))"
  shows "r = None" "behind s t"
  using make_behind [OF assms(1)] assms(2) behind_trans [OF _ advances_behind [OF ierr_advances]]
  by (auto simp: derr_def on_stream_def ierr_def split: prod.splits)

lemma progress_in_substream:
  assumes "progresses body"
  shows "progresses (fthen (fdo (on_stream pb_make_string_substream)) (in_substream body))"
proof (rule progress_substream)
  fix sub s' s :: "'a istream" and m r t m'
  assume mk: "pb_make_string_substream s = (Some sub, s')"
    and run: "in_substream body sub (s', m) = Some (r, (t, m'))"
  obtain status sub' m1 where b: "body (sub, m) = Some (status, (sub', m1))"
    using run by (cases "body (sub, m)") (auto simp: in_substream_def)
  obtain q u where cl: "pb_close_string_substream sub' s' = (q, u)" by fastforce
  have out: "outcome status sub sub'" using assms b by (rule progressesD)
  note fr = substream_frame [OF mk outcome_behind [OF out] cl]
  show "outcome r s t"
    using run b cl fr out
    by (cases q; cases status) (auto simp: in_substream_def outcome_def)
qed


section \<open>Every decoding function progresses\<close>

lemma progress_scalars [progress_intros]:
  "progresses (fdo (pb_dec_bool field dest))" "progresses (fdo (pb_dec_varint field dest))"
  "progresses (fdo (pb_dec_uvarint field dest))" "progresses (fdo (pb_dec_svarint field dest))"
  "progresses (fdo (pb_dec_fixed32 field dest))" "progresses (fdo (pb_dec_fixed64 field dest))"
proof -
  have st: "progresses (fdo (store_signed n d v))" "progresses (fdo (store_unsigned n d v))" for n d v
    unfolding store_signed_def store_unsigned_def clamp_check_def by (intro progress_intros)+
  show "progresses (fdo (pb_dec_bool field dest))" "progresses (fdo (pb_dec_varint field dest))"
      "progresses (fdo (pb_dec_uvarint field dest))" "progresses (fdo (pb_dec_svarint field dest))"
      "progresses (fdo (pb_dec_fixed32 field dest))" "progresses (fdo (pb_dec_fixed64 field dest))"
    unfolding pb_dec_bool_def pb_dec_varint_def pb_dec_uvarint_def pb_dec_svarint_def
      pb_dec_fixed32_def pb_dec_fixed64_def
    by (intro progress_intros st pb_decode_varint_keeps pb_decode_varint32_keeps
        pb_decode_svarint_keeps pb_decode_fixed_keeps)+
qed

lemma progress_allocate [progress_intros]: "progresses (fdo (allocate_field p d a))"
  unfolding allocate_field_def by (intro progress_intros)

lemma progress_read_into [progress_intros]: "progresses (fdo (read_into d n))"
  unfolding read_into_def by (intro progress_intros pb_read_keeps)

lemma progress_strings [progress_intros]:
  "progresses (fdo (pb_dec_bytes field dest))" "progresses (fdo (pb_dec_string field dest))"
  "progresses (fdo (pb_dec_fixed_length_bytes field dest))"
  unfolding pb_dec_bytes_def pb_dec_string_def pb_dec_fixed_length_bytes_def Let_def
  by (intro progress_intros pb_decode_varint32_keeps)+

definition progressing_decoder :: "'u msg_decoder \<Rightarrow> bool" where
  "progressing_decoder dec \<longleftrightarrow> (\<forall>init fs dest. progresses (dec init fs dest))"

text \<open>The contract with the application: its callbacks progress too.\<close>

definition progressing_env :: "'u dec_env \<Rightarrow> bool" where
  "progressing_env E \<longleftrightarrow> (\<forall>a field arg. progresses (fdo (decode_fn E a field arg))) \<and>
     (\<forall>a ext t w. progresses (fdo (ext_decode_fn E a ext t w)))"

lemma progress_submessage:
  assumes "progressing_decoder dec"
  shows "progresses (pb_dec_submessage E dec field dest)"
proof (cases "ptr field = 0")
  case True
  have "progresses (fthen (fdo (on_stream pb_make_string_substream))
      (\<lambda>sub. fdo (derr ''invalid field descriptor'')))"
    by (rule progress_substream) (use make_derr in \<open>fastforce simp: outcome_def\<close>)
  with True show ?thesis by (simp add: pb_dec_submessage_def del: fdo_simp)
next
  case False
  have "progresses (dec (PB_HTYPE (ftype field) = PB_HTYPE_REPEATED) (dtables E (ptr field)) dest)"
    using assms by (simp add: progressing_decoder_def)
  from progress_in_substream [OF this] False show ?thesis
    by (simp add: pb_dec_submessage_def)
qed

lemma progress_PB_DECODERS:
  "progressing_decoder dec \<Longrightarrow> progresses (PB_DECODERS E dec l field dest)"
  unfolding PB_DECODERS_def by (intro progress_intros progress_submessage)

lemma progress_packed_static:
  "(\<And>p. progresses (func p)) \<Longrightarrow> progresses (packed_static_loop k func it)"
proof (induction k)
  case 0
  then show ?case by (simp add: progress_basic)
next
  case (Suc k)
  show ?case unfolding packed_static_loop.simps Let_def by (intro progress_intros Suc.IH Suc.prems)
qed

lemma progress_packed_pointer:
  "(\<And>p. progresses (func p)) \<Longrightarrow> progresses (packed_pointer_loop k n tbl func it a)"
proof (induction k arbitrary: a)
  case 0
  then show ?case by (simp add: progress_basic)
next
  case (Suc k)
  show ?case unfolding packed_pointer_loop.simps Let_def by (intro progress_intros Suc.IH Suc.prems)
qed

lemma progress_callback_loop:
  "progresses (fdo cb) \<Longrightarrow> progresses (callback_loop k cb)"
proof (induction k)
  case 0
  then show ?case by (simp add: progress_basic)
next
  case (Suc k)
  show ?case unfolding callback_loop.simps by (intro progress_intros Suc.IH Suc.prems)
qed

text \<open>Between making and closing: a loop on the substream, then an error or the closing.\<close>

lemma substream_outcome:
  assumes "pb_make_string_substream s = (Some sub, s')" "outcome status sub sub'"
    and "pb_close_string_substream sub' s' = (q, t)"
  shows "behind s t" "q \<noteq> None \<Longrightarrow> status \<noteq> None \<Longrightarrow> advances s t"
  using substream_frame [OF assms(1) outcome_behind [OF assms(2)] assms(3)] assms(2)
  by (auto simp: outcome_def)

lemma progress_static_field:
  assumes "progressing_decoder dec"
  shows "progresses (decode_static_field n E dec w it)"
proof -
  note func = progress_PB_DECODERS [OF assms]
  have packed: "progresses (fthen (fdo (on_stream pb_make_string_substream)) (\<lambda>sub (s, m).
      case packed_static_loop (Suc (bytes_left sub)) (PB_DECODERS E dec l f) it (sub, m) of
        None \<Rightarrow> None
      | Some (status, (sub', m')) \<Rightarrow>
          if bytes_left sub' \<noteq> 0 then fdo (derr ''array overflow'') (s, m')
          else case pb_close_string_substream sub' s of
              (None, t) \<Rightarrow> Some (None, (t, m'))
            | (Some _, t) \<Rightarrow> Some (status, (t, m'))))" (is "progresses (fthen _ ?k)") for l f
  proof (rule progress_substream)
    fix sub s' s :: "'a istream" and m r t m'
    assume mk: "pb_make_string_substream s = (Some sub, s')" and run: "?k sub (s', m) = Some (r, (t, m'))"
    obtain status sub' m1 where b:
      "packed_static_loop (Suc (bytes_left sub)) (PB_DECODERS E dec l f) it (sub, m) = Some (status, (sub', m1))"
      using run by (cases "packed_static_loop (Suc (bytes_left sub)) (PB_DECODERS E dec l f) it (sub, m)") auto
    have out: "outcome status sub sub'"
      using progress_packed_static [OF func] b by (rule progressesD)
    obtain q u where cl: "pb_close_string_substream sub' s' = (q, u)" by fastforce
    note fr = substream_outcome [OF mk out cl]
    show "outcome r s t"
    proof (cases "bytes_left sub' = 0")
      case True
      then show ?thesis
        using run b cl fr by (cases q; cases status) (auto simp: outcome_def simp del: packed_static_loop.simps)
    next
      case False
      then have "derr ''array overflow'' (s', m1) = (r, (t, m'))"
        using run b by (simp del: packed_static_loop.simps)
      from make_derr [OF mk this] show ?thesis by (simp add: outcome_def)
    qed
  qed
  show ?thesis
    unfolding decode_static_field_def Let_def by (intro progress_intros func packed)
qed

lemma progress_pointer_field:
  assumes "progressing_decoder dec"
  shows "progresses (decode_pointer_field n E dec w it)"
proof -
  note func = progress_PB_DECODERS [OF assms]
  have packed: "progresses (fthen (fdo (on_stream pb_make_string_substream)) (\<lambda>sub (s, m).
      case packed_pointer_loop (Suc (bytes_left sub)) n (dtables E) (PB_DECODERS E dec l f) it a (sub, m) of
        None \<Rightarrow> None
      | Some (status, (sub', m')) \<Rightarrow>
          let s1 = (if status = Some True then s\<lparr>ierrmsg := Some ''too many array entries''\<rparr> else s) in
          (case pb_close_string_substream sub' s1 of
             (None, t) \<Rightarrow> Some (None, (t, m'))
           | (Some _, t) \<Rightarrow> Some (if status = Some False then Some () else None, (t, m')))))"
    (is "progresses (fthen _ ?k)") for l f a
  proof (rule progress_substream)
    fix sub s' s :: "'a istream" and m r t m'
    assume mk: "pb_make_string_substream s = (Some sub, s')" and run: "?k sub (s', m) = Some (r, (t, m'))"
    let ?loop = "packed_pointer_loop (Suc (bytes_left sub)) n (dtables E) (PB_DECODERS E dec l f) it a (sub, m)"
    obtain status sub' m1 where b: "?loop = Some (status, (sub', m1))"
      using run by (cases ?loop) auto
    have out: "outcome status sub sub'"
      using progress_packed_pointer [OF func] b by (rule progressesD)
    let ?s1 = "if status = Some True then s'\<lparr>ierrmsg := Some ''too many array entries''\<rparr> else s'"
    obtain q u where cl: "pb_close_string_substream sub' ?s1 = (q, u)" by fastforce
    obtain q' u' where cl': "pb_close_string_substream sub' s' = (q', u')" by fastforce
    have same: "q' = q" "source u' = source u" "bytes_left u' = bytes_left u"
      using cl cl' by (auto simp: pb_close_string_substream_def split: option.splits prod.splits if_splits)
    note fr = substream_outcome [OF mk out cl']
    have "behind s u" "q \<noteq> None \<Longrightarrow> status \<noteq> None \<Longrightarrow> advances s u"
      using fr same by (auto simp: behind_def advances_def)
    then show "outcome r s t"
      using run b cl by (cases q; cases status) (auto simp: outcome_def Let_def simp del: packed_pointer_loop.simps split: if_splits)
  qed
  show ?thesis
    unfolding decode_pointer_field_def Let_def [of "load_u32 _ _"] Let_def [of "item_addr _ _ _"]
      Let_def [of "cur _"] Let_def [of "ftype _"] Let_def [of "PB_DECODERS _ _ _ _"]
    by (intro progress_intros func packed)
qed


lemma progress_callback_field:
  assumes "progressing_env E"
  shows "progresses (decode_callback_field E w it)"
proof -
  have cb: "progresses (fdo (decode_fn E a f arg))" for a f arg
    using assms by (simp add: progressing_env_def del: fdo_simp)
  have string: "progresses (fthen (fdo (on_stream pb_make_string_substream)) (\<lambda>sub (s, m).
      case callback_loop (Suc (bytes_left sub)) (decode_fn E a f arg) (sub, m) of
        None \<Rightarrow> None
      | Some (None, (sub', m')) \<Rightarrow> fdo (derr ''callback failed'') (s, m')
      | Some (Some _, (sub', m')) \<Rightarrow> fdo (on_stream (pb_close_string_substream sub')) (s, m')))"
    (is "progresses (fthen _ ?k)") for a f arg
  proof (rule progress_substream)
    fix sub s' s :: "'a istream" and m r t m'
    assume mk: "pb_make_string_substream s = (Some sub, s')" and run: "?k sub (s', m) = Some (r, (t, m'))"
    let ?loop = "callback_loop (Suc (bytes_left sub)) (decode_fn E a f arg) (sub, m)"
    obtain status sub' m1 where b: "?loop = Some (status, (sub', m1))"
      using run by (cases ?loop) auto
    have out: "outcome status sub sub'"
      using progress_callback_loop [OF cb] b by (rule progressesD)
    obtain q u where cl: "pb_close_string_substream sub' s' = (q, u)" by fastforce
    note fr = substream_outcome [OF mk out cl]
    show "outcome r s t"
    proof (cases status)
      case None
      then have "derr ''callback failed'' (s', m1) = (r, (t, m'))"
        using run b by (simp del: callback_loop.simps)
      from make_derr [OF mk this] show ?thesis by (simp add: outcome_def)
    next
      case (Some x)
      then show ?thesis
        using run b cl fr by (auto simp: outcome_def on_stream_def simp del: callback_loop.simps)
    qed
  qed
  have scalar: "progresses (fthen (fdo (on_stream (read_raw_value w 10))) (\<lambda>buffer (s, m).
      case decode_fn E a f arg (pb_istream_from_buffer buffer (length buffer), m) of
        (status, (_, m')) \<Rightarrow> Some (status, (s, m'))))" for a f arg
    by (intro progress_fthen progress_stream read_raw_value_keeps)
      (auto simp: progresses_def split: prod.splits)
  show ?thesis
    unfolding decode_callback_field_def Let_def
    by (intro progress_intros string scalar pb_skip_field_keeps)
qed

lemma progress_release_union: "progresses (pb_release_union_field n tbl it)"
  unfolding pb_release_union_field_def Let_def by (intro progress_intros)

lemma progress_decode_field:
  assumes "progressing_decoder dec" "progressing_env E"
  shows "progresses (decode_field n E dec w it)"
  unfolding decode_field_def Let_def
  by (intro progress_intros progress_release_union progress_static_field progress_pointer_field
      progress_callback_field assms)

lemma progress_extension_loop:
  assumes "progressing_decoder dec" "progressing_env E"
  shows "progresses (extension_decode_loop k n E dec t w left ext)"
proof (induction k arbitrary: ext)
  case 0
  show ?case unfolding extension_decode_loop.simps by (intro progress_intros)
next
  case (Suc k)
  have "progresses (default_extension_decoder n E dec ext t w)" for ext
    unfolding default_extension_decoder_def Let_def by (intro progress_intros progress_decode_field assms)
  moreover have "progresses (fdo (ext_decode_fn E a ext t w))" for a
    using assms(2) by (simp add: progressing_env_def del: fdo_simp)
  ultimately show ?case
    unfolding extension_decode_loop.simps Let_def by (intro progress_intros Suc.IH)
qed

lemma progress_decode_unknown:
  assumes "progressing_decoder dec" "progressing_env E"
  shows "progresses (decode_unknown n E dec t w v)"
  unfolding decode_unknown_def Let_def decode_extension_def
  by (intro progress_intros progress_extension_loop pb_skip_field_keeps assms)

lemma progress_decode_known:
  assumes "progressing_decoder dec" "progressing_env E"
  shows "progresses (decode_known n E dec slot w v)"
  unfolding decode_known_def Let_def
  by (intro progress_intros progress_decode_field assms)

lemma progress_decode_loop:
  assumes "progressing_decoder dec" "progressing_env E"
  shows "progresses (decode_loop k n E dec slot v)"
proof (induction k arbitrary: v)
  case 0
  show ?case by (simp add: progress_basic)
next
  case (Suc k)
  have body: "progresses (fthen (case pb_field_iter_find tg (iter v) of (found, it) \<Rightarrow>
        if found then decode_known n E dec slot w (v\<lparr>iter := it\<rparr>)
        else decode_unknown n E dec tg w (v\<lparr>iter := it\<rparr>))
      (decode_loop k n E dec slot))" for tg w
    by (intro progress_intros progress_decode_known progress_decode_unknown assms Suc.IH)
  show ?case
  proof (rule progressesI)
    fix s m r t m'
    assume run: "decode_loop (Suc k) n E dec slot v (s, m) = Some (r, (t, m'))"
    show "outcome r s t"
    proof (cases "bytes_left s = 0")
      case True
      with run show ?thesis by simp
    next
      case False
      obtain q u eof where tag: "pb_decode_tag s = (q, u, eof)" using prod_cases3 by blast
      then have su: "advances s u" by (rule pb_decode_tag_advances)
      show ?thesis
      proof (cases q)
        case None
        with run tag False su show ?thesis by (auto simp: outcome_def advances_behind)
      next
        case (Some x)
        then obtain w tg where x: "q = Some (w, tg)" by (cases x) auto
        then have "outcome r u t"
          using run tag False progressesD [OF body] by (auto split: prod.splits)
        with su show ?thesis by (rule outcome_trans)
      qed
    qed
  qed
qed

lemma progress_decode_with:
  assumes "progresses noinit"
  shows "progresses (pb_decode_with n E fs dest noinit)"
proof -
  have "progresses (\<lambda>st. case noinit st of None \<Rightarrow> None
       | Some (Some u, st') \<Rightarrow> Some (Some u, st')
       | Some (None, (s, m)) \<Rightarrow> map_option (\<lambda>m'. (None, (s, m'))) (pb_release n (dtables E) fs dest m))"
    by (rule progressesI) (auto split: option.splits dest: progressesD [OF assms])
  then show ?thesis
    unfolding pb_decode_with_def by (intro progress_intros)
qed

lemma progress_decode_noinit:
  assumes "progressing_env E"
  shows "progresses (pb_decode_noinit n E fs dest)"
proof (induction n arbitrary: fs dest)
  case 0
  show ?case by (simp add: pb_decode_noinit.simps(1) progress_basic)
next
  case (Suc n)
  have "progressing_decoder (\<lambda>init fs' d. if init then pb_decode_with n E fs' d (pb_decode_noinit n E fs' d)
      else pb_decode_noinit n E fs' d)"
    unfolding progressing_decoder_def by (intro allI progress_if progress_decode_with Suc)
  moreover have "progresses (fdo (finish_noinit slot v))" for slot v
    unfolding finish_noinit_def by (intro progress_intros)
  ultimately show ?case
    unfolding pb_decode_noinit.simps(2) [of n E fs dest] Let_def
    by (intro progress_intros progress_decode_loop assms)
qed

lemma progress_decode:
  assumes "progressing_env E"
  shows "progresses (pb_decode n E fs dest)" "progresses (pb_decode_delimited n E fs dest)"
    "progresses (pb_decode_delimited_noinit n E fs dest)"
proof -
  show d: "progresses (pb_decode n E fs dest)"
    unfolding pb_decode_def by (intro progress_decode_with progress_decode_noinit assms)
  show "progresses (pb_decode_delimited n E fs dest)"
    unfolding pb_decode_delimited_def by (intro progress_in_substream d)
  show "progresses (pb_decode_delimited_noinit n E fs dest)"
    unfolding pb_decode_delimited_noinit_def by (intro progress_in_substream progress_decode_noinit assms)
qed

end
