(* ===== verification/PbEncodeFacts.thy ===== *)
theory PbEncodeFacts
  imports PbEncode
begin

text \<open>
  What is proved about the message encoder of \<open>PbEncode\<close>: more fuel does not change a result,
  enough fuel exists for every message type without recursion, only the window of the output
  buffer is written, the fields are written in descriptor order, and the sizing pass is exact.
\<close>

section \<open>More fuel gives the same result\<close>

named_theorems refines_intros \<open>actions whose results more fuel keeps\<close>

lemma refines_if [refines_intros]:
  "(b \<Longrightarrow> refines x x') \<Longrightarrow> (\<not> b \<Longrightarrow> refines y y') \<Longrightarrow> refines (if b then x else y) (if b then x' else y')"
  by simp

lemmas [refines_intros] = refines_refl refines_None refines_fthen

lemma refinesD: "refines m m' \<Longrightarrow> m s = Some r \<Longrightarrow> m' s = Some r"
  unfolding refines_def by blast

text \<open>The same for the presence test, whose result is a plain option.\<close>

definition le_option :: "'a option \<Rightarrow> 'a option \<Rightarrow> bool" where
  "le_option x y \<longleftrightarrow> x = None \<or> x = y"

lemma iter_all_mono:
  assumes "\<And>f d. le_option (p f d) (q f d)"
  shows "le_option (iter_all k p it) (iter_all k q it)"
proof (induction k arbitrary: it)
  case 0
  then show ?case by (simp add: le_option_def)
next
  case (Suc k)
  then show ?case
    using assms [of "cur it" "pData it"]
    by (cases "p (cur it) (pData it)"; cases "q (cur it) (pData it)")
      (auto simp: le_option_def split: bool.splits prod.splits)
qed

lemma proto3_mono:
  "le_option (pb_check_proto3_default_value n tbl m field p) (pb_check_proto3_default_value (Suc n) tbl m field p)"
proof (induction n arbitrary: field p)
  case 0
  then show ?case by (simp add: pb_check_proto3_default_value.simps(1) le_option_def)
next
  case (Suc n)
  have it: "le_option (iter_all k (pb_check_proto3_default_value n tbl m) it)
      (iter_all k (pb_check_proto3_default_value (Suc n) tbl m) it)" for k it
    by (rule iter_all_mono) (rule Suc)
  have case_mono: "le_option (case x of (False, _) \<Rightarrow> Some True | (True, it) \<Rightarrow>
        iter_all k (pb_check_proto3_default_value n tbl m) it)
      (case x of (False, _) \<Rightarrow> Some True | (True, it) \<Rightarrow>
        iter_all k (pb_check_proto3_default_value (Suc n) tbl m) it)" for x k
    using it by (auto simp: le_option_def split: prod.splits bool.splits)
  have if_mono: "le_option (if b then x else y) (if b then x' else y')"
    if "le_option x x'" "le_option y y'" for b and x x' y y' :: "bool option"
    using that by simp
  have same: "le_option x x" for x :: "bool option" by (simp add: le_option_def)
  show ?case
    unfolding pb_check_proto3_default_value.simps(2) [of "Suc n" tbl m field p]
      pb_check_proto3_default_value.simps(2) [of n tbl m field p] Let_def
    by (intro if_mono same case_mono)
qed

lemma refines_PB_ENCODERS:
  assumes "\<And>fs src. refines (enc fs src) (enc' fs src)"
  shows "refines (PB_ENCODERS E enc m l field src) (PB_ENCODERS E enc' m l field src)"
proof -
  have sub: "refines (pb_encode_submessage_with (enc fs src)) (pb_encode_submessage_with (enc' fs src))" for fs
    unfolding refines_def
  proof (intro allI impI)
    fix s r
    assume run: "pb_encode_submessage_with (enc fs src) s = Some r"
    then obtain x where x: "enc fs src PB_OSTREAM_SIZING = Some x"
      by (cases "enc fs src PB_OSTREAM_SIZING") (auto simp: pb_encode_submessage_with_def)
    have x': "enc' fs src PB_OSTREAM_SIZING = Some x" using refinesD [OF assms x] .
    show "pb_encode_submessage_with (enc' fs src) s = Some r"
      using run x x'
      by (auto simp: pb_encode_submessage_with_def Let_def fthen_def
          split: option.splits prod.splits if_splits dest: refinesD [OF assms])
  qed
  show ?thesis
    unfolding PB_ENCODERS_def pb_enc_submessage_def by (intro refines_intros sub)
qed

lemma refines_for_items:
  "(\<And>p. refines (f p) (f' p)) \<Longrightarrow> refines (for_items n step f p) (for_items n step f' p)"
proof (induction n arbitrary: p)
  case 0
  then show ?case by simp
next
  case (Suc n)
  then show ?case unfolding for_items.simps(2) by (intro refines_intros) auto
qed

lemma refines_encode_array:
  assumes "\<And>p. refines (func p) (func' p)"
  shows "refines (encode_array m field p count func) (encode_array m field p count func')"
proof -
  have items: "refines (for_items k step func q) (for_items k step func' q)" for k step q
    by (rule refines_for_items) (rule assms)
  have packed: "refines
     (\<lambda>s. case if b then Some x else if c then Some y else map_option g (for_items k step func q PB_OSTREAM_SIZING) of
        None \<Rightarrow> None | Some None \<Rightarrow> Some (None, s)
      | Some (Some n) \<Rightarrow> fthen (fdo (pb_encode_varint (of_nat n))) (\<lambda>_ t.
          if is_sizing (sink t) then fdo (pb_write [] n) t else for_items k step func q t) s)
     (\<lambda>s. case if b then Some x else if c then Some y else map_option g (for_items k step func' q PB_OSTREAM_SIZING) of
        None \<Rightarrow> None | Some None \<Rightarrow> Some (None, s)
      | Some (Some n) \<Rightarrow> fthen (fdo (pb_encode_varint (of_nat n))) (\<lambda>_ t.
          if is_sizing (sink t) then fdo (pb_write [] n) t else for_items k step func' q t) s)"
    for b c x y g k step q
  proof (cases "for_items k step func q PB_OSTREAM_SIZING")
    case None
    then show ?thesis
      unfolding refines_def fthen_def
      by (auto split: option.splits prod.splits if_splits dest: refinesD [OF items])
  next
    case (Some r)
    with refinesD [OF items] have "for_items k step func' q PB_OSTREAM_SIZING = Some r" .
    with Some show ?thesis
      unfolding refines_def fthen_def
      by (auto split: option.splits prod.splits if_splits dest: refinesD [OF items])
  qed
  show ?thesis
    unfolding encode_array_def Let_def
    by (intro refines_intros packed refines_for_items assms)
qed


lemma refines_encode_basic_field:
  assumes "\<And>fs src. refines (enc fs src) (enc' fs src)"
  shows "refines (encode_basic_field n E enc m field p) (encode_basic_field (Suc n) E enc' m field p)"
proof -
  have case_mono: "refines (case x of None \<Rightarrow> (\<lambda>s. None) | Some h \<Rightarrow> f h) (case y of None \<Rightarrow> (\<lambda>s. None) | Some h \<Rightarrow> g h)"
    if "le_option x y" "\<And>h. refines (f h) (g h)" for x y :: "bool option" and f g :: "bool \<Rightarrow> ('a, unit) ofact"
    using that by (cases x) (auto simp: le_option_def)
  have le: "le_option (if b then x else if c then map_option f y else z) (if b then x else if c then map_option f y' else z)"
    if "le_option y y'" for b c f x y y' and z :: "bool option"
    using that by (auto simp: le_option_def)
  show ?thesis
    unfolding encode_basic_field_def Let_def
    by (intro case_mono le proto3_mono refines_intros refines_encode_array refines_PB_ENCODERS assms)
qed

lemma refines_encode_field:
  assumes "\<And>fs src. refines (enc fs src) (enc' fs src)"
  shows "refines (encode_field n E enc m field p) (encode_field (Suc n) E enc' m field p)"
  unfolding encode_field_def Let_def by (intro refines_intros refines_encode_basic_field assms)

lemma refines_extension_loop:
  assumes "\<And>fs src. refines (enc fs src) (enc' fs src)"
  shows "refines (extension_loop k n E enc m ext) (extension_loop (Suc k) (Suc n) E enc' m ext)"
proof (induction k arbitrary: ext)
  case 0
  then show ?case by (simp add: fdo_ret)
next
  case (Suc k)
  have "refines (default_extension_encoder n E enc m ext) (default_extension_encoder (Suc n) E enc' m ext)" for ext
    unfolding default_extension_encoder_def Let_def
    by (intro refines_intros refines_encode_field assms)
  with Suc show ?case
    unfolding extension_loop.simps(2) [of "Suc k"] extension_loop.simps(2) [of k n] Let_def
    by (intro refines_intros)
qed

lemma refines_iter_encode:
  assumes "\<And>field p. refines (f field p) (f' field p)"
  shows "refines (iter_encode k f it) (iter_encode k f' it)"
proof (induction k arbitrary: it)
  case 0
  then show ?case by simp
next
  case (Suc k)
  then show ?case
    unfolding iter_encode.simps(2)
    by (intro refines_intros assms) (auto split: prod.splits bool.splits)
qed

lemma refines_pb_encode_Suc: "refines (pb_encode n E m fs src) (pb_encode (Suc n) E m fs src)"
proof (induction n arbitrary: fs src)
  case 0
  then show ?case by (simp add: pb_encode.simps(1))
next
  case (Suc n)
  have "refines (iter_encode k (\<lambda>field pdata. if PB_LTYPE (ftype field) = PB_LTYPE_EXTENSION
        then encode_extension_field n E (pb_encode n E m) m pdata
        else encode_field n E (pb_encode n E m) m field pdata) it)
      (iter_encode k (\<lambda>field pdata. if PB_LTYPE (ftype field) = PB_LTYPE_EXTENSION
        then encode_extension_field (Suc n) E (pb_encode (Suc n) E m) m pdata
        else encode_field (Suc n) E (pb_encode (Suc n) E m) m field pdata) it)" for k it
    unfolding encode_extension_field_def
    by (intro refines_iter_encode refines_intros refines_extension_loop refines_encode_field Suc)
  then show ?case
    unfolding pb_encode.simps(2) [of "Suc n" E m fs src] pb_encode.simps(2) [of n E m fs src] Let_def
    by (auto simp: fdo_ret split: prod.splits bool.splits)
qed

lemma refines_trans: "refines a b \<Longrightarrow> refines b c \<Longrightarrow> refines a c"
  unfolding refines_def by blast

lemma refines_pb_encode: "n \<le> k \<Longrightarrow> refines (pb_encode n E m fs src) (pb_encode k E m fs src)"
proof (induction k)
  case 0
  then show ?case by simp
next
  case (Suc k)
  then show ?case
    using refines_pb_encode_Suc [of k E m fs src] refines_trans
    by (cases "n = Suc k") fastforce+
qed

section \<open>Enough fuel exists\<close>

text \<open>
  \<open>shallow tbl n fs\<close>: the descriptor array is terminated, its entries are of the kinds the
  generator emits (other than extension ranges), and submessages nest at most \<open>n\<close> deep.
\<close>

definition ordinary_field :: "pb_field \<Rightarrow> bool" where
  "ordinary_field f \<longleftrightarrow> (PB_LTYPE (ftype f) \<le> PB_LTYPE_SUBMESSAGE \<or>
       PB_LTYPE (ftype f) = PB_LTYPE_FIXED_LENGTH_BYTES) \<and>
     (PB_HTYPE (ftype f) = PB_HTYPE_ONEOF \<longrightarrow> size_offset f \<noteq> 0)"

fun shallow :: "(addr \<Rightarrow> pb_field list) \<Rightarrow> nat \<Rightarrow> pb_field list \<Rightarrow> bool" where
  "shallow tbl 0 fs = False"
| "shallow tbl (Suc n) fs \<longleftrightarrow> wf_fields fs \<and>
     list_all (\<lambda>f. ordinary_field f \<and>
       (PB_LTYPE (ftype f) = PB_LTYPE_SUBMESSAGE \<longrightarrow> shallow tbl n (tbl (ptr f)))) (butlast fs)"

definition total :: "('s, 'a) fact \<Rightarrow> bool" where
  "total m \<longleftrightarrow> (\<forall>s. m s \<noteq> None)"

named_theorems total_intros \<open>actions that return\<close>

lemma totalD: "total m \<Longrightarrow> m s \<noteq> None"
  by (simp add: total_def)

lemma total_fdo [total_intros]: "total (fdo m)"
  by (simp add: total_def)

lemma total_fthen [total_intros]: "total m \<Longrightarrow> (\<And>x. total (f x)) \<Longrightarrow> total (fthen m f)"
  by (auto simp: total_def fthen_def split: option.splits prod.splits)

lemma total_if [total_intros]: "(b \<Longrightarrow> total x) \<Longrightarrow> (\<not> b \<Longrightarrow> total y) \<Longrightarrow> total (if b then x else y)"
  by simp

lemma total_for_items [total_intros]: "(\<And>p. total (f p)) \<Longrightarrow> total (for_items n step f p)"
  by (induction n arbitrary: p) (auto intro: total_intros)

lemma shallow_nth:
  assumes "shallow tbl (Suc n) fs" "i < field_count fs"
  shows "ordinary_field (fs ! i)" "PB_LTYPE (ftype (fs ! i)) = PB_LTYPE_SUBMESSAGE \<Longrightarrow> shallow tbl n (tbl (ptr (fs ! i)))"
  using assms nth_mem [of i "butlast fs"] by (auto simp: list_all_iff nth_butlast)

lemma begin_iter_at: "wf_fields fs \<Longrightarrow> pb_field_iter_begin fs d = (0 < field_count fs, iter_at fs d 0)"
proof -
  assume wf: "wf_fields fs"
  then have "tag (fs ! 0) \<noteq> 0 \<longleftrightarrow> 0 < field_count fs"
    using wf_fields_nth [OF wf, of 0] by (auto simp: wf_fields_def)
  then show ?thesis by (simp add: pb_field_iter_begin_def iter_at.simps(1) Let_def)
qed

lemma iter_all_total:
  assumes "wf_fields fs" "\<And>j p. j < field_count fs \<Longrightarrow> q (fs ! j) p \<noteq> None"
    "i < field_count fs" "field_count fs \<le> i + k"
  shows "iter_all k q (iter_at fs d i) \<noteq> None"
  using assms(3,4)
proof (induction k arbitrary: i)
  case 0
  then show ?case by simp
next
  case (Suc k)
  then show ?case
    using assms(1,2) iter_next_iter_at [OF assms(1) Suc.prems(1), of d]
    by (auto simp: cur_iter_at split: option.splits bool.splits)
qed

lemma iter_encode_total:
  assumes "wf_fields fs" "\<And>j p. j < field_count fs \<Longrightarrow> total (f (fs ! j) p)"
    "i < field_count fs" "field_count fs \<le> i + k"
  shows "total (iter_encode k f (iter_at fs d i))"
  using assms(3,4)
proof (induction k arbitrary: i)
  case 0
  then show ?case by simp
next
  case (Suc k)
  then show ?case
    using assms(1,2) iter_next_iter_at [OF assms(1) Suc.prems(1), of d]
    by (auto simp: cur_iter_at intro!: total_intros)
qed

lemma not_None_if: "(b \<Longrightarrow> x \<noteq> None) \<Longrightarrow> (\<not> b \<Longrightarrow> y \<noteq> None) \<Longrightarrow> (if b then x else y) \<noteq> None"
  by simp

lemma proto3_total:
  assumes "PB_LTYPE (ftype field) = PB_LTYPE_SUBMESSAGE \<Longrightarrow> shallow tbl n (tbl (ptr field))" "n \<le> k"
  shows "pb_check_proto3_default_value (Suc k) tbl m field p \<noteq> None"
  using assms
proof (induction n arbitrary: k field p)
  case 0
  then have "PB_LTYPE (ftype field) \<noteq> PB_LTYPE_SUBMESSAGE" by auto
  then show ?case
    unfolding pb_check_proto3_default_value.simps(2) [of k tbl m field p] Let_def
    by (intro not_None_if option.distinct(2)) simp
next
  case (Suc n)
  have "(case pb_field_iter_begin (tbl (ptr field)) p of (False, _) \<Rightarrow> Some True
      | (True, it) \<Rightarrow> iter_all (length (tbl (ptr field))) (pb_check_proto3_default_value k tbl m) it) \<noteq> None"
    if sub: "PB_LTYPE (ftype field) = PB_LTYPE_SUBMESSAGE"
  proof -
    let ?fs = "tbl (ptr field)"
    have sh: "shallow tbl (Suc n) ?fs" using Suc.prems(1) sub by simp
    then have wf: "wf_fields ?fs" by simp
    obtain k' where k: "k = Suc k'" "n \<le> k'" using Suc.prems(2) by (cases k) auto
    have "pb_check_proto3_default_value k tbl m (?fs ! j) q \<noteq> None" if "j < field_count ?fs" for j q
      unfolding k(1) using Suc.IH [OF shallow_nth(2) [OF sh that] k(2)] by simp
    then have "iter_all (length ?fs) (pb_check_proto3_default_value k tbl m) (iter_at ?fs p 0) \<noteq> None"
      if "0 < field_count ?fs"
      using that iter_all_total [where q = "pb_check_proto3_default_value k tbl m", OF wf] by simp
    then show ?thesis by (auto simp: begin_iter_at [OF wf] split: bool.splits)
  qed
  then show ?case
    unfolding pb_check_proto3_default_value.simps(2) [of k tbl m field p] Let_def
    by (intro not_None_if option.distinct(2)) simp
qed


lemma total_PB_ENCODERS:
  assumes "PB_LTYPE (ftype field) \<le> PB_LTYPE_SUBMESSAGE \<or> PB_LTYPE (ftype field) = PB_LTYPE_FIXED_LENGTH_BYTES"
    and "PB_LTYPE (ftype field) = PB_LTYPE_SUBMESSAGE \<Longrightarrow> total (enc (tables E (ptr field)) src)"
  shows "total (PB_ENCODERS E enc m (PB_LTYPE (ftype field)) field src)"
proof -
  let ?l = "PB_LTYPE (ftype field)"
  have small: "l = 0 \<or> l = 1 \<or> l = 2 \<or> l = 3 \<or> l = 4 \<or> l = 5 \<or> l = 6 \<or> l = 7 \<or> l = 8"
    if "l \<le> 8" for l :: byte
  proof -
    have "unat l \<le> 8" using that by (simp add: word_le_nat_alt)
    then have "unat l \<in> {0, 1, 2, 3, 4, 5, 6, 7, 8}" by auto
    then show ?thesis by (auto simp: word_unat_eq_iff)
  qed
  have sub: "total (pb_encode_submessage_with (enc (tables E (ptr field)) src))"
    if "?l = PB_LTYPE_SUBMESSAGE"
  proof -
    have "enc (tables E (ptr field)) src = (\<lambda>s. Some (the (enc (tables E (ptr field)) src s)))"
      using assms(2) [OF that] by (intro ext) (simp add: total_def)
    then obtain g where "enc (tables E (ptr field)) src = (\<lambda>s. Some (g s))" by (rule that)
    then show ?thesis
      by (simp add: total_def pb_encode_submessage_with_def Let_def fthen_def split: option.splits prod.splits)
  qed
  then show ?thesis
    using assms(1) small [of ?l]
    unfolding PB_ENCODERS_def pb_enc_submessage_def PB_LTYPE_defs
    by (intro total_intros) auto
qed

lemma total_encode_array:
  assumes "\<And>p. total (func p)"
  shows "total (encode_array m field p count func)"
proof -
  have items: "total (for_items k step func q)" for k step q
    by (rule total_for_items) (rule assms)
  have packed: "total (\<lambda>s. case if b then Some x else if c then Some y else map_option g (for_items k step func q PB_OSTREAM_SIZING) of
        None \<Rightarrow> None | Some None \<Rightarrow> Some (None, s)
      | Some (Some n) \<Rightarrow> fthen (fdo (pb_encode_varint (of_nat n))) (\<lambda>_ t.
          if is_sizing (sink t) then fdo (pb_write [] n) t else for_items k step func q t) s)"
    for b c x y g k step q
    using items [of k step q] unfolding total_def fthen_def
    by (auto split: option.splits prod.splits)
  show ?thesis
    unfolding encode_array_def Let_def by (intro total_intros packed assms)
qed

lemma total_encode_field:
  assumes ord: "ordinary_field field"
    and sub: "PB_LTYPE (ftype field) = PB_LTYPE_SUBMESSAGE \<Longrightarrow> shallow (tables E) n (tables E (ptr field))"
    and enc: "PB_LTYPE (ftype field) = PB_LTYPE_SUBMESSAGE \<Longrightarrow> (\<And>src. total (enc (tables E (ptr field)) src))"
  shows "total (encode_field (Suc n) E enc m field p)"
proof -
  have func: "total (PB_ENCODERS E enc m (PB_LTYPE (ftype field)) field src)" for src
    using ord enc by (intro total_PB_ENCODERS) (auto simp: ordinary_field_def)
  obtain b where b: "pb_check_proto3_default_value (Suc n) (tables E) m field p = Some b"
    using proto3_total [of field "tables E" n n m p] sub by auto
  have cases: "total (case x of None \<Rightarrow> (\<lambda>s. None) | Some h \<Rightarrow> f h)"
    if "x \<noteq> None" "\<And>h. total (f h)" for x :: "bool option" and f :: "bool \<Rightarrow> ('a, unit) ofact"
    using that by (cases x) auto
  have oneof: "PB_HTYPE (ftype field) = PB_HTYPE_ONEOF \<Longrightarrow> size_offset field \<noteq> 0"
    using ord by (simp add: ordinary_field_def)
  have "total (encode_basic_field (Suc n) E enc m field p)"
    unfolding encode_basic_field_def Let_def b option.map
    by (intro cases not_None_if option.distinct(2) total_intros total_encode_array func) (use oneof in auto)
  then show ?thesis
    unfolding encode_field_def Let_def by (intro total_intros)
qed

lemma total_pb_encode:
  "shallow (tables E) n fs \<Longrightarrow> total (pb_encode (Suc n) E m fs src)"
proof (induction n arbitrary: fs src)
  case 0
  then show ?case by simp
next
  case (Suc n)
  then have wf: "wf_fields fs" by simp
  let ?f = "\<lambda>field pdata. if PB_LTYPE (ftype field) = PB_LTYPE_EXTENSION
      then encode_extension_field (Suc n) E (pb_encode (Suc n) E m) m pdata
      else encode_field (Suc n) E (pb_encode (Suc n) E m) m field pdata"
  have "total (?f (fs ! j) p)" if j: "j < field_count fs" for j p
  proof -
    note sh = shallow_nth [OF Suc.prems j]
    have "PB_LTYPE (ftype (fs ! j)) \<noteq> PB_LTYPE_EXTENSION"
      using sh(1) by (auto simp: ordinary_field_def PB_LTYPE_defs)
    then show ?thesis
      using total_encode_field [OF sh] Suc.IH sh(2) by simp
  qed
  then have "total (iter_encode (length fs) ?f (iter_at fs src 0))" if "0 < field_count fs"
    using that by (intro iter_encode_total [OF wf]) auto
  then show ?case
    unfolding pb_encode.simps(2) [of "Suc n" E m fs src] Let_def begin_iter_at [OF wf]
    by (auto simp: total_fdo split: bool.splits)
qed


section \<open>Only the window of the buffer is written\<close>

definition in_window :: "'u ostream \<Rightarrow> 'u ostream \<Rightarrow> bool" where
  "in_window s t \<longleftrightarrow> (max_size s < 2 ^ 63 \<longrightarrow> extends s t)"

lemma in_window_refl: "reflp in_window"
  by (simp add: reflp_def in_window_def reflpD [OF extends_refl])

lemma in_window_trans: "transp in_window"
proof (rule transpI)
  fix s t u :: "'u ostream"
  assume "in_window s t" "in_window t u"
  then show "in_window s u"
    using transpD [OF extends_trans, of s t u] by (cases "wf_ostream s") (auto simp: in_window_def extends_def)
qed

lemma keeps_in_window: "keeps extends m \<Longrightarrow> keeps in_window m"
  by (simp add: keeps_def in_window_def)

named_theorems window_intros \<open>actions that stay in the window of the stream\<close>

lemma window_fthen [window_intros]:
  "fkeeps in_window m \<Longrightarrow> (\<And>x. fkeeps in_window (f x)) \<Longrightarrow> fkeeps in_window (fthen m f)"
  by (rule fkeeps_fthen [OF in_window_trans])

lemma window_basic [window_intros]:
  "fkeeps in_window (fdo (ret x))" "fkeeps in_window (fdo (oerr msg))" "fkeeps in_window (\<lambda>s. None)"
  by (auto intro: keeps_in_window keeps_ret extends_refl oerr_keeps)

lemma window_if [window_intros]:
  "(b \<Longrightarrow> fkeeps in_window x) \<Longrightarrow> (\<not> b \<Longrightarrow> fkeeps in_window y) \<Longrightarrow> fkeeps in_window (if b then x else y)"
  by simp

lemma window_write: "n = length bs \<Longrightarrow> n < 2 ^ 64 \<Longrightarrow> keeps in_window (pb_write bs n)"
  by (rule keeps_in_window) (simp add: pb_write_keeps)

lemma window_varint: "keeps in_window (pb_encode_varint v)"
proof -
  have "length (varint_bytes v) < 2 ^ 64" using varint_bytes_length(1) [of v] by simp
  then show ?thesis by (simp add: pb_encode_varint_def window_write)
qed

lemma window_scalars [window_intros]:
  "fkeeps in_window (fdo (pb_encode_varint v))" "fkeeps in_window (fdo (pb_encode_svarint v))"
  "fkeeps in_window (fdo (pb_encode_tag wt f))"
  "fkeeps in_window (fdo (pb_encode_fixed32 w))" "fkeeps in_window (fdo (pb_encode_fixed64 v))"
  by (simp_all add: window_varint pb_encode_svarint_def pb_encode_tag_def pb_encode_fixed32_def
      pb_encode_fixed64_def window_write)

lemma window_string [window_intros]:
  assumes "n = length bs" "n < 2 ^ 64"
  shows "fkeeps in_window (fdo (pb_encode_string bs n))"
  unfolding fkeeps_fdo pb_encode_string_def
  by (intro keeps_and_then in_window_trans window_varint window_write assms)

lemma strn_len_le: "strn_len m k p \<le> k"
proof (induction m k p rule: strn_len.induct)
  case (1 m k p)
  then show ?case by (subst strn_len.simps) auto
qed

lemma window_values [window_intros]:
  "fkeeps in_window (fdo (pb_encode_tag_for_field field))"
  "fkeeps in_window (fdo (pb_enc_bool m field src))" "fkeeps in_window (fdo (pb_enc_varint m field src))"
  "fkeeps in_window (fdo (pb_enc_uvarint m field src))" "fkeeps in_window (fdo (pb_enc_svarint m field src))"
  "fkeeps in_window (fdo (pb_enc_fixed32 m field src))" "fkeeps in_window (fdo (pb_enc_fixed64 m field src))"
  by (auto simp: pb_encode_tag_for_field_def pb_enc_bool_def pb_enc_varint_def pb_enc_uvarint_def
      pb_enc_svarint_def pb_enc_fixed32_def pb_enc_fixed64_def Let_def simp del: fkeeps_fdo
      intro!: window_intros split: option.splits)

lemma window_strings [window_intros]:
  assumes "data_size field < 2 ^ 32"
  shows "fkeeps in_window (fdo (pb_enc_bytes m field src))" "fkeeps in_window (fdo (pb_enc_string m field src))"
    "fkeeps in_window (fdo (pb_enc_fixed_length_bytes m field src))"
proof -
  have "unat (load_u32 m src) < 2 ^ LENGTH(32)" by (rule unsigned_less)
  then have "unat (load_u32 m src) < 2 ^ 64" by simp
  then show "fkeeps in_window (fdo (pb_enc_bytes m field src))"
    unfolding pb_enc_bytes_def Let_def by (auto simp del: fkeeps_fdo intro!: window_intros)
  have "strn_len m k src < 2 ^ 64" if "k \<le> SIZE_MAX" for k
    using strn_len_le [of m k src] that by (auto simp: SIZE_MAX_def)
  moreover have "data_size field \<le> SIZE_MAX" using assms by (simp add: SIZE_MAX_def)
  ultimately show "fkeeps in_window (fdo (pb_enc_string m field src))"
    unfolding pb_enc_string_def Let_def by (auto simp del: fkeeps_fdo intro!: window_intros)
  show "fkeeps in_window (fdo (pb_enc_fixed_length_bytes m field src))"
    unfolding pb_enc_fixed_length_bytes_def using assms by (intro window_intros) auto
qed

lemma window_for_items [window_intros]: "(\<And>p. fkeeps in_window (f p)) \<Longrightarrow> fkeeps in_window (for_items n step f p)"
  by (induction n arbitrary: p) (auto simp del: fkeeps_fdo intro: window_intros)

lemma window_sized [window_intros]:
  "fkeeps in_window items \<Longrightarrow> fkeeps in_window (\<lambda>t. if is_sizing (sink t) then fdo (pb_write [] n) t else items t)"
proof (rule fkeepsI)
  fix s t :: "'a ostream" and r
  assume "fkeeps in_window items" "(if is_sizing (sink s) then fdo (pb_write [] n) s else items s) = Some (r, t)"
  then show "in_window s t"
    by (cases "is_sizing (sink s)"; cases "sink s")
      (auto simp: in_window_def [of s "s\<lparr>bytes_written := b\<rparr>" for b] extends_def wf_ostream_def dest: fkeepsD)
qed

lemma window_encode_array [window_intros]:
  assumes "\<And>p. fkeeps in_window (func p)"
  shows "fkeeps in_window (encode_array m field p count func)"
proof -
  have packed: "fkeeps in_window (\<lambda>s. case x of None \<Rightarrow> None | Some None \<Rightarrow> Some (None, s)
      | Some (Some n) \<Rightarrow> fthen (fdo (pb_encode_varint (of_nat n))) (\<lambda>_ t.
          if is_sizing (sink t) then fdo (pb_write [] n) t else for_items k step func q t) s)"
    for x k step q
  proof -
    have "fkeeps in_window (fthen (fdo (pb_encode_varint (of_nat n))) (\<lambda>_ t.
          if is_sizing (sink t) then fdo (pb_write [] n) t else for_items k step func q t))" for n
      by (intro window_intros assms)
    moreover have "fkeeps in_window (\<lambda>s. Some (None, s))"
      using in_window_refl by (auto simp: fkeeps_def reflp_def)
    ultimately show ?thesis by (cases x; cases "the x") (simp_all add: window_basic(3))
  qed
  show ?thesis
    unfolding encode_array_def Let_def by (intro window_intros packed assms)
qed

text \<open>The second pass of a submessage runs in a part of the window of its parent.\<close>

lemma window_submessage:
  assumes keeps: "fkeeps in_window enc"
    and small: "\<And>sub. enc PB_OSTREAM_SIZING = Some (Some (), sub) \<Longrightarrow> bytes_written sub < 2 ^ 63"
  shows "fkeeps in_window (pb_encode_submessage_with enc)"
proof -
  have second: "in_window t (t\<lparr>bytes_written := size_add (bytes_written t) (bytes_written sub2),
        sink := sink sub2, oerrmsg := e\<rparr>)" (is "in_window t ?t2")
    if n: "n < 2 ^ 63" "size_add (bytes_written t) n \<le> max_size t" "\<not> is_sizing (sink t)"
      and run: "enc \<lparr>sink = sink t, max_size = n, bytes_written = 0, oerrmsg = None\<rparr> = Some (status, sub2)"
    for t n status sub2 e
    unfolding in_window_def extends_def
  proof (intro impI)
    let ?sub = "\<lparr>sink = sink t, max_size = n, bytes_written = 0, oerrmsg = None\<rparr>"
    assume t: "max_size t < 2 ^ 63" "wf_ostream t"
    then have fits: "bytes_written t + n \<le> max_size t"
      using n by (simp add: wf_ostream_def size_simps)
    then have "wf_ostream ?sub" using t n by (auto simp: wf_ostream_def)
    then have ext: "wf_ostream sub2" "max_size sub2 = n" "is_sizing (sink sub2) = is_sizing (sink t)"
        "\<And>b p. sink t = Buf_sink b p \<Longrightarrow>
          (\<exists>bs. sink sub2 = Buf_sink (buf_write b p bs) (p + length bs) \<and> bytes_written sub2 = length bs)"
        "is_buf (sink sub2) = is_buf (sink t)"
      using fkeepsD [OF keeps run] n(1) by (auto simp: in_window_def extends_def)
    have le: "bytes_written sub2 \<le> n" using ext n(3) by (simp add: wf_ostream_def)
    then have add: "size_add (bytes_written t) (bytes_written sub2) = bytes_written t + bytes_written sub2"
      using fits t(1) by (simp add: size_simps)
    have "wf_ostream ?t2"
    proof (cases "sink t")
      case (Buf_sink b p)
      obtain bs where bs: "sink sub2 = Buf_sink (buf_write b p bs) (p + length bs)" "bytes_written sub2 = length bs"
        using ext(4) [OF Buf_sink] by blast
      have "p + (max_size t - bytes_written t) \<le> length b"
        using t(2) Buf_sink by (auto simp: wf_ostream_def)
      then show ?thesis
        using bs le add fits t(1) by (simp add: wf_ostream_def)
    next
      case (User_sink cb u)
      with ext(5) have "\<not> is_buf (sink sub2)" by simp
      then have "sink sub2 \<noteq> Buf_sink b p" for b p by auto
      then show ?thesis
        using le add fits t(1) by (simp add: wf_ostream_def)
    qed (use n(3) in simp)
    then show "wf_ostream ?t2 \<and> max_size ?t2 = max_size t \<and> is_sizing (sink ?t2) = is_sizing (sink t) \<and>
        is_buf (sink ?t2) = is_buf (sink t) \<and> (\<not> is_sizing (sink t) \<longrightarrow> bytes_written t \<le> bytes_written ?t2) \<and>
        (\<forall>mem pos. sink t = Buf_sink mem pos \<longrightarrow>
          (\<exists>bs. sink ?t2 = Buf_sink (buf_write mem pos bs) (pos + length bs) \<and>
             bytes_written ?t2 = bytes_written t + length bs))"
      using ext add by fastforce
  qed
  have part: "fkeeps in_window (\<lambda>t. if is_sizing (sink t) then fdo (pb_write [] n) t
            else if max_size t < size_add (bytes_written t) n then fdo (oerr ''stream full'') t
            else case enc \<lparr>sink = sink t, max_size = n, bytes_written = 0, oerrmsg = None\<rparr> of
                None \<Rightarrow> None
              | Some (status, sub2) \<Rightarrow>
                  let t2 = t\<lparr>bytes_written := size_add (bytes_written t) (bytes_written sub2),
                             sink := sink sub2, oerrmsg := oerrmsg sub2\<rparr>
                  in if bytes_written sub2 \<noteq> n then fdo (oerr ''submsg size changed'') t2
                     else Some (status, t2))" (is "fkeeps in_window ?part")
    if n: "n < 2 ^ 63" for n
  proof (rule fkeepsI)
    fix t r u
    assume run: "?part t = Some (r, u)"
    show "in_window t u"
    proof (cases "is_sizing (sink t) \<or> max_size t < size_add (bytes_written t) n")
      case True
      then have "(if is_sizing (sink t) then fdo (pb_write [] n) t else fdo (oerr ''stream full'') t) = Some (r, u)"
        using run by (auto split: if_splits)
      then show ?thesis
        by (rule fkeepsD [OF window_sized [OF window_basic(2)]])
    next
      case False
      then obtain status sub2 where
        e: "enc \<lparr>sink = sink t, max_size = n, bytes_written = 0, oerrmsg = None\<rparr> = Some (status, sub2)"
        using run by (cases "enc \<lparr>sink = sink t, max_size = n, bytes_written = 0, oerrmsg = None\<rparr>") auto
      have w: "in_window t (t\<lparr>bytes_written := size_add (bytes_written t) (bytes_written sub2),
          sink := sink sub2, oerrmsg := e'\<rparr>)" for e'
        using second [OF n _ _ e] False by auto
      then show ?thesis
        using run False e by (auto simp: Let_def oerr_def split: if_splits)
    qed
  qed
  have err: "in_window s (s\<lparr>oerrmsg := e\<rparr>)" for s :: "'a ostream" and e
    by (auto simp: in_window_def extends_def wf_ostream_def intro: exI [of _ "[]"])
  show ?thesis
  proof (cases "enc PB_OSTREAM_SIZING")
    case None
    then show ?thesis by (simp add: fkeeps_def pb_encode_submessage_with_def)
  next
    case (Some x)
    show ?thesis
    proof (cases "fst x")
      case None
      with Some err show ?thesis by (cases x) (auto simp: fkeeps_def pb_encode_submessage_with_def)
    next
      case u: (Some u)
      then have "enc PB_OSTREAM_SIZING = Some (Some (), snd x)" using Some by (cases x) auto
      then show ?thesis
        using window_fthen [OF window_scalars(1) part [OF small]]
        by (simp add: pb_encode_submessage_with_def [abs_def] Let_def)
    qed
  qed
qed


text \<open>
  What the window of a message asks of its surroundings: descriptor sizes are 32-bit numbers,
  callbacks stay in the window, and no submessage is 2^63 bytes long.
\<close>

definition sized_env :: "'u enc_env \<Rightarrow> bool" where
  "sized_env E \<longleftrightarrow> (\<forall>a. tables E a \<noteq> [] \<and> (\<forall>f \<in> set (tables E a). data_size f < 2 ^ 32)) \<and>
     (\<forall>a field arg m. keeps in_window (encode_fn E a field arg m)) \<and>
     (\<forall>a ext m. keeps in_window (ext_encode_fn E a ext m))"

definition small_messages :: "'u enc_env \<Rightarrow> mem \<Rightarrow> bool" where
  "small_messages E m \<longleftrightarrow> (\<forall>n a src sub.
     pb_encode n E m (tables E a) src PB_OSTREAM_SIZING = Some (Some (), sub) \<longrightarrow> bytes_written sub < 2 ^ 63)"

lemma window_encode_field [window_intros]:
  assumes E: "sized_env E" and field: "data_size field < 2 ^ 32"
    and enc: "\<And>a src. fkeeps in_window (enc (tables E a) src)"
    and small: "\<And>a src sub. enc (tables E a) src PB_OSTREAM_SIZING = Some (Some (), sub) \<Longrightarrow> bytes_written sub < 2 ^ 63"
  shows "fkeeps in_window (encode_field n E enc m field p)"
proof -
  have func: "fkeeps in_window (PB_ENCODERS E enc m l field src)" for l src
    unfolding PB_ENCODERS_def pb_enc_submessage_def
    by (intro window_intros window_submessage enc small field) auto
  have cases: "fkeeps in_window (case x of None \<Rightarrow> (\<lambda>s. None) | Some h \<Rightarrow> f h)"
    if "\<And>h. fkeeps in_window (f h)" for x :: "bool option" and f :: "bool \<Rightarrow> ('a, unit) ofact"
    using that by (cases x) (auto intro: window_intros)
  have "fkeeps in_window (encode_basic_field n E enc m field p)"
    unfolding encode_basic_field_def Let_def by (intro cases window_intros func)
  moreover have "keeps in_window (encode_callback_field E m field p)"
  proof (rule keepsI)
    fix s
    let ?cb = "encode_fn E (callback_func m p) field (callback_arg p) m"
    have cb: "in_window s (snd (?cb s))" using E by (simp add: sized_env_def keeps_def)
    have err: "in_window s (snd (oerr msg t))" if "in_window s t" for msg t
      using that transpD [OF in_window_trans that, of "snd (oerr msg t)"]
      by (simp add: in_window_def [of t])
    show "in_window s (snd (encode_callback_field E m field p s))"
      using cb err in_window_refl
      by (cases "?cb s") (auto simp: encode_callback_field_def reflp_def split: option.splits)
  qed
  ultimately show ?thesis
    unfolding encode_field_def Let_def fkeeps_fdo [symmetric] by (intro window_intros)
qed

lemma window_extension_loop:
  assumes "sized_env E" "\<And>a src. fkeeps in_window (enc (tables E a) src)"
    and "\<And>a src sub. enc (tables E a) src PB_OSTREAM_SIZING = Some (Some (), sub) \<Longrightarrow> bytes_written sub < 2 ^ 63"
  shows "fkeeps in_window (extension_loop k n E enc m ext)"
proof (induction k arbitrary: ext)
  case 0
  then show ?case by (auto simp del: fkeeps_fdo intro: window_intros)
next
  case (Suc k)
  have "data_size (tables E a ! 0) < 2 ^ 32" for a
    using assms(1) unfolding sized_env_def by (metis length_greater_0_conv nth_mem)
  then have "fkeeps in_window (default_extension_encoder n E enc m ext)" for ext
    unfolding default_extension_encoder_def Let_def by (intro window_intros assms)
  moreover have "fkeeps in_window (fdo (ext_encode_fn E a ext m))" for a
    using assms(1) by (simp add: sized_env_def)
  ultimately show ?case
    unfolding extension_loop.simps Let_def by (intro window_intros Suc)
qed

lemma window_iter_encode:
  assumes "wf_fields fs" "\<And>i p. i < field_count fs \<Longrightarrow> fkeeps in_window (f (fs ! i) p)" "i < field_count fs"
  shows "fkeeps in_window (iter_encode k f (iter_at fs d i))"
  using assms(3)
proof (induction k arbitrary: i)
  case 0
  then show ?case by (auto intro: window_intros)
next
  case (Suc k)
  have "fkeeps in_window (f (cur (iter_at fs d i)) (pData (iter_at fs d i)))"
    using assms Suc.prems by (simp add: cur_iter_at)
  then show ?case
    using Suc iter_next_iter_at [OF assms(1) Suc.prems, of d]
    unfolding iter_encode.simps by (intro window_intros) (auto simp del: fkeeps_fdo intro: window_intros)
qed

lemma window_pb_encode:
  assumes E: "sized_env E" "small_messages E m" "\<And>a. wf_fields (tables E a)"
    and fs: "wf_fields fs" "\<forall>f \<in> set fs. data_size f < 2 ^ 32"
  shows "fkeeps in_window (pb_encode n E m fs src)"
  using fs
proof (induction n arbitrary: fs src)
  case 0
  then show ?case by (auto simp: pb_encode.simps(1) intro: window_intros)
next
  case (Suc n)
  let ?f = "\<lambda>field pdata. if PB_LTYPE (ftype field) = PB_LTYPE_EXTENSION
      then encode_extension_field n E (pb_encode n E m) m pdata
      else encode_field n E (pb_encode n E m) m field pdata"
  have enc: "fkeeps in_window (pb_encode n E m (tables E a) src)" for a src
    using E by (intro Suc.IH) (auto simp: sized_env_def)
  have small: "bytes_written sub < 2 ^ 63"
    if "pb_encode n E m (tables E a) src PB_OSTREAM_SIZING = Some (Some (), sub)" for a src sub
    using E(2) that by (auto simp: small_messages_def)
  have "fkeeps in_window (?f (fs ! i) p)" if "i < field_count fs" for i p
  proof -
    have "data_size (fs ! i) < 2 ^ 32" using Suc.prems(2) nth_mem [of i fs] that by auto
    then show ?thesis
      unfolding encode_extension_field_def
      by (intro window_intros window_extension_loop enc small E(1))
  qed
  then have "fkeeps in_window (iter_encode (length fs) ?f (iter_at fs src 0))" if "0 < field_count fs"
    using that Suc.prems by (intro window_iter_encode)
  then show ?case
    unfolding pb_encode.simps(2) [of n E m fs src] Let_def begin_iter_at [OF Suc.prems(1)]
    by (cases "0 < field_count fs") (simp_all add: window_basic(1) del: fkeeps_fdo fdo_simp)
qed


section \<open>What an encoder writes does not depend on the stream\<close>

text \<open>
  \<open>writes m bs\<close>: \<open>m\<close> emits \<open>bs\<close>, and if these are more bytes than any buffer holds it fails on
  every buffer, so the bytes it puts out are \<open>bs\<close> or nothing. An action is \<open>uniform\<close> when it
  either writes some bytes or succeeds on no stream at all: the sizing stream and the buffers then
  see the same bytes.
\<close>

definition writes :: "('u, unit) ofact \<Rightarrow> byte list \<Rightarrow> bool" where
  "writes m bs \<longleftrightarrow> emits m bs \<and> (2 ^ 63 \<le> length bs \<longrightarrow>
     (\<forall>s mem p. sink s = Buf_sink mem p \<and> wf_ostream s \<and> oerrmsg s = None \<and> max_size s < 2 ^ 63 \<longrightarrow>
        (\<exists>t. m s = Some (None, t))))"

definition uniform :: "('u, unit) ofact \<Rightarrow> bool" where
  "uniform m \<longleftrightarrow> (\<exists>bs. writes m bs) \<or> never m"

named_theorems uniform_intros \<open>actions that are uniform\<close>

lemma writes_emits: "writes m bs \<Longrightarrow> emits m bs"
  by (simp add: writes_def)

lemma writes_Buf:
  "writes m bs \<Longrightarrow> sink s = Buf_sink mem p \<Longrightarrow> wf_ostream s \<Longrightarrow> oerrmsg s = None \<Longrightarrow> max_size s < 2 ^ 63 \<Longrightarrow>
   bytes_written s + length bs \<le> max_size s \<Longrightarrow>
   m s = Some (Some (), s\<lparr>sink := Buf_sink (buf_write mem p bs) (p + length bs),
                         bytes_written := bytes_written s + length bs\<rparr>)"
  by (rule emits_Buf [OF writes_emits]) auto

lemma writes_full:
  assumes "writes m bs" "sink s = Buf_sink mem p" "wf_ostream s" "oerrmsg s = None" "max_size s < 2 ^ 63"
    and "max_size s < bytes_written s + length bs"
  shows "\<exists>t. m s = Some (None, t)"
proof (cases "length bs < 2 ^ 63")
  case True
  with assms show ?thesis by (intro emits_Buf_full [OF writes_emits])
next
  case False
  with assms show ?thesis by (simp add: writes_def not_less)
qed

lemma writesI:
  assumes "emits m bs"
    and "\<And>s mem p. sink s = Buf_sink mem p \<Longrightarrow> wf_ostream s \<Longrightarrow> oerrmsg s = None \<Longrightarrow> max_size s < 2 ^ 63 \<Longrightarrow>
      max_size s < bytes_written s + length bs \<Longrightarrow> \<exists>t. m s = Some (None, t)"
  shows "writes m bs"
  unfolding writes_def using assms by auto

lemma writes_ret: "writes (fdo (ret ())) []"
  using emits_ret by (rule writesI) (simp add: wf_ostream_def)

lemma writes_write:
  assumes "length bs < 2 ^ 64"
  shows "writes (fdo (pb_write bs (length bs))) bs"
  using emits_write
proof (rule writesI)
  fix s :: "'a ostream" and mem p
  assume "sink s = Buf_sink mem p" "wf_ostream s" "max_size s < bytes_written s + length bs"
  then have "pb_write bs (length bs) s = oerr ''stream full'' s"
    using assms by (intro pb_write_full) auto
  then show "\<exists>t. fdo (pb_write bs (length bs)) s = Some (None, t)"
    by (simp add: oerr_def)
qed

lemma writes_fthen:
  assumes a: "writes m bs" and b: "writes k cs"
  shows "writes (fthen m (\<lambda>_. k)) (bs @ cs)"
  using emits_fthen [OF a [THEN writes_emits] b [THEN writes_emits]]
proof (rule writesI)
  fix s :: "'a ostream" and mem p
  assume s: "sink s = Buf_sink mem p" "wf_ostream s" "oerrmsg s = None" "max_size s < 2 ^ 63"
    and full: "max_size s < bytes_written s + length (bs @ cs)"
  let ?t = "s\<lparr>sink := Buf_sink (buf_write mem p bs) (p + length bs), bytes_written := bytes_written s + length bs\<rparr>"
  show "\<exists>t. fthen m (\<lambda>_. k) s = Some (None, t)"
  proof (cases "bytes_written s + length bs \<le> max_size s")
    case True
    then have "m s = Some (Some (), ?t)" "wf_ostream ?t"
      using writes_Buf [OF a s] s(1,2) by (auto simp: wf_ostream_def)
    with s full show ?thesis
      using writes_full [OF b, of ?t] by simp
  next
    case False
    then show ?thesis
      using writes_full [OF a s] by (auto simp: fthen_def)
  qed
qed

lemma writes_varint: "writes (fdo (pb_encode_varint v)) (varint_bytes v)"
  using varint_bytes_length(1) [of v] by (simp add: pb_encode_varint_def writes_write del: fdo_simp)

lemma writes_string:
  assumes "n = length bs" "length bs < 2 ^ 64"
  shows "writes (fdo (pb_encode_string bs n)) (string_bytes bs)"
proof -
  have "fdo (pb_encode_string bs n) =
      (fthen (fdo (pb_encode_varint (of_nat n))) (\<lambda>_. fdo (pb_write bs n)) :: ('a, unit) ofact)"
    by (simp add: pb_encode_string_def fthen_fdo)
  then show ?thesis
    using writes_fthen [OF writes_varint [of "of_nat n"] writes_write [OF assms(2)]] assms(1)
    by (simp add: string_bytes_def)
qed

text \<open>A submessage that is counted at less than 2^63 bytes but is longer fails in its second pass.\<close>

lemma writes_submessage:
  assumes enc: "writes enc bs" and small: "length bs mod 2 ^ 64 < 2 ^ 63"
  shows "writes (pb_encode_submessage_with enc) (string_bytes bs)"
  using emits_submessage [OF writes_emits [OF enc]]
proof (rule writesI)
  let ?n = "length bs mod 2 ^ 64"
  let ?v = "varint_bytes (of_nat (length bs))"
  note [simp] = emits_PB_OSTREAM_SIZING [OF writes_emits [OF enc]]
  fix s :: "'a ostream" and mem p
  assume s: "sink s = Buf_sink mem p" "wf_ostream s" "oerrmsg s = None" "max_size s < 2 ^ 63"
    and full: "max_size s < bytes_written s + length (string_bytes bs)"
  let ?t = "s\<lparr>sink := Buf_sink (buf_write mem p ?v) (p + length ?v), bytes_written := bytes_written s + length ?v\<rparr>"
  let ?sub = "\<lparr>sink = sink ?t, max_size = ?n, bytes_written = 0, oerrmsg = None\<rparr>"
  show "\<exists>t. pb_encode_submessage_with enc s = Some (None, t)"
  proof (cases "bytes_written s + length ?v \<le> max_size s")
    case False
    then obtain t where "pb_encode_varint (of_nat (length bs)) s = (None, t)"
      using writes_full [OF writes_varint [of "of_nat (length bs)"] s] by auto
    then show ?thesis by (simp add: pb_encode_submessage_with_def Let_def of_nat_mod_64)
  next
    case fits: True
    then have wr: "pb_encode_varint (of_nat (length bs)) s = (Some (), ?t)"
      using writes_Buf [OF writes_varint [of "of_nat (length bs)"] s] by simp
    have add: "size_add (bytes_written ?t) ?n = bytes_written s + length ?v + ?n"
      using fits s(4) small by (simp add: size_simps)
    show ?thesis
    proof (cases "max_size s < bytes_written s + length ?v + ?n")
      case True
      with wr add show ?thesis
        by (simp add: pb_encode_submessage_with_def Let_def of_nat_mod_64 oerr_def)
    next
      case False
      then have "?n < length bs"
        using full mod_less_eq_dividend [of "length bs" "2 ^ 64"] by (cases "?n = length bs") (auto simp: string_bytes_def)
      moreover have "wf_ostream ?sub"
        using s False small by (auto simp: wf_ostream_def)
      ultimately obtain sub2 where "enc ?sub = Some (None, sub2)"
        using writes_full [OF enc, of ?sub] small by auto
      with wr add False s(1) show ?thesis
        by (auto simp: pb_encode_submessage_with_def Let_def of_nat_mod_64 oerr_def)
    qed
  qed
qed

text \<open>Arrays: on a sizing stream the packed data is only counted.\<close>

lemma writes_sized:
  assumes "writes items bs" "n = length bs mod 2 ^ 64"
  shows "writes (\<lambda>t. if is_sizing (sink t) then fdo (pb_write [] n) t else items t) bs"
  using emits_sized [OF writes_emits [OF assms(1)] assms(2)]
  by (rule writesI) (auto dest: writes_full [OF assms(1)])

lemma writes_for_items:
  "(\<And>p. \<exists>bs. length bs = k \<and> writes (f p) bs) \<Longrightarrow> \<exists>bs. length bs = k * n \<and> writes (for_items n step f p) bs"
proof (induction n arbitrary: p)
  case 0
  show ?case using writes_ret by (intro exI [of _ "[]"] conjI) (simp_all only: for_items.simps list.size mult_0_right)
next
  case (Suc n)
  obtain a where a: "length a = k" "writes (f p) a" using Suc.prems by blast
  obtain b where b: "length b = k * n" "writes (for_items n step f (p + step)) b"
    using Suc.IH Suc.prems by blast
  show ?case
    using writes_fthen [OF a(2) b(2)] a(1) b(1) by (intro exI [of _ "a @ b"]) auto
qed

lemma uniform_writes: "writes m bs \<Longrightarrow> uniform m"
  by (auto simp: uniform_def)

lemma uniform_never: "never m \<Longrightarrow> uniform m"
  by (simp add: uniform_def)

lemma uniform_None [uniform_intros]: "uniform (\<lambda>s. None)"
  by (rule uniform_never) (simp add: never_def)

lemma uniform_ret [uniform_intros]: "uniform (fdo (ret ()))"
  using writes_ret by (rule uniform_writes)

lemma uniform_oerr [uniform_intros]: "uniform (fdo (oerr msg))"
  using never_oerr by (rule uniform_never)

lemma uniform_fthen [uniform_intros]: "uniform m \<Longrightarrow> uniform k \<Longrightarrow> uniform (fthen m (\<lambda>_. k))"
  unfolding uniform_def using writes_fthen never_fthen by blast

lemma uniform_if [uniform_intros]:
  "(b \<Longrightarrow> uniform x) \<Longrightarrow> (\<not> b \<Longrightarrow> uniform y) \<Longrightarrow> uniform (if b then x else y)"
  by simp

lemma uniform_case_option [uniform_intros]:
  "(x = None \<Longrightarrow> uniform a) \<Longrightarrow> (\<And>h. x = Some h \<Longrightarrow> uniform (f h)) \<Longrightarrow>
   uniform (case x of None \<Rightarrow> a | Some h \<Rightarrow> f h)"
  by (cases x) simp_all

lemma uniform_write: "n = length bs \<Longrightarrow> length bs < 2 ^ 64 \<Longrightarrow> uniform (fdo (pb_write bs n))"
  using writes_write by (auto intro: uniform_writes simp del: fdo_simp)

lemma uniform_scalars [uniform_intros]:
  "uniform (fdo (pb_encode_varint v))" "uniform (fdo (pb_encode_svarint v))"
  "uniform (fdo (pb_encode_fixed32 w))" "uniform (fdo (pb_encode_fixed64 v))"
  "uniform (fdo (pb_encode_tag wt f))"
  using uniform_writes [OF writes_varint]
  by (auto simp: pb_encode_svarint_def pb_encode_fixed32_def pb_encode_fixed64_def pb_encode_tag_def
      length_fixed simp del: fdo_simp intro!: uniform_write)

lemma uniform_string [uniform_intros]:
  "n = length bs \<Longrightarrow> length bs < 2 ^ 64 \<Longrightarrow> uniform (fdo (pb_encode_string bs n))"
  by (rule uniform_writes [OF writes_string])

lemma uniform_values [uniform_intros]:
  "uniform (fdo (pb_encode_tag_for_field field))"
  "uniform (fdo (pb_enc_bool m field src))" "uniform (fdo (pb_enc_varint m field src))"
  "uniform (fdo (pb_enc_uvarint m field src))" "uniform (fdo (pb_enc_svarint m field src))"
  "uniform (fdo (pb_enc_fixed32 m field src))" "uniform (fdo (pb_enc_fixed64 m field src))"
  by (auto simp: pb_encode_tag_for_field_def pb_enc_bool_def pb_enc_varint_def pb_enc_uvarint_def
      pb_enc_svarint_def pb_enc_fixed32_def pb_enc_fixed64_def Let_def
      simp del: fdo_simp intro!: uniform_intros split: option.splits)

lemma uniform_blobs [uniform_intros]:
  assumes "data_size field < 2 ^ 32"
  shows "uniform (fdo (pb_enc_bytes m field src))" "uniform (fdo (pb_enc_string m field src))"
    "uniform (fdo (pb_enc_fixed_length_bytes m field src))"
proof -
  have str: "strn_len m k src < 2 ^ 64" if "k \<le> SIZE_MAX" for k
    using strn_len_le [of m k src] that by (auto simp: SIZE_MAX_def)
  have "unat (load_u32 m src) < 2 ^ 32" using unsigned_less [of "load_u32 m src"] by simp
  then show "uniform (fdo (pb_enc_bytes m field src))"
    by (auto simp: pb_enc_bytes_def Let_def simp del: fdo_simp intro!: uniform_intros)
  show "uniform (fdo (pb_enc_string m field src))"
    using assms str by (auto simp: pb_enc_string_def Let_def SIZE_MAX_def simp del: fdo_simp intro!: uniform_intros)
  show "uniform (fdo (pb_enc_fixed_length_bytes m field src))"
    using assms by (auto simp: pb_enc_fixed_length_bytes_def simp del: fdo_simp intro!: uniform_intros)
qed

lemma uniform_for_items [uniform_intros]:
  "(\<And>p. uniform (f p)) \<Longrightarrow> uniform (for_items n step f p)"
  by (induction n arbitrary: p) (auto intro: uniform_intros simp del: fdo_simp)

lemma uniform_packed:
  assumes u: "uniform items"
    and sz: "ps \<noteq> None \<Longrightarrow> \<exists>bs. writes items bs \<and> the ps = length bs mod 2 ^ 64"
  shows "uniform (\<lambda>s. case (case ps of Some n \<Rightarrow> Some (Some n)
          | None \<Rightarrow> map_option (\<lambda>(r, t). map_option (\<lambda>_. bytes_written t) r) (items PB_OSTREAM_SIZING)) of
        None \<Rightarrow> None
      | Some None \<Rightarrow> Some (None, s)
      | Some (Some n) \<Rightarrow> fthen (fdo (pb_encode_varint (of_nat n))) (\<lambda>_ t.
          if is_sizing (sink t) then fdo (pb_write [] n) t else items t) s)"
    (is "uniform (\<lambda>s. ?run s)")
proof -
  have "?thesis" if bs: "writes items bs" "ps = None \<or> ps = Some n" "n = length bs mod 2 ^ 64" for bs n
  proof -
    have "?run = fthen (fdo (pb_encode_varint (of_nat n))) (\<lambda>_ t.
        if is_sizing (sink t) then fdo (pb_write [] n) t else items t)"
      using bs(2) emits_PB_OSTREAM_SIZING [OF writes_emits [OF bs(1)], folded bs(3)] by (intro ext) auto
    then show ?thesis
      by (simp only:) (rule uniform_writes, rule writes_fthen [OF writes_varint writes_sized [OF bs(1,3)]])
  qed
  moreover have "?thesis" if "never items" "ps = None"
  proof (rule uniform_never)
    have "map_option (\<lambda>(r, t). map_option (\<lambda>_. bytes_written t) r) (items PB_OSTREAM_SIZING) \<in> {None, Some None}"
      using never_sizing [OF that(1), of "\<lambda>t _. bytes_written t"] by simp
    then show "never ?run" using that(2) by (auto simp: never_def)
  qed
  ultimately show ?thesis
    using u sz by (cases ps) (auto simp: uniform_def [of items])
qed


lemma writes_fixed_items:
  "writes (fdo (pb_enc_fixed32 m field p)) (fixed32_bytes (load_u32 m p))"
  "writes (fdo (pb_enc_fixed64 m field p)) (fixed64_bytes (load_u64 m p))"
  using writes_write [of "fixed32_bytes (load_u32 m p)"] writes_write [of "fixed64_bytes (load_u64 m p)"]
  by (simp_all add: pb_enc_fixed32_def pb_enc_fixed64_def pb_encode_fixed32_def pb_encode_fixed64_def
      length_fixed del: fdo_simp)

lemma uniform_encode_array:
  assumes f: "\<And>p. uniform (func p)"
    and f32: "PB_LTYPE (ftype field) = PB_LTYPE_FIXED32 \<Longrightarrow> func = (\<lambda>p. fdo (pb_enc_fixed32 m field p))"
    and f64: "PB_LTYPE (ftype field) = PB_LTYPE_FIXED64 \<Longrightarrow> func = (\<lambda>p. fdo (pb_enc_fixed64 m field p))"
  shows "uniform (encode_array m field pdata count func)"
proof -
  let ?items = "for_items count (data_size field) func pdata"
  let ?ps = "if PB_LTYPE (ftype field) = PB_LTYPE_FIXED32 then Some (size_mul 4 count)
             else if PB_LTYPE (ftype field) = PB_LTYPE_FIXED64 then Some (size_mul 8 count) else None"
  have ps: "\<exists>bs. writes ?items bs \<and> the ?ps = length bs mod 2 ^ 64" if ne: "?ps \<noteq> None"
  proof (cases "PB_LTYPE (ftype field) = PB_LTYPE_FIXED32")
    case True
    have "\<exists>bs. length bs = 4 * count \<and> writes ?items bs"
      unfolding f32 [OF True] by (rule writes_for_items) (use writes_fixed_items(1) length_fixed(1) in blast)
    with True show ?thesis by (auto simp: size_mul_def)
  next
    case False
    then have 64: "PB_LTYPE (ftype field) = PB_LTYPE_FIXED64" using ne by (simp split: if_splits)
    have "\<exists>bs. length bs = 8 * count \<and> writes ?items bs"
      unfolding f64 [OF 64] by (rule writes_for_items) (use writes_fixed_items(2) length_fixed(2) in blast)
    with False 64 show ?thesis by (auto simp: size_mul_def)
  qed
  have "uniform ?items" using f by (rule uniform_for_items)
  note packed = uniform_packed [OF this ps]
  have eq: "(if PB_LTYPE (ftype field) = PB_LTYPE_FIXED32 then Some (Some (size_mul 4 count))
      else if PB_LTYPE (ftype field) = PB_LTYPE_FIXED64 then Some (Some (size_mul 8 count))
      else x) = (case ?ps of Some n \<Rightarrow> Some (Some n) | None \<Rightarrow> x)" for x :: "nat option option"
    by simp
  show ?thesis
    unfolding encode_array_def Let_def eq
    by (intro uniform_intros packed f)
qed

text \<open>
  What the encoder of a message relies on: the callbacks of the application are uniform too, the
  descriptor arrays are terminated and their sizes are 32-bit numbers.
\<close>

definition uniform_env :: "'u enc_env \<Rightarrow> bool" where
  "uniform_env E \<longleftrightarrow> (\<forall>a field arg m. uniform (fdo (encode_fn E a field arg m))) \<and>
     (\<forall>a ext m. uniform (fdo (ext_encode_fn E a ext m)))"

definition sized_fields :: "pb_field list \<Rightarrow> bool" where
  "sized_fields fs \<longleftrightarrow> wf_fields fs \<and> (\<forall>f \<in> set fs. data_size f < 2 ^ 32)"

lemma sized_fields_nth: "sized_fields fs \<Longrightarrow> i < length fs \<Longrightarrow> data_size (fs ! i) < 2 ^ 32"
  by (auto simp: sized_fields_def)

lemma sized_fields_hd: "sized_fields fs \<Longrightarrow> data_size (fs ! 0) < 2 ^ 32"
  by (rule sized_fields_nth) (auto simp: sized_fields_def wf_fields_def)

lemma uniform_submessage:
  assumes "uniform enc"
    and small: "\<And>sub. enc PB_OSTREAM_SIZING = Some (Some (), sub) \<Longrightarrow> bytes_written sub < 2 ^ 63"
  shows "uniform (pb_encode_submessage_with enc)"
  using assms(1) unfolding uniform_def [of enc]
proof (elim disjE exE)
  fix bs assume bs: "writes enc bs"
  have "length bs mod 2 ^ 64 < 2 ^ 63"
    using small [OF emits_PB_OSTREAM_SIZING [OF writes_emits [OF bs]]] by simp
  then show ?thesis
    using writes_submessage [OF bs] uniform_writes by blast
next
  assume "never enc"
  then have "never (pb_encode_submessage_with enc)"
    by (auto simp: never_def pb_encode_submessage_with_def split: option.splits prod.splits)
  then show ?thesis by (rule uniform_never)
qed

lemma uniform_encode_callback_field:
  assumes "uniform_env E"
  shows "uniform (fdo (encode_callback_field E m field pdata))"
proof (cases "callback_func m pdata = 0")
  case True
  then have "encode_callback_field E m field pdata = ret ()"
    by (intro ext) (simp add: encode_callback_field_def)
  then show ?thesis by (simp only: uniform_intros)
next
  case ne: False
  let ?f = "encode_fn E (callback_func m pdata) field (callback_arg pdata) m"
  have "uniform (fdo ?f)" using assms by (simp add: uniform_env_def)
  then show ?thesis unfolding uniform_def [of "fdo ?f"]
  proof (elim disjE exE)
    fix bs assume bs: "writes (fdo ?f) bs"
    have "emits (fdo (encode_callback_field E m field pdata)) bs"
      using ne by (intro emitsI) (auto simp: encode_callback_field_def oerr_def
        dest: emits_sizing [OF writes_emits [OF bs]] writes_Buf [OF bs] writes_full [OF bs])
    then have "writes (fdo (encode_callback_field E m field pdata)) bs"
      using ne by (rule_tac writesI)
        (auto simp: encode_callback_field_def oerr_def dest: writes_full [OF bs])
    then show ?thesis by (rule uniform_writes)
  next
    assume "never (fdo ?f)"
    then have "never (fdo (encode_callback_field E m field pdata))"
      using ne by (auto simp: never_def encode_callback_field_def oerr_def split: prod.splits option.splits)
    then show ?thesis by (rule uniform_never)
  qed
qed

lemma uniform_encode_field [uniform_intros]:
  assumes E: "uniform_env E" and field: "data_size field < 2 ^ 32"
    and enc: "\<And>a src. uniform (enc (tables E a) src)"
    and small: "\<And>a src sub. enc (tables E a) src PB_OSTREAM_SIZING = Some (Some (), sub) \<Longrightarrow> bytes_written sub < 2 ^ 63"
  shows "uniform (encode_field n E enc m field pdata)"
proof -
  have func: "uniform (PB_ENCODERS E enc m l field src)" for l src
    unfolding PB_ENCODERS_def pb_enc_submessage_def
    by (intro uniform_intros uniform_submessage enc small field) auto
  have "uniform (encode_array m field p count (PB_ENCODERS E enc m (PB_LTYPE (ftype field)) field))" for p count
    by (rule uniform_encode_array [OF func]) (simp_all add: PB_ENCODERS_def PB_LTYPE_defs del: fdo_simp)
  then have "uniform (encode_basic_field n E enc m field pdata)"
    unfolding encode_basic_field_def Let_def by (intro uniform_intros func)
  then show ?thesis
    unfolding encode_field_def Let_def by (intro uniform_intros uniform_encode_callback_field E)
qed

lemma uniform_extension_loop:
  assumes "uniform_env E" "\<And>a. sized_fields (tables E a)" "\<And>a src. uniform (enc (tables E a) src)"
    and "\<And>a src sub. enc (tables E a) src PB_OSTREAM_SIZING = Some (Some (), sub) \<Longrightarrow> bytes_written sub < 2 ^ 63"
  shows "uniform (extension_loop k n E enc m ext)"
proof (induction k arbitrary: ext)
  case 0
  then show ?case by (auto simp del: fdo_simp intro: uniform_intros)
next
  case (Suc k)
  have "uniform (default_extension_encoder n E enc m ext)" for ext
    unfolding default_extension_encoder_def Let_def
    by (intro uniform_intros assms sized_fields_hd)
  moreover have "uniform (fdo (ext_encode_fn E a ext m))" for a
    using assms(1) by (simp add: uniform_env_def del: fdo_simp)
  ultimately show ?case
    unfolding extension_loop.simps Let_def by (intro uniform_intros Suc)
qed

lemma uniform_iter_encode:
  assumes "wf_fields fs" "\<And>i p. i < field_count fs \<Longrightarrow> uniform (f (fs ! i) p)" "i < field_count fs"
  shows "uniform (iter_encode k f (iter_at fs d i))"
  using assms(3)
proof (induction k arbitrary: i)
  case 0
  then show ?case by (auto intro: uniform_intros)
next
  case (Suc k)
  have "uniform (f (cur (iter_at fs d i)) (pData (iter_at fs d i)))"
    using assms Suc.prems by (simp add: cur_iter_at)
  then show ?case
    using Suc iter_next_iter_at [OF assms(1) Suc.prems, of d]
    unfolding iter_encode.simps by (intro uniform_intros) (auto simp del: fdo_simp intro: uniform_intros)
qed

lemma uniform_pb_encode:
  assumes E: "uniform_env E" "small_messages E m" "\<And>a. sized_fields (tables E a)" and fs: "sized_fields fs"
  shows "uniform (pb_encode n E m fs src)"
  using fs
proof (induction n arbitrary: fs src)
  case 0
  then show ?case by (auto simp: pb_encode.simps(1) intro: uniform_intros)
next
  case (Suc n)
  let ?f = "\<lambda>field pdata. if PB_LTYPE (ftype field) = PB_LTYPE_EXTENSION
      then encode_extension_field n E (pb_encode n E m) m pdata
      else encode_field n E (pb_encode n E m) m field pdata"
  have wf: "wf_fields fs" using Suc.prems by (simp add: sized_fields_def)
  have enc: "uniform (pb_encode n E m (tables E a) src)" for a src
    by (intro Suc.IH E)
  have small: "bytes_written sub < 2 ^ 63"
    if "pb_encode n E m (tables E a) src PB_OSTREAM_SIZING = Some (Some (), sub)" for a src sub
    using E(2) that by (auto simp: small_messages_def)
  have "uniform (?f (fs ! i) p)" if "i < field_count fs" for i p
    unfolding encode_extension_field_def
    using sized_fields_nth [OF Suc.prems, of i] that
    by (intro uniform_intros uniform_extension_loop enc small E) auto
  then have "uniform (iter_encode (length fs) ?f (iter_at fs src 0))" if "0 < field_count fs"
    using that by (intro uniform_iter_encode wf)
  then show ?case
    unfolding pb_encode.simps(2) [of n E m fs src] Let_def begin_iter_at [OF wf]
    by (cases "0 < field_count fs") (simp_all add: uniform_ret del: fdo_simp)
qed


section \<open>The fields in order\<close>

lemma emits_iter_encode:
  assumes "wf_fields fs" "i < field_count fs" "field_count fs \<le> i + k"
    and "\<And>j. j < field_count fs \<Longrightarrow> emits (f (fs ! j) (pData (iter_at fs d j))) (b j)"
  shows "emits (iter_encode k f (iter_at fs d i)) (concat (map b [i..<field_count fs]))"
  using assms(2,3)
proof (induction k arbitrary: i)
  case 0
  then show ?case by simp
next
  case (Suc k)
  let ?n = "field_count fs"
  have first: "emits (f (cur (iter_at fs d i)) (pData (iter_at fs d i))) (b i)"
    using assms(1,4) Suc.prems by (simp add: cur_iter_at)
  have split: "[i..<?n] = i # [Suc i..<?n]" using Suc.prems by (simp add: upt_conv_Cons)
  show ?case
  proof (cases "Suc i < ?n")
    case True
    then have "emits (iter_encode k f (iter_at fs d (Suc i))) (concat (map b [Suc i..<?n]))"
      using Suc.prems by (intro Suc.IH) auto
    then show ?thesis
      using emits_fthen [OF first] True unfolding iter_encode.simps iter_next_iter_at [OF assms(1) Suc.prems(1)] split
      by simp
  next
    case False
    then have "[Suc i..<?n] = []" by simp
    then show ?thesis
      using emits_fthen [OF first emits_ret] False unfolding iter_encode.simps iter_next_iter_at [OF assms(1) Suc.prems(1)] split
      by (simp del: fdo_simp)
  qed
qed

lemma emits_pb_encode:
  assumes wf: "wf_fields fs"
    and f: "\<And>j. j < field_count fs \<Longrightarrow> PB_LTYPE (ftype (fs ! j)) \<noteq> PB_LTYPE_EXTENSION \<and>
      emits (encode_field n E (pb_encode n E m) m (fs ! j) (pData (iter_at fs src j))) (b j)"
  shows "emits (pb_encode (Suc n) E m fs src) (concat (map b [0..<field_count fs]))"
proof (cases "0 < field_count fs")
  case True
  let ?f = "\<lambda>field pdata. if PB_LTYPE (ftype field) = PB_LTYPE_EXTENSION
      then encode_extension_field n E (pb_encode n E m) m pdata
      else encode_field n E (pb_encode n E m) m field pdata"
  have "emits (?f (fs ! j) (pData (iter_at fs src j))) (b j)" if "j < field_count fs" for j
    using f [OF that] by simp
  then have "emits (iter_encode (length fs) ?f (iter_at fs src 0)) (concat (map b [0..<field_count fs]))"
    by (intro emits_iter_encode wf True) auto
  with True show ?thesis
    unfolding pb_encode.simps(2) [of n E m fs src] Let_def begin_iter_at [OF wf] by simp
next
  case False
  then show ?thesis
    using emits_ret unfolding pb_encode.simps(2) [of n E m fs src] Let_def begin_iter_at [OF wf]
    by (simp del: fdo_simp)
qed

text \<open>Packed arrays.\<close>

lemma emits_items_concat:
  "(\<And>i. i < n \<Longrightarrow> emits (f (p + i * step)) (b i)) \<Longrightarrow>
   emits (for_items n step f p) (concat (map b [0..<n]))"
proof (induction n arbitrary: p b)
  case 0
  show ?case using emits_ret by (simp only: for_items.simps upt_0 list.map concat.simps)
next
  case (Suc n)
  have "emits (f p) (b 0)" using Suc.prems [of 0] by simp
  moreover have "emits (for_items n step f (p + step)) (concat (map (\<lambda>i. b (Suc i)) [0..<n]))"
    using Suc.prems [of "Suc _"] by (intro Suc.IH) (simp add: add.assoc)
  moreover have "concat (map b [0..<Suc n]) = b 0 @ concat (map (\<lambda>i. b (Suc i)) [0..<n])"
    by (simp add: upt_conv_Cons map_Suc_upt [symmetric] comp_def del: upt_Suc)
  ultimately show ?case
    unfolding for_items.simps by (simp only: emits_fthen)
qed

lemma emits_packed_array:
  assumes type: "PB_LTYPE (ftype field) \<le> PB_LTYPE_LAST_PACKABLE" "0 < count"
      "PB_ATYPE (ftype field) = PB_ATYPE_POINTER \<or> count \<le> array_size field"
    and items: "\<And>i. i < count \<Longrightarrow> emits (func (p + i * data_size field)) (b i)"
    and fixed: "\<And>i. PB_LTYPE (ftype field) = PB_LTYPE_FIXED32 \<Longrightarrow> length (b i) = 4"
      "\<And>i. PB_LTYPE (ftype field) = PB_LTYPE_FIXED64 \<Longrightarrow> length (b i) = 8"
  shows "emits (encode_array m field p count func)
    (tag_bytes PB_WT_STRING (tag field) @ string_bytes (concat (map b [0..<count])))"
proof -
  let ?bs = "concat (map b [0..<count])"
  define n where "n = length ?bs mod 2 ^ 64"
  have all: "emits (for_items count (data_size field) func p) ?bs"
    using items by (rule emits_items_concat)
  have len: "length ?bs = k * count" if "\<And>i. length (b i) = k" for k
    using that by (simp add: length_concat comp_def sum_list_triv)
  have ps: "(if PB_LTYPE (ftype field) = PB_LTYPE_FIXED32 then Some (Some (size_mul 4 count))
      else if PB_LTYPE (ftype field) = PB_LTYPE_FIXED64 then Some (Some (size_mul 8 count))
      else map_option (\<lambda>(r, t). map_option (\<lambda>_. bytes_written t) r)
        (for_items count (data_size field) func p PB_OSTREAM_SIZING)) = Some (Some n)"
    using len [of 4] len [of 8] fixed emits_PB_OSTREAM_SIZING [OF all] by (auto simp: n_def size_mul_def)
  have tag: "emits (fdo (pb_encode_tag PB_WT_STRING (tag field))) (tag_bytes PB_WT_STRING (tag field))"
    unfolding pb_encode_tag_bytes by (rule emits_write)
  have "emits (fthen (fdo (pb_encode_varint (of_nat n))) (\<lambda>_ t.
      if is_sizing (sink t) then fdo (pb_write [] n) t
      else for_items count (data_size field) func p t)) (varint_bytes (of_nat n) @ ?bs)"
    by (intro emits_fthen emits_varint emits_sized [OF all n_def])
  then have rest: "emits (\<lambda>s. fthen (fdo (pb_encode_varint (of_nat n))) (\<lambda>_ t.
      if is_sizing (sink t) then fdo (pb_write [] n) t
      else for_items count (data_size field) func p t) s) (string_bytes ?bs)"
    using of_nat_mod_64 [of "length ?bs"] by (simp add: string_bytes_def n_def)
  show ?thesis
    using emits_fthen [OF tag rest] type unfolding encode_array_def Let_def ps by auto
qed


section \<open>A small message\<close>

text \<open>One required 32-bit unsigned field with tag 1, at address 1000 with the value 5.\<close>

definition one_field :: "pb_field list" where
  "one_field =
     [\<lparr>tag = 1, ftype = 0x02, data_offset = 0, size_offset = 0, data_size = 4, array_size = 0, ptr = 0\<rparr>,
      \<lparr>tag = 0, ftype = 0, data_offset = 0, size_offset = 0, data_size = 0, array_size = 0, ptr = 0\<rparr>]"

definition plain_env :: "unit enc_env" where
  "plain_env = \<lparr>tables = (\<lambda>_. one_field), encode_fn = (\<lambda>_ _ _ _. ret ()), ext_encode_fn = (\<lambda>_ _ _. ret ())\<rparr>"

definition five_mem :: mem where
  "five_mem = \<lparr>cells = (\<lambda>a. if a = 1000 then 5 else 0), blocks = Map.empty, brk = 0x10000,
     heap_limit = 0x20000, bad_free = False\<rparr>"

lemma wf_one_field: "wf_fields one_field" "field_count one_field = 1"
  by (simp_all add: one_field_def wf_fields_def)

lemma uniform_plain_env: "uniform_env plain_env"
  unfolding uniform_env_def plain_env_def by (simp add: uniform_ret del: fdo_simp)

lemma one_field_any:
  "encode_field n plain_env enc five_mem (one_field ! 0) p =
   fthen (fdo (pb_encode_tag PB_WT_VARINT 1)) (\<lambda>_. fdo (pb_encode_varint (ucast (load_u32 five_mem p))))"
  if "p \<noteq> 0"
  using that
  by (simp add: encode_field_def encode_basic_field_def PB_ENCODERS_def pb_enc_uvarint_def
      pb_encode_tag_for_field_def load_unsigned_def one_field_def PB_TYPE_defs Let_def del: fdo_simp)

lemma one_field_pdata: "pData (iter_at one_field src 0) = src mod 2 ^ 64"
  by (simp add: one_field_def iter_at.simps(1) pb_field_iter_begin_def addr_add_def Let_def nat_mod_distrib)

lemma one_message_any:
  assumes "src mod 2 ^ 64 \<noteq> 0"
  shows "emits (pb_encode (Suc n) plain_env five_mem one_field src)
    (tag_bytes PB_WT_VARINT 1 @ varint_bytes (ucast (load_u32 five_mem (src mod 2 ^ 64))))"
proof -
  let ?bs = "tag_bytes PB_WT_VARINT 1 @ varint_bytes (ucast (load_u32 five_mem (src mod 2 ^ 64)))"
  have "emits (fdo (pb_encode_tag PB_WT_VARINT 1)) (tag_bytes PB_WT_VARINT 1)"
    unfolding pb_encode_tag_bytes by (rule emits_write)
  then have "emits (encode_field n plain_env (pb_encode n plain_env five_mem) five_mem (one_field ! 0)
      (pData (iter_at one_field src 0))) ?bs"
    unfolding one_field_pdata one_field_any [OF assms] by (rule emits_fthen [OF _ emits_varint])
  moreover have "PB_LTYPE (ftype (one_field ! 0)) \<noteq> PB_LTYPE_EXTENSION"
    by (simp add: one_field_def PB_TYPE_defs)
  ultimately have "emits (pb_encode (Suc n) plain_env five_mem one_field src)
      (concat (map (\<lambda>_. ?bs) [0..<field_count one_field]))"
    by (intro emits_pb_encode) (auto simp only: wf_one_field less_one)
  then show ?thesis by (simp only: wf_one_field) simp
qed

lemma one_message_bytes: "emits (pb_encode (Suc n) plain_env five_mem one_field 1000) [8, 5]"
proof -
  have "load_u32 five_mem 1000 = 5" "tag_bytes PB_WT_VARINT 1 = [8]" "varint_bytes 5 = [5]"
    by (simp_all add: load_u32_def le32_def load_def upt_rec five_mem_def tag_bytes_def PB_WT_VARINT_def varint_bytes_def)
  then show ?thesis using one_message_any [of 1000 n] by simp
qed

text \<open>At address 0 the required field is missing: \<open>pb_encode\<close> fails.\<close>

lemma one_message_null: "src mod 2 ^ 64 = 0 \<Longrightarrow> never (pb_encode (Suc n) plain_env five_mem one_field src)"
proof -
  assume src: "src mod 2 ^ 64 = 0"
  have "encode_field n plain_env enc five_mem (one_field ! 0) 0 = fdo (oerr ''missing required field'')" for enc
    by (simp add: encode_field_def encode_basic_field_def one_field_def PB_TYPE_defs Let_def del: fdo_simp)
  moreover have "cur (iter_at one_field src 0) = one_field ! 0" "length one_field = 2"
    using wf_one_field by (simp_all add: cur_iter_at one_field_def)
  moreover have "PB_LTYPE (ftype (one_field ! 0)) \<noteq> PB_LTYPE_EXTENSION"
    by (simp add: one_field_def PB_TYPE_defs)
  ultimately show ?thesis
    using src unfolding pb_encode.simps(2) [of n plain_env five_mem one_field src] Let_def begin_iter_at [OF wf_one_field(1)]
    by (auto simp: one_field_pdata numeral_2_eq_2 wf_one_field never_def fthen_def oerr_def)
qed

lemma small_one_message: "small_messages plain_env five_mem"
  unfolding small_messages_def
proof (intro allI impI)
  fix n a src sub
  assume "pb_encode n plain_env five_mem (tables plain_env a) src PB_OSTREAM_SIZING = Some (Some (), sub)"
  then have run: "pb_encode n plain_env five_mem one_field src PB_OSTREAM_SIZING = Some (Some (), sub)"
    by (simp add: plain_env_def)
  then obtain k where n: "n = Suc k" by (cases n) (auto simp: pb_encode.simps(1))
  show "bytes_written sub < 2 ^ 63"
  proof (cases "src mod 2 ^ 64 = 0")
    case True
    then show ?thesis
      using run n neverD [OF one_message_null [OF True, of k], of PB_OSTREAM_SIZING "()" sub] by simp
  next
    case False
    let ?bs = "tag_bytes PB_WT_VARINT 1 @ varint_bytes (ucast (load_u32 five_mem (src mod 2 ^ 64)))"
    have "bytes_written sub = length ?bs mod 2 ^ 64"
      using run n emits_PB_OSTREAM_SIZING [OF one_message_any [OF False, of k]] by auto
    moreover have "length ?bs \<le> 20"
      using varint_bytes_length(1) [of "ucast (load_u32 five_mem (src mod 2 ^ 64))"]
        varint_bytes_length(1) [of "push_bit 3 (ucast (1 :: u32)) OR ucast PB_WT_VARINT"]
      by (simp add: tag_bytes_def)
    ultimately show ?thesis
      using le_less_trans [OF mod_less_eq_dividend, of "length ?bs" "2 ^ 63" "2 ^ 64"] by simp
  qed
qed

section \<open>Properties\<close>

text \<open>C10: the sizing pass is exact. When \<open>pb_get_encoded_size\<close> succeeds with a size \<open>N\<close>, the message
  has bytes \<open>bs\<close> with \<open>N = length bs\<close> (as a 64-bit size) such that encoding it into a fresh buffer
  stream of any limit below 2^63 succeeds with exactly these bytes at the start of the buffer, the
  rest of the buffer unchanged and \<open>bytes_written = length bs\<close>, when they fit the limit, and fails
  when they do not; so every successful encoding has the announced size. For every memory and fuel,
  if the callbacks of the application are uniform, the descriptor arrays are terminated with 32-bit
  sizes, and no submessage is 2^63 bytes long.\<close>

theorem pb_get_encoded_size_exact:
  assumes "uniform_env E" "small_messages E m" "\<And>a. sized_fields (tables E a)" "sized_fields fs"
    and "pb_get_encoded_size n E m fs src = Some (Some N)"
  shows "\<exists>bs. N = length bs mod 2 ^ 64 \<and>
     (\<forall>buf lim. lim \<le> length buf \<and> lim < 2 ^ 63 \<longrightarrow>
        (if length bs \<le> lim
         then pb_encode n E m fs src (pb_ostream_from_buffer buf lim) =
           Some (Some (), \<lparr>sink = Buf_sink (bs @ drop (length bs) buf) (length bs), max_size = lim,
                           bytes_written = length bs, oerrmsg = None\<rparr>)
         else \<exists>t. pb_encode n E m fs src (pb_ostream_from_buffer buf lim) = Some (None, t)))"
proof -
  let ?enc = "pb_encode n E m fs src"
  obtain r t where run: "?enc PB_OSTREAM_SIZING = Some (r, t)" "r \<noteq> None" "bytes_written t = N"
    using assms(5) by (auto simp: pb_get_encoded_size_def)
  then have "\<not> never ?enc" by (auto simp: never_def)
  with uniform_pb_encode [OF assms(1-4), of n src] obtain bs where bs: "writes ?enc bs"
    unfolding uniform_def by blast
  have N: "N = length bs mod 2 ^ 64"
    using emits_PB_OSTREAM_SIZING [OF writes_emits [OF bs]] run by auto
  have "if length bs \<le> lim then ?enc (pb_ostream_from_buffer buf lim) =
        Some (Some (), \<lparr>sink = Buf_sink (bs @ drop (length bs) buf) (length bs), max_size = lim,
                        bytes_written = length bs, oerrmsg = None\<rparr>)
      else \<exists>t. ?enc (pb_ostream_from_buffer buf lim) = Some (None, t)"
    if "lim \<le> length buf" "lim < 2 ^ 63" for buf lim
  proof -
    let ?s = "pb_ostream_from_buffer buf lim :: 'a ostream"
    have s: "sink ?s = Buf_sink buf 0" "wf_ostream ?s" "oerrmsg ?s = None" "max_size ?s < 2 ^ 63"
      using that by (auto simp: pb_ostream_from_buffer_def wf_ostream_def)
    show ?thesis
      using writes_Buf [OF bs s] writes_full [OF bs s]
      by (auto simp: pb_ostream_from_buffer_def buf_write_def)
  qed
  with N show ?thesis by blast
qed

text \<open>The message of two bytes fits a limit of two and not a limit of one.\<close>

theorem pb_get_encoded_size_exact_witness:
  "\<exists>bs t. length bs = 2 \<and>
     pb_encode 1 plain_env five_mem one_field 1000 (pb_ostream_from_buffer [0, 0, 0] 2) =
       Some (Some (), \<lparr>sink = Buf_sink (bs @ [0]) 2, max_size = 2, bytes_written = 2, oerrmsg = None\<rparr>) \<and>
     pb_encode 1 plain_env five_mem one_field 1000 (pb_ostream_from_buffer [0, 0, 0] 1) = Some (None, t)"
proof -
  let ?run = "\<lambda>lim. pb_encode 1 plain_env five_mem one_field 1000 (pb_ostream_from_buffer [0, 0, 0] lim)"
  have sized: "sized_fields one_field" using wf_one_field by (simp add: sized_fields_def one_field_def)
  then have tables: "sized_fields (tables plain_env a)" for a by (simp add: plain_env_def)
  have "pb_get_encoded_size 1 plain_env five_mem one_field 1000 = Some (Some 2)"
    using emits_PB_OSTREAM_SIZING [OF one_message_bytes [of 0]] by (simp add: pb_get_encoded_size_def)
  from pb_get_encoded_size_exact [OF uniform_plain_env small_one_message tables sized this]
  obtain bs where bs: "2 = length bs mod 2 ^ 64"
    and run: "\<And>buf lim. lim \<le> length buf \<and> lim < 2 ^ 63 \<longrightarrow>
        (if length bs \<le> lim
         then pb_encode 1 plain_env five_mem one_field 1000 (pb_ostream_from_buffer buf lim) =
           Some (Some (), \<lparr>sink = Buf_sink (bs @ drop (length bs) buf) (length bs), max_size = lim,
                           bytes_written = length bs, oerrmsg = None\<rparr>)
         else \<exists>t. pb_encode 1 plain_env five_mem one_field 1000 (pb_ostream_from_buffer buf lim) = Some (None, t))"
    by (elim exE conjE) blast
  have "fst (the (?run 2)) = Some ()"
    using emits_Buf [OF one_message_bytes [of 0], of "pb_ostream_from_buffer [0, 0, 0] 2" "[0, 0, 0]" 0]
    by (simp add: pb_ostream_from_buffer_def wf_ostream_def)
  then have "length bs \<le> 2"
    using run [of 2 "[0, 0, 0]"] by (auto split: if_splits)
  with bs have len: "length bs = 2" by simp
  then show ?thesis
    using run [of 2 "[0, 0, 0]"] run [of 1 "[0, 0, 0]"] by auto
qed

text \<open>C24: \<open>pb_encode_submessage\<close> (and so \<open>pb_encode_delimited\<close>) writes the length of the message as
  a varint followed by the bytes \<open>pb_encode\<close> writes for it, and \<open>pb_encode_nullterminated\<close> writes
  them followed by a zero byte, on sizing streams and buffers alike.\<close>

theorem pb_encode_framing:
  assumes "emits (pb_encode n E m fs src) bs"
  shows "emits (pb_encode_submessage n E m fs src) (varint_bytes (of_nat (length bs)) @ bs) \<and>
    emits (pb_encode_delimited n E m fs src) (varint_bytes (of_nat (length bs)) @ bs) \<and>
    emits (pb_encode_nullterminated n E m fs src) (bs @ [0])"
proof -
  have "emits (fthen (pb_encode n E m fs src) (\<lambda>_. fdo (pb_write [0] 1))) (bs @ [0])"
    using emits_fthen [OF assms emits_write [of "[0]"]] by (simp del: fdo_simp)
  then show ?thesis
    using emits_submessage [OF assms]
    by (simp add: pb_encode_submessage_def pb_encode_delimited_def pb_encode_nullterminated_def string_bytes_def del: fdo_simp)
qed

theorem pb_encode_framing_witness:
  "emits (pb_encode_submessage 1 plain_env five_mem one_field 1000) (varint_bytes (of_nat (length [8, 5 :: byte])) @ [8, 5]) \<and>
   emits (pb_encode_delimited 1 plain_env five_mem one_field 1000) (varint_bytes (of_nat (length [8, 5 :: byte])) @ [8, 5]) \<and>
   emits (pb_encode_nullterminated 1 plain_env five_mem one_field 1000) ([8, 5] @ [0])"
  using pb_encode_framing [OF one_message_bytes [of 0]] by simp

text \<open>C25: encoding terminates. For a message type whose submessages nest at most \<open>n\<close> deep and that
  has no extension ranges, \<open>n + 1\<close> levels of calls are enough, for every memory, address and stream,
  and any greater fuel gives the same outcome.\<close>

theorem pb_encode_terminates:
  assumes "shallow (tables E) n fs" "n < k"
  shows "\<exists>r. pb_encode (Suc n) E m fs src s = Some r \<and> pb_encode k E m fs src s = Some r"
proof -
  obtain r where "pb_encode (Suc n) E m fs src s = Some r"
    using total_pb_encode [OF assms(1), of m src] unfolding total_def by blast
  then show ?thesis
    using refinesD [OF refines_pb_encode [of "Suc n" k E m fs src]] assms(2) by auto
qed

theorem pb_encode_terminates_witness:
  "\<exists>r. pb_encode (Suc 1) plain_env five_mem one_field 1000 PB_OSTREAM_SIZING = Some r \<and>
     pb_encode 9 plain_env five_mem one_field 1000 PB_OSTREAM_SIZING = Some r"
  by (rule pb_encode_terminates)
    (simp_all add: one_field_def wf_fields_def ordinary_field_def PB_TYPE_defs)

text \<open>C22: the encoder writes only inside the window of its stream. From a buffer stream whose limit is
  within its buffer, whatever the message, and also when encoding fails half-way, every byte of the
  buffer outside the window between the old position and the limit is unchanged and the position
  does not pass the limit (descriptor sizes are 32-bit, callbacks keep the same rule, submessages
  are shorter than 2^63 bytes).\<close>

theorem pb_encode_stays_in_window:
  assumes "sized_env E" "small_messages E m" "\<And>a. wf_fields (tables E a)"
    and "wf_fields fs" "\<forall>f \<in> set fs. data_size f < 2 ^ 32"
    and "wf_ostream s" "sink s = Buf_sink b p" "max_size s < 2 ^ 63"
    and "pb_encode n E m fs src s = Some (r, t)"
  shows "\<exists>b' p'. sink t = Buf_sink b' p' \<and> length b' = length b \<and> p' \<le> p + (max_size s - bytes_written s) \<and>
    (\<forall>i < length b. i < p \<or> p + (max_size s - bytes_written s) \<le> i \<longrightarrow> b' ! i = b ! i)"
proof -
  have "in_window s t"
    by (rule fkeepsD [OF window_pb_encode [OF assms(1-5)] assms(9)])
  then obtain bs where bs: "sink t = Buf_sink (buf_write b p bs) (p + length bs)"
      "bytes_written t = bytes_written s + length bs" "wf_ostream t" "max_size t = max_size s"
    using assms(6-8) by (auto simp: in_window_def extends_def)
  have fits: "p + (max_size s - bytes_written s) \<le> length b"
    using assms(6,7) by (auto simp: wf_ostream_def)
  have "length bs \<le> max_size s - bytes_written s"
    using bs(1,2,3,4) by (auto simp: wf_ostream_def)
  with fits bs(1) show ?thesis
    by (auto simp: buf_write_def nth_append)
qed

theorem pb_encode_stays_in_window_witness:
  "\<exists>b' p'. sink (snd (the (pb_encode 1 plain_env five_mem one_field 1000
          (pb_ostream_from_buffer [7, 7, 7] 3)))) = Buf_sink b' p' \<and>
     length b' = length [7, 7, 7 :: byte] \<and> p' \<le> 0 + (3 - 0) \<and>
     (\<forall>i < length [7, 7, 7 :: byte]. i < 0 \<or> 0 + (3 - 0) \<le> i \<longrightarrow> b' ! i = [7, 7, 7] ! i)"
proof -
  let ?s = "pb_ostream_from_buffer [7, 7, 7] 3 :: unit ostream"
  have env: "sized_env plain_env"
    by (auto simp: sized_env_def plain_env_def one_field_def intro: keeps_ret in_window_refl)
  have fs: "\<forall>f \<in> set one_field. data_size f < 2 ^ 32" "wf_fields (tables plain_env a)" for a
    by (auto simp: one_field_def plain_env_def wf_fields_def)
  have s: "wf_ostream ?s" "sink ?s = Buf_sink [7, 7, 7] 0" "max_size ?s = 3" "bytes_written ?s = 0"
    by (simp_all add: pb_ostream_from_buffer_def wf_ostream_def)
  obtain r t where r: "pb_encode 1 plain_env five_mem one_field 1000 ?s = Some (r, t)"
    using emits_Buf [OF one_message_bytes [of 0] s(2,1)] s(3,4) by (auto simp: pb_ostream_from_buffer_def)
  from pb_encode_stays_in_window [OF env small_one_message fs(2) wf_one_field(1) fs(1) s(1,2) _
      r] s(3,4) r
  show ?thesis by simp
qed


text \<open>\<open>pb_encode\<close> writes the fields of a message in descriptor order, each exactly once and from
  the address the field iterator gives it: when every field emits some bytes, the message emits
  their concatenation.\<close>

theorem pb_encode_fields_in_order:
  assumes "wf_fields fs" "\<forall>f \<in> set fs. PB_LTYPE (ftype f) \<noteq> PB_LTYPE_EXTENSION"
    and "\<forall>j < field_count fs.
      emits (encode_field n E (pb_encode n E m) m (fs ! j) (pData (iter_at fs src j))) (b j)"
  shows "emits (pb_encode (Suc n) E m fs src) (concat (map b [0..<field_count fs]))"
  using assms by (intro emits_pb_encode) auto

theorem pb_encode_fields_in_order_witness:
  "emits (pb_encode (Suc 0) plain_env five_mem one_field 1000)
     (concat (map (\<lambda>_. tag_bytes PB_WT_VARINT 1 @ varint_bytes (ucast (load_u32 five_mem 1000))) [0..<field_count one_field]))"
proof (rule pb_encode_fields_in_order [OF wf_one_field(1)])
  show "\<forall>f \<in> set one_field. PB_LTYPE (ftype f) \<noteq> PB_LTYPE_EXTENSION"
    by (simp add: one_field_def PB_TYPE_defs)
  have "emits (fdo (pb_encode_tag PB_WT_VARINT 1)) (tag_bytes PB_WT_VARINT 1)"
    unfolding pb_encode_tag_bytes by (rule emits_write)
  then have "emits (encode_field 0 plain_env (pb_encode 0 plain_env five_mem) five_mem (one_field ! 0) 1000)
      (tag_bytes PB_WT_VARINT 1 @ varint_bytes (ucast (load_u32 five_mem 1000)))"
    by (simp only: one_field_any) (rule emits_fthen [OF _ emits_varint])
  then show "\<forall>j < field_count one_field. emits (encode_field 0 plain_env (pb_encode 0 plain_env five_mem)
      five_mem (one_field ! j) (pData (iter_at one_field 1000 j)))
      (tag_bytes PB_WT_VARINT 1 @ varint_bytes (ucast (load_u32 five_mem 1000)))"
    by (simp only: wf_one_field less_one) (simp add: one_field_pdata)
qed

text \<open>a repeated field of a packable type is written packed: one tag with wire type 2, the total
  length, and the values back to back, the length being computed without writing (from the count
  for fixed-width types, by a sizing pass otherwise) and equal to what is then written.\<close>

theorem pb_encode_array_packed:
  assumes "PB_LTYPE (ftype field) \<le> PB_LTYPE_LAST_PACKABLE" "0 < count"
      "PB_ATYPE (ftype field) = PB_ATYPE_POINTER \<or> count \<le> array_size field"
    and "\<forall>i < count. emits (func (p + i * data_size field)) (b i)"
    and "PB_LTYPE (ftype field) = PB_LTYPE_FIXED32 \<longrightarrow> (\<forall>i. length (b i) = 4)"
      "PB_LTYPE (ftype field) = PB_LTYPE_FIXED64 \<longrightarrow> (\<forall>i. length (b i) = 8)"
  shows "emits (encode_array m field p count func)
    (tag_bytes PB_WT_STRING (tag field) @ string_bytes (concat (map b [0..<count])))"
  using assms by (intro emits_packed_array) auto

theorem pb_encode_array_packed_witness:
  "emits (encode_array five_mem (example_fields ! 2) 998 3 (\<lambda>p. fdo (pb_encode_varint (ucast (cells five_mem p)))))
     (tag_bytes PB_WT_STRING (tag (example_fields ! 2)) @
      string_bytes (concat (map (\<lambda>i. varint_bytes (ucast (cells five_mem (998 + i * data_size (example_fields ! 2))))) [0..<3])))"
proof (rule pb_encode_array_packed)
  show "\<forall>i < 3. emits (fdo (pb_encode_varint (ucast (cells five_mem (998 + i * data_size (example_fields ! 2))))))
      (varint_bytes (ucast (cells five_mem (998 + i * data_size (example_fields ! 2)))))"
    by (simp only: emits_varint) simp
qed (simp_all add: example_fields_def PB_TYPE_defs)

end
