(* ===== verification/PbDecodeEnds.thy ===== *)
theory PbDecodeEnds
  imports PbDecodeFacts PbEncodeFacts
begin

text \<open>
  Termination of the message decoder: for message types whose submessages nest at most \<open>n\<close> deep,
  every loop and every recursion of \<open>pb_decode\<close> ends within the fuel \<open>2 n + 1\<close>, whatever the
  bytes of the stream are, if the callbacks of the application consume what they are given.
\<close>

section \<open>Decodable message types\<close>

fun decodable :: "(addr \<Rightarrow> pb_field list) \<Rightarrow> nat \<Rightarrow> pb_field list \<Rightarrow> bool" where
  "decodable tbl 0 fs = False"
| "decodable tbl (Suc n) fs \<longleftrightarrow> wf_fields fs \<and> ftype (last fs) = 0 \<and>
     list_all (\<lambda>f. ordinary_field f \<and> data_size f \<noteq> 0 \<and>
       (PB_LTYPE (ftype f) = PB_LTYPE_SUBMESSAGE \<longrightarrow> decodable tbl n (tbl (ptr f)))) (butlast fs)"

text \<open>An iterator inside the array; of an empty message, at the terminator.\<close>

definition valid_iter :: "pb_field list \<Rightarrow> field_iter \<Rightarrow> bool" where
  "valid_iter fs it \<longleftrightarrow> start it = fs \<and> (pos it < field_count fs \<or> field_count fs = 0 \<and> pos it = 0)"

lemma valid_iter_begin: "wf_fields fs \<Longrightarrow> valid_iter fs (snd (pb_field_iter_begin fs d))"
  by (auto simp: valid_iter_def pb_field_iter_begin_def Let_def)

lemma valid_iter_next:
  assumes "wf_fields fs" "valid_iter fs it"
  shows "valid_iter fs (snd (pb_field_iter_next it))"
proof (cases "pos it < field_count fs")
  case True
  show ?thesis
  proof (cases "Suc (pos it) < field_count fs")
    case True
    then show ?thesis
      using iter_next_pos(1) [of it] iter_next_frame(1) [of it] assms \<open>pos it < field_count fs\<close>
      by (simp add: valid_iter_def)
  next
    case False
    then have "pb_field_iter_next it = (False, iter_at fs (dest_struct it) 0)"
      using iter_next_pos(2) [of it] assms \<open>pos it < field_count fs\<close> by (simp add: valid_iter_def)
    then show ?thesis
      using valid_iter_begin [OF assms(1)] by (simp add: iter_at.simps(1))
  qed
next
  case False
  with assms have it: "field_count fs = 0" "pos it = 0" "start it = fs" by (auto simp: valid_iter_def)
  then have "tag (cur it) = 0"
    using wf_fields_nth [OF assms(1), of 0] assms(1) by (simp add: cur_def wf_fields_def)
  then show ?thesis using assms(2) by (simp add: pb_field_iter_next_def)
qed

lemma valid_iter_find_loop:
  "wf_fields fs \<Longrightarrow> valid_iter fs it \<Longrightarrow> iter_find_loop k p j it = (b, it') \<Longrightarrow>
   valid_iter fs it' \<and> (b \<longrightarrow> p (cur it'))"
proof (induction k arbitrary: it)
  case 0
  then show ?case by simp
next
  case (Suc k)
  then show ?case
    using valid_iter_next [OF Suc.prems(1,2)] by (auto simp: Let_def split: if_splits)
qed

lemma valid_iter_find:
  "wf_fields fs \<Longrightarrow> valid_iter fs it \<Longrightarrow> pb_field_iter_find t it = (b, it') \<Longrightarrow> valid_iter fs it'"
  unfolding pb_field_iter_find_def using valid_iter_find_loop by blast

lemma cur_valid_iter:
  assumes "wf_fields fs" "valid_iter fs it"
  shows "cur it \<in> set (butlast fs) \<or> cur it = last fs"
proof (cases "pos it < field_count fs")
  case True
  then show ?thesis
    using assms(2) nth_mem [of "pos it" "butlast fs"] by (simp add: valid_iter_def cur_def nth_butlast)
next
  case False
  then have "field_count fs = 0" "cur it = fs ! 0" using assms(2) by (auto simp: valid_iter_def cur_def)
  then show ?thesis using assms(1) by (auto simp: wf_fields_def last_conv_nth)
qed

text \<open>The field an iterator of a decodable type is at.\<close>

lemma decodable_cur:
  assumes "decodable tbl (Suc n) fs" "valid_iter fs it"
  shows "ordinary_field (cur it)" "PB_ATYPE (ftype (cur it)) = PB_ATYPE_POINTER \<Longrightarrow> data_size (cur it) \<noteq> 0"
    "PB_LTYPE (ftype (cur it)) = PB_LTYPE_SUBMESSAGE \<Longrightarrow> decodable tbl n (tbl (ptr (cur it)))"
proof -
  have wf: "wf_fields fs" using assms(1) by simp
  have *: "ordinary_field (cur it) \<and> (PB_ATYPE (ftype (cur it)) = PB_ATYPE_POINTER \<longrightarrow> data_size (cur it) \<noteq> 0) \<and>
      (PB_LTYPE (ftype (cur it)) = PB_LTYPE_SUBMESSAGE \<longrightarrow> decodable tbl n (tbl (ptr (cur it))))"
    using cur_valid_iter [OF wf assms(2)]
  proof
    assume "cur it \<in> set (butlast fs)"
    then show ?thesis using assms(1) by (auto simp: list_all_iff)
  next
    assume "cur it = last fs"
    then have "ftype (cur it) = 0" using assms(1) by simp
    then show ?thesis by (simp add: ordinary_field_def PB_TYPE_defs)
  qed
  then show "ordinary_field (cur it)" "PB_ATYPE (ftype (cur it)) = PB_ATYPE_POINTER \<Longrightarrow> data_size (cur it) \<noteq> 0"
    "PB_LTYPE (ftype (cur it)) = PB_LTYPE_SUBMESSAGE \<Longrightarrow> decodable tbl n (tbl (ptr (cur it)))"
    by auto
qed

lemma ordinary_not_extension: "ordinary_field f \<Longrightarrow> PB_LTYPE (ftype f) \<noteq> PB_LTYPE_EXTENSION"
  by (auto simp: ordinary_field_def PB_LTYPE_defs)

section \<open>Defaults and release\<close>

lemma iter_mem_total:
  assumes wf: "wf_fields fs" and f: "\<And>it m. valid_iter fs it \<Longrightarrow> f it m \<noteq> None"
  shows "i < field_count fs \<Longrightarrow> field_count fs \<le> i + k \<Longrightarrow> iter_mem k f (iter_at fs d i) m \<noteq> None"
proof (induction k arbitrary: i m)
  case 0
  then show ?case by simp
next
  case (Suc k)
  have "valid_iter fs (iter_at fs d i)" using Suc.prems wf by (simp add: valid_iter_def pos_iter_at)
  then obtain m' where "f (iter_at fs d i) m = Some m'" using f by blast
  then show ?case
    using Suc iter_next_iter_at [OF wf Suc.prems(1), of d] by auto
qed

lemma defaults_total: "decodable tbl n fs \<Longrightarrow> 2 * n \<le> k \<Longrightarrow> pb_message_set_to_defaults k tbl fs d m \<noteq> None"
proof (induction n arbitrary: k fs d m)
  case 0
  then show ?case by simp
next
  case (Suc n)
  then obtain k' where k: "k = Suc (Suc k')" "2 * n \<le> k'" by (cases k; cases "k - 1") auto
  have wf: "wf_fields fs" using Suc.prems by simp
  have "pb_field_set_to_default (Suc k') tbl it m \<noteq> None" if it: "valid_iter fs it" for it m
    using ordinary_not_extension [OF decodable_cur(1) [OF Suc.prems(1) it]]
      Suc.IH [OF decodable_cur(3) [OF Suc.prems(1) it] k(2)]
    by (simp add: pb_field_set_to_default.simps(2) Let_def)
  then have "iter_mem (length fs) (pb_field_set_to_default (Suc k') tbl) (iter_at fs d 0) m \<noteq> None"
    if "0 < field_count fs"
    using that by (intro iter_mem_total [OF wf]) auto
  then show ?case
    unfolding k(1) pb_message_set_to_defaults.simps(2) begin_iter_at [OF wf]
    by (simp split: bool.splits)
qed

lemma mem_items_total: "(\<And>p m. f p m \<noteq> None) \<Longrightarrow> mem_items k step f p m \<noteq> None"
proof (induction k arbitrary: p m)
  case (Suc k)
  then show ?case by (auto split: option.splits)
qed simp

lemma not_None_case:
  "x \<noteq> None \<Longrightarrow> (\<And>y. g y \<noteq> None) \<Longrightarrow> (case x of None \<Rightarrow> None | Some y \<Rightarrow> g y) \<noteq> None"
  by (cases x) auto

lemma release_total:
  "decodable tbl n fs \<Longrightarrow> 2 * n \<le> k \<Longrightarrow>
   (\<forall>d m. pb_release k tbl fs d m \<noteq> None) \<and>
   (\<forall>it m. valid_iter fs it \<longrightarrow> pb_release_single_field (k - 1) tbl it m \<noteq> None)"
proof (induction n arbitrary: k fs)
  case 0
  then show ?case by simp
next
  case (Suc n)
  then obtain k' where k: "k = Suc (Suc k')" "2 * n \<le> k'" by (cases k; cases "k - 1") auto
  have wf: "wf_fields fs" using Suc.prems by simp
  have single: "pb_release_single_field (Suc k') tbl it m \<noteq> None" if it: "valid_iter fs it" for it m
  proof -
    have sub: "mem_items c s (\<lambda>p m'. pb_release k' tbl (tbl (ptr (cur it))) p m') q m \<noteq> None"
      if "PB_LTYPE (ftype (cur it)) = PB_LTYPE_SUBMESSAGE" for c s q m
      using Suc.IH [OF decodable_cur(3) [OF Suc.prems(1) it that] k(2)] by (intro mem_items_total) blast
    then show ?thesis
      using ordinary_not_extension [OF decodable_cur(1) [OF Suc.prems(1) it]]
      unfolding pb_release_single_field.simps(2) [of k' tbl it m] Let_def
      by (intro not_None_if not_None_case option.distinct(2) sub) auto
  qed
  then have "iter_mem (length fs) (pb_release_single_field (Suc k') tbl) (iter_at fs d 0) m \<noteq> None"
    if "0 < field_count fs" for d m
    using that by (intro iter_mem_total [OF wf]) auto
  then have "pb_release k tbl fs d m \<noteq> None" for d m
    unfolding k(1) pb_release.simps(2) begin_iter_at [OF wf] by (simp split: bool.splits)
  with single k(1) show ?case by simp
qed


section \<open>Values\<close>

lemma total_with_state [total_intros]: "(\<And>s m. total (f s m)) \<Longrightarrow> total (with_state f)"
  by (auto simp: total_def with_state_def)

lemma total_case_prod [total_intros]: "(\<And>a b. total (f a b)) \<Longrightarrow> total (case x of (a, b) \<Rightarrow> f a b)"
  by (cases x) simp

lemma total_on_mem_fuel [total_intros]: "(\<And>m. h m \<noteq> None) \<Longrightarrow> total (on_mem_fuel h)"
  by (auto simp: total_def on_mem_fuel_def)

text \<open>A scalar decoder that returns \<open>true\<close> has read something.\<close>

definition consumes :: "('u, 'a) dfact \<Rightarrow> bool" where
  "consumes f \<longleftrightarrow> (\<forall>s m x t m'. f (s, m) = Some (Some x, (t, m')) \<longrightarrow> bytes_left t < bytes_left s)"

definition eats :: "('u, 'a) iact \<Rightarrow> bool" where
  "eats f \<longleftrightarrow> (\<forall>s x t. f s = (Some x, t) \<longrightarrow> bytes_left t < bytes_left s)"

lemma eats_and_then:
  assumes "eats f" "\<And>x. keeps advances (g x)"
  shows "eats (and_then f g)"
  unfolding eats_def
proof (intro allI impI)
  fix s y t
  assume "and_then f g s = (Some y, t)"
  then obtain x u where "f s = (Some x, u)" "g x u = (Some y, t)" by (rule and_then_SomeE)
  then show "bytes_left t < bytes_left s"
    using assms keepsD [OF assms(2)] advances_bytes_left by (fastforce simp: eats_def)
qed

lemma eats_readbyte: "eats pb_readbyte"
  by (auto simp: eats_def dest: pb_readbyte_less)

lemma eats_varint: "eats pb_decode_varint"
proof -
  have "eats (decode_varint_loop p r)" for p r
    unfolding eats_def
  proof (intro allI impI)
    fix s x t
    assume "decode_varint_loop p r s = (Some x, t)"
    then show "bytes_left t < bytes_left s"
    proof (induction p r s arbitrary: x t rule: decode_varint_loop.induct)
      case (1 bitpos result s)
      from "1.prems" obtain b u where b: "\<not> 64 \<le> bitpos" "pb_readbyte s = (Some b, u)"
        by (subst (asm) decode_varint_loop.simps)
          (auto split: if_splits elim!: and_then_SomeE)
      show ?case
      proof (cases "b AND 0x80 = 0")
        case True
        with "1.prems" b show ?thesis
          by (subst (asm) decode_varint_loop.simps) (auto dest: pb_readbyte_less)
      next
        case False
        with "1.prems" b have "bytes_left t < bytes_left u"
          by (intro "1.IH") (auto simp: decode_varint_loop.simps [of bitpos])
        with pb_readbyte_less [OF b(2)] show ?thesis by simp
      qed
    qed
  qed
  then show ?thesis by (simp add: pb_decode_varint_def)
qed

lemma pb_decode_varint32_eof_less: "pb_decode_varint32_eof s = (Some v, t, e) \<Longrightarrow> bytes_left t < bytes_left s"
proof -
  assume run: "pb_decode_varint32_eof s = (Some v, t, e)"
  obtain b u where b: "pb_readbyte s = (Some b, u)" "decode_varint32_rest b u = (Some v, t)"
    using run by (auto simp: pb_decode_varint32_eof_def split: prod.splits option.splits)
  have "advances u t" using b(2) by (rule keepsD [OF decode_varint32_rest_keeps])
  with pb_readbyte_less [OF b(1)] show ?thesis by (auto dest: advances_bytes_left)
qed

lemma eats_varint32: "eats pb_decode_varint32"
  by (auto simp: eats_def pb_decode_varint32_def split: prod.splits dest: pb_decode_varint32_eof_less)

lemma eats_fixed: "eats pb_decode_fixed32" "eats pb_decode_fixed64"
proof -
  have rd: "eats (pb_read False n)" if "0 < n" for n
    using that by (auto simp: eats_def pb_read_def dest: pb_read_buf_less)
  show "eats pb_decode_fixed32" "eats pb_decode_fixed64"
    unfolding pb_decode_fixed32_def pb_decode_fixed64_def
    by (intro eats_and_then rd keeps_ret advances_refl, simp)+
qed

lemma eats_svarint: "eats pb_decode_svarint"
  unfolding pb_decode_svarint_def by (intro eats_and_then eats_varint keeps_ret advances_refl)

lemma pb_decode_tag_less: "pb_decode_tag s = (Some x, t, e) \<Longrightarrow> bytes_left t < bytes_left s"
  by (auto simp: pb_decode_tag_def split: prod.splits option.splits if_splits
      dest: pb_decode_varint32_eof_less)

lemma consumes_then:
  assumes "eats f" "\<And>x. progresses (fdo (g x))"
  shows "consumes (fdo (and_then (on_stream f) g))"
  unfolding consumes_def
proof (intro allI impI)
  fix s m y t m'
  assume "fdo (and_then (on_stream f) g) (s, m) = Some (Some y, (t, m'))"
  then obtain x u where f: "f s = (Some x, u)" and g: "fdo (g x) (u, m) = Some (Some y, (t, m'))"
    by (auto simp: on_stream_def split: prod.splits elim!: and_then_SomeE)
  have "outcome (Some y) u t" using assms(2) g by (rule progressesD)
  with assms(1) f show "bytes_left t < bytes_left s"
    by (fastforce simp: outcome_def eats_def dest: advances_bytes_left)
qed

lemma consumes_PB_DECODERS:
  assumes "l \<le> PB_LTYPE_LAST_PACKABLE"
  shows "consumes (PB_DECODERS E dec l field dest)"
proof -
  have small: "l = 0 \<or> l = 1 \<or> l = 2 \<or> l = 3 \<or> l = 4 \<or> l = 5"
  proof -
    have "unat l \<le> 5" using assms by (simp add: word_le_nat_alt PB_LTYPE_defs)
    then have "unat l \<in> {0, 1, 2, 3, 4, 5}" by auto
    then show ?thesis by (auto simp: word_unat_eq_iff)
  qed
  have st: "progresses (fdo (store_signed n d v))" "progresses (fdo (store_unsigned n d v))" for n d v
    unfolding store_signed_def store_unsigned_def clamp_check_def by (intro progress_intros)+
  have "consumes (fdo (pb_dec_bool field dest))" "consumes (fdo (pb_dec_varint field dest))"
    "consumes (fdo (pb_dec_uvarint field dest))" "consumes (fdo (pb_dec_svarint field dest))"
    "consumes (fdo (pb_dec_fixed32 field dest))" "consumes (fdo (pb_dec_fixed64 field dest))"
    unfolding pb_dec_bool_def pb_dec_varint_def pb_dec_uvarint_def pb_dec_svarint_def
      pb_dec_fixed32_def pb_dec_fixed64_def
    by (intro consumes_then progress_intros st eats_varint eats_varint32 eats_svarint eats_fixed)+
  with small show ?thesis
    by (auto simp: PB_DECODERS_def PB_LTYPE_defs simp del: fdo_simp)
qed


section \<open>Fields\<close>

text \<open>The callbacks of the application progress, and consume while there is something to consume.\<close>

definition consuming_env :: "'u dec_env \<Rightarrow> bool" where
  "consuming_env E \<longleftrightarrow> progressing_env E \<and>
     (\<forall>a field arg s m t m'. decode_fn E a field arg (s, m) = (Some (), (t, m')) \<longrightarrow>
        bytes_left s \<noteq> 0 \<longrightarrow> bytes_left t < bytes_left s)"

lemma fthen_cases:
  assumes "fthen f g st = r"
  obtains "f st = None" "r = None"
  | st' where "f st = Some (None, st')" "r = Some (None, st')"
  | x st' where "f st = Some (Some x, st')" "r = g x st'"
  using assms by (cases "f st"; cases "fst (the (f st))") (auto simp: fthen_def)

lemma packed_static_total:
  assumes "\<And>p. total (func p)" "\<And>p. consumes (func p)"
  shows "bytes_left s < k \<Longrightarrow> packed_static_loop k func it (s, m) \<noteq> None"
proof (induction k arbitrary: s m)
  case 0
  then show ?case by simp
next
  case (Suc k)
  let ?p = "item_addr (pData it) (cur it) (load_u32 m (pSize it))"
  show ?case
  proof (cases "func ?p (s, m)")
    case None
    then show ?thesis using assms(1) [of ?p] unfolding total_def by blast
  next
    case (Some r)
    obtain q t m' where r: "r = (q, (t, m'))" by (cases r) auto
    show ?thesis
    proof (cases q)
      case None
      then show ?thesis using Some r by (simp add: Let_def)
    next
      case (Some x)
      then have "bytes_left t < bytes_left s"
        using assms(2) \<open>func ?p (s, m) = Some r\<close> r by (fastforce simp: consumes_def)
      then have "packed_static_loop k func it (t, m'') \<noteq> None" for m''
        using Suc by simp
      then show ?thesis using Some \<open>func ?p (s, m) = Some r\<close> r
        by (simp add: Let_def on_mem_def)
    qed
  qed
qed

lemma packed_pointer_total:
  assumes "\<And>p. total (func p)" "\<And>p. consumes (func p)"
    and init: "\<And>p m. initialize_pointer_field n tbl p it m \<noteq> None"
    and size: "data_size (cur it) \<noteq> 0"
  shows "bytes_left s < k \<Longrightarrow> packed_pointer_loop k n tbl func it a (s, m) \<noteq> None"
proof (induction k arbitrary: s m a)
  case 0
  then show ?case by simp
next
  case (Suc k)
  show ?case
  proof
    assume none: "packed_pointer_loop (Suc k) n tbl func it a (s, m) = None"
    define grow where "grow = (unat (load_u32 m (pSize it)) + 1 > a)"
    define a' where "a' = (if grow then
        (if (bytes_left s - 1) div data_size (cur it) + 1 < size_sub PB_SIZE_MAX a
         then size_add a ((bytes_left s - 1) div data_size (cur it) + 1) else size_add a 1) else a)"
    let ?alloc = "fdo (if grow then allocate_field (pData it) (data_size (cur it)) a' else ret ())"
    let ?item = "\<lambda>m1. item_addr (load_ptr m1 (pData it)) (cur it) (load_u32 m1 (pSize it))"
    let ?rest = "\<lambda>m1. fthen (on_mem_fuel (initialize_pointer_field n tbl (?item m1) it)) (\<lambda>_.
        fthen (func (?item m1)) (\<lambda>_.
          fthen (fdo (on_mem (\<lambda>m'. store_u32 (pSize it) (load_u32 m' (pSize it) + 1) m')))
            (\<lambda>_. packed_pointer_loop k n tbl func it a')))"
    have "fthen ?alloc (\<lambda>_. with_state (\<lambda>_ m1. ?rest m1)) (s, m) = None"
      using none size
      unfolding packed_pointer_loop.simps(2) with_state_pair Let_def grow_def [symmetric] a'_def [symmetric]
      by (simp split del: if_split split: if_split_asm)
    then obtain x t m1 where al: "?alloc (s, m) = Some (Some x, (t, m1))" and rest: "?rest m1 (t, m1) = None"
      by (rule fthen_cases) auto
    have "progresses ?alloc" by (intro progress_intros)
    then have "outcome (Some x) s t" using al by (rule progressesD)
    then have st: "bytes_left t \<le> bytes_left s" by (simp add: outcome_def advances_bytes_left)
    obtain m2 where m2: "initialize_pointer_field n tbl (?item m1) it m1 = Some m2" using init by blast
    from rest have "fthen (func (?item m1)) (\<lambda>_.
          fthen (fdo (on_mem (\<lambda>m'. store_u32 (pSize it) (load_u32 m' (pSize it) + 1) m')))
            (\<lambda>_. packed_pointer_loop k n tbl func it a')) (t, m2) = None"
      using m2 by (simp add: on_mem_fuel_def)
    then show False
    proof (rule fthen_cases)
      fix y st'
      assume f: "func (?item m1) (t, m2) = Some (Some y, st')"
        and r: "None = fthen (fdo (on_mem (\<lambda>m'. store_u32 (pSize it) (load_u32 m' (pSize it) + 1) m')))
            (\<lambda>_. packed_pointer_loop k n tbl func it a') st'"
      obtain u m3 where st': "st' = (u, m3)" by (cases st')
      have "bytes_left u < bytes_left t" using assms(2) f st' by (fastforce simp: consumes_def)
      then have "packed_pointer_loop k n tbl func it a' (u, m'') \<noteq> None" for m''
        using Suc st by simp
      then have "packed_pointer_loop k n tbl func it a'
          (u, store_u32 (pSize it) (load_u32 m3 (pSize it) + 1) m3) \<noteq> None" .
      with r st' show False by (simp add: on_mem_def)
    qed (use totalD [OF assms(1)] in \<open>simp_all del: not_None_eq\<close>)
  qed
qed

lemma callback_loop_total:
  assumes "consuming_env E"
  shows "bytes_left s < k \<Longrightarrow> callback_loop k (decode_fn E a f arg) (s, m) \<noteq> None"
proof (induction k arbitrary: s m)
  case 0
  then show ?case by simp
next
  case (Suc k)
  obtain q t m' where r: "decode_fn E a f arg (s, m) = (q, (t, m'))" by (cases "decode_fn E a f arg (s, m)") auto
  show ?case
  proof (cases q)
    case None
    with r show ?thesis by simp
  next
    case (Some x)
    show ?thesis
    proof (cases "bytes_left t = 0")
      case True
      with r Some show ?thesis by simp
    next
      case False
      have "progresses (fdo (decode_fn E a f arg))"
        using assms by (simp add: consuming_env_def progressing_env_def del: fdo_simp)
      then have "outcome q s t" using r by (intro progressesD [where f = "fdo (decode_fn E a f arg)"]) auto
      then have "bytes_left t \<le> bytes_left s" using Some by (simp add: outcome_def advances_bytes_left)
      with False have "bytes_left s \<noteq> 0" by simp
      then have "bytes_left t < bytes_left s"
        using assms r Some unfolding consuming_env_def by (cases x) blast
      with Suc r Some False show ?thesis by simp
    qed
  qed
qed


section \<open>Fields of a decodable message\<close>

lemma small_ltype: "l \<le> 8 \<Longrightarrow> l = 0 \<or> l = 1 \<or> l = 2 \<or> l = 3 \<or> l = 4 \<or> l = 5 \<or> l = 6 \<or> l = 7 \<or> l = 8"
  for l :: byte
proof -
  assume "l \<le> 8"
  then have "unat l \<le> 8" by (simp add: word_le_nat_alt)
  then have "unat l \<in> {0, 1, 2, 3, 4, 5, 6, 7, 8}" by auto
  then show ?thesis by (auto simp: word_unat_eq_iff)
qed

lemma total_in_substream:
  assumes "total body"
  shows "total (in_substream body sub)"
  using assms unfolding total_def in_substream_def
  by (auto split: option.splits prod.splits)

lemma total_PB_DECODERS:
  assumes "ordinary_field f"
    and "PB_LTYPE (ftype f) = PB_LTYPE_SUBMESSAGE \<Longrightarrow> (\<And>init d. total (dec init (dtables E (ptr f)) d))"
  shows "total (PB_DECODERS E dec (PB_LTYPE (ftype f)) f dest)"
proof -
  let ?l = "PB_LTYPE (ftype f)"
  have "total (pb_dec_submessage E dec f dest)" if "?l = PB_LTYPE_SUBMESSAGE"
    unfolding pb_dec_submessage_def using assms(2) [OF that]
    by (intro total_intros total_in_substream)
  then show ?thesis
    using assms(1) small_ltype [of ?l]
    unfolding PB_DECODERS_def ordinary_field_def PB_LTYPE_defs by (intro total_intros) auto
qed

text \<open>What a field needs in order to be decoded in \<open>k\<close> levels of calls.\<close>

definition field_ends :: "'u dec_env \<Rightarrow> 'u msg_decoder \<Rightarrow> nat \<Rightarrow> field_iter \<Rightarrow> bool" where
  "field_ends E dec k it \<longleftrightarrow> ordinary_field (cur it) \<and>
     (PB_ATYPE (ftype (cur it)) = PB_ATYPE_POINTER \<longrightarrow> data_size (cur it) \<noteq> 0) \<and>
     (\<forall>m. pb_release_single_field k (dtables E) it m \<noteq> None) \<and>
     (PB_LTYPE (ftype (cur it)) = PB_LTYPE_SUBMESSAGE \<longrightarrow>
        (\<forall>d m. pb_message_set_to_defaults k (dtables E) (dtables E (ptr (cur it))) d m \<noteq> None) \<and>
        (\<forall>init d. total (dec init (dtables E (ptr (cur it))) d)))"

lemma total_static_field:
  assumes ends: "field_ends E dec k it"
  shows "total (decode_static_field k E dec w it)"
proof -
  have func: "total (PB_DECODERS E dec (PB_LTYPE (ftype (cur it))) (cur it) d)" for d
    using ends by (intro total_PB_DECODERS) (auto simp: field_ends_def)
  have packed: "total (\<lambda>(s, m). case packed_static_loop (Suc (bytes_left sub))
          (PB_DECODERS E dec (PB_LTYPE (ftype (cur it))) (cur it)) it (sub, m) of
        None \<Rightarrow> None
      | Some (status, (sub', m')) \<Rightarrow>
          if bytes_left sub' \<noteq> 0 then fdo (derr ''array overflow'') (s, m')
          else case pb_close_string_substream sub' s of
              (None, t) \<Rightarrow> Some (None, (t, m'))
            | (Some _, t) \<Rightarrow> Some (status, (t, m')))"
    if "PB_LTYPE (ftype (cur it)) \<le> PB_LTYPE_LAST_PACKABLE" for sub
    using packed_static_total [OF func consumes_PB_DECODERS [OF that], of sub "Suc (bytes_left sub)"]
    unfolding total_def by (auto split: option.splits prod.splits simp del: packed_static_loop.simps not_None_eq)
  show ?thesis
    unfolding decode_static_field_def Let_def
    by (intro total_intros func packed) (use ends in \<open>auto simp: field_ends_def\<close>)
qed

lemma initialize_total:
  "field_ends E dec k it \<Longrightarrow> initialize_pointer_field k (dtables E) p it m \<noteq> None"
  by (auto simp: field_ends_def initialize_pointer_field_def Let_def)

lemma total_pointer_field:
  assumes ends: "field_ends E dec k it" and ptr: "PB_ATYPE (ftype (cur it)) = PB_ATYPE_POINTER"
  shows "total (decode_pointer_field k E dec w it)"
proof -
  have func: "total (PB_DECODERS E dec (PB_LTYPE (ftype (cur it))) (cur it) d)" for d
    using ends by (intro total_PB_DECODERS) (auto simp: field_ends_def)
  have size: "data_size (cur it) \<noteq> 0" using ends ptr by (simp add: field_ends_def)
  have packed: "total (\<lambda>(s, m). case packed_pointer_loop (Suc (bytes_left sub)) k (dtables E)
          (PB_DECODERS E dec (PB_LTYPE (ftype (cur it))) (cur it)) it a (sub, m) of
        None \<Rightarrow> None
      | Some (status, (sub', m')) \<Rightarrow>
          let s1 = (if status = Some True then s\<lparr>ierrmsg := Some ''too many array entries''\<rparr> else s) in
          (case pb_close_string_substream sub' s1 of
             (None, t) \<Rightarrow> Some (None, (t, m'))
           | (Some _, t) \<Rightarrow> Some (if status = Some False then Some () else None, (t, m'))))"
    if "PB_LTYPE (ftype (cur it)) \<le> PB_LTYPE_LAST_PACKABLE" for sub a
    using packed_pointer_total [OF func consumes_PB_DECODERS [OF that] initialize_total [OF ends] size,
        where s = sub and k = "Suc (bytes_left sub)" and a = a]
    unfolding total_def Let_def by (auto split: option.splits prod.splits simp del: packed_pointer_loop.simps not_None_eq)
  show ?thesis
    unfolding decode_pointer_field_def Let_def [of "load_u32 _ _"] Let_def [of "item_addr _ _ _"]
      Let_def [of "cur _"] Let_def [of "ftype _"] Let_def [of "PB_DECODERS _ _ _ _"]
    by (intro total_intros func packed initialize_total [OF ends] not_None_if option.distinct(2))
      (use ends in \<open>auto simp: field_ends_def\<close>)
qed

lemma total_callback_field:
  assumes "consuming_env E"
  shows "total (decode_callback_field E w it)"
proof -
  have string: "total (\<lambda>(s, m). case callback_loop (Suc (bytes_left sub)) (decode_fn E a f arg) (sub, m) of
        None \<Rightarrow> None
      | Some (None, (sub', m')) \<Rightarrow> fdo (derr ''callback failed'') (s, m')
      | Some (Some _, (sub', m')) \<Rightarrow> fdo (on_stream (pb_close_string_substream sub')) (s, m'))" for sub a f arg
    using callback_loop_total [OF assms, of sub "Suc (bytes_left sub)" a f arg]
    unfolding total_def by (auto split: option.splits simp del: callback_loop.simps not_None_eq)
  have scalar: "total (\<lambda>(s, m). case decode_fn E a f arg (pb_istream_from_buffer buffer (length buffer), m) of
        (status, (_, m')) \<Rightarrow> Some (status, (s, m')))" for a f arg buffer
    unfolding total_def by (auto split: prod.splits)
  show ?thesis
    unfolding decode_callback_field_def Let_def by (intro total_intros string scalar)
qed

text \<open>\<open>decode_field\<close> when every field of the message ends: the iterator may move within it.\<close>

lemma total_decode_field:
  assumes fs: "wf_fields fs" "valid_iter fs it"
    and ends: "\<And>it. valid_iter fs it \<Longrightarrow> field_ends E dec k it"
    and E: "consuming_env E"
  shows "total (decode_field k E dec w it)"
proof -
  have rest: "total (fthen (if PB_ATYPE (ftype (cur it')) = PB_ATYPE_STATIC then decode_static_field k E dec w it'
                 else if PB_ATYPE (ftype (cur it')) = PB_ATYPE_POINTER then decode_pointer_field k E dec w it'
                 else if PB_ATYPE (ftype (cur it')) = PB_ATYPE_CALLBACK then decode_callback_field E w it'
                 else fdo (derr ''invalid field type'')) (\<lambda>_. fdo (ret it')))" if "valid_iter fs it'" for it'
    by (intro total_intros total_static_field total_pointer_field total_callback_field ends that E)
  show ?thesis
    unfolding total_def
  proof
    fix st :: "'a istream \<times> mem"
    obtain s m where st: "st = (s, m)" by (cases st)
    let ?rel = "if PB_HTYPE (ftype (cur it)) = PB_HTYPE_ONEOF
            then pb_release_union_field k (dtables E) it else fdo (ret it)"
    have "?rel st \<noteq> None \<and> (\<forall>it' st'. ?rel st = Some (Some it', st') \<longrightarrow> valid_iter fs it')"
    proof (cases "PB_HTYPE (ftype (cur it)) = PB_HTYPE_ONEOF")
      case False
      then show ?thesis using fs by simp
    next
      case True
      obtain b1 it1 where f1: "pb_field_iter_find (load_u32 m (pSize it)) it = (b1, it1)" by fastforce
      have v1: "valid_iter fs it1" using valid_iter_find [OF fs f1] .
      obtain b2 it2 where f2: "pb_field_iter_find (tag (cur it)) it1 = (b2, it2)" by fastforce
      have v2: "valid_iter fs it2" using valid_iter_find [OF fs(1) v1 f2] .
      obtain m1 where m1: "pb_release_single_field k (dtables E) it1 m = Some m1"
        using ends [OF v1] unfolding field_ends_def by blast
      show ?thesis
        using True f1 f2 m1 v2 fs(2)
        by (auto simp: st pb_release_union_field_def Let_def on_mem_fuel_def on_mem_def derr_def
            on_stream_def ierr_def split: if_splits)
    qed
    then show "decode_field k E dec w it st \<noteq> None"
      using rest unfolding decode_field_def Let_def total_def
      by (cases "?rel st"; cases "fst (the (?rel st))") (auto simp: fthen_def split: prod.splits)
  qed
qed


section \<open>Messages\<close>

lemma decode_field_iter:
  assumes fs: "wf_fields fs" "valid_iter fs it"
    and run: "decode_field k E dec w it (s, m) = Some (Some it', st')"
  shows "valid_iter fs it'"
proof (cases "PB_HTYPE (ftype (cur it)) = PB_HTYPE_ONEOF")
  case False
  then show ?thesis
    using run fs(2) by (auto simp: decode_field_def Let_def fthen_def split: option.splits prod.splits)
next
  case True
  obtain b1 it1 where f1: "pb_field_iter_find (load_u32 m (pSize it)) it = (b1, it1)" by fastforce
  obtain b2 it2 where f2: "pb_field_iter_find (tag (cur it)) it1 = (b2, it2)" by fastforce
  have v2: "valid_iter fs it2" using valid_iter_find [OF fs(1) valid_iter_find [OF fs f1] f2] .
  have "\<exists>st2. pb_release_union_field k (dtables E) it (s, m) = Some (Some it', st2)"
    using run True unfolding decode_field_def Let_def
    by (auto simp: fthen_def split: option.splits prod.splits)
  then show ?thesis
    using f1 f2 v2 fs(2)
    by (auto simp: pb_release_union_field_def Let_def fthen_def on_mem_fuel_def on_mem_def derr_def
        on_stream_def ierr_def split: if_splits option.splits)
qed

lemma decode_known_iter:
  assumes fs: "wf_fields fs" "valid_iter fs (iter v)"
    and run: "decode_known k E dec slot w v (s, m) = Some (Some v', st')"
  shows "valid_iter fs (iter v')"
proof -
  let ?it = "iter v"
  let ?fixed = "PB_HTYPE (ftype (cur ?it)) = PB_HTYPE_REPEATED \<and> pSize ?it = pData ?it"
  let ?v2 = "mark_required (if ?fixed then v\<lparr>fixed_count_field := Some (pos ?it), iter := ?it\<lparr>pSize := slot\<rparr>\<rparr> else v)"
  have mark: "iter (mark_required u) = iter u" for u by (simp add: mark_required_def Let_def)
  have "valid_iter fs (iter ?v2)" unfolding mark using fs(2) by (simp add: valid_iter_def)
  moreover obtain s1 m1 st1 where "decode_field k E dec w (iter ?v2) (s1, m1) = Some (Some (iter v'), st1)"
    using run unfolding decode_known_def Let_def
    by (auto simp: fthen_def split: option.splits prod.splits)
  ultimately show ?thesis using decode_field_iter [OF fs(1)] by blast
qed

lemma find_extension_none:
  assumes "wf_fields fs" "valid_iter fs it" "\<And>it. valid_iter fs it \<Longrightarrow> ordinary_field (cur it)"
    and "find_extension_field it = (b, it')"
  shows "\<not> b" "valid_iter fs it'"
proof -
  have "valid_iter fs it' \<and> (b \<longrightarrow> PB_LTYPE (ftype (cur it')) = PB_LTYPE_EXTENSION)"
    using valid_iter_find_loop [OF assms(1,2)] assms(4) unfolding find_extension_field_def by blast
  then show "\<not> b" "valid_iter fs it'"
    using assms(3) [of it'] ordinary_not_extension by auto
qed

text \<open>Without extension ranges an unknown tag of the wire format is skipped.\<close>

lemma decode_unknown_skips:
  assumes "wf_fields fs" "valid_iter fs (iter v)" "\<And>it. valid_iter fs it \<Longrightarrow> ordinary_field (cur it)"
    and "t \<noteq> - 1"
  shows "\<exists>v'. valid_iter fs (iter v') \<and>
    decode_unknown k E dec t w v = fthen (fdo (on_stream (pb_skip_field w))) (\<lambda>_. fdo (ret v'))"
proof -
  obtain b it where f: "find_extension_field (iter v) = (b, it)" by fastforce
  note b = find_extension_none [OF assms(1-3) f]
  have "\<not> (- 1 :: u32) \<le> t" using assms(4) by (metis word_order.extremum_unique)
  then show ?thesis
    using f b assms(2)
    by (intro exI [of _ "if extension_range_start v \<le> t then v\<lparr>iter := it, extension_range_start := - 1\<rparr> else v"])
      (auto simp: decode_unknown_def Let_def)
qed

lemma decode_loop_total:
  assumes fs: "wf_fields fs"
    and ends: "\<And>it. valid_iter fs it \<Longrightarrow> field_ends E dec k it"
    and dec: "progressing_decoder dec" and E: "consuming_env E"
  shows "valid_iter fs (iter v) \<Longrightarrow> bytes_left s < n \<Longrightarrow> decode_loop n k E dec slot v (s, m) \<noteq> None"
proof (induction n arbitrary: v s m)
  case 0
  then show ?case by simp
next
  case (Suc n)
  show ?case
  proof (cases "bytes_left s = 0")
    case True
    then show ?thesis by simp
  next
    case left: False
    obtain q u e where tag: "pb_decode_tag s = (q, u, e)" using prod_cases3 by blast
    show ?thesis
    proof (cases q)
      case None
      with tag left show ?thesis by simp
    next
      case (Some x)
      obtain w tg where x: "x = (w, tg)" by (cases x)
      have less: "bytes_left u < bytes_left s" using pb_decode_tag_less tag Some by blast
      have tg: "tg \<noteq> - 1"
      proof -
        obtain temp :: u32 where "tg = drop_bit 3 temp"
          using tag Some x by (auto simp: pb_decode_tag_def split: prod.splits option.splits if_splits)
        then have "\<not> bit tg 31" by (auto simp: bit_drop_bit_eq dest: bit_imp_le_length)
        then show ?thesis by auto
      qed
      obtain b it where f: "pb_field_iter_find tg (iter v) = (b, it)" by fastforce
      have v: "valid_iter fs it" using valid_iter_find [OF fs Suc.prems(1) f] .
      let ?body = "if b then decode_known k E dec slot w (v\<lparr>iter := it\<rparr>) else decode_unknown k E dec tg w (v\<lparr>iter := it\<rparr>)"
      have ord: "ordinary_field (cur it)" if "valid_iter fs it" for it
        using ends [OF that] by (simp add: field_ends_def)
      have env: "progressing_env E" using E by (simp add: consuming_env_def)
      have prog: "progresses ?body"
        using progress_decode_known [OF dec env] progress_decode_unknown [OF dec env] by simp
      obtain v' where v': "valid_iter fs (iter v')"
        "decode_unknown k E dec tg w (v\<lparr>iter := it\<rparr>) = fthen (fdo (on_stream (pb_skip_field w))) (\<lambda>_. fdo (ret v'))"
        using decode_unknown_skips [OF fs _ ord tg, of "v\<lparr>iter := it\<rparr>" k E dec w] v by auto
      have "total (decode_known k E dec slot w (v\<lparr>iter := it\<rparr>))"
        unfolding decode_known_def Let_def
        by (intro total_intros total_decode_field [OF fs _ ends E])
          (use v in \<open>auto simp: mark_required_def Let_def valid_iter_def\<close>)
      moreover have "total (decode_unknown k E dec tg w (v\<lparr>iter := it\<rparr>))"
        unfolding v'(2) by (intro total_intros)
      ultimately have "?body (u, m) \<noteq> None" by (simp add: total_def)
      then obtain r t m' where run: "?body (u, m) = Some (r, (t, m'))" by (cases "?body (u, m)") auto
      show ?thesis
      proof (cases r)
        case None
        then show ?thesis using tag left Some x f run by simp
      next
        case (Some y)
        have "outcome r u t" using prog run by (rule progressesD)
        then have "bytes_left t < n"
          using less Suc.prems(2) Some by (simp add: outcome_def advances_def)
        moreover have "valid_iter fs (iter y)"
        proof (cases b)
          case True
          then show ?thesis
            using decode_known_iter [OF fs, of "v\<lparr>iter := it\<rparr>"] v run Some by auto
        next
          case False
          then show ?thesis
            using v' run Some by (auto simp: fthen_def split: option.splits prod.splits)
        qed
        ultimately have "decode_loop n k E dec slot y (t, m') \<noteq> None" using Suc.IH by blast
        then show ?thesis using tag left \<open>q = Some x\<close> x f run Some by simp
      qed
    qed
  qed
qed


lemma not_None_fthen: "f st \<noteq> None \<Longrightarrow> (\<And>x st'. g x st' \<noteq> None) \<Longrightarrow> fthen f g st \<noteq> None"
  by (auto simp: fthen_def split: option.splits prod.splits)

text \<open>The level of calls \<open>k\<close> serves a message type of depth \<open>n\<close> when \<open>2 n < k\<close>.\<close>

lemma decode_noinit_total:
  assumes E: "consuming_env E"
  shows "decodable (dtables E) n fs \<Longrightarrow> 2 * n < k \<Longrightarrow> total (pb_decode_noinit k E fs dest)"
proof (induction n arbitrary: k fs dest)
  case 0
  then show ?case by simp
next
  case (Suc n)
  then obtain k' where k: "k = Suc k'" "2 * n < k'" "2 * Suc n \<le> k'" by (cases k) auto
  have wf: "wf_fields fs" using Suc.prems by simp
  let ?dec = "\<lambda>init fs' d. if init then pb_decode_with k' E fs' d (pb_decode_noinit k' E fs' d)
      else pb_decode_noinit k' E fs' d"
  have env: "progressing_env E" using E by (simp add: consuming_env_def)
  have prog: "progressing_decoder ?dec"
    unfolding progressing_decoder_def by (intro allI progress_if progress_decode_with progress_decode_noinit env)
  have ends: "field_ends E ?dec k' it" if it: "valid_iter fs it" for it
  proof -
    have rel: "pb_release_single_field k' (dtables E) it m \<noteq> None" for m
      using release_total [OF Suc.prems(1), of "Suc k'"] it k(3) by simp
    have sub: "(\<forall>d m. pb_message_set_to_defaults k' (dtables E) (dtables E (ptr (cur it))) d m \<noteq> None) \<and>
        (\<forall>init d. total (?dec init (dtables E (ptr (cur it))) d))"
      if "PB_LTYPE (ftype (cur it)) = PB_LTYPE_SUBMESSAGE"
    proof -
      note d = decodable_cur(3) [OF Suc.prems(1) it that]
      have dflt: "pb_message_set_to_defaults k' (dtables E) (dtables E (ptr (cur it))) d m \<noteq> None" for d m
        using defaults_total [OF d] k(2) by simp
      have rel: "pb_release k' (dtables E) (dtables E (ptr (cur it))) d m \<noteq> None" for d m
        using release_total [OF d, of k'] k(2) by simp
      have no: "total (pb_decode_noinit k' E (dtables E (ptr (cur it))) d)" for d
        using Suc.IH [OF d k(2)] .
      then have "total (\<lambda>st. case pb_decode_noinit k' E (dtables E (ptr (cur it))) d st of
           None \<Rightarrow> None
         | Some (Some u, st') \<Rightarrow> Some (Some u, st')
         | Some (None, (s, m)) \<Rightarrow>
             map_option (\<lambda>m'. (None, (s, m'))) (pb_release k' (dtables E) (dtables E (ptr (cur it))) d m))" for d
        using rel unfolding total_def by (auto split: option.splits)
      then have "total (pb_decode_with k' E (dtables E (ptr (cur it))) d (pb_decode_noinit k' E (dtables E (ptr (cur it))) d))" for d
        unfolding pb_decode_with_def by (intro total_intros dflt)
      with dflt no show ?thesis by auto
    qed
    show ?thesis
      unfolding field_ends_def
      using decodable_cur(1,2) [OF Suc.prems(1) it] rel sub by blast
  qed
  have "total (with_state (\<lambda>s _. fthen (fdo (on_mem g)) (\<lambda>_.
          fthen (decode_loop (Suc (bytes_left s)) k' E ?dec slot v) (\<lambda>v'. fdo (finish_noinit slot v')))))"
    if "valid_iter fs (iter v)" for slot v g
    unfolding total_def
  proof
    fix st :: "'a istream \<times> mem"
    obtain s m where st: "st = (s, m)" by (cases st)
    have "decode_loop (Suc (bytes_left s)) k' E ?dec slot v (s, g m) \<noteq> None"
      using decode_loop_total [where E = E, OF wf ends prog E that lessI] .
    then have "fthen (decode_loop (Suc (bytes_left s)) k' E ?dec slot v) (\<lambda>v'. fdo (finish_noinit slot v')) (s, g m) \<noteq> None"
      by (rule not_None_fthen) simp
    then show "with_state (\<lambda>s _. fthen (fdo (on_mem g)) (\<lambda>_.
          fthen (decode_loop (Suc (bytes_left s)) k' E ?dec slot v) (\<lambda>v'. fdo (finish_noinit slot v')))) st \<noteq> None"
      by (simp add: st on_mem_def del: decode_loop.simps)
  qed
  then show ?case
    unfolding k(1) pb_decode_noinit.simps(2) Let_def
    using valid_iter_begin [OF wf] by simp
qed

lemma decode_total:
  assumes "consuming_env E" "decodable (dtables E) n fs" "2 * n < k"
  shows "total (pb_decode k E fs dest)"
proof -
  have rel: "pb_release k (dtables E) fs d m \<noteq> None" "pb_message_set_to_defaults k (dtables E) fs d m \<noteq> None" for d m
    using release_total [OF assms(2), of k] defaults_total [OF assms(2), of k] assms(3) by auto
  have "total (\<lambda>st. case pb_decode_noinit k E fs dest st of
         None \<Rightarrow> None
       | Some (Some u, st') \<Rightarrow> Some (Some u, st')
       | Some (None, (s, m)) \<Rightarrow> map_option (\<lambda>m'. (None, (s, m'))) (pb_release k (dtables E) fs dest m))"
    using rel decode_noinit_total [OF assms] unfolding total_def by (auto split: option.splits)
  then show ?thesis
    unfolding pb_decode_def pb_decode_with_def by (intro total_intros rel)
qed

section \<open>Properties\<close>

text \<open>
  A message with a repeated submessage that holds a string: \<open>message { repeated Inner a = 1; }\<close> and
  \<open>message Inner { optional string b = 1; }\<close>, both with pointer fields, without callbacks.
\<close>

definition inner_fields :: "pb_field list" where
  "inner_fields =
     [\<lparr>tag = 1, ftype = 0x96, data_offset = 0, size_offset = 0, data_size = 1, array_size = 0, ptr = 0\<rparr>,
      \<lparr>tag = 0, ftype = 0, data_offset = 0, size_offset = 0, data_size = 0, array_size = 0, ptr = 0\<rparr>]"

definition outer_fields :: "pb_field list" where
  "outer_fields =
     [\<lparr>tag = 1, ftype = 0xa7, data_offset = 8, size_offset = -8, data_size = 8, array_size = 0, ptr = 1\<rparr>,
      \<lparr>tag = 0, ftype = 0, data_offset = 0, size_offset = 0, data_size = 0, array_size = 0, ptr = 0\<rparr>]"

definition no_mem :: mem where
  "no_mem = \<lparr>cells = (\<lambda>_. 0), blocks = Map.empty, brk = 0x10000, heap_limit = 0x20000, bad_free = False\<rparr>"

definition nested_env :: "unit dec_env" where
  "nested_env = \<lparr>dtables = (\<lambda>a. if a = 1 then inner_fields else outer_fields), decode_fn = (\<lambda>_ _ _ s. (None, s)),
     ext_decode_fn = (\<lambda>_ _ _ _ s. (None, s)), stack_slot = (\<lambda>n. 3000 + 8 * n)\<rparr>"

text \<open>C3:
  decoding ends on any input. For a message type without extension ranges whose submessages nest at most
  \<open>n\<close> deep, its descriptor entries being of the other kinds the generator emits and of non-zero size,
  and with callbacks that consume what they accept, \<open>pb_decode\<close> and its variants for delimited messages
  and for structures that are already initialised return, whatever the bytes of the stream and the
  memory are: a success or an error. On success the stream has advanced to a position within its
  limit, in step with the bytes left, and after an error it has not gone past the limit either
  (\<open>outcome\<close>). This holds for every number of levels of calls above \<open>2 n\<close>. Extension ranges are excluded
  because a cyclic list of extensions in the memory makes the decoder go round for ever.
\<close>

theorem pb_decode_terminates:
  assumes "consuming_env E" "decodable (dtables E) n fs" "2 * n < k"
  shows "\<forall>decode \<in> {pb_decode, pb_decode_noinit, pb_decode_delimited, pb_decode_delimited_noinit}.
    \<exists>r t m'. decode k E fs dest (s, m) = Some (r, (t, m')) \<and> outcome r s t"
proof -
  have env: "progressing_env E" using assms(1) by (simp add: consuming_env_def)
  have ends: "\<exists>r t m'. f (s, m) = Some (r, (t, m')) \<and> outcome r s t"
    if f: "total f" "progresses f" for f :: "('a, unit) dfact"
  proof -
    obtain r t m' where "f (s, m) = Some (r, (t, m'))" using f(1) unfolding total_def by (metis not_None_eq prod.exhaust)
    with progressesD [OF f(2) this] show ?thesis by blast
  qed
  have "total (pb_decode_delimited k E fs dest)" "total (pb_decode_delimited_noinit k E fs dest)"
    unfolding pb_decode_delimited_def pb_decode_delimited_noinit_def
    by (intro total_intros total_in_substream decode_total [OF assms] decode_noinit_total [OF assms])+
  then show ?thesis
    using decode_total [OF assms] decode_noinit_total [OF assms] progress_decode [OF env] progress_decode_noinit [OF env] ends
    by simp
qed

text \<open>A stream with a submessage of five bytes that holds the string \<open>abc\<close>, and one that is cut short.\<close>

theorem pb_decode_terminates_witness:
  "(\<exists>r t m'. pb_decode 5 nested_env outer_fields 2000 (buf_istream [0x0a, 5, 0x0a, 3, 97, 98, 99] 7 None, no_mem) =
        Some (r, (t, m')) \<and>
      outcome r (buf_istream [0x0a, 5, 0x0a, 3, 97, 98, 99] 7 None) t) \<and>
   (\<exists>r t m'. pb_decode_noinit 5 nested_env outer_fields 2000 (buf_istream [0x0a, 5, 0x0a, 3, 97, 98, 99] 7 None, no_mem) =
        Some (r, (t, m')) \<and>
      outcome r (buf_istream [0x0a, 5, 0x0a, 3, 97, 98, 99] 7 None) t) \<and>
   (\<exists>r t m'. pb_decode_delimited 5 nested_env outer_fields 2000 (buf_istream [0x0a, 0xff, 0xff, 0x03, 0x0a] 5 None, no_mem) =
        Some (r, (t, m')) \<and>
      outcome r (buf_istream [0x0a, 0xff, 0xff, 0x03, 0x0a] 5 None) t)"
proof -
  have "consuming_env nested_env"
    by (simp add: consuming_env_def progressing_env_def nested_env_def progresses_def outcome_def)
  moreover have "decodable (dtables nested_env) (Suc (Suc 0)) outer_fields"
    by (simp add: nested_env_def outer_fields_def inner_fields_def wf_fields_def ordinary_field_def PB_TYPE_defs)
  ultimately show ?thesis
    using pb_decode_terminates [of nested_env "Suc (Suc 0)" outer_fields 5] by simp
qed

end
