(* ===== verification/PbRoundtrip.thy ===== *)
theory PbRoundtrip
  imports PbDecodeEnds
begin

text \<open>
  Encoder and decoder together: the integers of a message are the little-endian bytes of its
  memory, and every scalar field decodes to the bytes it was encoded from. Whole messages are in
  PbMessage.
\<close>

section \<open>Words and their bytes in memory\<close>

lemma fixed32_le32: "length bs = 4 \<Longrightarrow> fixed32_bytes (le32 bs) = bs"
proof -
  assume "length bs = 4"
  then obtain a b c d where bs: "bs = [a, b, c, d]"
    by (auto simp: length_Suc_conv eval_nat_numeral)
  have "ucast (le32 bs AND 0xFF) = a" "ucast (drop_bit 8 (le32 bs) AND 0xFF) = b"
    "ucast (drop_bit 16 (le32 bs) AND 0xFF) = c" "ucast (drop_bit 24 (le32 bs) AND 0xFF) = d"
    unfolding and_mask_take_bit_8 bs le32_def
    by (rule bit_word_eqI, auto simp: bit_simps dest: bit_imp_le_length)+
  then show ?thesis by (simp add: fixed32_bytes_def bs)
qed

lemma fixed64_le64: "length bs = 8 \<Longrightarrow> fixed64_bytes (le64 bs) = bs"
proof -
  assume "length bs = 8"
  then obtain a b c d e f g h where bs: "bs = [a, b, c, d, e, f, g, h]"
    by (auto simp: length_Suc_conv eval_nat_numeral)
  have "ucast (le64 bs AND 0xFF) = a" "ucast (drop_bit 8 (le64 bs) AND 0xFF) = b"
    "ucast (drop_bit 16 (le64 bs) AND 0xFF) = c" "ucast (drop_bit 24 (le64 bs) AND 0xFF) = d"
    "ucast (drop_bit 32 (le64 bs) AND 0xFF) = e" "ucast (drop_bit 40 (le64 bs) AND 0xFF) = f"
    "ucast (drop_bit 48 (le64 bs) AND 0xFF) = g" "ucast (drop_bit 56 (le64 bs) AND 0xFF) = h"
    unfolding and_mask_take_bit_8 bs le64_def
    by (rule bit_word_eqI, auto simp: bit_simps dest: bit_imp_le_length)+
  then show ?thesis by (simp add: fixed64_bytes_def bs)
qed

lemma load_1: "load m a 1 = [cells m a]"
  by (simp add: load_def)

lemma u16_bytes_load: "u16_bytes (load_u16 m a) = load m a 2"
proof -
  have "load m a 2 = [cells m a, cells m (a + 1)]" by (simp add: load_def upt_rec)
  moreover have "ucast (load_u16 m a) = cells m a"
    unfolding load_u16_def by (rule bit_word_eqI) (auto simp: bit_simps dest: bit_imp_le_length)
  moreover have "ucast (drop_bit 8 (load_u16 m a)) = cells m (a + 1)"
    unfolding load_u16_def by (rule bit_word_eqI) (auto simp: bit_simps dest: bit_imp_le_length)
  ultimately show ?thesis by (simp add: u16_bytes_def)
qed

lemma store_load_word:
  "store_u32 d (load_u32 m s) = store d (load m s 4)" "store_u64 d (load_u64 m s) = store d (load m s 8)"
  by (simp_all add: store_u32_def store_u64_def load_u32_def load_u64_def fixed32_le32 fixed64_le64)

lemma ucast_scast_id: "LENGTH('a) \<le> LENGTH('b) \<Longrightarrow> (ucast (scast (w :: 'a::len word) :: 'b::len word) :: 'a word) = w"
  by (rule bit_word_eqI) (auto simp: bit_simps)

lemma ucast_ucast_id: "LENGTH('a) \<le> LENGTH('b) \<Longrightarrow> (ucast (ucast (w :: 'a::len word) :: 'b::len word) :: 'a word) = w"
  by (rule bit_word_eqI) (auto simp: bit_simps dest: bit_imp_le_length)

text \<open>Casting through 32 bits does not change a sign-extended value of at most 32 bits.\<close>

lemma scast_32_id: "LENGTH('a) \<le> 32 \<Longrightarrow>
   (scast (ucast (scast (w :: 'a::len word) :: u64) :: u32) :: u64) = scast w"
proof (rule bit_word_eqI)
  fix n assume a: "LENGTH('a) \<le> 32" and n: "n < LENGTH(64)"
  show "bit (scast (ucast (scast w :: u64) :: u32) :: u64) n = bit (scast w :: u64) n"
    using a n by (cases "n < 32") (auto simp: bit_simps min_def)
qed


section \<open>Scalar fields\<close>

definition scalar_field :: "pb_field \<Rightarrow> bool" where
  "scalar_field f \<longleftrightarrow>
     (let l = PB_LTYPE (ftype f); n = data_size f in
      l = PB_LTYPE_BOOL \<and> n = 1 \<or>
      (l = PB_LTYPE_VARINT \<or> l = PB_LTYPE_UVARINT \<or> l = PB_LTYPE_SVARINT) \<and> (n = 1 \<or> n = 2 \<or> n = 4 \<or> n = 8) \<or>
      l = PB_LTYPE_FIXED32 \<and> n = 4 \<or> l = PB_LTYPE_FIXED64 \<and> n = 8)"

text \<open>A \<open>bool\<close> in memory is the byte 0 or 1.\<close>

definition canonical :: "mem \<Rightarrow> pb_field \<Rightarrow> addr \<Rightarrow> bool" where
  "canonical m f src \<longleftrightarrow> (PB_LTYPE (ftype f) = PB_LTYPE_BOOL \<longrightarrow> cells m src = 0 \<or> cells m src = 1)"

definition scalar_bytes :: "mem \<Rightarrow> pb_field \<Rightarrow> addr \<Rightarrow> byte list" where
  "scalar_bytes m f src =
     (let l = PB_LTYPE (ftype f); n = data_size f in
      if l = PB_LTYPE_BOOL then varint_bytes (if safe_read_bool m src then 1 else 0)
      else if l = PB_LTYPE_VARINT then varint_bytes (the (load_signed m n src))
      else if l = PB_LTYPE_UVARINT then varint_bytes (the (load_unsigned m n src))
      else if l = PB_LTYPE_SVARINT then varint_bytes (zigzag (the (load_signed m n src)))
      else if l = PB_LTYPE_FIXED32 then fixed32_bytes (load_u32 m src)
      else fixed64_bytes (load_u64 m src))"

lemma scalar_cases:
  assumes "scalar_field f"
  obtains (bool) "PB_LTYPE (ftype f) = PB_LTYPE_BOOL" "data_size f = 1"
  | (int) "PB_LTYPE (ftype f) = PB_LTYPE_VARINT" "data_size f = 1 \<or> data_size f = 2 \<or> data_size f = 4 \<or> data_size f = 8"
  | (uint) "PB_LTYPE (ftype f) = PB_LTYPE_UVARINT" "data_size f = 1 \<or> data_size f = 2 \<or> data_size f = 4 \<or> data_size f = 8"
  | (sint) "PB_LTYPE (ftype f) = PB_LTYPE_SVARINT" "data_size f = 1 \<or> data_size f = 2 \<or> data_size f = 4 \<or> data_size f = 8"
  | (fixed32) "PB_LTYPE (ftype f) = PB_LTYPE_FIXED32" "data_size f = 4"
  | (fixed64) "PB_LTYPE (ftype f) = PB_LTYPE_FIXED64" "data_size f = 8"
  using assms unfolding scalar_field_def Let_def by blast

lemma emits_scalar:
  assumes "scalar_field f"
  shows "emits (PB_ENCODERS E enc m (PB_LTYPE (ftype f)) f src) (scalar_bytes m f src)"
  using assms
proof (cases rule: scalar_cases)
  case bool
  then show ?thesis
    using emits_varint
    by (cases "safe_read_bool m src") (simp_all add: PB_ENCODERS_def scalar_bytes_def pb_enc_bool_def del: fdo_simp)
next
  case int
  then obtain v where "load_signed m (data_size f) src = Some v" by (auto simp: load_signed_def)
  with int(1) show ?thesis
    using emits_varint by (simp add: PB_ENCODERS_def scalar_bytes_def pb_enc_varint_def PB_LTYPE_defs del: fdo_simp)
next
  case uint
  then obtain v where "load_unsigned m (data_size f) src = Some v" by (auto simp: load_unsigned_def)
  with uint(1) show ?thesis
    using emits_varint by (simp add: PB_ENCODERS_def scalar_bytes_def pb_enc_uvarint_def PB_LTYPE_defs del: fdo_simp)
next
  case sint
  then obtain v where "load_signed m (data_size f) src = Some v" by (auto simp: load_signed_def)
  with sint(1) show ?thesis
    using emits_varint by (simp add: PB_ENCODERS_def scalar_bytes_def pb_enc_svarint_def pb_encode_svarint_def
        PB_LTYPE_defs del: fdo_simp)
next
  case fixed32
  then show ?thesis
    using fixed_items(1) by (simp add: PB_ENCODERS_def scalar_bytes_def PB_LTYPE_defs del: fdo_simp)
next
  case fixed64
  then show ?thesis
    using fixed_items(2) by (simp add: PB_ENCODERS_def scalar_bytes_def PB_LTYPE_defs del: fdo_simp)
qed

lemma on_stream_run: "f s = (r, t) \<Longrightarrow> on_stream f (s, m) = (r, (t, m))"
  by (simp add: on_stream_def)

lemma store_signed_load:
  assumes "load_signed m n src = Some v" "n = 1 \<or> n = 2 \<or> n = 4 \<or> n = 8"
  shows "store_signed n dest v (s, m') = (Some (), (s, store dest (load m src n) m'))"
  using assms store_load_word [of dest m src] u16_bytes_load [of m src] load_1 [of m src]
  by (auto simp: load_signed_def store_signed_def and_then_def on_mem_def clamp_check_def ucast_scast_id)

lemma store_unsigned_load:
  assumes "load_unsigned m n src = Some v" "n = 1 \<or> n = 2 \<or> n = 4 \<or> n = 8"
  shows "store_unsigned n dest v (s, m') = (Some (), (s, store dest (load m src n) m'))"
  using assms store_load_word [of dest m src] u16_bytes_load [of m src] load_1 [of m src]
  by (auto simp: load_unsigned_def store_unsigned_def and_then_def on_mem_def clamp_check_def ucast_ucast_id)

lemma load_signed_32:
  "load_signed m n src = Some v \<Longrightarrow> n \<noteq> 8 \<Longrightarrow> scast (ucast v :: u32) = v"
  by (auto simp: load_signed_def scast_32_id split: if_splits)

lemma pb_decode_varint32_bit:
  "pb_decode_varint32 (buf_istream (varint_bytes 1 @ rest) (length (varint_bytes 1) + k) e) = (Some 1, buf_istream rest k e)"
  "pb_decode_varint32 (buf_istream (varint_bytes 0 @ rest) (length (varint_bytes 0) + k) e) = (Some 0, buf_istream rest k e)"
  using pb_decode_varint32_bytes [of 1 rest k e] pb_decode_varint32_bytes [of 0 rest k e] by simp_all

lemma decode_scalar:
  assumes f: "scalar_field f" "canonical m f src"
  shows "PB_DECODERS E dec (PB_LTYPE (ftype f)) f dest
      (buf_istream (scalar_bytes m f src @ rest) (length (scalar_bytes m f src) + k) e, m') =
    Some (Some (), (buf_istream rest k e, store dest (load m src (data_size f)) m'))"
  using f(1)
proof (cases rule: scalar_cases)
  case bool
  have cell: "load m src (Suc 0) = [if safe_read_bool m src then 1 else 0]"
    using f(2) bool load_1 [of m src] by (auto simp: canonical_def safe_read_bool_def load_1 [simplified])
  show ?thesis
    using bool cell
    by (cases "safe_read_bool m src")
      (simp_all add: pb_decode_varint32_bit PB_DECODERS_def scalar_bytes_def pb_dec_bool_def pb_decode_bool_def and_then_def on_stream_def
        on_mem_def)
next
  case int
  then obtain v where v: "load_signed m (data_size f) src = Some v" by (auto simp: load_signed_def)
  have "(if data_size f = 8 then v else scast (ucast v :: u32)) = v" using load_signed_32 [OF v] by simp
  then show ?thesis
    using int v store_signed_load [OF v int(2)]
    by (simp add: PB_DECODERS_def scalar_bytes_def pb_dec_varint_def and_then_def on_stream_def
        PB_LTYPE_defs pb_decode_varint_bytes)
next
  case uint
  then obtain v where v: "load_unsigned m (data_size f) src = Some v" by (auto simp: load_unsigned_def)
  then show ?thesis
    using uint store_unsigned_load [OF v uint(2)]
    by (simp add: PB_DECODERS_def scalar_bytes_def pb_dec_uvarint_def and_then_def on_stream_def
        PB_LTYPE_defs pb_decode_varint_bytes)
next
  case sint
  then obtain v where v: "load_signed m (data_size f) src = Some v" by (auto simp: load_signed_def)
  then show ?thesis
    using sint store_signed_load [OF v sint(2)]
    by (simp add: PB_DECODERS_def scalar_bytes_def pb_dec_svarint_def pb_decode_svarint_def and_then_def
        on_stream_def PB_LTYPE_defs pb_decode_varint_bytes zigzag_inverse)
next
  case fixed32
  then show ?thesis
    by (simp add: pb_decode_fixed32_bytes PB_DECODERS_def scalar_bytes_def pb_dec_fixed32_def and_then_def on_stream_def on_mem_def
        PB_LTYPE_defs store_load_word)
next
  case fixed64
  then show ?thesis
    by (simp add: pb_decode_fixed64_bytes PB_DECODERS_def scalar_bytes_def pb_dec_fixed64_def and_then_def on_stream_def on_mem_def
        PB_LTYPE_defs store_load_word)
qed

end
