(* ===== verification/PbMessage.thy ===== *)
theory PbMessage
  imports PbRoundtrip
begin

text \<open>
  Whole messages of required and optional scalar fields: what \<open>pb_encode\<close> writes for such a
  message, \<open>pb_decode\<close> reads back into an equal one. The message may be laid out at different
  addresses on the two sides; the fields of a message must not overlap.
\<close>

section \<open>Flat messages\<close>

definition flat_field :: "pb_field \<Rightarrow> bool" where
  "flat_field f \<longleftrightarrow> scalar_field f \<and> PB_ATYPE (ftype f) = PB_ATYPE_STATIC \<and>
     (PB_HTYPE (ftype f) = PB_HTYPE_REQUIRED \<or> PB_HTYPE (ftype f) = PB_HTYPE_OPTIONAL \<and> size_offset f \<noteq> 0) \<and>
     tag f \<noteq> 0 \<and> unat (tag f) < 2 ^ 29"

definition flat :: "pb_field list \<Rightarrow> bool" where
  "flat fs \<longleftrightarrow> wf_fields fs \<and> 1 < length fs \<and> distinct (map tag fs) \<and> list_all flat_field (butlast fs)"

text \<open>The cells of the field an iterator is at: its has-flag, if it has one, and its value.\<close>

definition field_cells :: "field_iter \<Rightarrow> addr list" where
  "field_cells it = (if PB_HTYPE (ftype (cur it)) = PB_HTYPE_OPTIONAL then [pSize it] else []) @
     [pData it..<pData it + data_size (cur it)]"

definition message_cells :: "pb_field list \<Rightarrow> addr \<Rightarrow> addr list" where
  "message_cells fs d = concat (map (\<lambda>j. field_cells (iter_at fs d j)) [0..<field_count fs])"

definition present :: "mem \<Rightarrow> field_iter \<Rightarrow> bool" where
  "present m it \<longleftrightarrow> PB_HTYPE (ftype (cur it)) = PB_HTYPE_REQUIRED \<or> cells m (pSize it) \<noteq> 0"

definition wire_of :: "pb_field \<Rightarrow> pb_wire_type" where
  "wire_of f = (let l = PB_LTYPE (ftype f) in
     if l = PB_LTYPE_FIXED32 then PB_WT_32BIT else if l = PB_LTYPE_FIXED64 then PB_WT_64BIT else PB_WT_VARINT)"

definition field_bytes :: "mem \<Rightarrow> field_iter \<Rightarrow> byte list" where
  "field_bytes m it =
     (if present m it then tag_bytes (wire_of (cur it)) (tag (cur it)) @ scalar_bytes m (cur it) (pData it) else [])"

definition message_bytes :: "mem \<Rightarrow> pb_field list \<Rightarrow> addr \<Rightarrow> byte list" where
  "message_bytes m fs d = concat (map (\<lambda>j. field_bytes m (iter_at fs d j)) [0..<field_count fs])"

text \<open>A message in memory that the encoder accepts: no field at \<open>NULL\<close>, booleans are 0 or 1.\<close>

definition encodable :: "mem \<Rightarrow> pb_field list \<Rightarrow> addr \<Rightarrow> bool" where
  "encodable m fs d \<longleftrightarrow> (\<forall>j < field_count fs. pData (iter_at fs d j) \<noteq> 0 \<and>
     canonical m (fs ! j) (pData (iter_at fs d j)))"

text \<open>Two messages that agree: the same fields are present and have the same values.\<close>

definition agree :: "pb_field list \<Rightarrow> mem \<Rightarrow> addr \<Rightarrow> mem \<Rightarrow> addr \<Rightarrow> bool" where
  "agree fs m src m' dest \<longleftrightarrow> (\<forall>j < field_count fs.
     let it = iter_at fs src j; it' = iter_at fs dest j in
     present m' it' = present m it \<and>
     (present m it \<longrightarrow> load m' (pData it') (data_size (fs ! j)) = load m (pData it) (data_size (fs ! j))))"

lemma flat_wf: "flat fs \<Longrightarrow> wf_fields fs" "flat fs \<Longrightarrow> 0 < field_count fs"
  by (auto simp: flat_def)

lemma flat_nth: "flat fs \<Longrightarrow> j < field_count fs \<Longrightarrow> flat_field (fs ! j)"
  by (auto simp: flat_def list_all_length nth_butlast)

lemma flat_cur: "flat fs \<Longrightarrow> j < field_count fs \<Longrightarrow> cur (iter_at fs d j) = fs ! j"
  by (simp add: cur_iter_at flat_wf)

lemma htype_neq: "PB_HTYPE_REQUIRED \<noteq> PB_HTYPE_OPTIONAL" "PB_HTYPE_REQUIRED \<noteq> PB_HTYPE_ONEOF"
  "PB_HTYPE_OPTIONAL \<noteq> PB_HTYPE_ONEOF" "PB_HTYPE_REQUIRED \<noteq> PB_HTYPE_REPEATED"
  "PB_HTYPE_OPTIONAL \<noteq> PB_HTYPE_REPEATED"
  by (simp_all add: PB_HTYPE_defs)

lemma flat_htype:
  "flat_field f \<Longrightarrow> PB_HTYPE (ftype f) \<noteq> PB_HTYPE_ONEOF" "flat_field f \<Longrightarrow> PB_HTYPE (ftype f) \<noteq> PB_HTYPE_REPEATED"
  using htype_neq by (auto simp: flat_field_def)

lemma scalar_size: "scalar_field f \<Longrightarrow> 0 < data_size f"
  by (auto simp: scalar_field_def Let_def)

lemma scalar_ltype: "scalar_field f \<Longrightarrow> PB_LTYPE (ftype f) \<noteq> PB_LTYPE_EXTENSION"
  "scalar_field f \<Longrightarrow> PB_LTYPE (ftype f) \<noteq> PB_LTYPE_SUBMESSAGE"
  by (auto simp: scalar_field_def Let_def PB_LTYPE_defs)

lemma psize_begin: "pSize (iter_at fs d 0) = addr_add (pData (iter_at fs d 0)) (size_offset (fs ! 0))"
  by (simp add: iter_at.simps(1) pb_field_iter_begin_def Let_def)

lemma psize_iter_at:
  assumes "flat fs" "j < field_count fs"
  shows "pSize (iter_at fs d j) = addr_add (pData (iter_at fs d j)) (size_offset (fs ! j))"
proof (cases j)
  case 0
  then show ?thesis by (simp add: psize_begin)
next
  case (Suc i)
  have i: "i < field_count fs" using assms(2) Suc by simp
  have "PB_HTYPE (ftype (fs ! i)) \<noteq> PB_HTYPE_ONEOF" using flat_htype flat_nth [OF assms(1) i] by blast
  moreover have "tag (fs ! i) \<noteq> 0" "tag (fs ! Suc i) \<noteq> 0"
    using flat_nth [OF assms(1)] i assms(2) Suc by (auto simp: flat_field_def)
  ultimately show ?thesis
    using i assms flat_wf [OF assms(1)] unfolding Suc
    by (simp add: iter_at.simps(2) pb_field_iter_next_def cur_def pos_iter_at Let_def)
qed

text \<open>The number of required fields before position \<open>j\<close> is the iterator's index.\<close>

definition required :: "pb_field \<Rightarrow> bool" where
  "required f \<longleftrightarrow> PB_HTYPE (ftype f) = PB_HTYPE_REQUIRED"

definition required_before :: "pb_field list \<Rightarrow> nat \<Rightarrow> nat" where
  "required_before fs j = length (filter required (take j fs))"

lemma required_before_Suc:
  "j < length fs \<Longrightarrow> required_before fs (Suc j) = required_before fs j + (if required (fs ! j) then 1 else 0)"
  by (simp add: required_before_def take_Suc_conv_app_nth)

lemma required_index:
  assumes "flat fs"
  shows "j < field_count fs \<Longrightarrow> required_field_index (iter_at fs d j) = required_before fs j"
proof (induction j)
  case 0
  show ?case by (simp add: iter_at.simps(1) pb_field_iter_begin_def Let_def required_before_def)
next
  case (Suc i)
  then have i: "i < field_count fs" by simp
  have "PB_HTYPE (ftype (fs ! i)) \<noteq> PB_HTYPE_ONEOF" using flat_htype flat_nth [OF assms i] by blast
  moreover have "tag (fs ! i) \<noteq> 0" "tag (fs ! Suc i) \<noteq> 0"
    using flat_nth [OF assms] i Suc.prems by (auto simp: flat_field_def)
  ultimately show ?case
    using i Suc flat_wf [OF assms] required_before_Suc [of i fs]
    by (simp add: iter_at.simps(2) pb_field_iter_next_def cur_def pos_iter_at Let_def required_def)
qed

section \<open>Encoding\<close>

lemma emits_tag_for_field:
  "scalar_field f \<Longrightarrow> emits (fdo (pb_encode_tag_for_field f)) (tag_bytes (wire_of f) (tag f))"
proof -
  assume "scalar_field f"
  then have "(pb_encode_tag_for_field f :: ('u, unit) oact) = pb_encode_tag (wire_of f) (tag f)"
    by (auto simp: scalar_field_def pb_encode_tag_for_field_def wire_of_def Let_def PB_LTYPE_defs)
  moreover have "emits (fdo (pb_encode_tag (wire_of f) (tag f))) (tag_bytes (wire_of f) (tag f))"
    unfolding pb_encode_tag_bytes by (rule emits_write)
  ultimately show ?thesis by metis
qed

lemma emits_flat_field:
  assumes "flat fs" "encodable m fs src" "j < field_count fs"
  shows "emits (encode_field n E enc m (fs ! j) (pData (iter_at fs src j))) (field_bytes m (iter_at fs src j))"
proof -
  let ?it = "iter_at fs src j" and ?f = "fs ! j"
  have f: "flat_field ?f" using assms by (simp add: flat_nth)
  then have sc: "scalar_field ?f" by (simp add: flat_field_def)
  have item: "emits (fthen (fdo (pb_encode_tag_for_field ?f)) (\<lambda>_. PB_ENCODERS E enc m (PB_LTYPE (ftype ?f)) ?f (pData ?it)))
      (tag_bytes (wire_of ?f) (tag ?f) @ scalar_bytes m ?f (pData ?it))"
    by (rule emits_fthen [OF emits_tag_for_field [OF sc] emits_scalar [OF sc]])
  have ps: "pSize ?it = addr_add (pData ?it) (size_offset ?f)"
    by (rule psize_iter_at [OF assms(1,3)])
  have nz: "pData ?it \<noteq> 0" using assms(2,3) by (simp add: encodable_def)
  have static: "PB_ATYPE (ftype ?f) = PB_ATYPE_STATIC" using f by (simp add: flat_field_def)
  have b: "safe_read_bool m a \<longleftrightarrow> cells m a \<noteq> 0" for a by (simp add: safe_read_bool_def load_1 [simplified])
  show ?thesis
  proof (cases "PB_HTYPE (ftype ?f) = PB_HTYPE_REQUIRED")
    case True
    have "encode_field n E enc m ?f (pData ?it) =
        fthen (fdo (pb_encode_tag_for_field ?f)) (\<lambda>_. PB_ENCODERS E enc m (PB_LTYPE (ftype ?f)) ?f (pData ?it))"
      using True static nz htype_neq
      by (simp add: encode_field_def encode_basic_field_def Let_def PB_ATYPE_defs del: fdo_simp)
    moreover have "field_bytes m ?it = tag_bytes (wire_of ?f) (tag ?f) @ scalar_bytes m ?f (pData ?it)"
      using True assms by (simp add: field_bytes_def present_def flat_cur)
    ultimately show ?thesis using item by simp
  next
    case False
    then have opt: "PB_HTYPE (ftype ?f) = PB_HTYPE_OPTIONAL" "size_offset ?f \<noteq> 0"
      using f by (auto simp: flat_field_def)
    have "encode_field n E enc m ?f (pData ?it) =
        (if cells m (pSize ?it) \<noteq> 0
         then fthen (fdo (pb_encode_tag_for_field ?f)) (\<lambda>_. PB_ENCODERS E enc m (PB_LTYPE (ftype ?f)) ?f (pData ?it))
         else fdo (ret ()))"
      using opt static htype_neq
      by (simp add: encode_field_def encode_basic_field_def Let_def PB_ATYPE_defs ps b del: fdo_simp)
    moreover have "field_bytes m ?it = (if cells m (pSize ?it) \<noteq> 0
        then tag_bytes (wire_of ?f) (tag ?f) @ scalar_bytes m ?f (pData ?it) else [])"
      using False assms by (simp add: field_bytes_def present_def flat_cur)
    ultimately show ?thesis using item by (simp add: emits_ret del: fdo_simp)
  qed
qed

lemma emits_flat:
  assumes "flat fs" "encodable m fs src"
  shows "emits (pb_encode (Suc n) E m fs src) (message_bytes m fs src)"
  unfolding message_bytes_def
  using assms scalar_ltype flat_nth [OF assms(1)]
  by (intro emits_pb_encode conjI emits_flat_field) (auto simp: flat_wf flat_field_def)


section \<open>Decoding one field\<close>

definition copy_field :: "mem \<Rightarrow> field_iter \<Rightarrow> field_iter \<Rightarrow> mem \<Rightarrow> mem" where
  "copy_field m it it' m' =
     (if present m it
      then store (pData it') (load m (pData it) (data_size (cur it)))
             (if PB_HTYPE (ftype (cur it)) = PB_HTYPE_OPTIONAL then store (pSize it') [1] m' else m')
      else m')"

lemma decode_flat_field:
  assumes f: "flat fs" "j < field_count fs" and p: "present m (iter_at fs src j)"
    and c: "canonical m (fs ! j) (pData (iter_at fs src j))"
    and d: "PB_HTYPE (ftype (fs ! j)) = PB_HTYPE_OPTIONAL \<longrightarrow> pSize (iter_at fs dest j) \<noteq> pData (iter_at fs dest j)"
  shows "decode_field n E dec w (iter_at fs dest j)
      (buf_istream (scalar_bytes m (fs ! j) (pData (iter_at fs src j)) @ rest)
         (length (scalar_bytes m (fs ! j) (pData (iter_at fs src j))) + k) e, m') =
    Some (Some (iter_at fs dest j),
      (buf_istream rest k e, copy_field m (iter_at fs src j) (iter_at fs dest j) m'))"
proof -
  have ff: "flat_field (fs ! j)" by (rule flat_nth [OF f])
  then have sc: "scalar_field (fs ! j)" and st: "PB_ATYPE (ftype (fs ! j)) = PB_ATYPE_STATIC"
    and h: "PB_HTYPE (ftype (fs ! j)) = PB_HTYPE_REQUIRED \<or> PB_HTYPE (ftype (fs ! j)) = PB_HTYPE_OPTIONAL"
    by (auto simp: flat_field_def)
  note dec = decode_scalar [OF sc c, of E dec _ rest k e]
  from h show ?thesis
  proof
    assume "PB_HTYPE (ftype (fs ! j)) = PB_HTYPE_REQUIRED"
    then show ?thesis
      using st p htype_neq
      by (simp add: decode_field_def decode_static_field_def Let_def flat_cur [OF f] dec copy_field_def fthen_def)
  next
    assume "PB_HTYPE (ftype (fs ! j)) = PB_HTYPE_OPTIONAL"
    then show ?thesis
      using st p d htype_neq
      by (simp add: decode_field_def decode_static_field_def Let_def flat_cur [OF f] dec copy_field_def fthen_def
          on_mem_def)
  qed
qed

text \<open>Marking the required field at position \<open>j\<close> as seen.\<close>

definition mark_pos :: "pb_field list \<Rightarrow> nat \<Rightarrow> u32 list \<Rightarrow> u32 list" where
  "mark_pos fs j seen =
     (let i = required_before fs j in
      if required (fs ! j) \<and> i < PB_MAX_REQUIRED_FIELDS
      then seen[i div 32 := seen ! (i div 32) OR push_bit (i mod 32) 1] else seen)"

lemma decode_known_flat:
  assumes f: "flat fs" "j < field_count fs" and p: "present m (iter_at fs src j)"
    and c: "canonical m (fs ! j) (pData (iter_at fs src j))"
    and d: "PB_HTYPE (ftype (fs ! j)) = PB_HTYPE_OPTIONAL \<longrightarrow> pSize (iter_at fs dest j) \<noteq> pData (iter_at fs dest j)"
    and v: "iter v = iter_at fs dest j"
  shows "decode_known n E dec slot w v
      (buf_istream (scalar_bytes m (fs ! j) (pData (iter_at fs src j)) @ rest)
         (length (scalar_bytes m (fs ! j) (pData (iter_at fs src j))) + k) e, m') =
    Some (Some (v\<lparr>fields_seen := mark_pos fs j (fields_seen v)\<rparr>),
      (buf_istream rest k e, copy_field m (iter_at fs src j) (iter_at fs dest j) m'))"
proof -
  have h: "PB_HTYPE (ftype (fs ! j)) \<noteq> PB_HTYPE_REPEATED" by (rule flat_htype [OF flat_nth [OF f]])
  have mark: "mark_required v = v\<lparr>fields_seen := mark_pos fs j (fields_seen v)\<rparr>"
    using v by (simp add: mark_required_def mark_pos_def required_index [OF f] flat_cur [OF f] required_def Let_def)
  show ?thesis
    using h v decode_flat_field [OF f p c d, of n E dec w rest k e m']
    by (simp add: decode_known_def Let_def flat_cur [OF f] mark fthen_def)
qed

section \<open>The loop over the fields\<close>

lemma wire_of_small: "unat (wire_of f) < 8"
  by (simp add: wire_of_def Let_def PB_WT_VARINT_def PB_WT_32BIT_def PB_WT_64BIT_def)

definition flags_apart :: "pb_field list \<Rightarrow> addr \<Rightarrow> bool" where
  "flags_apart fs dest \<longleftrightarrow> (\<forall>j < field_count fs. PB_HTYPE (ftype (fs ! j)) = PB_HTYPE_OPTIONAL \<longrightarrow>
     pSize (iter_at fs dest j) \<noteq> pData (iter_at fs dest j))"

lemma tag_bytes_pos: "0 < length (tag_bytes w t)"
  by (simp add: tag_bytes_def varint_bytes_length(2))

text \<open>
  What may follow each other in an encoded message: fields of the message, in any order and also
  repeated, and values with tags that the message type does not have.
\<close>

datatype wire_item = Known nat | Unknown pb_wire_type u32 "byte list"

primrec item_bytes :: "mem \<Rightarrow> pb_field list \<Rightarrow> addr \<Rightarrow> wire_item \<Rightarrow> byte list" where
  "item_bytes m fs src (Known j) =
     tag_bytes (wire_of (fs ! j)) (tag (fs ! j)) @ scalar_bytes m (fs ! j) (pData (iter_at fs src j))"
| "item_bytes m fs src (Unknown w t bs) = tag_bytes w t @ bs"

primrec item_ok :: "mem \<Rightarrow> pb_field list \<Rightarrow> addr \<Rightarrow> wire_item \<Rightarrow> bool" where
  "item_ok m fs src (Known j) \<longleftrightarrow> j < field_count fs \<and> present m (iter_at fs src j)"
| "item_ok m fs src (Unknown w t bs) \<longleftrightarrow> wire_value w bs \<and> t \<noteq> 0 \<and> unat t < 2 ^ 29 \<and> t \<notin> tag ` set (butlast fs)"

fun known_positions :: "wire_item list \<Rightarrow> nat list" where
  "known_positions [] = []"
| "known_positions (Known j # xs) = j # known_positions xs"
| "known_positions (Unknown w t bs # xs) = known_positions xs"

lemma wire_value_small: "wire_value w bs \<Longrightarrow> unat w < 8"
  by (cases rule: wire_value.cases) (auto simp: PB_WT_defs)

lemma find_extension_flat:
  assumes "flat fs" "c < field_count fs"
  shows "find_extension_field (iter_at fs d c) = (False, iter_at fs d c)"
proof -
  obtain b it where r: "iter_find_loop (length fs) (\<lambda>f. PB_LTYPE (ftype f) = PB_LTYPE_EXTENSION) c (iter_at fs d c) = (b, it)"
    by fastforce
  have "left_to_see (field_count fs) c c \<le> length fs" using assms(2) by (auto simp: left_to_see_def)
  from iter_find_loop_spec [OF flat_wf(1) [OF assms(1)] assms(2,2) this r]
  have "\<not> b \<and> it = iter_at fs d c"
    using flat_nth [OF assms(1)] scalar_ltype(1) by (auto simp: flat_field_def)
  with r show ?thesis
    by (simp add: find_extension_field_def pos_iter_at [OF flat_wf(1) [OF assms(1)] assms(2)])
qed

lemma decode_unknown_flat:
  assumes "flat fs" "c < field_count fs" "iter v = iter_at fs d c" "wire_value w bs" "unat t < 2 ^ 29"
  shows "\<exists>x. decode_unknown n E dec t w v (buf_istream (bs @ rest) (length bs + k) e, m') =
    Some (Some (v\<lparr>extension_range_start := x\<rparr>), (buf_istream rest k e, m'))"
proof -
  have t: "\<not> (- 1 :: u32) \<le> t"
    using assms(5) by (simp add: word_le_nat_alt unsigned_minus_1_eq_mask mask_eq_exp_minus_1)
  show ?thesis
    by (rule exI [of _ "if extension_range_start v \<le> t then - 1 else extension_range_start v"])
      (use t assms(3) in \<open>simp add: decode_unknown_def find_extension_flat [OF assms(1,2)] Let_def fthen_def on_stream_def
        pb_skip_field_bytes [OF assms(4)]\<close>)
qed

lemma find_unknown:
  assumes "flat fs" "c < field_count fs" "t \<notin> tag ` set (butlast fs)"
  shows "pb_field_iter_find t (iter_at fs d c) = (False, iter_at fs d c)"
proof -
  obtain b it where r: "pb_field_iter_find t (iter_at fs d c) = (b, it)" by fastforce
  have "tag (fs ! k) \<noteq> t" if "k < field_count fs" for k
    using that assms(3) nth_mem [of k "butlast fs"] by (auto simp: nth_butlast)
  then show ?thesis using pb_field_iter_find_spec [OF flat_wf(1) [OF assms(1)] assms(2) r] r by auto
qed

text \<open>One round of the loop.\<close>

lemma decode_loop_item:
  assumes fs: "flat fs" and src: "encodable m fs src" and apart: "flags_apart fs dest"
    and c: "c < field_count fs" "iter v = iter_at fs dest c" and x: "item_ok m fs src x"
  defines "js \<equiv> known_positions [x]"
  shows "\<exists>c' < field_count fs. \<exists>r. decode_loop (Suc k) n E dec slot v
      (buf_istream (item_bytes m fs src x @ rest) (length (item_bytes m fs src x) + l) e, m') =
    decode_loop k n E dec slot
      (v\<lparr>iter := iter_at fs dest c', fields_seen := fold (mark_pos fs) js (fields_seen v), extension_range_start := r\<rparr>)
      (buf_istream rest l e, fold (\<lambda>j. copy_field m (iter_at fs src j) (iter_at fs dest j)) js m')"
proof (cases x)
  case (Known i)
  let ?s = "scalar_bytes m (fs ! i) (pData (iter_at fs src i))"
  let ?w = "wire_of (fs ! i)" and ?t = "tag (fs ! i)"
  have i: "i < field_count fs" "present m (iter_at fs src i)" using x Known by auto
  have ff: "flat_field (fs ! i)" by (rule flat_nth [OF fs i(1)])
  have tag: "pb_decode_tag (buf_istream (tag_bytes ?w ?t @ (?s @ rest)) (length (tag_bytes ?w ?t) + (length ?s + l)) e) =
      (Some (?w, ?t), buf_istream (?s @ rest) (length ?s + l) e, False)"
    using ff by (intro pb_decode_tag_bytes wire_of_small) (auto simp: flat_field_def)
  have find: "pb_field_iter_find ?t (iter v) = (True, iter_at fs dest i)"
    using pb_field_iter_find_index [of fs c i dest] fs c i ff scalar_ltype(1)
    by (auto simp: flat_def flat_field_def)
  have "decode_known n E dec slot ?w (v\<lparr>iter := iter_at fs dest i\<rparr>) (buf_istream (?s @ rest) (length ?s + l) e, m') =
      Some (Some (v\<lparr>iter := iter_at fs dest i, fields_seen := mark_pos fs i (fields_seen v)\<rparr>),
        (buf_istream rest l e, copy_field m (iter_at fs src i) (iter_at fs dest i) m'))"
    using src apart i(1) decode_known_flat [OF fs i, of dest "v\<lparr>iter := iter_at fs dest i\<rparr>"]
    by (simp add: encodable_def flags_apart_def)
  then show ?thesis
    using find i(1) tag_bytes_pos [of ?w ?t] Known
    by (intro exI [of _ i] conjI exI [of _ "extension_range_start v"]) (simp_all add: tag js_def fthen_def add.assoc)
next
  case (Unknown w t bs)
  have t: "wire_value w bs" "t \<noteq> 0" "unat t < 2 ^ 29" "t \<notin> tag ` set (butlast fs)" using x Unknown by auto
  have tag: "pb_decode_tag (buf_istream (tag_bytes w t @ (bs @ rest)) (length (tag_bytes w t) + (length bs + l)) e) =
      (Some (w, t), buf_istream (bs @ rest) (length bs + l) e, False)"
    by (intro pb_decode_tag_bytes wire_value_small [OF t(1)] t)
  obtain r where r: "decode_unknown n E dec t w v (buf_istream (bs @ rest) (length bs + l) e, m') =
      Some (Some (v\<lparr>extension_range_start := r\<rparr>), (buf_istream rest l e, m'))"
    using decode_unknown_flat [OF fs c t(1,3)] by blast
  have find: "pb_field_iter_find t (iter v) = (False, iter v)"
    using find_unknown [OF fs c(1) t(4)] c(2) by simp
  have v: "v\<lparr>iter := iter_at fs dest c\<rparr> = v" using c(2) by (cases v) simp
  show ?thesis
    using find r c tag_bytes_pos [of w t] Unknown
    by (intro exI [of _ c] conjI exI [of _ r]) (simp_all add: v tag js_def fthen_def add.assoc)
qed

definition items_bytes :: "mem \<Rightarrow> pb_field list \<Rightarrow> addr \<Rightarrow> wire_item list \<Rightarrow> byte list" where
  "items_bytes m fs src xs = concat (map (item_bytes m fs src) xs)"

text \<open>What the message at \<open>src\<close> contributes to the memory at \<open>dest\<close>.\<close>

definition copy_fields :: "mem \<Rightarrow> pb_field list \<Rightarrow> addr \<Rightarrow> addr \<Rightarrow> nat list \<Rightarrow> mem \<Rightarrow> mem" where
  "copy_fields m fs src dest js = fold (\<lambda>j. copy_field m (iter_at fs src j) (iter_at fs dest j)) js"

lemma known_positions_Cons: "known_positions (x # xs) = known_positions [x] @ known_positions xs"
  by (cases x) simp_all

lemma item_bytes_pos: "0 < length (item_bytes m fs src x)"
  using tag_bytes_pos by (cases x) simp_all

lemma decode_loop_flat:
  assumes fs: "flat fs" and src: "encodable m fs src" and apart: "flags_apart fs dest"
  shows "c < field_count fs \<Longrightarrow> iter v = iter_at fs dest c \<Longrightarrow> list_all (item_ok m fs src) xs \<Longrightarrow>
    length (items_bytes m fs src xs) < k \<Longrightarrow>
    \<exists>c' < field_count fs. \<exists>r. decode_loop k n E dec slot v
      (buf_istream (items_bytes m fs src xs @ rest) (length (items_bytes m fs src xs)) e, m') =
      Some (Some (v\<lparr>iter := iter_at fs dest c', fields_seen := fold (mark_pos fs) (known_positions xs) (fields_seen v),
          extension_range_start := r\<rparr>),
        (buf_istream rest 0 e, copy_fields m fs src dest (known_positions xs) m'))"
proof (induction xs arbitrary: c v k m')
  case Nil
  then obtain k' where "k = Suc k'" by (cases k) auto
  with Nil show ?case
    by (intro exI [of _ c] exI [of _ "extension_range_start v"] conjI) (simp_all add: items_bytes_def copy_fields_def)
next
  case (Cons x xs)
  let ?b = "items_bytes m fs src xs"
  have b: "items_bytes m fs src (x # xs) = item_bytes m fs src x @ ?b" by (simp add: items_bytes_def)
  obtain k' where k: "k = Suc k'" using Cons.prems by (cases k) auto
  have k': "length ?b < k'" using Cons.prems(4) item_bytes_pos [of m fs src x] unfolding b k by (simp del: length_greater_0_conv)
  have x: "item_ok m fs src x" using Cons.prems(3) by simp
  obtain c' r where c': "c' < field_count fs" and step: "decode_loop (Suc k') n E dec slot v
      (buf_istream (item_bytes m fs src x @ (?b @ rest)) (length (item_bytes m fs src x) + length ?b) e, m') =
    decode_loop k' n E dec slot
      (v\<lparr>iter := iter_at fs dest c', fields_seen := fold (mark_pos fs) (known_positions [x]) (fields_seen v), extension_range_start := r\<rparr>)
      (buf_istream (?b @ rest) (length ?b) e, copy_fields m fs src dest (known_positions [x]) m')"
    using decode_loop_item [OF fs src apart Cons.prems(1,2) x] unfolding copy_fields_def by blast
  show ?case
    using Cons.IH [OF c', of "v\<lparr>iter := iter_at fs dest c', fields_seen := fold (mark_pos fs) (known_positions [x]) (fields_seen v),
        extension_range_start := r\<rparr>" k' "copy_fields m fs src dest (known_positions [x]) m'"] k' Cons.prems(3) step
    unfolding k b known_positions_Cons [of x xs] copy_fields_def by simp
qed

section \<open>The check for required fields\<close>

lemma seek_end_iter_at:
  assumes "flat fs"
  shows "c < field_count fs \<Longrightarrow> field_count fs \<le> c + k \<Longrightarrow>
    seek_end k (iter_at fs d c) =
      (required_before fs (field_count fs - 1), ftype (fs ! (field_count fs - 1)), iter_at fs d 0)"
proof (induction k arbitrary: c)
  case 0
  then show ?case by simp
next
  case (Suc k)
  show ?case
  proof (cases "Suc c < field_count fs")
    case True
    then show ?thesis
      using Suc iter_next_iter_at [OF flat_wf(1) [OF assms] Suc.prems(1), of d] by simp
  next
    case False
    then have "field_count fs - 1 = c" using Suc.prems(1) by simp
    then show ?thesis
      using False Suc.prems(1) iter_next_iter_at [OF flat_wf(1) [OF assms] Suc.prems(1), of d]
        required_index [OF assms] flat_cur [OF assms] by simp
  qed
qed

lemma req_field_count_flat:
  assumes "flat fs" "c < field_count fs"
  shows "req_field_count (iter_at fs d c) = min 64 (required_before fs (field_count fs))"
proof -
  let ?n = "field_count fs"
  have "seek_end (length fs) (iter_at fs d c) = (required_before fs (?n - 1), ftype (fs ! (?n - 1)), iter_at fs d 0)"
    using assms by (intro seek_end_iter_at) auto
  moreover have "tag (cur (iter_at fs d 0)) \<noteq> 0"
    using flat_nth [OF assms(1) flat_wf(2) [OF assms(1)]] by (simp add: flat_cur [OF assms(1) flat_wf(2) [OF assms(1)]] flat_field_def)
  moreover have "required_before fs ?n = required_before fs (?n - 1) + (if required (fs ! (?n - 1)) then 1 else 0)"
    using required_before_Suc [of "?n - 1" fs] Suc_pred [OF flat_wf(2) [OF assms(1)]] by simp
  ultimately show ?thesis
    by (simp add: req_field_count_def PB_MAX_REQUIRED_FIELDS_def required_def)
qed

lemma required_positions:
  "k \<le> length fs \<Longrightarrow> (\<exists>j < k. required (fs ! j) \<and> required_before fs j = p) \<longleftrightarrow> p < required_before fs k"
proof (induction k)
  case 0
  then show ?case by (simp add: required_before_def)
next
  case (Suc k)
  then show ?case
    using required_before_Suc [of k fs] by (auto simp: less_Suc_eq)
qed

lemma length_mark_pos [simp]: "length (mark_pos fs j seen) = length seen"
  by (simp add: mark_pos_def Let_def)

lemma bit_set_bit: "b < 32 \<Longrightarrow> bit (x OR push_bit i (1 :: u32)) b \<longleftrightarrow> bit x b \<or> b = i"
  by (auto simp: bit_simps)

lemma bit_mark_pos:
  assumes "length seen = 2" "w < 2" "b < 32"
  shows "bit (mark_pos fs j seen ! w) b \<longleftrightarrow>
    bit (seen ! w) b \<or> required (fs ! j) \<and> required_before fs j = 32 * w + b"
proof (cases "required (fs ! j) \<and> required_before fs j < 64")
  case True
  let ?i = "required_before fs j"
  have i: "?i = 32 * w + b \<longleftrightarrow> ?i div 32 = w \<and> b = ?i mod 32"
    using assms(3) mult_div_mod_eq [of 32 ?i] by auto
  have "mark_pos fs j seen ! w =
      (if ?i div 32 = w then seen ! w OR push_bit (?i mod 32) 1 else seen ! w)"
    using True assms(1,2) unfolding mark_pos_def Let_def PB_MAX_REQUIRED_FIELDS_def
    by (simp only: if_True simp_thms) (auto simp: nth_list_update)
  then show ?thesis
    using True bit_set_bit [OF assms(3)] unfolding i by auto
next
  case False
  then have "mark_pos fs j seen = seen" by (auto simp: mark_pos_def PB_MAX_REQUIRED_FIELDS_def Let_def)
  with False assms(2,3) show ?thesis by auto
qed

lemma bit_fold_mark:
  "length seen = 2 \<Longrightarrow> w < 2 \<Longrightarrow> b < 32 \<Longrightarrow>
   bit (fold (mark_pos fs) js seen ! w) b \<longleftrightarrow>
     bit (seen ! w) b \<or> (\<exists>j \<in> set js. required (fs ! j) \<and> required_before fs j = 32 * w + b)"
  by (induction js arbitrary: seen) (auto simp: bit_mark_pos)

lemma bit_low_ones:
  assumes "0 < r" "r < 32" "b < 32"
  shows "bit (drop_bit (32 - r) (- 1 :: u32)) b \<longleftrightarrow> b < r"
  using assms by (auto simp: bit_simps)

lemma all_required_seenI:
  assumes "n \<le> 64" and b: "\<And>w b. w < 2 \<Longrightarrow> b < 32 \<Longrightarrow> bit (seen ! w) b \<longleftrightarrow> 32 * w + b < n"
  shows "all_required_seen n seen"
proof -
  have "seen ! i = - 1" if "i < n div 32" for i
  proof (rule bit_word_eqI)
    fix k assume "k < LENGTH(32)"
    then have "32 * i + k < n" "k < 32" "i < 2" using that assms(1) by auto
    then show "bit (seen ! i) k = bit (- 1 :: u32) k" using b [of i k] by simp
  qed
  moreover have "seen ! (n div 32) = drop_bit (32 - n mod 32) (- 1)" if "n mod 32 \<noteq> 0"
  proof (rule bit_word_eqI)
    fix k assume k: "k < LENGTH(32)"
    have "n div 32 < 2" using assms(1) that by (cases "n = 64") auto
    moreover have "32 * (n div 32) + k < n \<longleftrightarrow> k < n mod 32"
      using mult_div_mod_eq [of 32 n] by linarith
    ultimately show "bit (seen ! (n div 32)) k = bit (drop_bit (32 - n mod 32) (- 1 :: u32)) k"
      using b [of "n div 32" k] bit_low_ones [of "n mod 32" k] k that by simp
  qed
  ultimately show ?thesis by (auto simp: all_required_seen_def)
qed

lemma all_required_seen_flat:
  assumes fs: "flat fs" and c: "c < field_count fs" and js: "\<And>j. j < field_count fs \<Longrightarrow> required (fs ! j) \<Longrightarrow> j \<in> set js"
    "set js \<subseteq> {..<field_count fs}"
  shows "all_required_seen (req_field_count (iter_at fs d c)) (fold (mark_pos fs) js [0, 0])"
  unfolding req_field_count_flat [OF fs c]
proof (rule all_required_seenI)
  fix w b :: nat assume wb: "w < 2" "b < 32"
  then have "[0, 0 :: u32] ! w = 0" by (auto simp: less_Suc_eq numeral_2_eq_2)
  then have "bit (fold (mark_pos fs) js [0, 0] ! w) b \<longleftrightarrow>
      (\<exists>j \<in> set js. required (fs ! j) \<and> required_before fs j = 32 * w + b)"
    using bit_fold_mark [of "[0, 0]" w b fs js] wb by simp
  also have "\<dots> \<longleftrightarrow> (\<exists>j < field_count fs. required (fs ! j) \<and> required_before fs j = 32 * w + b)"
    using js by blast
  also have "\<dots> \<longleftrightarrow> 32 * w + b < required_before fs (field_count fs)"
    by (rule required_positions) simp
  also have "\<dots> \<longleftrightarrow> 32 * w + b < min 64 (required_before fs (field_count fs))"
    using wb by auto
  finally show "bit (fold (mark_pos fs) js [0, 0] ! w) b \<longleftrightarrow> 32 * w + b < min 64 (required_before fs (field_count fs))" .
qed simp


section \<open>The cells of a message\<close>

text \<open>
  The fields of the structure at \<open>d\<close> do not overlap each other or the stack slot of
  \<open>fixed_count_size\<close>.
\<close>

definition layout :: "pb_field list \<Rightarrow> addr \<Rightarrow> addr \<Rightarrow> bool" where
  "layout fs d slot \<longleftrightarrow> distinct (message_cells fs d @ [slot..<slot + 4])"

lemma distinct_concat_apart:
  "distinct (concat (map f [0..<n])) \<Longrightarrow> i < n \<Longrightarrow> j < n \<Longrightarrow> i \<noteq> j \<Longrightarrow> a \<in> set (f i) \<Longrightarrow> a \<notin> set (f j)"
proof (induction n)
  case (Suc n)
  have apart: "b \<notin> set (f n)" if "b \<in> set (f k)" "k < n" for b k
    using Suc.prems(1) that by fastforce
  with Suc show ?case by (cases "i = n"; cases "j = n") (auto simp: less_Suc_eq)
qed simp

lemma distinct_concat_nth: "distinct (concat (map f [0..<n])) \<Longrightarrow> i < n \<Longrightarrow> distinct (f i)"
proof (induction n)
  case (Suc n)
  then show ?case by (cases "i = n") auto
qed simp

lemma layout_apart:
  assumes "layout fs d slot" "i < field_count fs" "j < field_count fs" "i \<noteq> j" "a \<in> set (field_cells (iter_at fs d i))"
  shows "a \<notin> set (field_cells (iter_at fs d j))"
  using distinct_concat_apart [of "\<lambda>j. field_cells (iter_at fs d j)"] assms
  unfolding layout_def message_cells_def by auto

lemma layout_slot:
  assumes "layout fs d slot" "i < field_count fs" "a \<in> set (field_cells (iter_at fs d i))"
  shows "\<not> (slot \<le> a \<and> a < slot + 4)"
proof -
  have "a \<in> set (message_cells fs d)" using assms(2,3) by (auto simp: message_cells_def)
  then show ?thesis using assms(1) by (auto simp: layout_def)
qed

lemma layout_flag:
  assumes "layout fs d slot" "flat fs" "j < field_count fs" "PB_HTYPE (ftype (fs ! j)) = PB_HTYPE_OPTIONAL"
  shows "\<not> (pData (iter_at fs d j) \<le> pSize (iter_at fs d j) \<and>
    pSize (iter_at fs d j) < pData (iter_at fs d j) + data_size (fs ! j))"
proof -
  have "distinct (field_cells (iter_at fs d j))"
    using assms(1,3) distinct_concat_nth [of "\<lambda>j. field_cells (iter_at fs d j)"]
    by (auto simp: layout_def message_cells_def)
  then show ?thesis using assms(4) by (simp add: field_cells_def flat_cur [OF assms(2,3)])
qed

lemma layout_flags_apart: "layout fs d slot \<Longrightarrow> flat fs \<Longrightarrow> flags_apart fs d"
  using layout_flag scalar_size flat_nth unfolding flags_apart_def flat_field_def
  by (metis le_refl less_add_same_cancel1)

lemma cells_store: "cells (store a bs m) x = (if a \<le> x \<and> x < a + length bs then bs ! (x - a) else cells m x)"
  by (simp add: store_def)

lemma load_cong: "(\<And>x. a \<le> x \<Longrightarrow> x < a + n \<Longrightarrow> cells m x = cells m' x) \<Longrightarrow> load m a n = load m' a n"
  by (simp add: load_def)

section \<open>Default values of a flat message\<close>

lemma default_flat_field:
  assumes fs: "flat fs" and l: "layout fs d slot" and j: "j < field_count fs"
  shows "\<exists>m'. pb_field_set_to_default (Suc k) tbl (iter_at fs d j) m = Some m' \<and>
    (\<forall>a. a \<notin> set (field_cells (iter_at fs d j)) \<longrightarrow> cells m' a = cells m a) \<and>
    (PB_HTYPE (ftype (fs ! j)) = PB_HTYPE_OPTIONAL \<longrightarrow> cells m' (pSize (iter_at fs d j)) = 0)"
proof -
  let ?it = "iter_at fs d j" and ?f = "fs ! j"
  have ff: "flat_field ?f" by (rule flat_nth [OF fs j])
  then have sc: "scalar_field ?f" and st: "PB_ATYPE (ftype ?f) = PB_ATYPE_STATIC" by (auto simp: flat_field_def)
  let ?opt = "PB_HTYPE (ftype ?f) = PB_HTYPE_OPTIONAL"
  have sep: "?opt \<longrightarrow> pSize ?it \<noteq> pData ?it"
    using layout_flags_apart [OF l fs] j by (auto simp: flags_apart_def)
  let ?m1 = "if ?opt then store (pSize ?it) [0] m else m"
  let ?bs = "if ptr ?f \<noteq> 0 then load ?m1 (ptr ?f) (data_size ?f) else replicate (data_size ?f) 0"
  have bs: "length ?bs = data_size ?f" by simp
  have r: "pb_field_set_to_default (Suc k) tbl ?it m = Some (store (pData ?it) ?bs ?m1)"
    using sep st scalar_ltype [OF sc] flat_htype [OF ff]
    by (cases "ptr ?f = 0"; cases ?opt)
      (simp_all add: pb_field_set_to_default.simps(2) Let_def flat_cur [OF fs j] store_zeros_def PB_ATYPE_defs)
  show ?thesis
    using layout_flag [OF l fs j] bs unfolding r
    by (auto simp: cells_store field_cells_def flat_cur [OF fs j])
qed

lemma defaults_from:
  assumes fs: "flat fs" and l: "layout fs d slot"
  shows "i < field_count fs \<Longrightarrow> field_count fs \<le> i + k \<Longrightarrow>
    \<exists>m'. iter_mem k (pb_field_set_to_default (Suc n) tbl) (iter_at fs d i) m = Some m' \<and>
      (\<forall>a. (\<forall>j. i \<le> j \<longrightarrow> j < field_count fs \<longrightarrow> a \<notin> set (field_cells (iter_at fs d j))) \<longrightarrow> cells m' a = cells m a) \<and>
      (\<forall>j. i \<le> j \<longrightarrow> j < field_count fs \<longrightarrow> PB_HTYPE (ftype (fs ! j)) = PB_HTYPE_OPTIONAL \<longrightarrow>
         cells m' (pSize (iter_at fs d j)) = 0)"
proof (induction k arbitrary: i m)
  case 0
  then show ?case by simp
next
  case (Suc k)
  obtain m1 where m1: "pb_field_set_to_default (Suc n) tbl (iter_at fs d i) m = Some m1"
    "\<And>a. a \<notin> set (field_cells (iter_at fs d i)) \<Longrightarrow> cells m1 a = cells m a"
    "PB_HTYPE (ftype (fs ! i)) = PB_HTYPE_OPTIONAL \<Longrightarrow> cells m1 (pSize (iter_at fs d i)) = 0"
    using default_flat_field [OF fs l Suc.prems(1)] by blast
  note nxt = iter_next_iter_at [OF flat_wf(1) [OF fs] Suc.prems(1), of d]
  show ?case
  proof (cases "Suc i < field_count fs")
    case False
    then have only: "(\<forall>j. i \<le> j \<longrightarrow> j < field_count fs \<longrightarrow> P j) \<longleftrightarrow> P i" for P
      using Suc.prems(1) by (metis Suc_leI le_eq_less_or_eq le_less_trans)
    have "iter_mem (Suc k) (pb_field_set_to_default (Suc n) tbl) (iter_at fs d i) m = Some m1"
      using False m1(1) nxt by simp
    then show ?thesis unfolding only using m1(2,3) by blast
  next
    case True
    let ?apart = "\<lambda>a i. \<forall>j. i \<le> j \<longrightarrow> j < field_count fs \<longrightarrow> a \<notin> set (field_cells (iter_at fs d j))"
    obtain m' where m': "iter_mem k (pb_field_set_to_default (Suc n) tbl) (iter_at fs d (Suc i)) m1 = Some m'"
      "\<And>a. ?apart a (Suc i) \<Longrightarrow> cells m' a = cells m1 a"
      "\<And>j. Suc i \<le> j \<Longrightarrow> j < field_count fs \<Longrightarrow> PB_HTYPE (ftype (fs ! j)) = PB_HTYPE_OPTIONAL \<Longrightarrow>
         cells m' (pSize (iter_at fs d j)) = 0"
      using Suc.IH [OF True, of m1] Suc.prems(2) by auto
    have run: "iter_mem (Suc k) (pb_field_set_to_default (Suc n) tbl) (iter_at fs d i) m = Some m'"
      using m1(1) m'(1) nxt True by simp
    have flag: "cells m' (pSize (iter_at fs d i)) = 0" if "PB_HTYPE (ftype (fs ! i)) = PB_HTYPE_OPTIONAL"
    proof -
      have "pSize (iter_at fs d i) \<in> set (field_cells (iter_at fs d i))"
        using that by (simp add: field_cells_def flat_cur [OF fs Suc.prems(1)])
      then have "?apart (pSize (iter_at fs d i)) (Suc i)"
        using layout_apart [OF l Suc.prems(1)] by (metis Suc_n_not_le_n)
      then show ?thesis using m'(2) m1(3) [OF that] by simp
    qed
    have "cells m' (pSize (iter_at fs d j)) = 0"
      if "i \<le> j" "j < field_count fs" "PB_HTYPE (ftype (fs ! j)) = PB_HTYPE_OPTIONAL" for j
      using flag m'(3) [of j] that by (cases "i = j") auto
    moreover have "cells m' a = cells m a" if "?apart a i" for a
      using m'(2) [of a] m1(2) [of a] that Suc.prems(1) by auto
    ultimately show ?thesis using run by blast
  qed
qed

lemma defaults_flat:
  assumes fs: "flat fs" and l: "layout fs d slot"
  obtains m' where "pb_message_set_to_defaults (Suc (Suc n)) tbl fs d m = Some m'"
    "\<And>j. j < field_count fs \<Longrightarrow> PB_HTYPE (ftype (fs ! j)) = PB_HTYPE_OPTIONAL \<Longrightarrow> cells m' (pSize (iter_at fs d j)) = 0"
proof -
  have begin_ok: "pb_field_iter_begin fs d = (True, iter_at fs d 0)"
    using begin_iter_at [OF flat_wf(1) [OF fs], of d] flat_wf(2) [OF fs] by simp
  from defaults_from [OF fs l flat_wf(2) [OF fs], of "length fs" n tbl m]
  show ?thesis
    by (auto simp: pb_message_set_to_defaults.simps(2) begin_ok intro: that)
qed


section \<open>The decoded message\<close>

lemma copy_frame:
  "flat fs \<Longrightarrow> j < field_count fs \<Longrightarrow> a \<notin> set (field_cells (iter_at fs d j)) \<Longrightarrow>
   cells (copy_field m (iter_at fs src j) (iter_at fs d j) m') a = cells m' a"
  by (auto simp: copy_field_def cells_store field_cells_def flat_cur split: if_splits)

lemma fold_copy_frame:
  assumes "flat fs"
  shows "set js \<subseteq> {..<field_count fs} \<Longrightarrow> (\<And>j. j \<in> set js \<Longrightarrow> a \<notin> set (field_cells (iter_at fs d j))) \<Longrightarrow>
    cells (fold (\<lambda>j. copy_field m (iter_at fs src j) (iter_at fs d j)) js m') a = cells m' a"
  by (induction js arbitrary: m') (simp_all add: copy_frame [OF assms])

lemma copies_agree:
  assumes fs: "flat fs" and l: "layout fs d slot"
    and flags: "\<And>j. j < field_count fs \<Longrightarrow> PB_HTYPE (ftype (fs ! j)) = PB_HTYPE_OPTIONAL \<Longrightarrow> cells m' (pSize (iter_at fs d j)) = 0"
  shows "agree fs m src (fold (\<lambda>j. copy_field m (iter_at fs src j) (iter_at fs d j)) [0..<field_count fs] m') d"
    (is "agree fs m src (fold ?g _ m') d")
  unfolding agree_def Let_def
proof (intro allI impI)
  fix j assume j: "j < field_count fs"
  let ?M = "fold ?g [0..<field_count fs] m'" and ?it = "iter_at fs src j" and ?itd = "iter_at fs d j"
  let ?M' = "fold ?g [0..<j] m'"
  have "[0..<field_count fs] = [0..<j] @ j # [Suc j..<field_count fs]"
    using j by (metis less_imp_le_nat plus_nat.add_0 upt_add_eq_append upt_conv_Cons le_add_diff_inverse zero_le)
  then have M: "?M = fold ?g [Suc j..<field_count fs] (?g j ?M')" by simp
  have apart: "a \<notin> set (field_cells (iter_at fs d i))" if "a \<in> set (field_cells ?itd)" "i < field_count fs" "i \<noteq> j" for a i
    using layout_apart [OF l j that(2) _ that(1)] that(3) by simp
  have at: "cells ?M a = cells (?g j ?M') a" "cells ?M' a = cells m' a" if a: "a \<in> set (field_cells ?itd)" for a
  proof -
    show "cells ?M a = cells (?g j ?M') a"
      unfolding M
    proof (rule fold_copy_frame [OF fs])
      fix i assume "i \<in> set [Suc j..<field_count fs]"
      then show "a \<notin> set (field_cells (iter_at fs d i))" by (intro apart [OF a]) auto
    qed auto
    show "cells ?M' a = cells m' a"
    proof (rule fold_copy_frame [OF fs])
      fix i assume "i \<in> set [0..<j]"
      then show "a \<notin> set (field_cells (iter_at fs d i))" using j by (intro apart [OF a]) auto
    qed (use j in auto)
  qed
  have data: "cells ?M a = cells (?g j ?M') a" if "pData ?itd \<le> a" "a < pData ?itd + data_size (fs ! j)" for a
    using at(1) that by (simp add: field_cells_def flat_cur [OF fs j])
  have "load ?M (pData ?itd) (data_size (fs ! j)) = load m (pData ?it) (data_size (fs ! j))" if "present m ?it"
  proof -
    have "load ?M (pData ?itd) (data_size (fs ! j)) = load (?g j ?M') (pData ?itd) (data_size (fs ! j))"
      using data by (rule load_cong)
    then show ?thesis using that by (simp add: copy_field_def flat_cur [OF fs j])
  qed
  moreover have "present ?M ?itd = present m ?it"
  proof (cases "PB_HTYPE (ftype (fs ! j)) = PB_HTYPE_REQUIRED")
    case True
    then show ?thesis by (simp add: present_def flat_cur [OF fs j])
  next
    case False
    then have opt: "PB_HTYPE (ftype (fs ! j)) = PB_HTYPE_OPTIONAL"
      using flat_nth [OF fs j] by (auto simp: flat_field_def)
    have "cells ?M (pSize ?itd) = cells (?g j ?M') (pSize ?itd)" "cells ?M' (pSize ?itd) = 0"
      using at [of "pSize ?itd"] flags [OF j opt] opt by (simp_all add: field_cells_def flat_cur [OF fs j])
    then have "cells ?M (pSize ?itd) = (if present m ?it then 1 else 0)"
      using layout_flag [OF l fs j opt] opt by (auto simp: copy_field_def flat_cur [OF fs j] cells_store)
    then show ?thesis using opt htype_neq by (simp add: present_def flat_cur [OF fs j])
  qed
  ultimately show "present ?M ?itd = present m ?it \<and>
      (present m ?it \<longrightarrow> load ?M (pData ?itd) (data_size (fs ! j)) = load m (pData ?it) (data_size (fs ! j)))"
    by simp
qed

lemma fold_skip: "(\<And>x y. x \<in> set xs \<Longrightarrow> \<not> P x \<Longrightarrow> f x y = y) \<Longrightarrow> fold f (filter P xs) s = fold f xs s"
  by (induction xs arbitrary: s) auto

text \<open>Decoding any sequence of items, up to the check for the required fields.\<close>

lemma decode_items_run:
  assumes fs: "flat fs" and src: "encodable m fs src" and l: "layout fs dest (stack_slot E (Suc k))"
    and xs: "list_all (item_ok m fs src) xs"
  obtains m1 c where "c < field_count fs"
    "\<And>j. j < field_count fs \<Longrightarrow> PB_HTYPE (ftype (fs ! j)) = PB_HTYPE_OPTIONAL \<Longrightarrow> cells m1 (pSize (iter_at fs dest j)) = 0"
    "pb_decode (Suc (Suc k)) E fs dest
      (buf_istream (items_bytes m fs src xs @ rest) (length (items_bytes m fs src xs)) e, m') =
      (let m'' = copy_fields m fs src dest (known_positions xs) m1; t = buf_istream rest 0 e in
       if all_required_seen (req_field_count (iter_at fs dest c)) (fold (mark_pos fs) (known_positions xs) [0, 0])
       then Some (Some (), (t, m''))
       else map_option (\<lambda>m3. (None, (snd (ierr ''missing required field'' t :: unit option \<times> _), m3)))
              (pb_release (Suc (Suc k)) (dtables E) fs dest m''))"
proof -
  let ?slot = "stack_slot E (Suc k)" and ?n = "field_count fs" and ?bs = "items_bytes m fs src xs"
  obtain m1 where m1: "pb_message_set_to_defaults (Suc (Suc k)) (dtables E) fs dest m' = Some m1"
    "\<And>j. j < ?n \<Longrightarrow> PB_HTYPE (ftype (fs ! j)) = PB_HTYPE_OPTIONAL \<Longrightarrow> cells m1 (pSize (iter_at fs dest j)) = 0"
    using defaults_flat [OF fs l, of k "dtables E" m'] by blast
  let ?m2 = "store_u32 ?slot 0 m1"
  have flags: "cells ?m2 (pSize (iter_at fs dest j)) = 0"
    if "j < ?n" "PB_HTYPE (ftype (fs ! j)) = PB_HTYPE_OPTIONAL" for j
    using layout_slot [OF l that(1), of "pSize (iter_at fs dest j)"] m1(2) [OF that] that
    by (auto simp: store_u32_def cells_store field_cells_def flat_cur [OF fs] fixed32_bytes_def)
  let ?dec = "\<lambda>init fs' d. if init then pb_decode_with (Suc k) E fs' d (pb_decode_noinit (Suc k) E fs' d)
                           else pb_decode_noinit (Suc k) E fs' d"
  let ?v = "\<lparr>fields_seen = [0, 0], extension_range_start = 0,
              iter = snd (pb_field_iter_begin fs dest), fixed_count_field = None\<rparr>"
  let ?seen = "fold (mark_pos fs) (known_positions xs) [0, 0]"
  let ?m3 = "copy_fields m fs src dest (known_positions xs) ?m2"
  obtain c r where c: "c < ?n" and run: "decode_loop (Suc (length ?bs)) (Suc k) E ?dec ?slot ?v
      (buf_istream (?bs @ rest) (length ?bs) e, ?m2) =
      Some (Some (?v\<lparr>iter := iter_at fs dest c, fields_seen := ?seen, extension_range_start := r\<rparr>), (buf_istream rest 0 e, ?m3))"
    using decode_loop_flat [OF fs src layout_flags_apart [OF l fs] flat_wf(2) [OF fs], of ?v xs "Suc (length ?bs)" "Suc k" E ?dec ?slot rest e ?m2] xs
    by (auto simp: iter_at.simps(1))
  let ?v' = "?v\<lparr>iter := iter_at fs dest c, fields_seen := ?seen, extension_range_start := r\<rparr>"
  have fin: "finish_noinit ?slot ?v' (t, ?m3) =
      (if all_required_seen (req_field_count (iter_at fs dest c)) ?seen then (Some (), (t, ?m3))
       else (None, (snd (ierr ''missing required field'' t :: unit option \<times> _), ?m3)))" for t :: "'a istream"
    by (simp add: finish_noinit_def wrong_fixed_count_def derr_def on_stream_def ierr_def)
  show ?thesis
  proof (rule that [OF c flags])
    show "pb_decode (Suc (Suc k)) E fs dest (buf_istream (?bs @ rest) (length ?bs) e, m') =
      (let m'' = ?m3; t = buf_istream rest 0 e in
       if all_required_seen (req_field_count (iter_at fs dest c)) ?seen
       then Some (Some (), (t, m''))
       else map_option (\<lambda>m3. (None, (snd (ierr ''missing required field'' t :: unit option \<times> _), m3)))
              (pb_release (Suc (Suc k)) (dtables E) fs dest m''))"
      using m1(1) run fin
      by (simp add: pb_decode_def pb_decode_with_def on_mem_fuel_def pb_decode_noinit.simps(2) Let_def fthen_def on_mem_def
        del: decode_loop.simps)
  qed
qed

lemma known_positions_map: "known_positions (map Known js) = js"
  by (induction js) simp_all

lemma message_items:
  "flat fs \<Longrightarrow> message_bytes m fs src =
    items_bytes m fs src (map Known (filter (\<lambda>j. present m (iter_at fs src j)) [0..<field_count fs]))"
proof -
  assume fs: "flat fs"
  have "set js \<subseteq> {..<field_count fs} \<Longrightarrow> concat (map (\<lambda>j. field_bytes m (iter_at fs src j)) js) =
      concat (map (item_bytes m fs src) (map Known (filter (\<lambda>j. present m (iter_at fs src j)) js)))" for js
    by (induction js) (simp_all add: field_bytes_def flat_cur [OF fs])
  moreover have "set [0..<field_count fs] \<subseteq> {..<field_count fs}" by auto
  ultimately show ?thesis unfolding message_bytes_def items_bytes_def .
qed

lemma known_positions_ok:
  "list_all (item_ok m fs src) xs \<Longrightarrow>
   \<forall>i \<in> set (known_positions xs). i < field_count fs \<and> present m (iter_at fs src i)"
  by (induction xs rule: known_positions.induct) auto

text \<open>Fields in any order: what is in the cells of field \<open>j\<close> afterwards.\<close>

lemma copy_at:
  assumes "flat fs" "j < field_count fs" "present m (iter_at fs src j)" "a \<in> set (field_cells (iter_at fs d j))"
  shows "cells (copy_field m (iter_at fs src j) (iter_at fs d j) M) a =
    cells (copy_field m (iter_at fs src j) (iter_at fs d j) M') a"
  using assms by (auto simp: copy_field_def cells_store field_cells_def flat_cur split: if_splits)

lemma copy_fields_at:
  assumes fs: "flat fs" and l: "layout fs d slot" and j: "j < field_count fs" and a: "a \<in> set (field_cells (iter_at fs d j))"
  shows "\<forall>i \<in> set js. i < field_count fs \<and> present m (iter_at fs src i) \<Longrightarrow>
    cells (copy_fields m fs src d js M) a =
      (if j \<in> set js then cells (copy_field m (iter_at fs src j) (iter_at fs d j) M) a else cells M a)"
proof (induction js rule: rev_induct)
  case Nil
  then show ?case by (simp add: copy_fields_def)
next
  case (snoc i js)
  let ?M = "copy_fields m fs src d js M"
  have step: "copy_fields m fs src d (js @ [i]) M = copy_field m (iter_at fs src i) (iter_at fs d i) ?M"
    by (simp add: copy_fields_def)
  have i: "i < field_count fs" "present m (iter_at fs src i)" using snoc.prems by auto
  show ?case
  proof (cases "i = j")
    case True
    have "cells (copy_field m (iter_at fs src j) (iter_at fs d j) ?M) a =
        cells (copy_field m (iter_at fs src j) (iter_at fs d j) M) a"
      using i True a by (intro copy_at [OF fs]) simp_all
    with True show ?thesis unfolding step by simp
  next
    case False
    then have "a \<notin> set (field_cells (iter_at fs d i))" using layout_apart [OF l j i(1) _ a] by simp
    then show ?thesis using copy_frame [OF fs i(1)] snoc.IH snoc.prems False by (auto simp: step)
  qed
qed

definition field_copied :: "mem \<Rightarrow> field_iter \<Rightarrow> mem \<Rightarrow> field_iter \<Rightarrow> bool" where
  "field_copied m it m' it' \<longleftrightarrow> present m' it' \<and>
     load m' (pData it') (data_size (cur it)) = load m (pData it) (data_size (cur it))"

lemma copy_fields_result:
  assumes fs: "flat fs" and l: "layout fs d slot" and j: "j < field_count fs"
    and js: "\<forall>i \<in> set js. i < field_count fs \<and> present m (iter_at fs src i)"
    and flags: "\<And>j. j < field_count fs \<Longrightarrow> PB_HTYPE (ftype (fs ! j)) = PB_HTYPE_OPTIONAL \<Longrightarrow> cells M (pSize (iter_at fs d j)) = 0"
  shows "j \<in> set js \<Longrightarrow> field_copied m (iter_at fs src j) (copy_fields m fs src d js M) (iter_at fs d j)"
    and "j \<notin> set js \<Longrightarrow> \<not> required (fs ! j) \<Longrightarrow> \<not> present (copy_fields m fs src d js M) (iter_at fs d j)"
proof -
  let ?it = "iter_at fs src j" and ?itd = "iter_at fs d j" and ?R = "copy_fields m fs src d js M"
  have cur: "cur ?it = fs ! j" "cur ?itd = fs ! j" by (simp_all add: flat_cur [OF fs j])
  have flag_cell: "pSize ?itd \<in> set (field_cells ?itd)" if "PB_HTYPE (ftype (fs ! j)) = PB_HTYPE_OPTIONAL"
    using that by (simp add: field_cells_def cur)
  have kind: "PB_HTYPE (ftype (fs ! j)) = PB_HTYPE_REQUIRED \<or> PB_HTYPE (ftype (fs ! j)) = PB_HTYPE_OPTIONAL"
    using flat_nth [OF fs j] by (auto simp: flat_field_def)
  {
    assume "j \<in> set js"
    then have p: "present m ?it" and at: "\<And>a. a \<in> set (field_cells ?itd) \<Longrightarrow>
        cells ?R a = cells (copy_field m ?it ?itd M) a"
      using copy_fields_at [OF fs l j _ js] js by auto
    have "load ?R (pData ?itd) (data_size (fs ! j)) = load (copy_field m ?it ?itd M) (pData ?itd) (data_size (fs ! j))"
      using at by (intro load_cong) (simp add: field_cells_def cur)
    then have "load ?R (pData ?itd) (data_size (fs ! j)) = load m (pData ?it) (data_size (fs ! j))"
      using p by (simp add: copy_field_def cur)
    moreover have "present ?R ?itd"
      using kind at [OF flag_cell] layout_flag [OF l fs j] p
      by (auto simp: present_def copy_field_def cells_store cur)
    ultimately show "field_copied m ?it ?R ?itd" by (simp add: field_copied_def cur)
  }
  {
    assume "j \<notin> set js" "\<not> required (fs ! j)"
    then show "\<not> present ?R ?itd"
      using kind copy_fields_at [OF fs l j flag_cell js] flags [OF j] by (auto simp: present_def required_def cur)
  }
qed

lemma release_from:
  assumes fs: "flat fs"
  shows "i < field_count fs \<Longrightarrow> field_count fs \<le> i + k \<Longrightarrow>
    iter_mem k (pb_release_single_field (Suc n) tbl) (iter_at fs d i) m = Some m"
proof (induction k arbitrary: i)
  case 0
  then show ?case by simp
next
  case (Suc k)
  have ff: "flat_field (fs ! i)" by (rule flat_nth [OF fs Suc.prems(1)])
  then have "pb_release_single_field (Suc n) tbl (iter_at fs d i) m = Some m"
    using flat_htype [OF ff] scalar_ltype [of "fs ! i"]
    by (simp add: pb_release_single_field.simps(2) Let_def flat_cur [OF fs Suc.prems(1)] flat_field_def PB_ATYPE_defs)
  then show ?case
    using Suc iter_next_iter_at [OF flat_wf(1) [OF fs] Suc.prems(1), of d] by simp
qed

lemma release_flat: "flat fs \<Longrightarrow> pb_release (Suc (Suc n)) tbl fs d m = Some m"
  using release_from [of fs 0 "length fs" n tbl d m] begin_iter_at [OF flat_wf(1), of fs d] flat_wf(2) [of fs]
  by (simp add: pb_release.simps(2))

text \<open>The check for required fields fails when one of the first 64 is missing.\<close>

lemma required_before_less:
  assumes "i < j" "j \<le> length fs" "required (fs ! i)"
  shows "required_before fs i < required_before fs j"
proof -
  have "\<exists>i' < j. required (fs ! i') \<and> required_before fs i' = required_before fs i"
    using assms by blast
  then show ?thesis using required_positions [OF assms(2)] by blast
qed

lemma required_before_inj:
  "i < length fs \<Longrightarrow> j < length fs \<Longrightarrow> required (fs ! i) \<Longrightarrow> required (fs ! j) \<Longrightarrow>
   required_before fs i = required_before fs j \<Longrightarrow> i = j"
  using required_before_less [of i j fs] required_before_less [of j i fs] by (metis less_imp_le_nat nat_neq_iff)

lemma all_required_seenD:
  assumes "all_required_seen n seen" "n \<le> 64" "32 * w + b < n" "b < 32"
  shows "bit (seen ! w) b"
proof (cases "w < n div 32")
  case True
  then show ?thesis using assms(1,4) by (auto simp: all_required_seen_def)
next
  case False
  then have w: "w = n div 32" "n mod 32 \<noteq> 0" "b < n mod 32"
    using assms(3,4) by (auto simp: not_less) (use mult_div_mod_eq [of 32 n] in linarith)+
  then have "seen ! w = drop_bit (32 - n mod 32) (- 1)" using assms(1) by (auto simp: all_required_seen_def)
  then show ?thesis using bit_low_ones [of "n mod 32" b] w assms(4) by simp
qed

lemma required_missing:
  assumes fs: "flat fs" and c: "c < field_count fs" and j: "j < field_count fs" "required (fs ! j)" "required_before fs j < 64"
    and js: "j \<notin> set js" "set js \<subseteq> {..<field_count fs}"
  shows "\<not> all_required_seen (req_field_count (iter_at fs dest c)) (fold (mark_pos fs) js [0, 0])"
proof
  assume seen: "all_required_seen (req_field_count (iter_at fs dest c)) (fold (mark_pos fs) js [0, 0])"
  let ?p = "required_before fs j"
  have p: "?p = 32 * (?p div 32) + ?p mod 32" "?p mod 32 < 32" "?p div 32 < 2" using j(3) by auto
  have "?p < min 64 (required_before fs (field_count fs))"
    using required_before_less [OF j(1) _ j(2)] j(3) by simp
  then have "bit (fold (mark_pos fs) js [0, 0] ! (?p div 32)) (?p mod 32)"
    using all_required_seenD [OF seen [unfolded req_field_count_flat [OF fs c]], of "?p div 32" "?p mod 32"] p by simp
  moreover have "[0, 0 :: u32] ! (?p div 32) = 0" using p(3) by (auto simp: less_Suc_eq numeral_2_eq_2)
  ultimately obtain i where i: "i \<in> set js" "required (fs ! i)" "required_before fs i = ?p"
    using bit_fold_mark [of "[0, 0]" "?p div 32" "?p mod 32" fs js] p by auto
  then have "i = j" using required_before_inj [of i fs j] j(1,2) js(2) by auto
  with i(1) js(1) show False by simp
qed

text \<open>Decoding a sequence of items, with the two outcomes of the check.\<close>

lemma decode_items:
  assumes fs: "flat fs" and src: "encodable m fs src" and l: "layout fs dest (stack_slot E (Suc k))"
    and xs: "list_all (item_ok m fs src) xs"
  defines "bs \<equiv> items_bytes m fs src xs" and "js \<equiv> set (known_positions xs)"
  obtains m1 where
    "\<And>j. j < field_count fs \<Longrightarrow> PB_HTYPE (ftype (fs ! j)) = PB_HTYPE_OPTIONAL \<Longrightarrow> cells m1 (pSize (iter_at fs dest j)) = 0"
    "(\<forall>j < field_count fs. required (fs ! j) \<longrightarrow> j \<in> js) \<Longrightarrow>
       pb_decode (Suc (Suc k)) E fs dest (buf_istream (bs @ rest) (length bs) e, m') =
         Some (Some (), (buf_istream rest 0 e, copy_fields m fs src dest (known_positions xs) m1))"
    "(\<exists>j < field_count fs. required (fs ! j) \<and> required_before fs j < 64 \<and> j \<notin> js) \<Longrightarrow>
       pb_decode (Suc (Suc k)) E fs dest (buf_istream (bs @ rest) (length bs) e, m') =
         Some (None, (buf_istream rest 0 (Some (case e of Some msg \<Rightarrow> msg | None \<Rightarrow> ''missing required field'')),
           copy_fields m fs src dest (known_positions xs) m1))"
proof -
  have ok: "set (known_positions xs) \<subseteq> {..<field_count fs}"
    using known_positions_ok [OF xs] by auto
  obtain m1 c where c: "c < field_count fs"
    and flags: "\<And>j. j < field_count fs \<Longrightarrow> PB_HTYPE (ftype (fs ! j)) = PB_HTYPE_OPTIONAL \<Longrightarrow> cells m1 (pSize (iter_at fs dest j)) = 0"
    and run: "pb_decode (Suc (Suc k)) E fs dest (buf_istream (bs @ rest) (length bs) e, m') =
      (let m'' = copy_fields m fs src dest (known_positions xs) m1; t = buf_istream rest 0 e in
       if all_required_seen (req_field_count (iter_at fs dest c)) (fold (mark_pos fs) (known_positions xs) [0, 0])
       then Some (Some (), (t, m''))
       else map_option (\<lambda>m3. (None, (snd (ierr ''missing required field'' t :: unit option \<times> _), m3)))
              (pb_release (Suc (Suc k)) (dtables E) fs dest m''))"
    by (rule decode_items_run [OF fs src l xs, of rest e m', folded bs_def]) (rule that)
  show ?thesis
  proof (rule that [OF flags])
    assume "\<forall>j < field_count fs. required (fs ! j) \<longrightarrow> j \<in> js"
    then have "all_required_seen (req_field_count (iter_at fs dest c)) (fold (mark_pos fs) (known_positions xs) [0, 0])"
      using ok by (intro all_required_seen_flat [OF fs c]) (auto simp: js_def)
    with run show "pb_decode (Suc (Suc k)) E fs dest (buf_istream (bs @ rest) (length bs) e, m') =
        Some (Some (), (buf_istream rest 0 e, copy_fields m fs src dest (known_positions xs) m1))" by simp
  next
    assume "\<exists>j < field_count fs. required (fs ! j) \<and> required_before fs j < 64 \<and> j \<notin> js"
    then have "\<not> all_required_seen (req_field_count (iter_at fs dest c)) (fold (mark_pos fs) (known_positions xs) [0, 0])"
      using ok required_missing [OF fs c] by (auto simp: js_def)
    with run show "pb_decode (Suc (Suc k)) E fs dest (buf_istream (bs @ rest) (length bs) e, m') =
         Some (None, (buf_istream rest 0 (Some (case e of Some msg \<Rightarrow> msg | None \<Rightarrow> ''missing required field'')),
           copy_fields m fs src dest (known_positions xs) m1))"
      by (simp add: Let_def ierr_def release_flat [OF fs])
  qed
qed

lemma decode_flat:
  assumes fs: "flat fs" and src: "encodable m fs src" and l: "layout fs dest (stack_slot E (Suc k))"
  obtains m'' where "pb_decode (Suc (Suc k)) E fs dest
      (buf_istream (message_bytes m fs src @ rest) (length (message_bytes m fs src)) e, m') =
      Some (Some (), (buf_istream rest 0 e, m''))"
    "agree fs m src m'' dest"
proof -
  let ?n = "field_count fs"
  let ?js = "filter (\<lambda>j. present m (iter_at fs src j)) [0..<?n]"
  let ?xs = "map Known ?js"
  have ok: "list_all (item_ok m fs src) ?xs" by (auto simp: list_all_iff)
  have all: "\<forall>j < ?n. required (fs ! j) \<longrightarrow> j \<in> set (known_positions ?xs)"
    by (auto simp: known_positions_map present_def flat_cur [OF fs] required_def)
  obtain m1 where flags: "\<And>j. j < ?n \<Longrightarrow> PB_HTYPE (ftype (fs ! j)) = PB_HTYPE_OPTIONAL \<Longrightarrow> cells m1 (pSize (iter_at fs dest j)) = 0"
    and run: "pb_decode (Suc (Suc k)) E fs dest
        (buf_istream (items_bytes m fs src ?xs @ rest) (length (items_bytes m fs src ?xs)) e, m') =
      Some (Some (), (buf_istream rest 0 e, copy_fields m fs src dest (known_positions ?xs) m1))"
    by (rule decode_items [OF fs src l ok, of rest e m']) (rule that; use all in blast)
  let ?m3 = "copy_fields m fs src dest ?js m1"
  have "?m3 = fold (\<lambda>j. copy_field m (iter_at fs src j) (iter_at fs dest j)) [0..<?n] m1"
    unfolding copy_fields_def by (rule fold_skip) (simp add: copy_field_def)
  then have "agree fs m src ?m3 dest" using copies_agree [OF fs l flags] by simp
  then show ?thesis
    using run by (intro that) (simp_all add: message_items [OF fs] known_positions_map)
qed

section \<open>An example message\<close>

text \<open>\<open>message { required int32 a = 1; optional int32 b = 2; }\<close>, with \<open>a = 5\<close> and \<open>b = 7\<close> at address 1000.\<close>

definition two_fields :: "pb_field list" where
  "two_fields =
     [\<lparr>tag = 1, ftype = 0x01, data_offset = 0, size_offset = 0, data_size = 4, array_size = 0, ptr = 0\<rparr>,
      \<lparr>tag = 2, ftype = 0x11, data_offset = 4, size_offset = -4, data_size = 4, array_size = 0, ptr = 0\<rparr>,
      \<lparr>tag = 0, ftype = 0, data_offset = 0, size_offset = 0, data_size = 0, array_size = 0, ptr = 0\<rparr>]"

definition two_mem :: mem where
  "two_mem = \<lparr>cells = (\<lambda>a. if a = 1000 then 5 else if a = 1004 then 1 else if a = 1008 then 7 else 0),
     blocks = Map.empty, brk = 0x10000, heap_limit = 0x20000, bad_free = False\<rparr>"

definition two_env :: "unit dec_env" where
  "two_env = \<lparr>dtables = (\<lambda>_. two_fields), decode_fn = (\<lambda>_ _ _ s. (None, s)), ext_decode_fn = (\<lambda>_ _ _ _ s. (None, s)),
     stack_slot = (\<lambda>n. 3000 + 8 * n)\<rparr>"

lemma flat_two: "flat two_fields" "field_count two_fields = 2"
  by (simp_all add: flat_def two_fields_def wf_fields_def flat_field_def scalar_field_def PB_TYPE_defs)

lemma two_iters:
  "d < 0x10000 \<Longrightarrow> pData (iter_at two_fields d 0) = d"
  "d < 0x10000 \<Longrightarrow> pData (iter_at two_fields d (Suc 0)) = d + 8"
  "d < 0x10000 \<Longrightarrow> pSize (iter_at two_fields d (Suc 0)) = d + 4"
  by (simp_all add: iter_at.simps pb_field_iter_begin_def pb_field_iter_next_def cur_def two_fields_def addr_add_def
      Let_def PB_TYPE_defs)

lemma two_cur: "cur (iter_at two_fields d 0) = two_fields ! 0" "cur (iter_at two_fields d (Suc 0)) = two_fields ! 1"
  using flat_cur [OF flat_two(1)] flat_two(2) by simp_all

lemma two_nth:
  "two_fields ! 0 =
     \<lparr>tag = 1, ftype = 0x01, data_offset = 0, size_offset = 0, data_size = 4, array_size = 0, ptr = 0\<rparr>"
  "two_fields ! Suc 0 =
     \<lparr>tag = 2, ftype = 0x11, data_offset = 4, size_offset = -4, data_size = 4, array_size = 0, ptr = 0\<rparr>"
  by (simp_all add: two_fields_def)

lemma two_ok:
  "encodable two_mem two_fields 1000" "layout two_fields 2000 (stack_slot two_env 1)"
  "message_bytes two_mem two_fields 1000 = [8, 5, 16, 7]"
proof -
  show "encodable two_mem two_fields 1000"
  proof -
    have "PB_LTYPE (ftype (two_fields ! 0)) \<noteq> PB_LTYPE_BOOL" "PB_LTYPE (ftype (two_fields ! 1)) \<noteq> PB_LTYPE_BOOL"
      by (simp_all add: two_fields_def PB_TYPE_defs)
    then show ?thesis
      unfolding encodable_def flat_two(2) by (auto simp: numeral_2_eq_2 less_Suc_eq two_iters canonical_def)
  qed
  have "message_cells two_fields 2000 = [2000, 2001, 2002, 2003, 2004, 2008, 2009, 2010, 2011]"
    unfolding message_cells_def flat_two(2)
    by (simp add: field_cells_def two_iters two_cur numeral_2_eq_2)
      (simp add: two_fields_def PB_TYPE_defs upt_rec)
  then show "layout two_fields 2000 (stack_slot two_env 1)"
    by (simp add: layout_def two_env_def upt_rec)
  have "load two_mem 1000 4 = [5, 0, 0, 0]" "load two_mem 1008 4 = [7, 0, 0, 0]" "cells two_mem 1004 = 1"
    by (simp_all add: two_mem_def load_def upt_rec)
  then have "load_signed two_mem 4 1000 = Some 5" "load_signed two_mem 4 1008 = Some 7" "cells two_mem 1004 = 1"
    by (simp_all add: load_signed_def load_u32_def le32_def)
  then have "field_bytes two_mem (iter_at two_fields 1000 0) = [8, 5]"
    "field_bytes two_mem (iter_at two_fields 1000 (Suc 0)) = [16, 7]"
    by (simp_all add: field_bytes_def present_def two_iters two_cur two_nth scalar_bytes_def wire_of_def
        PB_TYPE_defs tag_bytes_def PB_WT_VARINT_def varint_bytes_def)
  then show "message_bytes two_mem two_fields 1000 = [8, 5, 16, 7]"
    unfolding message_bytes_def flat_two(2) by (simp add: numeral_2_eq_2)
qed

section \<open>Properties\<close>

text \<open>C1: a message of required and optional scalar fields survives the wire. \<open>pb_encode\<close> of the
  message at \<open>src\<close> into a buffer with room for it succeeds, and \<open>pb_decode\<close> of exactly the bytes
  written, into a structure at any address of any memory, succeeds at the end of those bytes and
  leaves a message in which the same fields are present with the same values. The two sides may
  have different environments, fuel and layouts in memory; the fields of the destination do not
  overlap.\<close>

theorem pb_message_roundtrip:
  assumes "flat fs" "encodable m fs src" "layout fs dest (stack_slot D (Suc k))"
    and "wf_ostream s" "sink s = Buf_sink b p" "oerrmsg s = None" "max_size s < 2 ^ 63"
      "bytes_written s + length (message_bytes m fs src) \<le> max_size s"
  shows "\<exists>t b' p' m''. pb_encode (Suc n) E m fs src s = Some (Some (), t) \<and> sink t = Buf_sink b' p' \<and>
     pb_decode (Suc (Suc k)) D fs dest (buf_istream (drop p b') (p' - p) e, m') =
       Some (Some (), (buf_istream (drop p' b') 0 e, m'')) \<and>
     agree fs m src m'' dest"
proof -
  let ?bs = "message_bytes m fs src"
  have enc: "pb_encode (Suc n) E m fs src s = Some (Some (), s\<lparr>sink := Buf_sink (buf_write b p ?bs) (p + length ?bs),
      bytes_written := bytes_written s + length ?bs\<rparr>)"
    using assms by (intro emits_Buf emits_flat) auto
  have room: "p + length ?bs \<le> length b" using assms(4,5,8) by (auto simp: wf_ostream_def)
  have d: "drop p (buf_write b p ?bs) = ?bs @ drop (p + length ?bs) b"
    "drop (p + length ?bs) (buf_write b p ?bs) = drop (p + length ?bs) b"
    using room by (auto simp: buf_write_def)
  obtain m'' where "pb_decode (Suc (Suc k)) D fs dest (buf_istream (?bs @ drop (p + length ?bs) b) (length ?bs) e, m') =
      Some (Some (), (buf_istream (drop (p + length ?bs) b) 0 e, m''))" "agree fs m src m'' dest"
    by (rule decode_flat [OF assms(1-3)])
  with enc d show ?thesis by auto
qed


theorem pb_message_roundtrip_witness:
  "\<exists>t b' p' m''. pb_encode (Suc 0) plain_env two_mem two_fields 1000 (pb_ostream_from_buffer (replicate 9 0) 9) = Some (Some (), t) \<and>
     sink t = Buf_sink b' p' \<and>
     pb_decode (Suc (Suc 0)) two_env two_fields 2000 (buf_istream (drop 0 b') (p' - 0) None, five_mem) =
       Some (Some (), (buf_istream (drop p' b') 0 None, m'')) \<and>
     agree two_fields two_mem 1000 m'' 2000"
  using two_ok by (intro pb_message_roundtrip flat_two) (simp_all add: wf_ostream_def pb_ostream_from_buffer_def)

text \<open>C2: the decoder accepts the fields of a message in any order, any number of times, and between
  values with tags that the message type does not have. If every required field is there, decoding
  succeeds at the end of the input; every field that occurred has its value (and its has-flag), and
  every optional field that did not occur is absent, whatever the structure contained before.\<close>

theorem pb_decode_any_order:
  assumes "flat fs" "encodable m fs src" "layout fs dest (stack_slot E (Suc k))" "list_all (item_ok m fs src) xs"
    and "\<forall>j < field_count fs. required (fs ! j) \<longrightarrow> j \<in> set (known_positions xs)"
  shows "\<exists>m''. pb_decode (Suc (Suc k)) E fs dest
      (buf_istream (items_bytes m fs src xs @ rest) (length (items_bytes m fs src xs)) e, m') =
        Some (Some (), (buf_istream rest 0 e, m'')) \<and>
    (\<forall>j < field_count fs. if j \<in> set (known_positions xs)
       then field_copied m (iter_at fs src j) m'' (iter_at fs dest j)
       else \<not> present m'' (iter_at fs dest j))"
proof -
  let ?bs = "items_bytes m fs src xs"
  obtain m1 where
    "\<And>j. j < field_count fs \<Longrightarrow> PB_HTYPE (ftype (fs ! j)) = PB_HTYPE_OPTIONAL \<Longrightarrow> cells m1 (pSize (iter_at fs dest j)) = 0"
    "pb_decode (Suc (Suc k)) E fs dest (buf_istream (?bs @ rest) (length ?bs) e, m') =
       Some (Some (), (buf_istream rest 0 e, copy_fields m fs src dest (known_positions xs) m1))"
    by (rule decode_items [OF assms(1-4), of rest e m']) (rule that; use assms(5) in blast)
  then show ?thesis
    using copy_fields_result [OF assms(1,3) _ known_positions_ok [OF assms(4)]] assms(5) by auto
qed

theorem pb_decode_any_order_witness:
  "\<exists>m''. pb_decode (Suc (Suc 0)) two_env two_fields 2000
      (buf_istream (items_bytes two_mem two_fields 1000 [Unknown PB_WT_STRING 9 (string_bytes [1, 2]), Known 0] @ [])
         (length (items_bytes two_mem two_fields 1000 [Unknown PB_WT_STRING 9 (string_bytes [1, 2]), Known 0])) None, five_mem) =
        Some (Some (), (buf_istream [] 0 None, m'')) \<and>
    (\<forall>j < field_count two_fields. if j \<in> set (known_positions [Unknown PB_WT_STRING 9 (string_bytes [1, 2]), Known 0])
       then field_copied two_mem (iter_at two_fields 1000 j) m'' (iter_at two_fields 2000 j)
       else \<not> present m'' (iter_at two_fields 2000 j))"
proof (rule pb_decode_any_order [OF flat_two(1)])
  show "list_all (item_ok two_mem two_fields 1000) [Unknown PB_WT_STRING 9 (string_bytes [1, 2]), Known 0]"
    using wire_value.string [of "[1, 2]"] flat_two(2)
    by (simp add: present_def two_cur two_nth PB_TYPE_defs) (simp add: two_fields_def)
  show "\<forall>j < field_count two_fields. required (two_fields ! j) \<longrightarrow>
      j \<in> set (known_positions [Unknown PB_WT_STRING 9 (string_bytes [1, 2]), Known 0])"
    unfolding flat_two(2) by (auto dest!: less_2_cases simp: required_def two_nth PB_TYPE_defs)
qed (simp_all add: two_ok [simplified])

text \<open>C15: decoding a message in which one of the first 64 required fields does not occur fails with
  \<open>missing required field\<close>, after the whole input has been read.\<close>

theorem pb_decode_missing_required:
  assumes "flat fs" "encodable m fs src" "layout fs dest (stack_slot E (Suc k))" "list_all (item_ok m fs src) xs"
    and "j < field_count fs" "required (fs ! j)" "required_before fs j < 64" "j \<notin> set (known_positions xs)"
  shows "\<exists>m''. pb_decode (Suc (Suc k)) E fs dest
      (buf_istream (items_bytes m fs src xs @ rest) (length (items_bytes m fs src xs)) None, m') =
        Some (None, (buf_istream rest 0 (Some ''missing required field''), m''))"
proof -
  obtain m1 where "pb_decode (Suc (Suc k)) E fs dest
      (buf_istream (items_bytes m fs src xs @ rest) (length (items_bytes m fs src xs)) None, m') =
      Some (None, (buf_istream rest 0 (Some ''missing required field''), copy_fields m fs src dest (known_positions xs) m1))"
    by (rule decode_items [OF assms(1-4), of rest None m']) (rule that; use assms(5-8) in auto)
  then show ?thesis by blast
qed

theorem pb_decode_missing_required_witness:
  "\<exists>m''. pb_decode (Suc (Suc 0)) two_env two_fields 2000
      (buf_istream (items_bytes two_mem two_fields 1000 [Known 1] @ [])
         (length (items_bytes two_mem two_fields 1000 [Known 1])) None, five_mem) =
        Some (None, (buf_istream [] 0 (Some ''missing required field''), m''))"
proof (rule pb_decode_missing_required [OF flat_two(1), where j = 0])
  show "list_all (item_ok two_mem two_fields 1000) [Known 1]"
    using flat_two(2) by (simp add: present_def two_iters two_mem_def)
  show "required (two_fields ! 0)" "0 < field_count two_fields" "required_before two_fields 0 < 64"
    unfolding flat_two(2) by (simp_all add: required_def two_nth PB_TYPE_defs required_before_def)
qed (simp_all add: two_ok [simplified])

end
