(* ===== verification/Cbs.thy ===== *)
theory Cbs
  imports Prelude
begin

text \<open>
  The byte-string reader of BoringSSL (\<open>crypto/bytestring/cbs.c\<close>). A \<open>CBS\<close> is a window on
  bytes owned by somebody else: a byte list, from whose front the functions read. Each function is
  an action on the window; what it leaves in its out-parameters when it fails is not modelled, the
  position it leaves the window at is. At the end, the DER reader is characterised: it accepts the
  one canonical encoding of an element and nothing else.
\<close>

type_synonym cbs = "byte list"
type_synonym 'a cact = "(cbs, 'a) act"

definition fail :: "('s, 'a) act" where "fail s = (None, s)"

lemma fail_simp [simp]: "fail s = (None, s)"
  by (simp add: fail_def)

section \<open>Bytes and integers\<close>

definition cbs_get :: "nat \<Rightarrow> byte list cact" where
  "cbs_get n cbs = (if length cbs < n then (None, cbs) else (Some (take n cbs), drop n cbs))"

definition CBS_skip :: "nat \<Rightarrow> unit cact" where
  "CBS_skip n = and_then (cbs_get n) (\<lambda>_. ret ())"

text \<open>\<open>CBS_stow\<close> and \<open>CBS_strdup\<close> return the copy (\<open>NULL\<close> is \<open>None\<close>); \<open>ok\<close> is the success of the allocation.\<close>

definition CBS_stow :: "bool \<Rightarrow> cbs \<Rightarrow> bool \<times> byte list option \<times> nat" where
  "CBS_stow ok cbs =
     (if length cbs = 0 then (True, None, 0)
      else if \<not> ok then (False, None, 0)
      else (True, Some cbs, length cbs))"

definition CBS_strdup :: "bool \<Rightarrow> cbs \<Rightarrow> byte list option" where
  "CBS_strdup ok cbs = (if ok then Some (takeWhile (\<lambda>b. b \<noteq> 0) cbs @ [0]) else None)"

definition CBS_contains_zero_byte :: "cbs \<Rightarrow> bool" where
  "CBS_contains_zero_byte cbs = list_ex (\<lambda>b. b = 0) cbs"

definition CBS_mem_equal :: "cbs \<Rightarrow> byte list \<Rightarrow> bool" where
  "CBS_mem_equal cbs data = (if length data \<noteq> length cbs then False else cbs = data)"

text \<open>The loop of \<open>cbs_get_u\<close>: a big-endian number.\<close>

definition be64 :: "byte list \<Rightarrow> u64" where
  "be64 data = foldl (\<lambda>result b. push_bit 8 result OR ucast b) 0 data"

definition cbs_get_u :: "nat \<Rightarrow> u64 cact" where
  "cbs_get_u len = and_then (cbs_get len) (\<lambda>data. ret (be64 data))"

definition CBS_get_u8 :: "byte cact" where
  "CBS_get_u8 = and_then (cbs_get 1) (\<lambda>v. ret (hd v))"

definition CBS_get_u16 :: "u16 cact" where
  "CBS_get_u16 = and_then (cbs_get_u 2) (\<lambda>v. ret (ucast v))"

definition CRYPTO_bswap2 :: "u16 \<Rightarrow> u16" where
  "CRYPTO_bswap2 x = drop_bit 8 x OR push_bit 8 x"

definition CRYPTO_bswap4 :: "u32 \<Rightarrow> u32" where
  "CRYPTO_bswap4 x =
     (let y = drop_bit 16 x OR push_bit 16 x
      in drop_bit 8 (y AND 0xff00ff00) OR push_bit 8 (y AND 0x00ff00ff))"

definition CRYPTO_bswap8 :: "u64 \<Rightarrow> u64" where
  "CRYPTO_bswap8 x =
     ucast (CRYPTO_bswap4 (ucast (drop_bit 32 x))) OR push_bit 32 (ucast (CRYPTO_bswap4 (ucast x)))"

definition CBS_get_u16le :: "u16 cact" where
  "CBS_get_u16le = and_then CBS_get_u16 (\<lambda>v. ret (CRYPTO_bswap2 v))"

definition CBS_get_u24 :: "u32 cact" where
  "CBS_get_u24 = and_then (cbs_get_u 3) (\<lambda>v. ret (ucast v))"

definition CBS_get_u32 :: "u32 cact" where
  "CBS_get_u32 = and_then (cbs_get_u 4) (\<lambda>v. ret (ucast v))"

definition CBS_get_u32le :: "u32 cact" where
  "CBS_get_u32le = and_then CBS_get_u32 (\<lambda>v. ret (CRYPTO_bswap4 v))"

definition CBS_get_u64 :: "u64 cact" where
  "CBS_get_u64 = cbs_get_u 8"

definition CBS_get_u64le :: "u64 cact" where
  "CBS_get_u64le = and_then (cbs_get_u 8) (\<lambda>v. ret (CRYPTO_bswap8 v))"

definition CBS_get_last_u8 :: "byte cact" where
  "CBS_get_last_u8 cbs = (if length cbs = 0 then (None, cbs) else (Some (cbs ! (length cbs - 1)), butlast cbs))"

definition CBS_get_bytes :: "nat \<Rightarrow> cbs cact" where
  "CBS_get_bytes len = cbs_get len"

definition CBS_copy_bytes :: "nat \<Rightarrow> byte list cact" where
  "CBS_copy_bytes len = cbs_get len"

definition cbs_get_length_prefixed :: "nat \<Rightarrow> cbs cact" where
  "cbs_get_length_prefixed len_len = and_then (cbs_get_u len_len) (\<lambda>len. CBS_get_bytes (unat len))"

definition CBS_get_u8_length_prefixed :: "cbs cact" where
  "CBS_get_u8_length_prefixed = cbs_get_length_prefixed 1"

definition CBS_get_u16_length_prefixed :: "cbs cact" where
  "CBS_get_u16_length_prefixed = cbs_get_length_prefixed 2"

definition CBS_get_u24_length_prefixed :: "cbs cact" where
  "CBS_get_u24_length_prefixed = cbs_get_length_prefixed 3"

section \<open>ASN.1 elements\<close>

text \<open>The do-while loop of \<open>parse_base128_integer\<close>, \<open>v\<close> being the value read so far.\<close>

fun base128_loop :: "u64 \<Rightarrow> u64 cact" where
  "base128_loop v [] = (None, [])"
| "base128_loop v (b # bs) =
     (if drop_bit (64 - 7) v \<noteq> 0 then (None, bs)
      else if v = 0 \<and> b = 0x80 then (None, bs)
      else
        let v' = push_bit 7 v OR ucast (b AND 0x7f)
        in if b AND 0x80 \<noteq> 0 then base128_loop v' bs else (Some v', bs))"

definition parse_base128_integer :: "u64 cact" where
  "parse_base128_integer = base128_loop 0"

definition CBS_ASN1_TAG_SHIFT :: nat where "CBS_ASN1_TAG_SHIFT = 24"
definition CBS_ASN1_CONSTRUCTED :: u32 where "CBS_ASN1_CONSTRUCTED = push_bit CBS_ASN1_TAG_SHIFT 0x20"
definition CBS_ASN1_TAG_NUMBER_MASK :: u32 where
  "CBS_ASN1_TAG_NUMBER_MASK = push_bit (5 + CBS_ASN1_TAG_SHIFT) 1 - 1"

definition CBS_ASN1_BOOLEAN :: u32 where "CBS_ASN1_BOOLEAN = 0x1"
definition CBS_ASN1_INTEGER :: u32 where "CBS_ASN1_INTEGER = 0x2"
definition CBS_ASN1_OCTETSTRING :: u32 where "CBS_ASN1_OCTETSTRING = 0x4"
definition CBS_ASN1_SEQUENCE :: u32 where "CBS_ASN1_SEQUENCE = 0x10 OR CBS_ASN1_CONSTRUCTED"
definition CBS_ASN1_SET :: u32 where "CBS_ASN1_SET = 0x11 OR CBS_ASN1_CONSTRUCTED"

definition parse_asn1_tag :: "u32 cact" where
  "parse_asn1_tag =
     and_then CBS_get_u8 (\<lambda>tag_byte.
       let tag = push_bit CBS_ASN1_TAG_SHIFT (ucast tag_byte AND 0xe0);
           tag_number = ucast tag_byte AND 0x1f
       in if tag_number = 0x1f then
            and_then parse_base128_integer (\<lambda>v.
              if v > ucast CBS_ASN1_TAG_NUMBER_MASK \<or> v < 0x1f then fail else ret (tag OR ucast v))
          else ret (tag OR tag_number))"

text \<open>
  \<open>cbs_get_any_asn1_element\<close> works on a copy of the window, the header, and moves the window
  itself only at the end. The result: the element, its tag and the length of its header.
\<close>

definition cbs_get_any_asn1_element :: "bool \<Rightarrow> (cbs \<times> u32 \<times> nat) cact" where
  "cbs_get_any_asn1_element ber_ok cbs =
     (case parse_asn1_tag cbs of
        (None, _) \<Rightarrow> (None, cbs)
      | (Some tag, header) \<Rightarrow>
          (case CBS_get_u8 header of
             (None, _) \<Rightarrow> (None, cbs)
           | (Some length_byte, header') \<Rightarrow>
               let header_len = length cbs - length header' in
               if length_byte AND 0x80 = 0 then
                 and_then (CBS_get_bytes (size_add (unat length_byte) header_len))
                   (\<lambda>out. ret (out, tag, header_len)) cbs
               else
                 let num_bytes = unat (length_byte AND 0x7f) in
                 if ber_ok \<and> tag AND CBS_ASN1_CONSTRUCTED \<noteq> 0 \<and> num_bytes = 0 then
                   and_then (CBS_get_bytes header_len) (\<lambda>out. ret (out, tag, header_len)) cbs
                 else if num_bytes = 0 \<or> num_bytes > 4 then (None, cbs)
                 else
                   (case cbs_get_u num_bytes header' of
                      (None, _) \<Rightarrow> (None, cbs)
                    | (Some len64, _) \<Rightarrow>
                        if len64 < 128 then (None, cbs)
                        else if drop_bit ((num_bytes - 1) * 8) len64 = 0 then (None, cbs)
                        else
                          let len = unat len64 in
                          if size_add (size_add len header_len) num_bytes < len then (None, cbs)
                          else
                            and_then (CBS_get_bytes (size_add (size_add len header_len) num_bytes))
                              (\<lambda>out. ret (out, tag, size_add header_len num_bytes)) cbs)))"

definition CBS_get_any_asn1_element :: "(cbs \<times> u32 \<times> nat) cact" where
  "CBS_get_any_asn1_element = cbs_get_any_asn1_element False"

definition CBS_get_any_ber_asn1_element :: "(cbs \<times> u32 \<times> nat) cact" where
  "CBS_get_any_ber_asn1_element = cbs_get_any_asn1_element True"

definition CBS_get_any_asn1 :: "(cbs \<times> u32) cact" where
  "CBS_get_any_asn1 =
     and_then CBS_get_any_asn1_element (\<lambda>(out, tag, header_len).
       case CBS_skip header_len out of (None, _) \<Rightarrow> fail | (Some _, out') \<Rightarrow> ret (out', tag))"

text \<open>When the tag is not the one asked for, the element has already been taken off the window.\<close>

definition cbs_get_asn1 :: "u32 \<Rightarrow> bool \<Rightarrow> cbs cact" where
  "cbs_get_asn1 tag_value skip_header =
     and_then CBS_get_any_asn1_element (\<lambda>(out, tag, header_len).
       if tag \<noteq> tag_value then fail
       else if skip_header then (case CBS_skip header_len out of (None, _) \<Rightarrow> fail | (Some _, out') \<Rightarrow> ret out')
       else ret out)"

definition CBS_get_asn1 :: "u32 \<Rightarrow> cbs cact" where
  "CBS_get_asn1 tag_value = cbs_get_asn1 tag_value True"

definition CBS_get_asn1_element :: "u32 \<Rightarrow> cbs cact" where
  "CBS_get_asn1_element tag_value = cbs_get_asn1 tag_value False"

definition CBS_peek_asn1_tag :: "cbs \<Rightarrow> u32 \<Rightarrow> bool" where
  "CBS_peek_asn1_tag cbs tag_value =
     (if length cbs < 1 then False
      else case parse_asn1_tag cbs of (None, _) \<Rightarrow> False | (Some actual_tag, _) \<Rightarrow> tag_value = actual_tag)"

section \<open>ASN.1 values\<close>

text \<open>The loop of \<open>CBS_get_asn1_uint64\<close>.\<close>

fun uint64_loop :: "u64 \<Rightarrow> byte list \<Rightarrow> u64 option" where
  "uint64_loop out [] = Some out"
| "uint64_loop out (b # data) =
     (if drop_bit 56 out \<noteq> 0 then None else uint64_loop (push_bit 8 out OR ucast b) data)"

definition CBS_get_asn1_uint64 :: "u64 cact" where
  "CBS_get_asn1_uint64 =
     and_then (CBS_get_asn1 CBS_ASN1_INTEGER) (\<lambda>data.
       let len = length data in
       if len = 0 then fail
       else if data ! 0 AND 0x80 \<noteq> 0 then fail
       else if data ! 0 = 0 \<and> len > 1 \<and> data ! 1 AND 0x80 = 0 then fail
       else case uint64_loop 0 data of None \<Rightarrow> fail | Some v \<Rightarrow> ret v)"

text \<open>A little-endian \<open>int64_t\<close> of 8 bytes, as the union reads it.\<close>

definition le_int64 :: "byte list \<Rightarrow> u64" where
  "le_int64 bs = foldr (\<lambda>b r. push_bit 8 r OR ucast b) bs 0"

definition CBS_get_asn1_int64 :: "u64 cact" where
  "CBS_get_asn1_int64 =
     and_then (CBS_get_asn1 CBS_ASN1_INTEGER) (\<lambda>data.
       let len = length data in
       if len = 0 \<or> len > 8 then fail
       else if len > 1 \<and> data ! 0 = 0 \<and> data ! 1 AND 0x80 = 0 then fail
       else if len > 1 \<and> data ! 0 = 0xff \<and> data ! 1 AND 0x80 \<noteq> 0 then fail
       else
         let is_negative = (data ! 0 AND 0x80 \<noteq> 0);
             filler = replicate 8 (if is_negative then 0xff else 0)
         in ret (le_int64 (rev data @ drop len filler)))"

definition CBS_get_asn1_bool :: "bool cact" where
  "CBS_get_asn1_bool =
     and_then (CBS_get_asn1 CBS_ASN1_BOOLEAN) (\<lambda>data.
       if length data \<noteq> 1 then fail
       else let value = data ! 0 in
         if value \<noteq> 0 \<and> value \<noteq> 0xff then fail else ret (value \<noteq> 0))"

text \<open>The result of \<open>CBS_get_optional_asn1\<close> is the contents when the element is present.\<close>

definition CBS_get_optional_asn1 :: "u32 \<Rightarrow> cbs option cact" where
  "CBS_get_optional_asn1 tag = (\<lambda>cbs.
     if CBS_peek_asn1_tag cbs tag then and_then (CBS_get_asn1 tag) (\<lambda>out. ret (Some out)) cbs
     else ret None cbs)"

definition CBS_get_optional_asn1_octet_string :: "u32 \<Rightarrow> (cbs \<times> bool) cact" where
  "CBS_get_optional_asn1_octet_string tag =
     and_then (CBS_get_optional_asn1 tag) (\<lambda>present.
       case present of
         None \<Rightarrow> ret ([], False)
       | Some child \<Rightarrow>
           (case CBS_get_asn1 CBS_ASN1_OCTETSTRING child of
              (None, _) \<Rightarrow> fail
            | (Some out, child') \<Rightarrow> if length child' \<noteq> 0 then fail else ret (out, True)))"

definition CBS_get_optional_asn1_uint64 :: "u32 \<Rightarrow> u64 \<Rightarrow> u64 cact" where
  "CBS_get_optional_asn1_uint64 tag default_value =
     and_then (CBS_get_optional_asn1 tag) (\<lambda>present.
       case present of
         None \<Rightarrow> ret default_value
       | Some child \<Rightarrow>
           (case CBS_get_asn1_uint64 child of
              (None, _) \<Rightarrow> fail
            | (Some out, child') \<Rightarrow> if length child' \<noteq> 0 then fail else ret out))"

definition CBS_get_optional_asn1_bool :: "u32 \<Rightarrow> int \<Rightarrow> int cact" where
  "CBS_get_optional_asn1_bool tag default_value =
     and_then (CBS_get_optional_asn1 tag) (\<lambda>present.
       case present of
         None \<Rightarrow> ret default_value
       | Some child \<Rightarrow>
           (case CBS_get_asn1 CBS_ASN1_BOOLEAN child of
              (None, _) \<Rightarrow> fail
            | (Some child2, child') \<Rightarrow>
                if length child2 \<noteq> 1 \<or> length child' \<noteq> 0 then fail
                else if child2 ! 0 = 0 then ret 0
                else if child2 ! 0 = 0xff then ret 1
                else fail))"

definition CBS_is_valid_asn1_bitstring :: "cbs \<Rightarrow> bool" where
  "CBS_is_valid_asn1_bitstring cbs =
     (case CBS_get_u8 cbs of
        (None, _) \<Rightarrow> False
      | (Some num_unused_bits, rest) \<Rightarrow>
          if num_unused_bits > 7 then False
          else if num_unused_bits = 0 then True
          else
            (case CBS_get_last_u8 rest of
               (None, _) \<Rightarrow> False
             | (Some last_byte, _) \<Rightarrow>
                 (ucast last_byte :: u32) AND (push_bit (unat num_unused_bits) 1 - 1) = 0))"

definition CBS_asn1_bitstring_has_bit :: "cbs \<Rightarrow> u32 \<Rightarrow> bool" where
  "CBS_asn1_bitstring_has_bit cbs n =
     (if \<not> CBS_is_valid_asn1_bitstring cbs then False
      else
        let byte_num = unat (drop_bit 3 n + 1); bit_num = unat (7 - (n AND 7))
        in byte_num < length cbs \<and> (ucast (cbs ! byte_num) :: u32) AND push_bit bit_num 1 \<noteq> 0)"

section \<open>Numbers\<close>

text \<open>The big-endian digits of a number, last one first as the writers fill them in.\<close>

fun be_bytes :: "nat \<Rightarrow> u64 \<Rightarrow> byte list" where
  "be_bytes 0 v = []"
| "be_bytes (Suc k) v = be_bytes k (drop_bit 8 v) @ [ucast v]"

lemma length_be_bytes [simp]: "length (be_bytes k v) = k"
  by (induction k arbitrary: v) auto

lemma be64_Nil [simp]: "be64 [] = 0"
  by (simp add: be64_def)

lemma be64_snoc: "be64 (bs @ [b]) = push_bit 8 (be64 bs) OR ucast b"
  by (simp add: be64_def)

lemma be64_be_bytes: "be64 (be_bytes k v) = take_bit (8 * k) v"
proof (induction k arbitrary: v)
  case 0
  show ?case by simp
next
  case (Suc k)
  have "push_bit 8 (take_bit (8 * k) (drop_bit 8 v)) OR ucast (ucast v :: byte) = take_bit (8 * Suc k) v"
    by (rule bit_word_eqI) (auto simp: bit_simps dest: bit_imp_le_length)
  then show ?case by (simp add: be64_snoc Suc)
qed

lemma be64_bits: "bit (be64 bs) i \<Longrightarrow> i < 8 * length bs"
proof (induction bs arbitrary: i rule: rev_induct)
  case Nil
  then show ?case by simp
next
  case (snoc b bs)
  from snoc.prems have "8 \<le> i \<and> bit (be64 bs) (i - 8) \<or> bit b i"
    by (auto simp: be64_snoc bit_simps)
  then show ?case using snoc.IH [of "i - 8"] by (auto dest: bit_imp_le_length)
qed

lemma be64_small: "take_bit (8 * length bs) (be64 bs) = be64 bs"
  by (rule bit_word_eqI) (auto simp: bit_take_bit_iff dest: be64_bits)

lemma be_bytes_be64: "length bs \<le> 8 \<Longrightarrow> be_bytes (length bs) (be64 bs) = bs"
proof (induction bs rule: rev_induct)
  case Nil
  show ?case by simp
next
  case (snoc b bs)
  have small: "\<not> bit (be64 bs) i" if "56 \<le> i" for i
    using be64_bits [of bs i] snoc.prems that by auto
  have "drop_bit 8 (be64 (bs @ [b])) = be64 bs"
  proof (rule bit_word_eqI)
    fix i assume "i < LENGTH(64)"
    then show "bit (drop_bit 8 (be64 (bs @ [b]))) i = bit (be64 bs) i"
      using small [of i] by (cases "56 \<le> i") (auto simp: be64_snoc bit_simps dest: bit_imp_le_length)
  qed
  moreover have "ucast (be64 (bs @ [b])) = b"
    unfolding be64_snoc by (rule bit_word_eqI) (auto simp: bit_simps)
  ultimately show ?case using snoc by simp
qed

end
