(* ===== verification/Der.thy ===== *)
theory Der
  imports Cbs
begin

text \<open>
  What the ASN.1 reader of \<open>Cbs\<close> accepts. The distinguished encoding of an identifier, of a length
  and of an element are given as functions; the reader returns exactly the elements whose encoding
  is at the front of the window.
\<close>

section \<open>Base-128 integers\<close>

function base128_hi :: "u64 \<Rightarrow> byte list" where
  "base128_hi v = (if v = 0 then [] else base128_hi (drop_bit 7 v) @ [0x80 OR ucast (v AND 0x7f)])"
  by pat_completeness auto
termination by (relation "measure unat") (auto intro: drop_bit_less)

declare base128_hi.simps [simp del]

definition base128_bytes :: "u64 \<Rightarrow> byte list" where
  "base128_bytes v = base128_hi (drop_bit 7 v) @ [ucast (v AND 0x7f)]"

lemma base128_hi_0 [simp]: "base128_hi 0 = []"
  by (simp add: base128_hi.simps)

text \<open>One more group of seven bits.\<close>

lemma base128_step:
  fixes v :: u64 and b :: byte
  assumes "drop_bit 57 v = 0"
  defines "w \<equiv> push_bit 7 v OR ucast (b AND 0x7f)"
  shows "drop_bit 7 w = v" "ucast (w AND 0x7f) = b AND 0x7f"
proof -
  have v: "bit v i \<Longrightarrow> i < 57" for i using assms(1) by (rule drop_bit_0_bits)
  show "drop_bit 7 w = v"
    unfolding w_def
    by (rule bit_word_eqI) (use v in \<open>auto simp: bit_simps const_bits dest: bit_imp_le_length\<close>)
  show "ucast (w AND 0x7f) = b AND 0x7f"
    unfolding w_def by (rule bit_word_eqI) (auto simp: bit_simps const_bits dest: bit_imp_le_length)
qed

lemma base128_join:
  fixes v :: u64
  shows "push_bit 7 (drop_bit 7 v) OR ucast (ucast (v AND 0x7f) AND (0x7f :: byte)) = v" (is "?l = _")
    and "push_bit 7 (drop_bit 7 v) OR ucast ((0x80 OR ucast (v AND 0x7f)) AND (0x7f :: byte)) = v" (is "?m = _")
proof -
  have "bit ?l n = bit v n" "bit ?m n = bit v n" if "n < 64" for n
    using that by (cases "n < 7"; auto simp: bit_simps const_bits dest: bit_imp_le_length)+
  then show "?l = v" "?m = v" by (auto intro: bit_word_eqI)
qed

lemma high_bit_set: "(0x80 OR (b :: byte)) AND 0x80 \<noteq> 0"
proof
  assume "(0x80 OR b) AND 0x80 = 0"
  then have "bit ((0x80 OR b) AND 0x80) 7 = bit (0 :: byte) 7" by (rule arg_cong)
  then show False by (simp add: bit_simps const_bits)
qed

lemma high_bit_clear: "(ucast (v AND 0x7f :: u64) :: byte) AND 0x80 = 0"
  by (rule bit_word_eqI) (auto simp: bit_simps const_bits)

lemma byte_split: "(b :: byte) AND 0x80 \<noteq> 0 \<Longrightarrow> 0x80 OR (b AND 0x7f) = b" "b AND 0x80 = 0 \<Longrightarrow> b AND 0x7f = b"
proof -
  have 7: "b AND 0x80 = (if bit b 7 then 0x80 else 0)"
    by (rule bit_word_eqI) (auto simp: bit_simps const_bits)
  have n7: "n < 8 \<Longrightarrow> n < 7 \<or> n = 7" for n :: nat by linarith
  show "b AND 0x80 \<noteq> 0 \<Longrightarrow> 0x80 OR (b AND 0x7f) = b"
    unfolding 7 by (rule bit_word_eqI) (auto simp: bit_simps const_bits dest!: n7 split: if_splits)
  show "b AND 0x80 = 0 \<Longrightarrow> b AND 0x7f = b"
    unfolding 7 by (rule bit_word_eqI) (auto simp: bit_simps const_bits dest!: n7 split: if_splits)
qed

lemma base128_loop_hi: "base128_loop 0 (base128_hi v @ t) = base128_loop v t"
proof (induction v arbitrary: t rule: base128_hi.induct)
  case (1 v)
  show ?case
  proof (cases "v = 0")
    case False
    let ?b = "0x80 OR ucast (v AND 0x7f) :: byte"
    have "\<not> (drop_bit 7 v = 0 \<and> ?b = 0x80)"
    proof
      assume "drop_bit 7 v = 0 \<and> ?b = 0x80"
      then have "v = ucast (0x80 AND (0x7f :: byte))"
        using base128_join(2) [of v] by simp
      with False show False by simp
    qed
    moreover have "drop_bit 57 (drop_bit 7 v) = 0" by (rule bit_word_eqI) (simp add: bit_simps)
    ultimately have "base128_loop (drop_bit 7 v) (?b # t) = base128_loop v t"
      using high_bit_set base128_join(2) [of v] by (auto simp: Let_def)
    then show ?thesis using 1 [OF False, of "?b # t"] False by (simp add: base128_hi.simps [of v])
  qed simp
qed

lemma parse_base128_bytes: "parse_base128_integer (base128_bytes v @ r) = (Some v, r)"
proof -
  have "drop_bit 57 (drop_bit 7 v) = 0" by (rule bit_word_eqI) (simp add: bit_simps)
  moreover have "(ucast (v AND 0x7f) :: byte) \<noteq> 0x80" using high_bit_clear [of v] by auto
  ultimately show ?thesis
    using high_bit_clear [of v] base128_join(1) [of v]
    by (simp add: parse_base128_integer_def base128_bytes_def base128_loop_hi Let_def)
qed

lemma base128_loop_canonical:
  "base128_loop v bs = (Some x, r) \<Longrightarrow> \<exists>p. bs = p @ r \<and> base128_hi v @ p = base128_bytes x"
proof (induction v bs rule: base128_loop.induct)
  case (1 v)
  then show ?case by simp
next
  case (2 v b bs)
  let ?w = "push_bit 7 v OR ucast (b AND 0x7f) :: u64"
  have ok: "drop_bit 57 v = 0" "\<not> (v = 0 \<and> b = 0x80)"
    using 2(2) by (auto split: if_splits)
  note step = base128_step [OF ok(1), of b]
  show ?case
  proof (cases "b AND 0x80 = 0")
    case True
    then have "x = ?w" "r = bs" using 2(2) ok by (auto simp: Let_def)
    then show ?thesis using step byte_split(2) [OF True] by (auto simp: base128_bytes_def)
  next
    case False
    have "?w \<noteq> 0"
    proof
      assume "?w = 0"
      then have "v = 0" "b AND 0x7f = 0" using step by auto
      then show False using byte_split(1) [OF False] ok(2) by simp
    qed
    then have hi: "base128_hi ?w = base128_hi v @ [b]"
      using step byte_split(1) [OF False] by (simp add: base128_hi.simps [of ?w])
    have "base128_loop ?w bs = (Some x, r)" using 2(2) ok False by (simp add: Let_def)
    then obtain p where "bs = p @ r" "base128_hi ?w @ p = base128_bytes x"
      using 2(1) ok False by auto
    then show ?thesis using hi by (intro exI [of _ "b # p"]) simp
  qed
qed

text \<open>The reader of base-128 integers inverts the encoding, and accepts nothing else.\<close>

lemma parse_base128_iff: "parse_base128_integer bs = (Some v, r) \<longleftrightarrow> bs = base128_bytes v @ r"
  using base128_loop_canonical [of 0 bs v r] parse_base128_bytes [of v r]
  by (auto simp: parse_base128_integer_def)

section \<open>Identifier octets\<close>

lemma bit_1F [const_bits]: "bit (0x1F :: 'a::len word) n \<longleftrightarrow> n < 5 \<and> n < LENGTH('a)"
proof -
  have "(0x1F :: 'a word) = mask 5" by (simp add: mask_numeral)
  then show ?thesis by (simp only: bit_mask_iff) (auto simp: exp_eq_0_imp_not_bit possible_bit_word)
qed

lemma bit_E0 [const_bits]: "bit (0xE0 :: 'a::len word) n \<longleftrightarrow> 5 \<le> n \<and> n < 8 \<and> n < LENGTH('a)"
proof -
  have "(0xE0 :: 'a word) = push_bit 5 (mask 3)" by (simp add: push_bit_eq_mult mask_numeral)
  then show ?thesis by (simp only: bit_push_bit_iff bit_mask_iff) (auto simp: possible_bit_word)
qed

lemma bit_1F_int [const_bits]: "bit (0x1F :: int) n \<longleftrightarrow> n < 5"
proof -
  have "(0x1F :: int) = mask 5" by (simp add: mask_numeral)
  then show ?thesis by (simp only: bit_mask_iff) simp
qed

lemma bit_E0_int [const_bits]: "bit (0xE0 :: int) n \<longleftrightarrow> 5 \<le> n \<and> n < 8"
proof -
  have "(0xE0 :: int) = push_bit 5 (mask 3)" by (simp add: push_bit_eq_mult mask_numeral)
  then show ?thesis by (simp only: bit_push_bit_iff bit_mask_iff) auto
qed

lemma bit_E0000000_int [const_bits]: "bit (0xE0000000 :: int) n \<longleftrightarrow> 29 \<le> n \<and> n < 32"
proof -
  have "(0xE0000000 :: int) = push_bit 29 (mask 3)" by (simp add: push_bit_eq_mult mask_numeral)
  then show ?thesis by (simp only: bit_push_bit_iff bit_mask_iff) auto
qed

lemma TAG_NUMBER_MASK: "CBS_ASN1_TAG_NUMBER_MASK = mask 29"
  by (simp add: CBS_ASN1_TAG_NUMBER_MASK_def CBS_ASN1_TAG_SHIFT_def mask_eq_exp_minus_1 push_bit_eq_mult)

lemma ucast_mask_29: "(ucast (mask 29 :: u32) :: u64) = mask 29"
  by (rule bit_word_eqI) (auto simp: bit_simps)

definition tag_class :: "u32 \<Rightarrow> byte" where
  "tag_class tag = ucast (drop_bit CBS_ASN1_TAG_SHIFT tag) AND 0xe0"

definition tag_number :: "u32 \<Rightarrow> u32" where
  "tag_number tag = tag AND CBS_ASN1_TAG_NUMBER_MASK"

definition der_tag :: "u32 \<Rightarrow> byte list" where
  "der_tag tag =
     (if tag_number tag \<ge> 0x1f then (tag_class tag OR 0x1f) # base128_bytes (ucast (tag_number tag))
      else [tag_class tag OR ucast (tag_number tag)])"

lemma CBS_get_u8_Nil [simp]: "CBS_get_u8 [] = (None, [])"
  by (simp add: CBS_get_u8_def cbs_get_def)

lemma CBS_get_u8_Cons [simp]: "CBS_get_u8 (b # bs) = (Some b, bs)"
  by (simp add: CBS_get_u8_def cbs_get_def)

lemma tag_class_bit: "bit (tag_class tag) n \<longleftrightarrow> 5 \<le> n \<and> n < 8 \<and> bit tag (24 + n)"
  by (auto simp: tag_class_def CBS_ASN1_TAG_SHIFT_def bit_simps const_bits)

lemma tag_number_bit: "bit (tag_number tag) n \<longleftrightarrow> n < 29 \<and> bit tag n"
  by (auto simp: tag_number_def TAG_NUMBER_MASK bit_simps)

lemma tag_number_take: "tag_number tag = take_bit 29 tag"
  by (rule bit_word_eqI) (auto simp: tag_number_bit bit_simps)

lemma number_split: "tag_number tag < 0x1f \<Longrightarrow> bit (tag_number tag) n \<Longrightarrow> n < 5"
  by (rule drop_bit_0_bits [of 5]) (simp_all add: drop_bit_0_iff word_less_nat_alt)

lemma ucast_less_1F: "(ucast (w :: u32) :: u64) < 0x1f \<longleftrightarrow> w < 0x1f"
  by (simp add: word_less_nat_alt unat_ucast_up)

lemma tag_join:
  "push_bit CBS_ASN1_TAG_SHIFT (ucast (tag_class tag OR 0x1f) AND 0xe0) OR tag_number tag = tag"
  "tag_number tag < 0x1f \<Longrightarrow>
   push_bit CBS_ASN1_TAG_SHIFT (ucast (tag_class tag OR ucast (tag_number tag)) AND 0xe0) OR tag_number tag = tag"
proof -
  show "push_bit CBS_ASN1_TAG_SHIFT (ucast (tag_class tag OR 0x1f) AND 0xe0) OR tag_number tag = tag" (is "?l = _")
  proof (rule bit_word_eqI)
    fix n assume "n < LENGTH(32)"
    then show "bit ?l n = bit tag n"
      by (cases "n < 29") (auto simp: tag_class_bit tag_number_bit bit_simps const_bits CBS_ASN1_TAG_SHIFT_def)
  qed
  assume small: "tag_number tag < 0x1f"
  show "push_bit CBS_ASN1_TAG_SHIFT (ucast (tag_class tag OR ucast (tag_number tag)) AND 0xe0) OR tag_number tag = tag"
    (is "?l = _")
  proof (rule bit_word_eqI)
    fix n assume "n < LENGTH(32)"
    then show "bit ?l n = bit tag n"
      using number_split [OF small, of "n - 24"]
      by (cases "n < 29") (auto simp: tag_class_bit tag_number_bit bit_simps const_bits CBS_ASN1_TAG_SHIFT_def)
  qed
qed

lemma tag_byte_number: "ucast (tag_class tag OR 0x1f) AND 0x1f = (0x1f :: u32)"
  by (rule bit_word_eqI) (auto simp: tag_class_bit bit_simps const_bits)

lemma tag_byte_small:
  "tag_number tag < 0x1f \<Longrightarrow> ucast (tag_class tag OR ucast (tag_number tag)) AND 0x1f = tag_number tag"
  by (rule bit_word_eqI)
    (auto simp: tag_class_bit tag_number_bit bit_simps const_bits dest: number_split)

lemma tag_number_le: "\<not> ucast CBS_ASN1_TAG_NUMBER_MASK < (ucast (tag_number tag) :: u64)"
proof -
  have "unat (tag_number tag) < 2 ^ 29"
    by (subst drop_bit_0_iff [symmetric]) (simp add: tag_number_take drop_bit_take_bit)
  then show ?thesis
    by (simp add: TAG_NUMBER_MASK word_less_nat_alt ucast_mask_29 unat_ucast_up mask_numeral)
qed

lemma parse_der_tag: "parse_asn1_tag (der_tag tag @ r) = (Some tag, r)"
proof (cases "tag_number tag < 0x1f")
  case True
  define b where "b = tag_class tag OR ucast (tag_number tag)"
  have "ucast b AND 0x1f = tag_number tag"
    "push_bit CBS_ASN1_TAG_SHIFT (ucast b AND 0xe0) OR tag_number tag = tag"
    unfolding b_def by (rule tag_byte_small [OF True], rule tag_join(2) [OF True])
  moreover have "tag_number tag \<noteq> 0x1f" using True by auto
  moreover have "der_tag tag = [b]" using True by (auto simp: der_tag_def b_def)
  ultimately show ?thesis by (simp add: parse_asn1_tag_def Let_def)
next
  case False
  then have "\<not> (ucast (tag_number tag) :: u64) < 0x1f" by (simp add: ucast_less_1F)
  moreover have "(ucast (ucast (tag_number tag) :: u64) :: u32) = tag_number tag"
    by (rule bit_word_eqI) (auto simp: bit_simps)
  moreover define b where "b = tag_class tag OR 0x1f"
  then have "ucast b AND 0x1f = (0x1f :: u32)"
    "push_bit CBS_ASN1_TAG_SHIFT (ucast b AND 0xe0) OR tag_number tag = tag"
    using tag_byte_number [of tag] tag_join(1) [of tag] by simp_all
  moreover have "der_tag tag = b # base128_bytes (ucast (tag_number tag))"
    using False by (auto simp: der_tag_def b_def)
  ultimately show ?thesis
    using tag_number_le [of tag] by (simp add: parse_asn1_tag_def Let_def parse_base128_bytes)
qed

lemma made_tag:
  fixes b :: byte and w :: u32
  assumes "drop_bit 29 w = 0"
  defines "tag \<equiv> push_bit CBS_ASN1_TAG_SHIFT (ucast b AND 0xe0) OR w"
  shows "tag_class tag = b AND 0xe0" "tag_number tag = w"
proof -
  note w = drop_bit_0_bits [OF assms(1)]
  show "tag_class tag = b AND 0xe0"
    unfolding tag_def
    by (rule bit_word_eqI)
      (auto simp: tag_class_bit bit_simps const_bits CBS_ASN1_TAG_SHIFT_def dest: bit_imp_le_length w)
  show "tag_number tag = w"
    unfolding tag_def
    by (rule bit_word_eqI) (use w in \<open>auto simp: tag_number_bit bit_simps const_bits CBS_ASN1_TAG_SHIFT_def dest: bit_imp_le_length\<close>)
qed

lemma byte_class_number: "(b AND 0xe0) OR ucast (ucast b AND 0x1f :: u32) = (b :: byte)"
proof (rule bit_word_eqI)
  fix n assume "n < LENGTH(8)"
  then show "bit ((b AND 0xe0) OR ucast (ucast b AND 0x1f :: u32)) n = bit b n"
    by (cases "n < 5") (auto simp: bit_simps const_bits)
qed

lemma parse_asn1_tag_only:
  assumes "parse_asn1_tag bs = (Some tag, r)"
  shows "bs = der_tag tag @ r"
proof (cases bs)
  case Nil
  with assms show ?thesis by (simp add: parse_asn1_tag_def and_then_def)
next
  case (Cons b bs')
  show ?thesis
  proof (cases "ucast b AND 0x1f = (0x1f :: u32)")
    case True
    with assms Cons obtain v where v: "parse_base128_integer bs' = (Some v, r)"
      "\<not> ucast CBS_ASN1_TAG_NUMBER_MASK < v" "\<not> v < 0x1f"
      "tag = push_bit CBS_ASN1_TAG_SHIFT (ucast b AND 0xe0) OR ucast v"
      by (auto simp: parse_asn1_tag_def Let_def elim!: and_then_SomeE split: if_splits)
    have "unat v < 2 ^ 29"
      using v(2) by (simp add: TAG_NUMBER_MASK ucast_mask_29 word_less_nat_alt mask_numeral)
    then have v29: "drop_bit 29 v = 0" by (simp add: drop_bit_0_iff)
    have "drop_bit 29 (ucast v :: u32) = 0"
      by (rule bit_word_eqI) (use drop_bit_0_bits [OF v29] in \<open>auto simp: bit_simps\<close>)
    from made_tag [OF this, of b] v(4)
    have tag: "tag_class tag = b AND 0xe0" "tag_number tag = ucast v" by auto
    have vv: "(ucast (ucast v :: u32) :: u64) = v"
      by (rule bit_word_eqI) (auto simp: bit_simps dest: drop_bit_0_bits [OF v29])
    have "\<not> tag_number tag < 0x1f" using v(3) vv tag(2) ucast_less_1F [of "ucast v"] by simp
    moreover have "(b AND 0xe0) OR 0x1f = b"
      using byte_class_number [of b] True by simp
    moreover have "bs' = base128_bytes v @ r" using v(1) by (simp add: parse_base128_iff)
    ultimately show ?thesis using tag vv Cons by (auto simp: der_tag_def)
  next
    case False
    with assms Cons have tag: "tag = push_bit CBS_ASN1_TAG_SHIFT (ucast b AND 0xe0) OR (ucast b AND 0x1f)" "r = bs'"
      by (auto simp: parse_asn1_tag_def Let_def)
    have "drop_bit 29 (ucast b AND 0x1f :: u32) = 0"
      by (rule bit_word_eqI) (auto simp: bit_simps const_bits)
    from made_tag [OF this, of b] tag(1)
    have t: "tag_class tag = b AND 0xe0" "tag_number tag = ucast b AND 0x1f" by auto
    have "drop_bit 5 (ucast b AND 0x1f :: u32) = 0"
      by (rule bit_word_eqI) (auto simp: bit_simps const_bits)
    then have "unat (ucast b AND 0x1f :: u32) < 32" unfolding drop_bit_0_iff by simp
    moreover have "unat (ucast b AND 0x1f :: u32) \<noteq> 31"
      using False by (metis of_nat_numeral of_nat_unat ucast_id)
    ultimately have "\<not> tag_number tag \<ge> 0x1f" using t(2) by (simp add: word_le_nat_alt)
    then show ?thesis using byte_class_number [of b] tag t Cons by (simp add: der_tag_def)
  qed
qed

lemma parse_asn1_tag_iff: "parse_asn1_tag bs = (Some tag, r) \<longleftrightarrow> bs = der_tag tag @ r"
  using parse_asn1_tag_only parse_der_tag by blast

section \<open>Length octets and elements\<close>

definition len_octets :: "nat \<Rightarrow> nat" where
  "len_octets n = (if n \<le> 0xff then 1 else if n \<le> 0xffff then 2 else if n \<le> 0xffffff then 3 else 4)"

definition der_length :: "nat \<Rightarrow> byte list" where
  "der_length n =
     (if n < 0x80 then [of_nat n] else of_nat (0x80 + len_octets n) # be_bytes (len_octets n) (of_nat n))"

definition der :: "u32 \<Rightarrow> byte list \<Rightarrow> byte list" where
  "der tag c = der_tag tag @ der_length (length c) @ c"

definition der_header :: "u32 \<Rightarrow> nat \<Rightarrow> byte list" where
  "der_header tag n = der_tag tag @ der_length n"

lemma len_octets_range: "1 \<le> len_octets n \<and> len_octets n \<le> 4"
  by (simp add: len_octets_def)

lemma len_octets_iff:
  assumes "1 \<le> k" "k \<le> 4" "128 \<le> n" "n < 2 ^ (8 * k)" "2 ^ (8 * (k - 1)) \<le> n"
  shows "len_octets n = k"
proof -
  consider "k = 1" | "k = 2" | "k = 3" | "k = 4" using assms(1,2) by linarith
  then show ?thesis using assms(3-5) by cases (auto simp: len_octets_def)
qed

lemma len_octets_bounds: "128 \<le> n \<Longrightarrow> n < 2 ^ 32 \<Longrightarrow>
  n < 2 ^ (8 * len_octets n) \<and> (2 ^ (8 * (len_octets n - 1)) \<le> n)"
  by (auto simp: len_octets_def)

lemma cbs_get_append [simp]: "length xs = n \<Longrightarrow> cbs_get n (xs @ r) = (Some xs, r)"
  by (simp add: cbs_get_def)

lemma cbs_get_Some: "cbs_get n bs = (Some xs, r) \<Longrightarrow> bs = xs @ r \<and> length xs = n"
  by (auto simp: cbs_get_def split: if_splits)

lemma cbs_get_u_be: "len \<le> 8 \<Longrightarrow> drop_bit (8 * len) v = 0 \<Longrightarrow> cbs_get_u len (be_bytes len v @ r) = (Some v, r)"
  by (simp add: cbs_get_u_def be64_be_bytes drop_bit_0_take)

text \<open>The reader accepts an element exactly when it is one in the distinguished encoding.\<close>

lemma byte_low_high: "(b :: byte) AND 0x80 = 0 \<longleftrightarrow> unat b < 128"
proof -
  have "b AND 0x80 = 0 \<longleftrightarrow> drop_bit 7 b = 0"
  proof
    assume "b AND 0x80 = 0"
    then have "b AND 0x7f = b" by (rule byte_split(2))
    then have "drop_bit 7 b = drop_bit 7 (b AND 0x7f)" by simp
    also have "\<dots> = 0" by (rule bit_word_eqI) (auto simp: bit_simps const_bits)
    finally show "drop_bit 7 b = 0" .
  next
    assume "drop_bit 7 b = 0"
    then show "b AND 0x80 = 0"
      by (intro bit_word_eqI) (auto simp: bit_simps const_bits dest: drop_bit_0_bits)
  qed
  then show ?thesis by (simp add: drop_bit_0_iff)
qed

lemma byte_low_part: "unat ((b :: byte) AND 0x7f) = unat b mod 128"
  unfolding and_mask_take_bit_7 unsigned_take_bit_eq by (simp add: take_bit_eq_mod)

lemma unat_of_nat_64: "n < 2 ^ 64 \<Longrightarrow> unat (of_nat n :: u64) = n"
  by (simp add: unat_of_nat take_bit_eq_mod)

lemma unat_of_nat_byte: "n < 256 \<Longrightarrow> unat (of_nat n :: byte) = n"
  by (simp add: unat_of_nat take_bit_eq_mod)

lemma der_length_short:
  assumes "n < 128"
  shows "der_length n = [of_nat n]" "(of_nat n :: byte) AND 0x80 = 0" "unat (of_nat n :: byte) = n"
  using assms by (simp_all add: der_length_def byte_low_high unat_of_nat_byte)

lemma der_length_long:
  assumes "128 \<le> n" "n < 2 ^ 32"
  defines "k \<equiv> len_octets n"
  defines "lb \<equiv> of_nat (0x80 + k) :: byte"
  shows "der_length n = lb # be_bytes k (of_nat n)" "lb AND 0x80 \<noteq> 0" "unat (lb AND 0x7f) = k" "1 \<le> k" "k \<le> 4"
    "drop_bit (8 * k) (of_nat n :: u64) = 0" "drop_bit ((k - 1) * 8) (of_nat n :: u64) \<noteq> 0"
    "\<not> (of_nat n :: u64) < 128" "unat (of_nat n :: u64) = n"
proof -
  show k: "1 \<le> k" "k \<le> 4" using len_octets_range by (simp_all add: k_def)
  have lb: "unat lb = 0x80 + k" unfolding lb_def using k by (intro unat_of_nat_byte) simp
  show "der_length n = lb # be_bytes k (of_nat n)" using assms(1) by (simp add: der_length_def k_def lb_def)
  show "lb AND 0x80 \<noteq> 0" using lb by (simp add: byte_low_high)
  show "unat (lb AND 0x7f) = k" using lb k by (simp add: byte_low_part)
  show n: "unat (of_nat n :: u64) = n" using assms(2) by (intro unat_of_nat_64) simp
  have "n < 2 ^ (8 * k)" "\<not> n < 2 ^ ((k - 1) * 8)"
    using len_octets_bounds [OF assms(1,2)] by (simp_all add: k_def mult.commute)
  then show "drop_bit (8 * k) (of_nat n :: u64) = 0" "drop_bit ((k - 1) * 8) (of_nat n :: u64) \<noteq> 0"
    unfolding drop_bit_0_iff n by auto
  show "\<not> (of_nat n :: u64) < 128" using n assms(1) by (simp add: word_less_nat_alt)
qed

lemma length_base128_hi: "length (base128_hi v) \<le> unat v"
proof (induction v rule: base128_hi.induct)
  case (1 v)
  show ?case
  proof (cases "v = 0")
    case False
    with drop_bit_less [of v 7] 1 [OF False] show ?thesis by (simp add: base128_hi.simps [of v])
  qed simp
qed

lemma length_der_tag: "length (der_tag tag) < 2 ^ 33"
proof -
  have "unat (drop_bit 7 (ucast (tag_number tag) :: u64)) < 2 ^ 32"
    by (subst drop_bit_0_iff [symmetric]) (rule bit_word_eqI; auto simp: bit_simps dest: bit_imp_le_length)
  with length_base128_hi [of "drop_bit 7 (ucast (tag_number tag))"]
  have "length (base128_hi (drop_bit 7 (ucast (tag_number tag)))) < 2 ^ 32" by linarith
  then show ?thesis by (auto simp: der_tag_def base128_bytes_def)
qed

lemma element_short:
  assumes "parse_asn1_tag cbs = (Some tag, lb # h)" "lb AND 0x80 = 0"
    and "length cbs = n + length h" "n \<le> 2 ^ 33"
  shows "cbs_get_any_asn1_element ber cbs =
    and_then (CBS_get_bytes (unat lb + n)) (\<lambda>out. ret (out, tag, n)) cbs"
proof -
  have "unat lb < 128" using assms(2) by (simp add: byte_low_high)
  then have "size_add (unat lb) n = unat lb + n" using assms(3,4) by (intro size_add_small) simp
  then show ?thesis using assms by (simp add: cbs_get_any_asn1_element_def Let_def)
qed

lemma element_long:
  assumes "parse_asn1_tag cbs = (Some tag, lb # h)" "lb AND 0x80 \<noteq> 0"
    and "unat (lb AND 0x7f) = k" "1 \<le> k" "k \<le> 4" "cbs_get_u k h = (Some len, h')"
    and "length cbs = n + length h" "n \<le> 2 ^ 33" "unat len < 2 ^ 32"
  shows "cbs_get_any_asn1_element ber cbs =
    (if len < 128 \<or> drop_bit ((k - 1) * 8) len = 0 then (None, cbs)
     else and_then (CBS_get_bytes (unat len + n + k)) (\<lambda>out. ret (out, tag, n + k)) cbs)"
proof -
  have "size_add (size_add (unat len) n) k = unat len + n + k" "size_add n k = n + k"
    using assms(5,7-9) by (simp_all add: size_add_def)
  then show ?thesis using assms(1-7) by (simp add: cbs_get_any_asn1_element_def Let_def)
qed

lemma get_element_der:
  assumes "length c < 2 ^ 32"
  shows "cbs_get_any_asn1_element ber (der tag c @ r) =
    (Some (der tag c, tag, length (der_header tag (length c))), r)"
proof (cases "length c < 128")
  case True
  note short = der_length_short [OF True]
  have "parse_asn1_tag (der tag c @ r) = (Some tag, of_nat (length c) # c @ r)"
    using short by (simp add: der_def parse_der_tag)
  moreover have len: "length (der tag c) = length (der_tag tag) + 1 + length c"
    using short by (simp add: der_def)
  ultimately show ?thesis
    using element_short [of "der tag c @ r" tag _ "c @ r" "length (der_tag tag) + 1"] length_der_tag [of tag] short
    by (simp add: der_header_def CBS_get_bytes_def)
next
  case False
  then have ge: "128 \<le> length c" by simp
  note long = der_length_long [OF ge assms]
  let ?k = "len_octets (length c)" and ?len = "of_nat (length c) :: u64"
  have "parse_asn1_tag (der tag c @ r) = (Some tag, of_nat (0x80 + ?k) # be_bytes ?k ?len @ c @ r)"
    unfolding der_def long(1) by (simp add: parse_der_tag)
  moreover have "cbs_get_u ?k (be_bytes ?k ?len @ c @ r) = (Some ?len, c @ r)"
    using long by (intro cbs_get_u_be) simp_all
  moreover have len: "length (der tag c) = length (der_tag tag) + 1 + ?k + length c"
    using long by (simp add: der_def)
  ultimately show ?thesis
    using element_long [of "der tag c @ r" tag _ _ ?k ?len "c @ r" "length (der_tag tag) + 1"] assms length_der_tag [of tag] long
    by (simp add: der_header_def CBS_get_bytes_def)
qed

lemma get_element_only:
  assumes "cbs_get_any_asn1_element False cbs = (Some (out, tag, n), r)"
  shows "\<exists>c. length c < 2 ^ 32 \<and> out = der tag c \<and> n = length (der_header tag (length c)) \<and> cbs = out @ r"
proof -
  from assms obtain t lb h where tag: "parse_asn1_tag cbs = (Some t, lb # h)"
    by (auto simp: cbs_get_any_asn1_element_def CBS_get_u8_def cbs_get_def and_then_def hd_conv_nth neq_Nil_conv
        Suc_le_eq not_less split: option.splits prod.splits if_splits)
  then have cbs: "cbs = der_tag t @ lb # h" by (simp add: parse_asn1_tag_iff)
  let ?m = "length (der_tag t) + 1"
  have m: "length cbs = ?m + length h" and m33: "?m \<le> 2 ^ 33"
    using cbs length_der_tag [of t] by simp_all
  show ?thesis
  proof (cases "lb AND 0x80 = 0")
    case True
    with element_short [OF tag True m m33] assms
    have get: "cbs_get (unat lb + ?m) cbs = (Some out, r)" and t: "t = tag" "n = ?m"
      by (auto simp: CBS_get_bytes_def elim!: and_then_SomeE)
    define c where "c = take (unat lb) h"
    have "unat lb < 128" using True by (simp add: byte_low_high)
    moreover have c: "out = der_tag tag @ lb # c" "cbs = out @ r" "length c = unat lb"
      using get cbs t by (auto simp: cbs_get_def c_def split: if_splits)
    ultimately have "der_length (length c) = [lb]" by (simp add: der_length_short(1))
    with c t \<open>unat lb < 128\<close> show ?thesis
      by (intro exI [of _ c]) (simp add: der_def der_header_def)
  next
    case False
    define k where "k = unat (lb AND 0x7f)"
    from assms tag False obtain len h' where k: "1 \<le> k" "k \<le> 4" and u: "cbs_get_u k h = (Some len, h')"
      by (auto simp: cbs_get_any_asn1_element_def Let_def k_def Suc_le_eq split: option.splits prod.splits if_splits)
    from u obtain xs where xs: "h = xs @ h'" "length xs = k" "len = be64 xs"
      by (auto simp: cbs_get_u_def dest!: cbs_get_Some elim!: and_then_SomeE)
    then have len: "drop_bit (8 * k) len = 0" "be_bytes k len = xs"
      using be64_small [of xs] be_bytes_be64 [of xs] k by (auto simp: take_bit_eq_self_iff_drop_bit_eq_0)
    have len32: "unat len < 2 ^ (8 * k)" "unat len < 2 ^ 32"
    proof -
      show "unat len < 2 ^ (8 * k)" using len(1) by (simp add: drop_bit_0_iff)
      also have "(2::nat) ^ (8 * k) \<le> 2 ^ 32" using k by (intro power_increasing) auto
      finally show "unat len < 2 ^ 32" .
    qed
    from element_long [OF tag False k_def [symmetric] k u m m33 len32(2)] assms
    have ok: "\<not> len < 128" "drop_bit ((k - 1) * 8) len \<noteq> 0" and t: "t = tag" "n = ?m + k"
      and get: "cbs_get (unat len + ?m + k) cbs = (Some out, r)"
      by (auto simp: CBS_get_bytes_def elim!: and_then_SomeE split: if_splits)
    have ge: "128 \<le> unat len" using ok(1) by (simp add: word_less_nat_alt)
    have k_eq: "len_octets (unat len) = k"
      using ok(2) len32 ge k by (intro len_octets_iff) (simp_all add: drop_bit_0_iff mult.commute)
    have "lb = of_nat (0x80 + k)"
    proof -
      have "unat lb < 2 ^ LENGTH(8)" by (rule unsigned_less)
      moreover have "128 \<le> unat lb" using False by (simp add: byte_low_high)
      moreover have "x = 0x80 + x mod 128" if "128 \<le> x" "x < 256" for x :: nat
        using that le_mod_geq [of 128 x] by simp
      ultimately have "unat lb = 0x80 + k" by (simp add: k_def byte_low_part)
      then show ?thesis by (metis of_nat_unat ucast_id)
    qed
    then have der_len: "der_length (unat len) = lb # xs"
      using k_eq ge len(2) by (simp add: der_length_def)
    define c where "c = take (unat len) h'"
    have "out = der_tag tag @ lb # xs @ c" "cbs = out @ r" "length c = unat len"
      using get cbs t xs by (auto simp: cbs_get_def c_def split: if_splits)
    with der_len t len32 xs show ?thesis
      by (intro exI [of _ c]) (simp add: der_def der_header_def)
  qed
qed

text \<open>C5: \<open>CBS_get_any_asn1_element\<close> (in fact \<open>cbs_get_any_asn1_element\<close> without BER) accepts
  exactly the distinguished encodings: it returns an element, its tag and its header's length and
  leaves the rest if and only if the window starts with the unique DER encoding of that tag and of
  some contents shorter than \<open>2^32\<close> bytes. Non-minimal tags, non-minimal or indefinite lengths and
  truncated contents are all refused.\<close>

theorem get_any_asn1_element_iff_der:
  "CBS_get_any_asn1_element cbs = (Some (out, tag, n), r) \<longleftrightarrow>
    (\<exists>c. length c < 2 ^ 32 \<and> out = der tag c \<and> n = length (der_header tag (length c)) \<and> cbs = out @ r)"
  using get_element_only [of cbs out tag n r] get_element_der [of _ False tag r]
  unfolding CBS_get_any_asn1_element_def by auto

text \<open>The reader of contents is thus a codec for pairs of a tag and contents.\<close>

definition dec_any :: "byte list \<Rightarrow> ((u32 \<times> byte list) \<times> byte list) option" where
  "dec_any bs = (case CBS_get_any_asn1 bs of (None, _) \<Rightarrow> None | (Some (c, tag), r) \<Rightarrow> Some ((tag, c), r))"

lemma get_any_der: "length c < 2 ^ 32 \<Longrightarrow> CBS_get_any_asn1 (der tag c @ r) = (Some (c, tag), r)"
  using get_element_der [of c False tag r]
  by (simp add: CBS_get_any_asn1_def CBS_get_any_asn1_element_def CBS_skip_def)
    (simp add: der_def der_header_def cbs_get_def)

interpretation der: codec "\<lambda>(tag, c). der tag c" dec_any "\<lambda>(tag, c). length c < 2 ^ 32"
  by unfold_locales (auto simp: dec_any_def get_any_der)

lemma get_asn1_der:
  assumes "length c < 2 ^ 32"
  shows "CBS_get_asn1 t (der tag c @ r) = (if tag = t then (Some c, r) else (None, r))"
    and "CBS_get_asn1_element t (der tag c @ r) = (if tag = t then (Some (der tag c), r) else (None, r))"
  using get_element_der [OF assms, of False tag r]
  by (simp_all add: CBS_get_asn1_def CBS_get_asn1_element_def cbs_get_asn1_def CBS_get_any_asn1_element_def CBS_skip_def)
    (simp_all add: der_def der_header_def cbs_get_def)

lemma peek_der: "CBS_peek_asn1_tag (der tag c @ r) t \<longleftrightarrow> tag = t"
proof -
  have "der tag c @ r \<noteq> []" by (simp add: der_def der_tag_def)
  then show ?thesis by (auto simp: CBS_peek_asn1_tag_def der_def parse_der_tag)
qed

end
