(* ===== verification/Cbb.thy ===== *)
theory Cbb
  imports Der
begin

text \<open>
  The byte-string builder of BoringSSL (\<open>crypto/bytestring/cbb.c\<close>). A \<open>CBB\<close> owns a growing buffer;
  children opened in it share the buffer and carry the place of a length prefix that is filled in
  when the parent is next used. Only one child is open at each level, so the structures reachable
  from the root form a chain. The state keeps the buffer and this chain, and a handle is its depth:
  0 is the root, \<open>d + 1\<close> the child of \<open>d\<close>. A handle deeper than the chain is one whose
  \<open>base\<close> the code has reset to \<open>NULL\<close>.
\<close>

section \<open>The buffer\<close>

text \<open>
  \<open>cbuf\<close> is the whole storage, \<open>cap\<close> bytes long, \<open>clen\<close> the part in use. \<open>realloc_ok\<close> says which
  reallocations succeed, \<open>reallocs\<close> counts them, and \<open>fresh\<close> is the unspecified contents of new storage.
\<close>

record cbb_buffer =
  cbuf :: "byte list"
  clen :: nat
  can_resize :: bool
  berror :: bool
  realloc_ok :: "nat \<Rightarrow> bool"
  reallocs :: nat
  fresh :: "nat \<Rightarrow> byte"

definition ccap :: "cbb_buffer \<Rightarrow> nat" where "ccap b = length (cbuf b)"

definition buffer_error :: "(cbb_buffer, 'a) act" where
  "buffer_error b = (None, b\<lparr>berror := True\<rparr>)"

text \<open>The result of \<open>cbb_buffer_reserve\<close> and of \<open>cbb_buffer_add\<close> is \<open>*out\<close> as an offset.\<close>

definition cbb_buffer_reserve :: "nat \<Rightarrow> (cbb_buffer, nat) act" where
  "cbb_buffer_reserve len b =
     (let newlen = size_add (clen b) len in
      if newlen < clen b then buffer_error b
      else if newlen > ccap b then
        let newcap = size_mul (ccap b) 2 in
        if \<not> can_resize b then buffer_error b
        else
          let newcap = (if newcap < ccap b \<or> newcap < newlen then newlen else newcap);
              k = reallocs b
          in if \<not> realloc_ok b k then buffer_error (b\<lparr>reallocs := k + 1\<rparr>)
             else
               (Some (clen b),
                b\<lparr>reallocs := k + 1, cbuf := cbuf b @ map (fresh b) [ccap b..<newcap]\<rparr>)
      else (Some (clen b), b))"

definition cbb_buffer_add :: "nat \<Rightarrow> (cbb_buffer, nat) act" where
  "cbb_buffer_add len =
     and_then (cbb_buffer_reserve len) (\<lambda>out b. (Some out, b\<lparr>clen := clen b + len\<rparr>))"

definition write_at :: "nat \<Rightarrow> byte list \<Rightarrow> cbb_buffer \<Rightarrow> cbb_buffer" where
  "write_at off bs b = b\<lparr>cbuf := take off (cbuf b) @ bs @ drop (off + length bs) (cbuf b)\<rparr>"

definition cbb_buffer_add_u :: "u64 \<Rightarrow> nat \<Rightarrow> (cbb_buffer, unit) act" where
  "cbb_buffer_add_u v len_len =
     (if len_len = 0 then ret ()
      else and_then (cbb_buffer_add len_len) (\<lambda>out b.
        let b' = write_at out (be_bytes len_len v) b
        in if drop_bit (8 * len_len) v \<noteq> 0 then buffer_error b' else (Some (), b')))"

section \<open>The chain of children\<close>

record cbb_child =
  coffset :: nat
  pending_len_len :: nat
  pending_is_asn1 :: bool

record cbb =
  base :: "cbb_buffer option"
  children :: "cbb_child list"

type_synonym 'a bact = "(cbb, 'a) act"

text \<open>The prefix of an ASN.1 element: its number of bytes, its first byte, and the number the others hold.\<close>

definition asn1_prefix :: "nat \<Rightarrow> (nat \<times> byte \<times> nat) option" where
  "asn1_prefix len =
     (if len > 0xfffffffe then None
      else if len > 0xffffff then Some (5, 0x80 OR 4, len)
      else if len > 0xffff then Some (4, 0x80 OR 3, len)
      else if len > 0xff then Some (3, 0x80 OR 2, len)
      else if len > 0x7f then Some (2, 0x80 OR 1, len)
      else Some (1, of_nat len, 0))"

text \<open>The end of \<open>CBB_flush\<close>: the loop that fills in the prefix.\<close>

definition fill_prefix :: "nat \<Rightarrow> nat \<Rightarrow> nat \<Rightarrow> (cbb_buffer, unit) act" where
  "fill_prefix off n len b =
     (let b' = write_at off (be_bytes n (of_nat len)) b
      in if drop_bit (8 * n) (of_nat len :: u64) \<noteq> 0 then buffer_error b' else (Some (), b'))"

definition close_child :: "cbb_child \<Rightarrow> (cbb_buffer, unit) act" where
  "close_child c b =
     (let child_start = size_add (coffset c) (pending_len_len c) in
      if child_start < coffset c \<or> clen b < child_start then buffer_error b
      else
        let len = clen b - child_start in
        if pending_is_asn1 c then
          (case asn1_prefix len of
             None \<Rightarrow> buffer_error b
           | Some (len_len, initial_length_byte, len') \<Rightarrow>
               let extra_bytes = len_len - 1 in
               (case (if len_len \<noteq> 1
                      then and_then (cbb_buffer_add extra_bytes) (\<lambda>_ b.
                        (Some (), write_at (child_start + extra_bytes) (take len (drop child_start (cbuf b))) b)) b
                      else (Some (), b)) of
                  (None, b') \<Rightarrow> buffer_error b'
                | (Some _, b') \<Rightarrow>
                    fill_prefix (coffset c + 1) extra_bytes len' (write_at (coffset c) [initial_length_byte] b')))
        else fill_prefix (coffset c) (pending_len_len c) len b)"

text \<open>
  The recursion of \<open>CBB_flush\<close> along the chain below a handle: whether it succeeds, what stays of
  the chain and the buffer.
\<close>

fun flush_chain :: "cbb_child list \<Rightarrow> cbb_buffer \<Rightarrow> bool \<times> cbb_child list \<times> cbb_buffer" where
  "flush_chain cs b =
     (if berror b then (False, cs, b)
      else case cs of
        [] \<Rightarrow> (True, [], b)
      | c # cs' \<Rightarrow>
          if pending_len_len c = 0 then (True, cs, b)
          else
            (case flush_chain cs' b of
               (False, rest, b') \<Rightarrow> (False, c # rest, b'\<lparr>berror := True\<rparr>)
             | (True, rest, b') \<Rightarrow>
                 (case close_child c b' of
                    (None, b'') \<Rightarrow> (False, c # rest, b'')
                  | (Some _, b'') \<Rightarrow> (True, [], b''))))"

declare flush_chain.simps [simp del]

definition CBB_flush :: "nat \<Rightarrow> unit bact" where
  "CBB_flush d s =
     (case base s of
        None \<Rightarrow> (None, s)
      | Some b \<Rightarrow>
          if length (children s) < d then (None, s)
          else
            (case flush_chain (drop d (children s)) b of
               (ok, rest, b') \<Rightarrow>
                 (if ok then Some () else None, s\<lparr>base := Some b', children := take d (children s) @ rest\<rparr>)))"

definition on_base :: "(cbb_buffer, 'a) act \<Rightarrow> 'a bact" where
  "on_base f s =
     (case base s of
        None \<Rightarrow> (None, s)
      | Some b \<Rightarrow> (case f b of (r, b') \<Rightarrow> (r, s\<lparr>base := Some b'\<rparr>)))"

definition base_len :: "nat bact" where
  "base_len = on_base (\<lambda>b. (Some (clen b), b))"

section \<open>Starting and finishing\<close>

definition CBB_zero :: cbb where
  "CBB_zero = \<lparr>base = None, children = []\<rparr>"

definition cbb_init :: "bool \<Rightarrow> (nat \<Rightarrow> bool) \<Rightarrow> (nat \<Rightarrow> byte) \<Rightarrow> byte list \<Rightarrow> unit bact" where
  "cbb_init struct_ok oracle junk storage s =
     (if \<not> struct_ok then (None, s)
      else
        (Some (),
         s\<lparr>base := Some \<lparr>cbuf = storage, clen = 0, can_resize = True, berror = False,
                        realloc_ok = oracle, reallocs = 0, fresh = junk\<rparr>\<rparr>))"

definition CBB_init :: "bool \<Rightarrow> bool \<Rightarrow> (nat \<Rightarrow> bool) \<Rightarrow> (nat \<Rightarrow> byte) \<Rightarrow> nat \<Rightarrow> unit option \<times> cbb" where
  "CBB_init buf_ok struct_ok oracle junk initial_capacity =
     (if initial_capacity > 0 \<and> \<not> buf_ok then (None, CBB_zero)
      else cbb_init struct_ok oracle junk (map junk [0..<initial_capacity]) CBB_zero)"

definition CBB_init_fixed :: "bool \<Rightarrow> (nat \<Rightarrow> bool) \<Rightarrow> (nat \<Rightarrow> byte) \<Rightarrow> byte list \<Rightarrow> unit option \<times> cbb" where
  "CBB_init_fixed struct_ok oracle junk buf =
     and_then (cbb_init struct_ok oracle junk buf)
       (\<lambda>_. on_base (\<lambda>b. (Some (), b\<lparr>can_resize := False\<rparr>))) CBB_zero"

text \<open>\<open>wants\<close>: whether the caller passes both out-parameters. The result is \<open>(*out_data)[0..*out_len]\<close>.\<close>

definition CBB_finish :: "bool \<Rightarrow> nat \<Rightarrow> byte list bact" where
  "CBB_finish wants d =
     (if d \<noteq> 0 then (\<lambda>s. (None, s))
      else and_then (CBB_flush d) (\<lambda>_ s.
        case base s of
          None \<Rightarrow> (None, s)
        | Some b \<Rightarrow>
            if can_resize b \<and> \<not> wants then (None, s)
            else (Some (take (clen b) (cbuf b)), s\<lparr>base := None\<rparr>)))"

text \<open>\<open>CBB_cleanup\<close>; what is given back to the allocator is not modelled.\<close>

definition CBB_cleanup :: "cbb \<Rightarrow> cbb" where
  "CBB_cleanup s = s\<lparr>base := None\<rparr>"

text \<open>
  \<open>CBB_finish_i2d\<close> (\<open>asn1_compat.c\<close>). The argument stands for \<open>outp\<close>: \<open>NULL\<close>, a pointer to \<open>NULL\<close>, or a
  pointer into a buffer of the caller, given with the offset it points at; the result has its new
  value. That the caller's buffer is long enough is the caller's duty.
\<close>

definition CBB_finish_i2d ::
    "(byte list \<times> nat) option option \<Rightarrow> cbb \<Rightarrow> int \<times> (byte list \<times> nat) option option \<times> cbb" where
  "CBB_finish_i2d outp s =
     (case CBB_finish True 0 s of
        (None, s') \<Rightarrow> (-1, outp, CBB_cleanup s')
      | (Some out, s') \<Rightarrow>
          if length out > INT_MAX then (-1, outp, s')
          else
            (int (length out),
             (case outp of
                None \<Rightarrow> None
              | Some None \<Rightarrow> Some (Some (out, 0))
              | Some (Some (buf, p)) \<Rightarrow>
                  Some (Some (take p buf @ out @ drop (p + length out) buf, p + length out))),
             s'))"

text \<open>The offset of the data of a handle and its length.\<close>

definition own_prefix :: "nat \<Rightarrow> cbb \<Rightarrow> nat \<times> nat" where
  "own_prefix d s =
     (if d = 0 then (0, 0)
      else (coffset (children s ! (d - 1)), pending_len_len (children s ! (d - 1))))"

definition CBB_data :: "nat \<Rightarrow> cbb \<Rightarrow> nat" where
  "CBB_data d s = (case own_prefix d s of (off, n) \<Rightarrow> off + n)"

definition CBB_len :: "nat \<Rightarrow> cbb \<Rightarrow> nat" where
  "CBB_len d s = (case own_prefix d s of (off, n) \<Rightarrow> size_sub (size_sub (clen (the (base s))) off) n)"

section \<open>Children\<close>

definition push_child :: "nat \<Rightarrow> cbb_child \<Rightarrow> unit bact" where
  "push_child d c s = (Some (), s\<lparr>children := take d (children s) @ [c]\<rparr>)"

definition cbb_add_length_prefixed :: "nat \<Rightarrow> nat \<Rightarrow> unit bact" where
  "cbb_add_length_prefixed len_len d =
     and_then (CBB_flush d) (\<lambda>_.
       and_then base_len (\<lambda>offset.
         and_then (on_base (cbb_buffer_add len_len)) (\<lambda>prefix_bytes.
           and_then (on_base (\<lambda>b. (Some (), write_at prefix_bytes (replicate len_len 0) b))) (\<lambda>_.
             push_child d \<lparr>coffset = offset, pending_len_len = len_len, pending_is_asn1 = False\<rparr>))))"

definition CBB_add_u8_length_prefixed :: "nat \<Rightarrow> unit bact" where
  "CBB_add_u8_length_prefixed d = cbb_add_length_prefixed 1 d"

definition CBB_add_u16_length_prefixed :: "nat \<Rightarrow> unit bact" where
  "CBB_add_u16_length_prefixed d = cbb_add_length_prefixed 2 d"

definition CBB_add_u24_length_prefixed :: "nat \<Rightarrow> unit bact" where
  "CBB_add_u24_length_prefixed d = cbb_add_length_prefixed 3 d"

definition cbb_add_u :: "u64 \<Rightarrow> nat \<Rightarrow> nat \<Rightarrow> unit bact" where
  "cbb_add_u v len_len d = and_then (CBB_flush d) (\<lambda>_. on_base (cbb_buffer_add_u v len_len))"

definition CBB_add_u8 :: "nat \<Rightarrow> byte \<Rightarrow> unit bact" where
  "CBB_add_u8 d v = cbb_add_u (ucast v) 1 d"

definition CBB_add_u16 :: "nat \<Rightarrow> u16 \<Rightarrow> unit bact" where
  "CBB_add_u16 d v = cbb_add_u (ucast v) 2 d"

definition CBB_add_u16le :: "nat \<Rightarrow> u16 \<Rightarrow> unit bact" where
  "CBB_add_u16le d v = CBB_add_u16 d (CRYPTO_bswap2 v)"

definition CBB_add_u24 :: "nat \<Rightarrow> u32 \<Rightarrow> unit bact" where
  "CBB_add_u24 d v = cbb_add_u (ucast v) 3 d"

definition CBB_add_u32 :: "nat \<Rightarrow> u32 \<Rightarrow> unit bact" where
  "CBB_add_u32 d v = cbb_add_u (ucast v) 4 d"

definition CBB_add_u32le :: "nat \<Rightarrow> u32 \<Rightarrow> unit bact" where
  "CBB_add_u32le d v = CBB_add_u32 d (CRYPTO_bswap4 v)"

definition CBB_add_u64 :: "nat \<Rightarrow> u64 \<Rightarrow> unit bact" where
  "CBB_add_u64 d v = cbb_add_u v 8 d"

definition CBB_add_u64le :: "nat \<Rightarrow> u64 \<Rightarrow> unit bact" where
  "CBB_add_u64le d v = CBB_add_u64 d (CRYPTO_bswap8 v)"

text \<open>The two loops of \<open>add_base128_integer\<close>: the number of groups, then the groups from the top.\<close>

function base128_len :: "u64 \<Rightarrow> nat" where
  "base128_len copy = (if copy = 0 then 0 else base128_len (drop_bit 7 copy) + 1)"
  by pat_completeness auto
termination by (relation "measure unat") (auto intro: drop_bit_less)

declare base128_len.simps [simp del]

fun base128_out :: "nat \<Rightarrow> u64 \<Rightarrow> nat \<Rightarrow> unit bact" where
  "base128_out d v 0 = ret ()"
| "base128_out d v (Suc i) =
     (let b = (ucast (drop_bit (7 * i) v) :: byte) AND 0x7f;
          b = (if i \<noteq> 0 then b OR 0x80 else b)
      in and_then (CBB_add_u8 d b) (\<lambda>_. base128_out d v i))"

definition add_base128_integer :: "nat \<Rightarrow> u64 \<Rightarrow> unit bact" where
  "add_base128_integer d v =
     (let len_len = base128_len v in base128_out d v (if len_len = 0 then 1 else len_len))"

definition CBB_add_asn1 :: "nat \<Rightarrow> u32 \<Rightarrow> unit bact" where
  "CBB_add_asn1 d t =
     and_then (CBB_flush d) (\<lambda>_.
       let tag_bits = (ucast (drop_bit CBS_ASN1_TAG_SHIFT t) :: byte) AND 0xe0;
           number = t AND CBS_ASN1_TAG_NUMBER_MASK
       in and_then
            (if number \<ge> 0x1f
             then and_then (CBB_add_u8 d (tag_bits OR 0x1f)) (\<lambda>_. add_base128_integer d (ucast number))
             else CBB_add_u8 d (tag_bits OR ucast number)) (\<lambda>_.
          and_then base_len (\<lambda>offset.
            and_then (CBB_add_u8 d 0) (\<lambda>_.
              push_child d \<lparr>coffset = offset, pending_len_len = 1, pending_is_asn1 = True\<rparr>))))"

section \<open>Bytes\<close>

definition CBB_add_bytes :: "nat \<Rightarrow> byte list \<Rightarrow> unit bact" where
  "CBB_add_bytes d bs =
     and_then (CBB_flush d) (\<lambda>_.
       on_base (and_then (cbb_buffer_add (length bs)) (\<lambda>dest b. (Some (), write_at dest bs b))))"

definition CBB_add_space :: "nat \<Rightarrow> nat \<Rightarrow> nat bact" where
  "CBB_add_space d len = and_then (CBB_flush d) (\<lambda>_. on_base (cbb_buffer_add len))"

definition CBB_reserve :: "nat \<Rightarrow> nat \<Rightarrow> nat bact" where
  "CBB_reserve d len = and_then (CBB_flush d) (\<lambda>_. on_base (cbb_buffer_reserve len))"

definition CBB_did_write :: "nat \<Rightarrow> nat \<Rightarrow> unit bact" where
  "CBB_did_write d len s =
     on_base (\<lambda>b.
       let newlen = size_add (clen b) len
       in if d < length (children s) \<or> newlen < clen b \<or> newlen > ccap b then (None, b)
          else (Some (), b\<lparr>clen := newlen\<rparr>)) s"

definition CBB_discard_child :: "nat \<Rightarrow> cbb \<Rightarrow> cbb" where
  "CBB_discard_child d s =
     (if \<not> d < length (children s) then s
      else s\<lparr>base := map_option (\<lambda>b. b\<lparr>clen := coffset (children s ! d)\<rparr>) (base s),
             children := take d (children s)\<rparr>)"

section \<open>ASN.1 values\<close>

text \<open>The loop of \<open>CBB_add_asn1_uint64\<close> over the bytes still to come; its result is \<open>started\<close>.\<close>

fun uint64_out :: "nat \<Rightarrow> u64 \<Rightarrow> bool \<Rightarrow> nat list \<Rightarrow> bool bact" where
  "uint64_out child v started [] = ret started"
| "uint64_out child v started (i # is) =
     (let b = ucast (drop_bit (8 * (7 - i)) v AND 0xff) :: byte in
      if \<not> started \<and> b = 0 then uint64_out child v started is
      else
        and_then (if \<not> started \<and> b AND 0x80 \<noteq> 0 then CBB_add_u8 child 0 else ret ()) (\<lambda>_.
          and_then (CBB_add_u8 child b) (\<lambda>_. uint64_out child v True is)))"

definition CBB_add_asn1_uint64 :: "nat \<Rightarrow> u64 \<Rightarrow> unit bact" where
  "CBB_add_asn1_uint64 d v =
     and_then (CBB_add_asn1 d CBS_ASN1_INTEGER) (\<lambda>_.
       and_then (uint64_out (d + 1) v False [0..<8]) (\<lambda>started.
         and_then (if \<not> started then CBB_add_u8 (d + 1) 0 else ret ()) (\<lambda>_. CBB_flush d)))"

definition int64_byte :: "u64 \<Rightarrow> nat \<Rightarrow> byte" where
  "int64_byte v i = ucast (drop_bit (8 * i) v)"

fun skip_sign_bytes :: "u64 \<Rightarrow> nat \<Rightarrow> nat" where
  "skip_sign_bytes v 0 = 0"
| "skip_sign_bytes v (Suc start) =
     (if int64_byte v (Suc start) = 0xff \<and> int64_byte v start AND 0x80 \<noteq> 0
      then skip_sign_bytes v start else Suc start)"

fun int64_out :: "nat \<Rightarrow> u64 \<Rightarrow> nat \<Rightarrow> unit bact" where
  "int64_out child v 0 = CBB_add_u8 child (int64_byte v 0)"
| "int64_out child v (Suc i) = and_then (CBB_add_u8 child (int64_byte v (Suc i))) (\<lambda>_. int64_out child v i)"

definition CBB_add_asn1_int64 :: "nat \<Rightarrow> u64 \<Rightarrow> unit bact" where
  "CBB_add_asn1_int64 d v =
     (if \<not> bit v 63 then CBB_add_asn1_uint64 d v
      else
        let start = skip_sign_bytes v 7 in
        and_then (CBB_add_asn1 d CBS_ASN1_INTEGER) (\<lambda>_.
          and_then (int64_out (d + 1) v start) (\<lambda>_. CBB_flush d)))"

definition CBB_add_asn1_octet_string :: "nat \<Rightarrow> byte list \<Rightarrow> unit bact" where
  "CBB_add_asn1_octet_string d bs =
     and_then (CBB_add_asn1 d CBS_ASN1_OCTETSTRING) (\<lambda>_.
       and_then (CBB_add_bytes (d + 1) bs) (\<lambda>_. CBB_flush d))"

definition CBB_add_asn1_bool :: "nat \<Rightarrow> bool \<Rightarrow> unit bact" where
  "CBB_add_asn1_bool d v =
     and_then (CBB_add_asn1 d CBS_ASN1_BOOLEAN) (\<lambda>_.
       and_then (CBB_add_u8 (d + 1) (if v then 0xff else 0)) (\<lambda>_. CBB_flush d))"

end
