(* ===== verification/CbbFacts.thy ===== *)
theory CbbFacts
  imports Cbb
begin

text \<open>
  What the builder of \<open>Cbb\<close> writes. \<open>close_all\<close> is the specification of \<open>CBB_flush\<close>: the
  bytes that result from closing a chain of children. \<open>appends d f t\<close> says that the action \<open>f\<close>
  closes what is open below the handle \<open>d\<close> and then appends the bytes of \<open>t\<close> to the handle, or
  sets the error flag when they cannot be built or do not fit; it composes. \<open>outputs\<close> is the same
  for actions that may also fail without the flag, as parsers do when their input is malformed.
\<close>

section \<open>The buffer\<close>

definition stored :: "cbb_buffer \<Rightarrow> byte list" where
  "stored b = take (clen b) (cbuf b)"

definition wf_buf :: "cbb_buffer \<Rightarrow> bool" where
  "wf_buf b \<longleftrightarrow> clen b \<le> ccap b \<and> clen b < 2 ^ 64"

text \<open>\<open>room n b\<close>: the buffer can grow to \<open>n\<close> bytes.\<close>

definition room :: "nat \<Rightarrow> cbb_buffer \<Rightarrow> bool" where
  "room n b \<longleftrightarrow> n < 2 ^ 64 \<and> (n \<le> ccap b \<or> can_resize b \<and> (\<forall>k\<ge>reallocs b. realloc_ok b k))"

definition room_le :: "cbb_buffer \<Rightarrow> cbb_buffer \<Rightarrow> bool" where
  "room_le b b' \<longleftrightarrow> (\<forall>n. room n b \<longrightarrow> room n b') \<and> can_resize b' = can_resize b \<and> (\<not> can_resize b \<longrightarrow> ccap b' = ccap b)"

lemma room_mono: "room n b \<Longrightarrow> m \<le> n \<Longrightarrow> room m b"
  by (auto simp: room_def)

lemma room_le_refl [simp]: "room_le b b"
  by (simp add: room_le_def)

lemma room_le_trans: "room_le a b \<Longrightarrow> room_le b c \<Longrightarrow> room_le a c"
  by (simp add: room_le_def)

lemma room_leD: "room_le b b' \<Longrightarrow> room n b \<Longrightarrow> room n b'"
  by (simp add: room_le_def)

lemma length_stored [simp]: "wf_buf b \<Longrightarrow> length (stored b) = clen b"
  by (simp add: stored_def wf_buf_def ccap_def)

lemma room_error [simp]: "room n (b\<lparr>berror := e\<rparr>) = room n b" "stored (b\<lparr>berror := e\<rparr>) = stored b"
  "ccap (b\<lparr>berror := e\<rparr>) = ccap b" "wf_buf (b\<lparr>berror := e\<rparr>) = wf_buf b" "room_le a (b\<lparr>berror := e\<rparr>) = room_le a b"
  by (simp_all add: room_def stored_def wf_buf_def ccap_def room_le_def)

text \<open>Writing inside the part in use.\<close>

lemma write_at_facts:
  assumes "wf_buf b" "off + length bs \<le> clen b"
  shows "wf_buf (write_at off bs b)" "room_le b (write_at off bs b)" "clen (write_at off bs b) = clen b"
    "berror (write_at off bs b) = berror b"
    "stored (write_at off bs b) = take off (stored b) @ bs @ drop (off + length bs) (stored b)"
  using assms by (cases "off = clen b"; auto simp: write_at_def wf_buf_def ccap_def room_le_def room_def stored_def min_def take_drop)+

lemma reserve_cases:
  assumes "wf_buf b" "len < 2 ^ 64" "\<not> berror b"
  obtains b' where "cbb_buffer_reserve len b = (Some (clen b), b')" "wf_buf b'" "room_le b b'" "\<not> berror b'"
      "clen b' = clen b" "stored b' = stored b" "clen b + len \<le> ccap b'" "clen b + len < 2 ^ 64"
  | b' where "cbb_buffer_reserve len b = (None, b')" "wf_buf b'" "room_le b b'" "berror b'" "\<not> room (clen b + len) b"
proof (cases "2 ^ 64 \<le> clen b + len")
  case True
  then show ?thesis using assms
    by (intro that(2) [of "b\<lparr>berror := True\<rparr>"])
      (auto simp: cbb_buffer_reserve_def buffer_error_def size_add_wraps_iff room_def Let_def wf_buf_def)
next
  case False
  then have n: "size_add (clen b) len = clen b + len" by (simp add: size_add_def)
  show ?thesis
  proof (cases "clen b + len \<le> ccap b")
    case True
    with False n assms show ?thesis
      by (intro that(1)) (auto simp: cbb_buffer_reserve_def Let_def)
  next
    case big: False
    show ?thesis
    proof (cases "can_resize b \<and> realloc_ok b (reallocs b)")
      case True
      define newcap where
        "newcap = (if size_mul (ccap b) 2 < ccap b \<or> size_mul (ccap b) 2 < clen b + len then clen b + len
           else size_mul (ccap b) 2)"
      define b' where "b' = b\<lparr>reallocs := reallocs b + 1, cbuf := cbuf b @ map (fresh b) [ccap b..<newcap]\<rparr>"
      have cap: "ccap b' = newcap" "clen b + len \<le> newcap"
        using big by (auto simp: b'_def ccap_def newcap_def)
      have "cbb_buffer_reserve len b = (Some (clen b), b')"
        using n big True by (simp add: cbb_buffer_reserve_def b'_def newcap_def Let_def)
      moreover have "wf_buf b'" "stored b' = stored b" "clen b' = clen b" "\<not> berror b'"
        using assms cap big by (auto simp: wf_buf_def stored_def b'_def ccap_def)
      moreover have "room_le b b'"
        using True cap big by (auto simp: room_le_def room_def b'_def)
      ultimately show ?thesis using cap False by (intro that(1) [of b']) auto
    next
      case no: False
      define b' where "b' = (if can_resize b then b\<lparr>reallocs := reallocs b + 1, berror := True\<rparr> else b\<lparr>berror := True\<rparr>)"
      with no n big assms show ?thesis
        by (intro that(2) [of b'])
          (auto simp: cbb_buffer_reserve_def buffer_error_def room_def Let_def wf_buf_def ccap_def room_le_def)
    qed
  qed
qed

text \<open>Appending bytes: \<open>cbb_buffer_add\<close> followed by a write of all of them.\<close>

lemma add_cases:
  assumes "wf_buf b" "len < 2 ^ 64" "\<not> berror b"
  obtains b' where "cbb_buffer_add len b = (Some (clen b), b')" "wf_buf b'" "room_le b b'" "\<not> berror b'"
      "clen b' = clen b + len"
      "\<And>bs. length bs = len \<Longrightarrow> stored (write_at (clen b) bs b') = stored b @ bs"
      "take (clen b) (stored b') = stored b"
  | b' where "cbb_buffer_add len b = (None, b')" "wf_buf b'" "room_le b b'" "berror b'" "\<not> room (clen b + len) b"
proof (rule reserve_cases [OF assms, of thesis])
  fix b' assume r: "cbb_buffer_reserve len b = (Some (clen b), b')" "wf_buf b'" "room_le b b'" "\<not> berror b'"
      "clen b' = clen b" "stored b' = stored b" "clen b + len \<le> ccap b'" "clen b + len < 2 ^ 64"
  let ?b = "b'\<lparr>clen := clen b' + len\<rparr>"
  have "cbb_buffer_add len b = (Some (clen b), ?b)" using r by (simp add: cbb_buffer_add_def)
  moreover have wf: "wf_buf ?b" using r by (simp add: wf_buf_def ccap_def)
  moreover have "room_le b ?b" using r(3) by (auto simp: room_le_def room_def ccap_def)
  moreover have "take (clen b) (stored ?b) = stored b"
    using r(5-7) by (simp add: stored_def min_def flip: r(6))
  moreover have "stored (write_at (clen b) bs ?b) = stored b @ bs" if "length bs = len" for bs
    using that r(5) calculation(4) wf by (subst write_at_facts(5)) simp_all
  ultimately show thesis using r by (intro that(1) [of ?b]) (auto intro: room_le_trans)
next
  fix b' assume "cbb_buffer_reserve len b = (None, b')" "wf_buf b'" "room_le b b'" "berror b'" "\<not> room (clen b + len) b"
  then show thesis by (intro that(2)) (auto simp: cbb_buffer_add_def)
qed

text \<open>
  \<open>ends b t (r, b')\<close>: from \<open>b\<close> the code ends in \<open>b'\<close> with the target \<open>t\<close> stored, or with the
  error flag set because there is no target or no room for it.
\<close>

definition ends :: "cbb_buffer \<Rightarrow> byte list option \<Rightarrow> 'a option \<times> cbb_buffer \<Rightarrow> bool" where
  "ends b t rb \<longleftrightarrow> wf_buf (snd rb) \<and> room_le b (snd rb) \<and>
     (if fst rb = None then berror (snd rb) \<and> (\<forall>X. t = Some X \<longrightarrow> \<not> room (length X) b)
      else \<not> berror (snd rb) \<and> t = Some (stored (snd rb)))"

lemma ends_error: "wf_buf b' \<Longrightarrow> room_le b b' \<Longrightarrow> (\<And>X. t = Some X \<Longrightarrow> \<not> room (length X) b) \<Longrightarrow>
  ends b t (buffer_error b')"
  by (simp add: ends_def buffer_error_def)

lemma ends_failed: "wf_buf b' \<Longrightarrow> room_le b b' \<Longrightarrow> berror b' \<Longrightarrow> (\<And>X. t = Some X \<Longrightarrow> \<not> room (length X) b) \<Longrightarrow>
  ends b t (None, b')"
  by (simp add: ends_def)

lemma ends_ok: "wf_buf b' \<Longrightarrow> room_le b b' \<Longrightarrow> \<not> berror b' \<Longrightarrow> t = Some (stored b') \<Longrightarrow> ends b t (Some x, b')"
  by (simp add: ends_def)

lemma write_ends:
  assumes "wf_buf b" "len < 2 ^ 64" "\<not> berror b" "length bs = len"
  shows "ends b (Some (stored b @ bs)) (and_then (cbb_buffer_add len) (\<lambda>out b. (Some (), write_at out bs b)) b)"
proof (rule add_cases [OF assms(1-3)])
  fix b' assume b': "cbb_buffer_add len b = (Some (clen b), b')" "wf_buf b'" "room_le b b'" "\<not> berror b'"
    "clen b' = clen b + len" "\<And>bs. length bs = len \<Longrightarrow> stored (write_at (clen b) bs b') = stored b @ bs"
  then show ?thesis using assms(4) write_at_facts [of b' "clen b" bs]
    by (auto intro!: ends_ok intro: room_le_trans)
next
  fix b' assume "cbb_buffer_add len b = (None, b')" "wf_buf b'" "room_le b b'" "berror b'" "\<not> room (clen b + len) b"
  then show ?thesis using assms by (auto intro!: ends_failed)
qed

lemma add_u_ends:
  assumes "wf_buf b" "1 \<le> n" "n \<le> 8" "\<not> berror b"
  shows "ends b (if drop_bit (8 * n) v = 0 then Some (stored b @ be_bytes n v) else None) (cbb_buffer_add_u v n b)"
proof (rule add_cases [of b n])
  fix b' assume b': "cbb_buffer_add n b = (Some (clen b), b')" "wf_buf b'" "room_le b b'" "\<not> berror b'"
    "clen b' = clen b + n" "\<And>bs. length bs = n \<Longrightarrow> stored (write_at (clen b) bs b') = stored b @ bs"
  let ?b = "write_at (clen b) (be_bytes n v) b'"
  have "wf_buf ?b" "room_le b ?b" "\<not> berror ?b"
    using b' write_at_facts [of b' "clen b" "be_bytes n v"] by (auto intro: room_le_trans)
  with b' assms(2) show ?thesis
    by (auto simp: cbb_buffer_add_u_def intro!: ends_ok ends_error)
next
  fix b' assume "cbb_buffer_add n b = (None, b')" "wf_buf b'" "room_le b b'" "berror b'" "\<not> room (clen b + n) b"
  with assms show ?thesis by (auto simp: cbb_buffer_add_u_def intro!: ends_failed)
qed (use assms in auto)

section \<open>Closing children\<close>

definition prefix_of :: "cbb_child \<Rightarrow> nat \<Rightarrow> byte list option" where
  "prefix_of c n =
     (if pending_is_asn1 c then (if n \<le> 0xfffffffe then Some (der_length n) else None)
      else if n < 256 ^ pending_len_len c then Some (be_bytes (pending_len_len c) (of_nat n)) else None)"

definition close_one :: "cbb_child \<Rightarrow> byte list \<Rightarrow> byte list option" where
  "close_one c B =
     (let start = coffset c + pending_len_len c
      in map_option (\<lambda>p. take (coffset c) B @ p @ drop start B) (prefix_of c (length B - start)))"

fun close_all :: "cbb_child list \<Rightarrow> byte list \<Rightarrow> byte list option" where
  "close_all [] B = Some B"
| "close_all (c # cs) B = Option.bind (close_all cs B) (close_one c)"

fun wf_chain :: "nat \<Rightarrow> cbb_child list \<Rightarrow> nat \<Rightarrow> bool" where
  "wf_chain lo [] n = (lo \<le> n)"
| "wf_chain lo (c # cs) n =
     (lo \<le> coffset c \<and> 1 \<le> pending_len_len c \<and> pending_len_len c \<le> 8 \<and>
      (pending_is_asn1 c \<longrightarrow> pending_len_len c = 1) \<and> wf_chain (coffset c + pending_len_len c) cs n)"

lemma wf_chain_le: "wf_chain lo cs n \<Longrightarrow> lo \<le> n"
  by (induction cs arbitrary: lo) force+

lemma asn1_prefix_None: "asn1_prefix n = None \<longleftrightarrow> 0xfffffffe < n"
  by (simp add: asn1_prefix_def)

lemma asn1_prefix_Some:
  assumes "asn1_prefix n = Some (k, l, m)"
  shows "1 \<le> k" "k \<le> 5" "n \<le> 0xfffffffe" "der_length n = l # be_bytes (k - 1) (of_nat m)"
    "drop_bit (8 * (k - 1)) (of_nat m :: u64) = 0"
proof -
  show "1 \<le> k" "k \<le> 5" "n \<le> 0xfffffffe"
    using assms by (auto simp: asn1_prefix_def split: if_splits)
  have "der_length n = l # be_bytes (k - 1) (of_nat m) \<and> drop_bit (8 * (k - 1)) (of_nat m :: u64) = 0"
  proof (cases "n < 128")
    case True
    with assms show ?thesis by (auto simp: asn1_prefix_def der_length_def)
  next
    case False
    with assms have m: "m = n" "n < 2 ^ 32" "k = len_octets n + 1" "l = of_nat (0x80 + len_octets n)"
      by (auto simp: asn1_prefix_def len_octets_def split: if_splits)
    then show ?thesis
      using der_length_long [of n] False by simp
  qed
  then show "der_length n = l # be_bytes (k - 1) (of_nat m)" "drop_bit (8 * (k - 1)) (of_nat m :: u64) = 0"
    by auto
qed

lemma fill_prefix_facts:
  assumes "wf_buf b" "off + n \<le> clen b" "\<not> berror b"
  shows "fill_prefix off n m b = (if drop_bit (8 * n) (of_nat m :: u64) = 0 then (Some (), write_at off (be_bytes n (of_nat m)) b)
    else buffer_error (write_at off (be_bytes n (of_nat m)) b))"
    "wf_buf (write_at off (be_bytes n (of_nat m)) b)"
    "stored (write_at off (be_bytes n (of_nat m)) b) =
      take off (stored b) @ be_bytes n (of_nat m) @ drop (off + n) (stored b)"
    "room_le b (write_at off (be_bytes n (of_nat m)) b)"
    "\<not> berror (write_at off (be_bytes n (of_nat m)) b)"
  using write_at_facts [of b off "be_bytes n (of_nat m)"] assms by (simp_all add: fill_prefix_def)

lemma of_nat_fits: "m < 2 ^ 64 \<Longrightarrow> drop_bit (8 * n) (of_nat m :: u64) = 0 \<longleftrightarrow> m < 256 ^ n"
proof -
  assume "m < 2 ^ 64"
  have "(256 :: nat) ^ n = 2 ^ (8 * n)" by (simp add: power_mult)
  then show ?thesis using unat_of_nat_64 [OF \<open>m < 2 ^ 64\<close>] by (simp add: drop_bit_0_iff)
qed

lemma close_child_plain:
  assumes "wf_buf b" "\<not> berror b" "coffset c + pending_len_len c \<le> clen b" "\<not> pending_is_asn1 c"
  shows "ends b (close_one c (stored b)) (close_child c b)"
proof -
  let ?start = "coffset c + pending_len_len c"
  have b: "clen b < 2 ^ 64" using assms(1) by (simp add: wf_buf_def)
  then have start: "size_add (coffset c) (pending_len_len c) = ?start"
    using assms(3) by (simp add: size_add_def)
  have len: "length (stored b) - ?start < 2 ^ 64" using b assms(1) by simp
  note f = fill_prefix_facts [OF assms(1,3,2), of "clen b - ?start"]
  show ?thesis
    using assms start f of_nat_fits [of "clen b - ?start" "pending_len_len c"] b
    by (auto simp: close_child_def Let_def close_one_def prefix_of_def not_less intro!: ends_ok ends_error)
qed

lemma close_child_asn1:
  assumes "wf_buf b" "\<not> berror b" "coffset c + 1 \<le> clen b" "pending_is_asn1 c" "pending_len_len c = 1"
  shows "ends b (close_one c (stored b)) (close_child c b)"
proof -
  let ?start = "coffset c + 1" and ?n = "clen b - (coffset c + 1)"
  have b: "clen b < 2 ^ 64" using assms(1) by (simp add: wf_buf_def)
  then have start: "size_add (coffset c) 1 = ?start" using assms(3) by (simp add: size_add_def)
  show ?thesis
  proof (cases "asn1_prefix ?n")
    case None
    then have "0xfffffffe < ?n" by (simp add: asn1_prefix_None)
    with None assms start show ?thesis
      by (auto simp: close_child_def Let_def close_one_def prefix_of_def intro!: ends_error)
  next
    case (Some p)
    then obtain k l m where p: "asn1_prefix ?n = Some (k, l, m)" by (cases p) auto
    note a = asn1_prefix_Some [OF p]
    have target: "close_one c (stored b) = Some (take (coffset c) (stored b) @ (l # be_bytes (k - 1) (of_nat m)) @ drop ?start (stored b))"
      using assms a by (simp add: close_one_def prefix_of_def)
    define moved where "moved = (if k \<noteq> 1
      then and_then (cbb_buffer_add (k - 1)) (\<lambda>_ b.
        (Some (), write_at (?start + (k - 1)) (take ?n (drop ?start (cbuf b))) b)) b
      else (Some (), b))"
    have cc: "close_child c b = (case moved of (None, b') \<Rightarrow> buffer_error b'
        | (Some _, b') \<Rightarrow> fill_prefix ?start (k - 1) m (write_at (coffset c) [l] b'))"
      using assms start p by (simp add: close_child_def Let_def moved_def split: prod.split option.split)
    have moved_cases: "(\<exists>b'. moved = (Some (), b') \<and> wf_buf b' \<and> room_le b b' \<and> \<not> berror b' \<and> clen b' = clen b + (k - 1)
          \<and> take ?start (stored b') = take ?start (stored b) \<and> drop (?start + (k - 1)) (stored b') = drop ?start (stored b))
        \<or> (\<exists>b'. moved = (None, b') \<and> wf_buf b' \<and> room_le b b' \<and> \<not> room (clen b + (k - 1)) b)"
    proof (cases "k = 1")
      case True
      with assms show ?thesis by (simp add: moved_def)
    next
      case False
      show ?thesis
      proof (rule add_cases [OF assms(1), of "k - 1"])
        fix b1 assume b1: "cbb_buffer_add (k - 1) b = (Some (clen b), b1)" "wf_buf b1" "room_le b b1" "\<not> berror b1"
          "clen b1 = clen b + (k - 1)" "take (clen b) (stored b1) = stored b"
        let ?d = "take ?n (drop ?start (cbuf b1))"
        have "stored b = take (clen b) (cbuf b1)"
          using b1(5) by (simp add: stored_def [of b1] min_absorb1 flip: b1(6))
        then have d: "?d = drop ?start (stored b)" by (simp add: drop_take)
        have "length ?d = ?n" unfolding d using assms(1,3) by simp
        then have "stored (write_at (?start + (k - 1)) ?d b1)
            = take (?start + (k - 1)) (stored b1) @ ?d @ drop (?start + (k - 1) + ?n) (stored b1)"
          using write_at_facts(5) [OF b1(2), of "?start + (k - 1)" ?d] b1(5) assms(3) by simp
        moreover have "?start + (k - 1) + ?n = clen b1" using b1(5) assms(3) by simp
        ultimately have st: "stored (write_at (?start + (k - 1)) ?d b1) = take (?start + (k - 1)) (stored b1) @ ?d"
          using b1(2) by simp
        let ?b = "write_at (?start + (k - 1)) ?d b1"
        have "take ?start (stored b1) = take ?start (stored b)"
          using assms(3) by (simp add: min_absorb1 flip: b1(6))
        then have "take ?start (stored ?b) = take ?start (stored b)" "drop (?start + (k - 1)) (stored ?b) = drop ?start (stored b)"
          unfolding st unfolding d using b1(2,5) assms(3) by (simp_all add: min_def)
        moreover have "wf_buf ?b" "room_le b ?b" "\<not> berror ?b" "clen ?b = clen b + (k - 1)"
          using write_at_facts [OF b1(2), of "?start + (k - 1)" ?d] b1 assms(3) \<open>length ?d = ?n\<close>
          by (auto intro: room_le_trans)
        ultimately show ?thesis using False b1(1) by (simp add: moved_def)
      next
        fix b' assume "cbb_buffer_add (k - 1) b = (None, b')" "wf_buf b'" "room_le b b'" "berror b'"
          "\<not> room (clen b + (k - 1)) b"
        with False show ?thesis by (simp add: moved_def)
      qed (use a assms in auto)
    qed
    then show ?thesis
    proof (elim disjE exE conjE)
      fix b' assume b': "moved = (Some (), b')" "wf_buf b'" "room_le b b'" "\<not> berror b'" "clen b' = clen b + (k - 1)"
        "take ?start (stored b') = take ?start (stored b)" "drop (?start + (k - 1)) (stored b') = drop ?start (stored b)"
      let ?w = "write_at (coffset c) [l] b'"
      have w: "wf_buf ?w" "room_le b' ?w" "clen ?w = clen b'" "\<not> berror ?w"
        "stored ?w = take (coffset c) (stored b') @ [l] @ drop ?start (stored b')"
        using write_at_facts [OF b'(2), of "coffset c" "[l]"] b' assms(3) by simp_all
      have "?start + (k - 1) \<le> clen ?w" using w(3) b'(5) assms(3) by simp
      note f = fill_prefix_facts [OF w(1) this w(4), of m]
      have "take ?start (stored ?w) = take (coffset c) (stored b) @ [l]"
      proof -
        have "take (coffset c) (stored b') = take (coffset c) (stored b)"
          using arg_cong [OF b'(6), of "take (coffset c)"] by (simp add: min_def)
        then show ?thesis using w(5) b'(2,5) assms(1,3) by (simp add: min_def)
      qed
      moreover have "drop (?start + (k - 1)) (stored ?w) = drop ?start (stored b)"
        using w(5) b'(2,5,7) assms(3) by (simp add: min_def add.commute)
      ultimately have "stored (write_at ?start (be_bytes (k - 1) (of_nat m)) ?w)
          = take (coffset c) (stored b) @ (l # be_bytes (k - 1) (of_nat m)) @ drop ?start (stored b)"
        using f(3) by simp
      moreover have "close_child c b = (Some (), write_at ?start (be_bytes (k - 1) (of_nat m)) ?w)"
        using cc b'(1) f(1) a(5) by simp
      moreover have "room_le b (write_at ?start (be_bytes (k - 1) (of_nat m)) ?w)"
        using f(4) w(2) b'(3) by (blast intro: room_le_trans)
      ultimately show ?thesis using f(2,5) unfolding target by (simp only: ends_ok simp_thms)
    next
      fix b' assume b': "moved = (None, b')" "wf_buf b'" "room_le b b'" "\<not> room (clen b + (k - 1)) b"
      let ?X = "take (coffset c) (stored b) @ (l # be_bytes (k - 1) (of_nat m)) @ drop ?start (stored b)"
      have "length ?X = clen b + (k - 1)" using assms by (simp add: min_def)
      then have "ends b (Some ?X) (buffer_error b')"
        by (intro ends_error [OF b'(2,3)]) (metis option.inject b'(4))
      then show ?thesis by (simp only: cc target b'(1) prod.case option.case)
    qed
  qed
qed

lemma close_child_ends:
  assumes "wf_buf b" "\<not> berror b" "coffset c + pending_len_len c \<le> clen b"
    and "pending_is_asn1 c \<longrightarrow> pending_len_len c = 1"
  shows "ends b (close_one c (stored b)) (close_child c b)"
  using close_child_plain [OF assms(1-3)] close_child_asn1 [OF assms(1,2)] assms(3,4)
  by (cases "pending_is_asn1 c") auto

lemma close_one_facts:
  assumes "close_one c B = Some X" "coffset c + pending_len_len c \<le> length B" "pending_is_asn1 c \<longrightarrow> pending_len_len c = 1"
  shows "take (coffset c) X = take (coffset c) B" "length B \<le> length X" "coffset c \<le> length X"
proof -
  from assms(1) obtain p where p: "prefix_of c (length B - (coffset c + pending_len_len c)) = Some p"
    "X = take (coffset c) B @ p @ drop (coffset c + pending_len_len c) B"
    by (auto simp: close_one_def Let_def)
  then have "pending_len_len c \<le> length p"
    using assms(3) by (auto simp: prefix_of_def der_length_def split: if_splits)
  with p(2) assms(2) show "take (coffset c) X = take (coffset c) B" "length B \<le> length X" "coffset c \<le> length X"
    by (auto simp: min_def)
qed

lemma close_all_facts:
  "close_all cs B = Some X \<Longrightarrow> wf_chain lo cs (length B) \<Longrightarrow>
   take lo X = take lo B \<and> length B \<le> length X \<and> lo \<le> length X"
proof (induction cs arbitrary: lo X)
  case Nil
  then show ?case by simp
next
  case (Cons c cs)
  let ?start = "coffset c + pending_len_len c"
  from Cons.prems obtain Y where Y: "close_all cs B = Some Y" "close_one c Y = Some X"
    by (auto simp: Option.bind_eq_Some_conv)
  then have IH: "take ?start Y = take ?start B" "length B \<le> length Y" "?start \<le> length Y"
    using Cons.IH [of Y ?start] Cons.prems(2) by auto
  have one: "take (coffset c) X = take (coffset c) Y" "length Y \<le> length X" "coffset c \<le> length X"
    using close_one_facts [OF Y(2) IH(3)] Cons.prems(2) by auto
  have lo: "lo \<le> coffset c" using Cons.prems(2) by simp
  have "take lo X = take lo B"
    using arg_cong [OF one(1), of "take lo"] arg_cong [OF IH(1), of "take lo"] lo by (simp add: min_def)
  then show ?case using one IH lo by auto
qed

text \<open>The recursion of \<open>CBB_flush\<close> stores what \<open>close_all\<close> says.\<close>

lemma flush_chain_ends:
  assumes "wf_buf b" "\<not> berror b" "wf_chain lo cs (clen b)"
  shows "\<exists>ok rest b'. flush_chain cs b = (ok, rest, b') \<and> (ok \<longrightarrow> rest = []) \<and>
    ends b (close_all cs (stored b)) (if ok then Some () else None, b')"
  using assms(3)
proof (induction cs arbitrary: lo)
  case Nil
  have "flush_chain [] b = (True, [], b)" using assms(2) by (subst flush_chain.simps) simp
  moreover have "ends b (close_all [] (stored b)) (Some (), b)" using assms by (intro ends_ok) simp_all
  ultimately show ?case by auto
next
  case (Cons c cs)
  let ?start = "coffset c + pending_len_len c"
  obtain ok rest b1 where IH: "flush_chain cs b = (ok, rest, b1)" "ok \<longrightarrow> rest = []"
    "ends b (close_all cs (stored b)) (if ok then Some () else None, b1)"
    using Cons.IH [of ?start] Cons.prems by auto
  have c: "pending_len_len c \<noteq> 0" "pending_is_asn1 c \<longrightarrow> pending_len_len c = 1" using Cons.prems by auto
  show ?case
  proof (cases ok)
    case False
    with IH(3) have f: "berror b1" "wf_buf b1" "room_le b b1"
      "\<And>X. close_all cs (stored b) = Some X \<Longrightarrow> \<not> room (length X) b"
      by (auto simp: ends_def)
    have "\<not> room (length X) b" if X: "close_all (c # cs) (stored b) = Some X" for X
    proof -
      from X obtain Y where Y: "close_all cs (stored b) = Some Y" "close_one c Y = Some X"
        by (auto simp: Option.bind_eq_Some_conv)
      have "length Y \<le> length X"
        using close_one_facts(2) [OF Y(2)] close_all_facts [OF Y(1), of ?start] Cons.prems c assms(1) by simp
      then show ?thesis using f(4) [OF Y(1)] room_mono by blast
    qed
    with f have "ends b (close_all (c # cs) (stored b)) (None, b1\<lparr>berror := True\<rparr>)"
      by (intro ends_failed) auto
    moreover have "flush_chain (c # cs) b = (False, c # rest, b1\<lparr>berror := True\<rparr>)"
      using IH(1) False assms(2) c by (simp add: flush_chain.simps [of "c # cs"])
    ultimately show ?thesis by auto
  next
    case True
    then have g: "\<not> berror b1" "wf_buf b1" "room_le b b1" "close_all cs (stored b) = Some (stored b1)"
      using IH(3) by (auto simp: ends_def)
    have "?start \<le> clen b1"
      using close_all_facts [OF g(4), of ?start] Cons.prems assms(1) g(2) by simp
    then have one: "ends b1 (close_one c (stored b1)) (close_child c b1)"
      using close_child_ends g(1,2) c(2) by blast
    obtain r b2 where r: "close_child c b1 = (r, b2)" by (cases "close_child c b1")
    have "flush_chain (c # cs) b = (if r = None then (False, c # rest, b2) else (True, [], b2))"
      unfolding flush_chain.simps [of "c # cs"] using IH(1) True assms(2) c(1) r by (cases r) simp_all
    moreover have "ends b (close_all (c # cs) (stored b)) (if r = None then None else Some (), b2)"
    proof (cases r)
      case None
      with one r g(3,4) show ?thesis
        by (auto simp: ends_def intro: room_le_trans dest: room_leD)
    next
      case (Some u)
      with one r have b2: "\<not> berror b2" "wf_buf b2" "room_le b1 b2" "close_one c (stored b1) = Some (stored b2)"
        by (simp_all add: ends_def)
      have "close_all (c # cs) (stored b) = Some (stored b2)" using g(4) b2(4) by simp
      moreover have "room_le b b2" using g(3) b2(3) by (rule room_le_trans)
      ultimately show ?thesis using b2(1,2) Some by (simp add: ends_ok)
    qed
    ultimately show ?thesis by (cases r) auto
  qed
qed

section \<open>Appending through a handle\<close>

definition buffer :: "cbb \<Rightarrow> cbb_buffer" where
  "buffer s = the (base s)"

text \<open>A state in which nothing has failed; \<open>ready d\<close>: and in which nothing is open below the handle \<open>d\<close>.\<close>

definition sound :: "cbb \<Rightarrow> bool" where
  "sound s \<longleftrightarrow> base s \<noteq> None \<and> wf_buf (buffer s) \<and> \<not> berror (buffer s) \<and> wf_chain 0 (children s) (clen (buffer s))"

definition ready :: "nat \<Rightarrow> cbb \<Rightarrow> bool" where
  "ready d s \<longleftrightarrow> sound s \<and> length (children s) = d"

definition failed :: "cbb \<Rightarrow> bool" where
  "failed s \<longleftrightarrow> base s \<noteq> None \<and> berror (buffer s)"

definition yields :: "(cbb \<Rightarrow> bool) \<Rightarrow> nat \<Rightarrow> 'a bact \<Rightarrow> (byte list \<times> 'a) option \<Rightarrow> bool" where
  "yields Q d f t \<longleftrightarrow> (\<forall>s. ready d s \<longrightarrow>
     (case f s of
        (None, s') \<Rightarrow> Q s' \<and> (\<forall>bs v. t = Some (bs, v) \<longrightarrow> \<not> room (clen (buffer s) + length bs) (buffer s))
      | (Some v, s') \<Rightarrow> ready d s' \<and> children s' = children s \<and> room_le (buffer s) (buffer s') \<and>
          (\<exists>bs. t = Some (bs, v) \<and> stored (buffer s') = stored (buffer s) @ bs)))"

abbreviation appends :: "nat \<Rightarrow> 'a bact \<Rightarrow> (byte list \<times> 'a) option \<Rightarrow> bool" where
  "appends \<equiv> yields failed"

abbreviation outputs :: "nat \<Rightarrow> 'a bact \<Rightarrow> (byte list \<times> 'a) option \<Rightarrow> bool" where
  "outputs \<equiv> yields (\<lambda>_. True)"

lemma appendsI:
  assumes "\<And>s. ready d s \<Longrightarrow>
    (\<exists>s'. f s = (None, s') \<and> Q s' \<and> (\<forall>bs v. t = Some (bs, v) \<longrightarrow> \<not> room (clen (buffer s) + length bs) (buffer s))) \<or>
    (\<exists>v s' bs. f s = (Some v, s') \<and> ready d s' \<and> children s' = children s \<and> room_le (buffer s) (buffer s') \<and>
       t = Some (bs, v) \<and> stored (buffer s') = stored (buffer s) @ bs)"
  shows "yields Q d f t"
  unfolding yields_def using assms by (fastforce split: prod.split option.split)

lemma appendsE:
  assumes "yields Q d f t" "ready d s"
  obtains s' where "f s = (None, s')" "Q s'"
      "\<And>bs v. t = Some (bs, v) \<Longrightarrow> \<not> room (clen (buffer s) + length bs) (buffer s)"
  | v s' bs where "f s = (Some v, s')" "ready d s'" "children s' = children s" "room_le (buffer s) (buffer s')"
      "t = Some (bs, v)" "stored (buffer s') = stored (buffer s) @ bs"
proof -
  obtain r s' where f: "f s = (r, s')" by fastforce
  show thesis
    using assms(1) [unfolded yields_def, rule_format, OF assms(2)] f that by (cases r) auto
qed

lemma readyD: "ready d s \<Longrightarrow> wf_buf (buffer s)" "ready d s \<Longrightarrow> base s = Some (buffer s)"
  "ready d s \<Longrightarrow> \<not> berror (buffer s)" "ready d s \<Longrightarrow> length (children s) = d"
  by (auto simp: ready_def sound_def buffer_def)

lemma clen_stored: "ready d s \<Longrightarrow> clen (buffer s) = length (stored (buffer s))"
  by (simp add: readyD)

lemma yields_ret: "yields Q d (ret v) (Some ([], v))"
  by (rule appendsI) auto

lemma appends_ret: "appends d (ret v) (Some ([], v))"
  by (rule yields_ret)

text \<open>Sequencing appends one after the other.\<close>

lemma appends_bind:
  assumes "yields Q d f t" "\<And>bs v. t = Some (bs, v) \<Longrightarrow> yields Q d (g v) (u v)"
  shows "yields Q d (and_then f g)
    (case t of None \<Rightarrow> None | Some (bs, v) \<Rightarrow> map_option (\<lambda>(cs, w). (bs @ cs, w)) (u v))"
proof (rule appendsI, goal_cases)
  case (1 s)
  from assms(1) 1 show ?case
  proof (cases rule: appendsE)
    case (1 s')
    have "\<not> room (clen (buffer s) + length cs) (buffer s)"
      if "(case t of None \<Rightarrow> None | Some (bs, v) \<Rightarrow> map_option (\<lambda>(cs, w). (bs @ cs, w)) (u v)) = Some (cs, w)" for cs w
    proof -
      from that obtain bs v cs' where "t = Some (bs, v)" "cs = bs @ cs'" by (auto split: option.splits prod.splits)
      then show ?thesis using 1(3) [of bs v] room_mono [of "clen (buffer s) + length cs" "buffer s"] by auto
    qed
    then show ?thesis using 1 by auto
  next
    case (2 v s1 bs)
    note s1 = this
    from assms(2) [OF s1(5)] s1(2) show ?thesis
    proof (cases rule: appendsE)
      case (1 s')
      have "clen (buffer s1) = clen (buffer s) + length bs"
        using clen_stored [OF s1(2)] clen_stored [OF \<open>ready d s\<close>] s1(6) by simp
      with 1 s1 show ?thesis by (auto simp: add.assoc dest: room_leD)
    next
      case (2 w s' cs)
      with s1 show ?thesis by (auto intro: room_le_trans)
    qed
  qed
qed

lemma appends_and_then:
  "appends d f (Some (bs, v)) \<Longrightarrow> appends d (g v) (Some (cs, w)) \<Longrightarrow> appends d (and_then f g) (Some (bs @ cs, w))"
  using appends_bind [of failed d f "Some (bs, v)" g "\<lambda>_. Some (cs, w)"] by simp

text \<open>On a state with nothing open below the handle, \<open>CBB_flush\<close> does nothing.\<close>

lemma flush_ready: "ready d s \<Longrightarrow> CBB_flush d s = (Some (), s)"
  by (subst CBB_flush_def, subst flush_chain.simps) (auto simp: ready_def sound_def buffer_def)

lemma appends_flushed: "yields Q d f t \<Longrightarrow> yields Q d (and_then (CBB_flush d) (\<lambda>_. f)) t"
  by (simp add: yields_def flush_ready)

text \<open>Not insisting on the error flag.\<close>

lemma yields_mono:
  assumes "yields P d f t" "\<And>s. P s \<Longrightarrow> Q s"
  shows "yields Q d f t"
proof (rule appendsI)
  fix s assume "ready d s"
  with assms(1) show "(\<exists>s'. f s = (None, s') \<and> Q s' \<and> (\<forall>bs v. t = Some (bs, v) \<longrightarrow> \<not> room (clen (buffer s) + length bs) (buffer s))) \<or>
    (\<exists>v s' bs. f s = (Some v, s') \<and> ready d s' \<and> children s' = children s \<and> room_le (buffer s) (buffer s') \<and>
       t = Some (bs, v) \<and> stored (buffer s') = stored (buffer s) @ bs)"
    by (cases rule: appendsE) (use assms(2) in blast)+
qed

lemma appends_flush: "appends d (CBB_flush d) (Some ([], ()))"
  by (rule appendsI) (auto simp: flush_ready)

lemma wf_chain_mono: "wf_chain lo cs n \<Longrightarrow> n \<le> m \<Longrightarrow> wf_chain lo cs m"
  by (induction cs arbitrary: lo) auto

lemma on_base_appends:
  assumes "\<And>b. wf_buf b \<Longrightarrow> \<not> berror b \<Longrightarrow> ends b (map_option (\<lambda>(bs, v). stored b @ bs) t) (f b)"
    and "\<And>b r b'. wf_buf b \<Longrightarrow> f b = (Some r, b') \<Longrightarrow> \<exists>bs. t = Some (bs, r)"
  shows "appends d (on_base f) t"
proof (rule appendsI, goal_cases)
  case (1 s)
  note b = readyD [OF 1]
  obtain r b' where f: "f (buffer s) = (r, b')" by fastforce
  from assms(1) [OF b(1,3)] f have e: "ends (buffer s) (map_option (\<lambda>(bs, v). stored (buffer s) @ bs) t) (r, b')"
    by simp
  have fs: "on_base f s = (r, s\<lparr>base := Some b'\<rparr>)" using b(2) f by (simp add: on_base_def)
  show ?case
  proof (cases r)
    case None
    with e fs show ?thesis using clen_stored [OF 1] by (auto simp: ends_def failed_def buffer_def)
  next
    case (Some v)
    then obtain bs where t: "t = Some (bs, v)" using assms(2) b(1) f by blast
    with e Some have b': "wf_buf b'" "room_le (buffer s) b'" "\<not> berror b'" "stored b' = stored (buffer s) @ bs"
      by (simp_all add: ends_def)
    have "clen (buffer s) \<le> clen b'" using b'(1,4) clen_stored [OF 1] by (metis length_stored length_append le_add1)
    then have "ready d (s\<lparr>base := Some b'\<rparr>)"
      using 1 b' by (auto simp: ready_def sound_def buffer_def intro: wf_chain_mono)
    with fs Some b' t show ?thesis by (auto simp: buffer_def)
  qed
qed

section \<open>Flushing\<close>

text \<open>What a handle holds once everything below it is closed.\<close>

definition closed :: "nat \<Rightarrow> cbb \<Rightarrow> byte list option" where
  "closed d s = close_all (drop d (children s)) (stored (buffer s))"

lemma wf_chain_split:
  "wf_chain lo cs n \<Longrightarrow> \<exists>lo'. wf_chain lo' (drop d cs) n \<and> wf_chain lo (take d cs) lo'"
proof (induction cs arbitrary: lo d)
  case Nil
  then show ?case by auto
next
  case (Cons c cs)
  show ?case
  proof (cases d)
    case 0
    then show ?thesis using Cons.prems by (intro exI [of _ lo]) simp
  next
    case (Suc d')
    from Cons.prems obtain lo' where "wf_chain lo' (drop d' cs) n" "wf_chain (coffset c + pending_len_len c) (take d' cs) lo'"
      using Cons.IH [of "coffset c + pending_len_len c" d'] by auto
    with Suc Cons.prems show ?thesis by auto
  qed
qed

lemma flush_cases:
  assumes "sound s" "d \<le> length (children s)"
  obtains s' where "CBB_flush d s = (None, s')" "failed s'" "\<And>X. closed d s = Some X \<Longrightarrow> \<not> room (length X) (buffer s)"
  | s' where "CBB_flush d s = (Some (), s')" "ready d s'" "children s' = take d (children s)"
      "room_le (buffer s) (buffer s')" "closed d s = Some (stored (buffer s'))"
proof -
  from assms(1) have b: "base s = Some (buffer s)" "wf_buf (buffer s)" "\<not> berror (buffer s)"
    "wf_chain 0 (children s) (clen (buffer s))"
    by (auto simp: sound_def buffer_def)
  from wf_chain_split [OF b(4), of d] obtain lo where lo: "wf_chain lo (drop d (children s)) (clen (buffer s))"
    "wf_chain 0 (take d (children s)) lo" by blast
  from flush_chain_ends [OF b(2,3) lo(1)] obtain ok rest b' where
    f: "flush_chain (drop d (children s)) (buffer s) = (ok, rest, b')" "ok \<longrightarrow> rest = []"
      "ends (buffer s) (closed d s) (if ok then Some () else None, b')"
    unfolding closed_def by blast
  have fl: "CBB_flush d s = (if ok then Some () else None, s\<lparr>base := Some b', children := take d (children s) @ rest\<rparr>)"
    using b(1) f(1) assms(2) by (simp add: CBB_flush_def)
  show thesis
  proof (cases ok)
    case False
    with f(3) fl show thesis by (intro that(1)) (auto simp: ends_def failed_def buffer_def)
  next
    case True
    with f(3) have g: "wf_buf b'" "room_le (buffer s) b'" "\<not> berror b'" "closed d s = Some (stored b')"
      by (simp_all add: ends_def)
    have "lo \<le> clen b'"
      using close_all_facts [of "drop d (children s)" "stored (buffer s)" "stored b'" lo] g(1,4) lo(1) b(2)
      by (simp add: closed_def)
    then have "wf_chain 0 (take d (children s)) (clen b')" using lo(2) wf_chain_mono by blast
    with g True fl f(2) assms(2) show thesis by (intro that(2)) (auto simp: ready_def sound_def buffer_def)
  qed
qed


text \<open>C12: \<open>CBB_flush\<close> through any handle of a sound builder closes every child open below it, the
  innermost first, and stores exactly the bytes of the specification \<open>close_all\<close>: each child's
  contents behind its length prefix, the ASN.1 lengths widened to the DER form. It fails, leaving
  the error flag set, only when some length does not fit its prefix or the bytes do not fit the
  buffer.\<close>

theorem CBB_flush_closes:
  assumes "sound s" "d \<le> length (children s)"
  shows "case CBB_flush d s of
      (None, s') \<Rightarrow> failed s' \<and> (\<forall>X. closed d s = Some X \<longrightarrow> \<not> room (length X) (buffer s))
    | (Some _, s') \<Rightarrow> ready d s' \<and> children s' = take d (children s) \<and> room_le (buffer s) (buffer s') \<and>
        closed d s = Some (stored (buffer s'))"
  by (rule flush_cases [OF assms]) auto

theorem CBB_flush_closes_witness:
  "let s = \<lparr>base = Some \<lparr>cbuf = [7, 0, 1, 2], clen = 4, can_resize = False, berror = False, realloc_ok = (\<lambda>_. False),
               reallocs = 0, fresh = (\<lambda>_. 0)\<rparr>,
            children = [\<lparr>coffset = 1, pending_len_len = 1, pending_is_asn1 = False\<rparr>]\<rparr>
   in sound s \<and> closed 0 s = Some [7, 2, 1, 2] \<and> fst (CBB_flush 0 s) = Some ()"
proof -
  let ?s = "\<lparr>base = Some \<lparr>cbuf = [7, 0, 1, 2], clen = 4, can_resize = False, berror = False, realloc_ok = (\<lambda>_. False),
               reallocs = 0, fresh = (\<lambda>_. 0)\<rparr>,
            children = [\<lparr>coffset = 1, pending_len_len = 1, pending_is_asn1 = False\<rparr>]\<rparr>"
  have s: "sound ?s" by (simp add: sound_def buffer_def wf_buf_def ccap_def)
  moreover have "closed 0 ?s = Some [7, 2, 1, 2]"
    by (simp add: closed_def buffer_def stored_def close_one_def prefix_of_def Let_def take_Cons' drop_Cons')
  moreover have "room (length [7 :: byte, 2, 1, 2]) (buffer ?s)" by (simp add: room_def buffer_def ccap_def)
  ultimately show ?thesis
    using CBB_flush_closes [of ?s 0] by (auto simp: Let_def split: prod.splits option.splits)
qed

section \<open>Bytes and integers\<close>

lemma appends_cbb_add_u:
  assumes "1 \<le> n" "n \<le> 8"
  shows "appends d (cbb_add_u v n d) (if drop_bit (8 * n) v = 0 then Some (be_bytes n v, ()) else None)"
proof -
  have "appends d (on_base (cbb_buffer_add_u v n)) (if drop_bit (8 * n) v = 0 then Some (be_bytes n v, ()) else None)"
  proof (rule on_base_appends, goal_cases)
    case (1 b)
    with add_u_ends [of b n v] assms show ?case by auto
  next
    case (2 b r b')
    then show ?case using assms
      by (auto simp: cbb_buffer_add_u_def buffer_error_def Let_def elim!: and_then_SomeE split: if_splits)
  qed
  then show ?thesis unfolding cbb_add_u_def by (rule appends_flushed)
qed

lemma appends_u8: "appends d (CBB_add_u8 d b) (Some ([b], ()))"
proof -
  have "drop_bit 8 (ucast b :: u64) = 0" by (rule bit_word_eqI) (auto simp: bit_simps dest: bit_imp_le_length)
  moreover have "(ucast (ucast b :: u64) :: byte) = b" by (rule bit_word_eqI) (auto simp: bit_simps)
  ultimately show ?thesis using appends_cbb_add_u [of 1 d "ucast b"] by (simp add: CBB_add_u8_def)
qed

lemma appends_bytes:
  assumes "length bs < 2 ^ 64"
  shows "appends d (CBB_add_bytes d bs) (Some (bs, ()))"
proof -
  have "appends d (on_base (and_then (cbb_buffer_add (length bs)) (\<lambda>dest b. (Some (), write_at dest bs b)))) (Some (bs, ()))"
    by (rule on_base_appends) (use write_ends assms in auto)
  then show ?thesis unfolding CBB_add_bytes_def by (rule appends_flushed)
qed

end
