(* ===== verification/CbbDer.thy ===== *)
theory CbbDer
  imports CbbFacts
begin

text \<open>
  Building and parsing: the elements the builder of \<open>Cbb\<close> writes are the distinguished encodings
  of \<open>Der\<close>, hence the reader of \<open>Cbs\<close> returns what was put in; likewise the length prefixes, the
  integers and the other values.
\<close>

section \<open>Children\<close>

lemma base_len_ready: "ready d s \<Longrightarrow> base_len s = (Some (clen (buffer s)), s)"
  by (simp add: base_len_def on_base_def readyD(2))

lemma on_base_and_then: "on_base (and_then f g) = and_then (on_base f) (\<lambda>x. on_base (g x))"
proof
  fix s
  show "on_base (and_then f g) s = and_then (on_base f) (\<lambda>x. on_base (g x)) s"
    by (cases "base s") (auto simp: on_base_def and_then_def split: prod.splits option.splits)
qed

text \<open>A child that is opened, written to by \<open>f\<close> and closed by flushing its parent.\<close>

lemma with_child:
  assumes w: "yields Q d w (Some (z, ()))" and z: "length z = n" "1 \<le> n" "n \<le> 8" "asn1 \<longrightarrow> n = 1"
    and f: "yields Q (d + 1) f t" and Q: "\<And>s. failed s \<Longrightarrow> Q s"
  defines "child \<equiv> \<lambda>off. \<lparr>coffset = off, pending_len_len = n, pending_is_asn1 = asn1\<rparr>"
  shows "yields Q d (and_then base_len (\<lambda>offset. and_then w (\<lambda>_. and_then (push_child d (child offset)) (\<lambda>_.
      and_then f (\<lambda>v. and_then (CBB_flush d) (\<lambda>_. ret v))))))
    (Option.bind t (\<lambda>(bs, v). map_option (\<lambda>p. (p @ bs, v)) (prefix_of (child 0) (length bs))))" (is "yields Q d ?code ?t")
proof (rule appendsI, goal_cases)
  case (1 s)
  let ?B = "stored (buffer s)" and ?off = "clen (buffer s)"
  let ?c = "child ?off"
  have off: "?off = length ?B" by (rule clen_stored [OF 1])
  have pre: "prefix_of ?c k = prefix_of (child 0) k" for k by (simp add: prefix_of_def child_def)
  have c_fields: "coffset (child o1) = o1" "pending_len_len (child o1) = n" for o1 by (simp_all add: child_def)
  have pre_len: "n \<le> length p" if "prefix_of (child 0) k = Some p" for k p
    using that z by (auto simp: prefix_of_def child_def der_length_def split: if_splits)
  have target: "\<exists>bs p. t = Some (bs, u) \<and> prefix_of (child 0) (length bs) = Some p \<and> xs = p @ bs \<and> n + length bs \<le> length xs"
    if "?t = Some (xs, u)" for xs u
    using that pre_len by (auto simp: Option.bind_eq_Some_conv)
  have small: "\<not> room (?off + length xs) (buffer s)"
    if "\<not> room (?off + k) (buffer s)" "k \<le> length xs" for k and xs :: "byte list"
    using that room_mono [of "?off + length xs" "buffer s" "?off + k"] by auto
  from w 1 show ?case
  proof (cases rule: appendsE)
    case (1 s')
    have "?code s = (None, s')" using 1(1) base_len_ready [OF \<open>ready d s\<close>] by simp
    moreover have "\<not> room (?off + length xs) (buffer s)" if "?t = Some (xs, u)" for xs u
      using target [OF that] small [OF 1(3) [OF refl], of xs] z(1) by auto
    ultimately show ?thesis using 1(2) by blast
  next
    case (2 _ s1 _)
    note s1 = this
    define s2 where "s2 = s1\<lparr>children := take d (children s1) @ [?c]\<rparr>"
    have ch: "children s2 = children s @ [?c]" using s1(3) readyD(4) [OF 1] by (simp add: s2_def)
    have buf2: "buffer s2 = buffer s1" by (simp add: s2_def buffer_def)
    have st1: "stored (buffer s1) = ?B @ z" using s1 by simp
    have cl1: "clen (buffer s1) = ?off + n" using clen_stored [OF s1(2)] st1 off z(1) by simp
    have "wf_chain 0 (children s2) (clen (buffer s2))"
    proof -
      have "wf_chain lo (cs @ [?c]) (?off + n)" if "wf_chain lo cs ?off" for lo cs
        using that z by (induction cs arbitrary: lo) (auto simp: child_def)
      moreover have "wf_chain 0 (children s) ?off" using 1 by (simp add: ready_def sound_def)
      ultimately show ?thesis by (simp add: ch buf2 cl1)
    qed
    then have r2: "ready (d + 1) s2"
      using s1(2) ch readyD(4) [OF 1] buf2 by (simp add: ready_def sound_def s2_def)
    have run: "?code s = and_then f (\<lambda>v. and_then (CBB_flush d) (\<lambda>_. ret v)) s2"
      using s1(1) base_len_ready [OF 1] by (simp add: push_child_def s2_def)
    from f r2 show ?thesis
    proof (cases rule: appendsE)
      case (1 s')
      have "\<not> room (?off + length xs) (buffer s)" if xs: "?t = Some (xs, u)" for xs u
      proof -
        from target [OF xs] obtain bs where bs: "t = Some (bs, u)" "n + length bs \<le> length xs" by blast
        have "\<not> room (?off + (n + length bs)) (buffer s)"
          using 1(3) [OF bs(1)] s1(4) by (auto simp: buf2 cl1 add.assoc dest: room_leD)
        then show ?thesis using small [of "n + length bs" xs] bs(2) by blast
      qed
      then show ?thesis using 1 run by auto
    next
      case (2 v s3 bs)
      note s3 = this
      have st3: "stored (buffer s3) = ?B @ z @ bs" using s3 st1 buf2 by simp
      have c3: "closed d s3 = map_option (\<lambda>p. ?B @ p @ bs) (prefix_of (child 0) (length bs))"
        using s3(3) readyD(4) [OF \<open>ready d s\<close>] z(1) off pre
        by (simp add: closed_def ch st3 close_one_def c_fields Let_def)
      have rl: "room_le (buffer s) (buffer s3)" using s1(4) s3(4) by (auto simp: buf2 intro: room_le_trans)
      have run3: "?code s = and_then (CBB_flush d) (\<lambda>_. ret v) s3" using run s3(1) by simp
      have "sound s3" "d \<le> length (children s3)" using s3(2) by (auto simp: ready_def)
      then show ?thesis
      proof (cases rule: flush_cases)
        case (1 s')
        then have "\<not> room (?off + length xs) (buffer s)" if "?t = Some (xs, u)" for xs u
          using target [OF that] s3(5) rl c3 off by (auto dest: room_leD)
        then show ?thesis using 1 run3 Q by auto
      next
        case (2 s')
        then obtain p where "prefix_of (child 0) (length bs) = Some p" "stored (buffer s') = ?B @ p @ bs"
          using c3 by auto
        moreover have "children s' = children s" using 2(3) s3(3) ch readyD(4) [OF \<open>ready d s\<close>] by simp
        ultimately show ?thesis using 2 run3 rl s3(5) by (auto intro: room_le_trans)
      qed
    qed
  qed
qed

text \<open>The value of the child is not always wanted.\<close>

lemma drop_value:
  assumes "yields Q d (and_then g (\<lambda>_. and_then f (\<lambda>v. and_then (CBB_flush d) (\<lambda>_. ret v)))) t"
  shows "yields Q d (and_then g (\<lambda>_. and_then f (\<lambda>_. CBB_flush d))) (map_option (\<lambda>(bs, v). (bs, ())) t)"
proof -
  have unit: "and_then (CBB_flush d) (\<lambda>_. ret ()) = CBB_flush d"
    by (rule ext) (auto simp: and_then_def split: prod.split option.split)
  have "yields Q d (ret ()) (Some ([], ()))" by (rule yields_ret)
  from appends_bind [OF assms, of "\<lambda>_. ret ()" "\<lambda>_. Some ([], ())", OF this]
  have "yields Q d (and_then g (\<lambda>_. and_then f (\<lambda>_. CBB_flush d)))
    (case t of None \<Rightarrow> None | Some (bs, v) \<Rightarrow> map_option (\<lambda>(cs, w). (bs @ cs, w)) (Some ([], ())))"
    by (simp only: and_then_assoc and_then_ret unit)
  then show ?thesis by (cases t) auto
qed

text \<open>A length prefix of \<open>n\<close> bytes.\<close>

lemma appends_length_prefixed:
  assumes "appends (d + 1) f (Some (bs, v))" "1 \<le> n" "n \<le> 8"
  shows "appends d (and_then (cbb_add_length_prefixed n d) (\<lambda>_. and_then f (\<lambda>_. CBB_flush d)))
    (if length bs < 256 ^ n then Some (be_bytes n (of_nat (length bs)) @ bs, ()) else None)"
proof -
  let ?w = "on_base (and_then (cbb_buffer_add n) (\<lambda>pb b. (Some (), write_at pb (replicate n 0) b)))"
  have "appends d ?w (Some (replicate n 0, ()))"
    by (rule on_base_appends) (use write_ends [where bs = "replicate n 0"] assms in auto)
  from appends_flushed [OF with_child [OF this _ assms(2,3) _ assms(1), of False]]
  have "appends d (and_then (cbb_add_length_prefixed n d) (\<lambda>_. and_then f (\<lambda>v. and_then (CBB_flush d) (\<lambda>_. ret v))))
    (if length bs < 256 ^ n then Some (be_bytes n (of_nat (length bs)) @ bs, v) else None)"
    by (cases "length bs < 256 ^ n")
      (simp_all add: cbb_add_length_prefixed_def and_then_assoc on_base_and_then prefix_of_def del: ret_simp)
  from drop_value [OF this] show ?thesis by (cases "length bs < 256 ^ n") simp_all
qed

section \<open>Tags\<close>

definition hi_groups :: "u64 \<Rightarrow> nat \<Rightarrow> byte list" where
  "hi_groups v i = rev (map (\<lambda>j. (ucast (drop_bit (7 * j) v) AND 0x7f) OR 0x80) [0..<i])"

lemma hi_groups_Suc: "hi_groups v (Suc i) = hi_groups (drop_bit 7 v) i @ [(ucast v AND 0x7f) OR 0x80]"
  by (simp add: hi_groups_def map_upt_Suc add.commute del: upt_Suc)

lemma low_group: "ucast (v AND 0x7f :: u64) = (ucast v :: byte) AND 0x7f"
  by (rule bit_word_eqI) (auto simp: bit_simps const_bits)

lemma hi_groups_eq: "hi_groups v (base128_len v) = base128_hi v"
proof (induction v rule: base128_len.induct)
  case (1 v)
  show ?case
  proof (cases "v = 0")
    case True
    then show ?thesis by (simp add: base128_len.simps hi_groups_def)
  next
    case False
    then show ?thesis
      using 1 by (simp add: base128_len.simps [of v] base128_hi.simps [of v] hi_groups_Suc low_group or.commute)
  qed
qed

lemma appends_base128_out:
  "appends d (base128_out d v (Suc i)) (Some (hi_groups (drop_bit 7 v) i @ [ucast v AND 0x7f], ()))"
proof (induction i)
  case 0
  from appends_and_then [OF appends_u8 [of d "ucast v AND 0x7f"] appends_ret, of "\<lambda>_. ()"]
  show ?case by (simp add: hi_groups_def del: ret_simp)
next
  case (Suc i)
  let ?b = "(ucast (drop_bit (7 * Suc i) v) AND 0x7f) OR 0x80"
  have "hi_groups (drop_bit 7 v) (Suc i) = ?b # hi_groups (drop_bit 7 v) i"
    by (simp add: hi_groups_def add.commute)
  with appends_and_then [OF appends_u8 [of d ?b] Suc] show ?case
    by (simp del: base128_out.simps add: base128_out.simps(2) [of d v "Suc i"])
qed

lemma appends_base128: "appends d (add_base128_integer d v) (Some (base128_bytes v, ()))"
proof -
  have "(if base128_len v = 0 then 1 else base128_len v) = Suc (base128_len (drop_bit 7 v))"
    by (simp add: base128_len.simps [of v] base128_len.simps [of 0])
  then show ?thesis
    using appends_base128_out [of d v "base128_len (drop_bit 7 v)"]
    by (simp add: add_base128_integer_def base128_bytes_def hi_groups_eq low_group)
qed

text \<open>An element whose contents \<open>f\<close> writes; its result is kept.\<close>

lemma yields_asn1:
  assumes "yields Q (d + 1) f u" "\<And>s. failed s \<Longrightarrow> Q s"
  shows "yields Q d (and_then (CBB_add_asn1 d t) (\<lambda>_. and_then f (\<lambda>v. and_then (CBB_flush d) (\<lambda>_. ret v))))
    (Option.bind u (\<lambda>(bs, v). if length bs \<le> 0xfffffffe then Some (der t bs, v) else None))"
proof -
  define head where "head =
    (if tag_number t \<ge> 0x1f
     then and_then (CBB_add_u8 d (tag_class t OR 0x1f)) (\<lambda>_. add_base128_integer d (ucast (tag_number t)))
     else CBB_add_u8 d (tag_class t OR ucast (tag_number t)))"
  let ?rest = "\<lambda>offset. and_then (CBB_add_u8 d 0) (\<lambda>_.
      and_then (push_child d \<lparr>coffset = offset, pending_len_len = 1, pending_is_asn1 = True\<rparr>) (\<lambda>_.
        and_then f (\<lambda>v. and_then (CBB_flush d) (\<lambda>_. ret v))))"
  have "appends d head (Some (der_tag t, ()))"
    using appends_and_then [OF appends_u8 [of d "tag_class t OR 0x1f"] appends_base128 [of d "ucast (tag_number t)"]]
    by (auto simp: head_def der_tag_def intro: appends_u8)
  then have 1: "yields Q d head (Some (der_tag t, ()))" using assms(2) by (rule yields_mono)
  have "yields Q d (CBB_add_u8 d 0) (Some ([0], ()))" using appends_u8 assms(2) by (rule yields_mono)
  from appends_bind [OF 1, OF with_child [OF this _ _ _ _ assms, of 1 True]]
  have "yields Q d (and_then head (\<lambda>_. and_then base_len ?rest))
    (Option.bind u (\<lambda>(bs, v). if length bs \<le> 0xfffffffe then Some (der t bs, v) else None))"
    by (cases u) (auto simp: prefix_of_def der_def simp del: ret_simp)
  from appends_flushed [OF this] show ?thesis
    by (simp only: CBB_add_asn1_def and_then_assoc Let_def head_def tag_class_def tag_number_def)
qed

lemma appends_asn1:
  assumes "appends (d + 1) f (Some (bs, v))"
  shows "appends d (and_then (CBB_add_asn1 d t) (\<lambda>_. and_then f (\<lambda>_. CBB_flush d)))
    (if length bs \<le> 0xfffffffe then Some (der t bs, ()) else None)"
  using drop_value [OF yields_asn1 [OF assms, of t]] by (cases "length bs \<le> 0xfffffffe") simp_all

section \<open>Finishing\<close>

text \<open>
  \<open>built f\<close>: the bytes of a fresh builder to which \<open>f\<close> is applied and which is then finished.
\<close>

definition built :: "(nat \<Rightarrow> byte) \<Rightarrow> nat \<Rightarrow> 'a bact \<Rightarrow> byte list option" where
  "built junk cap f =
     (case CBB_init True True (\<lambda>_. True) junk cap of
        (None, _) \<Rightarrow> None
      | (Some _, s) \<Rightarrow> fst (and_then f (\<lambda>_. CBB_finish True 0) s))"

lemma init_ready:
  assumes "cap < 2 ^ 64"
  obtains s where "CBB_init True True (\<lambda>_. True) junk cap = (Some (), s)" "ready 0 s" "stored (buffer s) = []"
    "clen (buffer s) = 0" "\<And>n. n < 2 ^ 64 \<Longrightarrow> room n (buffer s)"
proof -
  let ?b = "\<lparr>cbuf = map junk [0..<cap], clen = 0, can_resize = True, berror = False, realloc_ok = (\<lambda>_. True),
    reallocs = 0, fresh = junk\<rparr>"
  have b: "wf_buf ?b" "stored ?b = []" "room n ?b" if "n < 2 ^ 64" for n
    using that by (auto simp: wf_buf_def stored_def ccap_def room_def)
  have buf: "buffer \<lparr>base = Some ?b, children = []\<rparr> = ?b" by (simp add: buffer_def)
  show thesis
    by (rule that [of "\<lparr>base = Some ?b, children = []\<rparr>"])
      (use b [of 0] b in \<open>simp_all add: CBB_init_def cbb_init_def CBB_zero_def ready_def sound_def buf\<close>)
qed

lemma finish_ready: "ready 0 s \<Longrightarrow> fst (CBB_finish True 0 s) = Some (stored (buffer s))"
  by (simp add: CBB_finish_def flush_ready readyD(2) stored_def)

lemma finish_i2d_ready:
  assumes "ready 0 s"
  defines "bs \<equiv> stored (buffer s)"
  shows "\<exists>s'. CBB_finish_i2d (Some (Some (front @ back, length front))) s =
    (if length bs \<le> INT_MAX
     then (int (length bs), Some (Some (front @ bs @ drop (length bs) back, length front + length bs)), s')
     else (-1, Some (Some (front @ back, length front)), s'))"
  using finish_ready [OF assms(1)] unfolding bs_def
  by (cases "CBB_finish True 0 s") (auto simp: CBB_finish_i2d_def)

lemma built_appends:
  assumes "appends 0 f t" "cap < 2 ^ 64" "\<And>bs v. t = Some (bs, v) \<Longrightarrow> length bs < 2 ^ 64"
  shows "built junk cap f = map_option fst t"
proof (rule init_ready [OF assms(2), of junk])
  fix s assume s: "CBB_init True True (\<lambda>_. True) junk cap = (Some (), s)" "ready 0 s" "stored (buffer s) = []"
    "clen (buffer s) = 0" "\<And>n. n < 2 ^ 64 \<Longrightarrow> room n (buffer s)"
  from assms(1) s(2) show ?thesis
  proof (cases rule: appendsE)
    case (1 s')
    then have "t = None" using s(4,5) assms(3) by (cases t) auto
    then show ?thesis using 1(1) s(1) by (simp add: built_def)
  next
    case (2 v s' bs)
    then show ?thesis using s(1,3) finish_ready by (simp add: built_def)
  qed
qed

lemma built_Some:
  assumes "appends 0 f t" "built junk cap f = Some out" "cap < 2 ^ 64"
  shows "\<exists>v. t = Some (out, v)"
proof (rule init_ready [OF assms(3), of junk])
  fix s assume s: "CBB_init True True (\<lambda>_. True) junk cap = (Some (), s)" "ready 0 s" "stored (buffer s) = []"
  from assms(1) s(2) show ?thesis
  proof (cases rule: appendsE)
    case (1 s')
    then show ?thesis using s(1) assms(2) by (simp add: built_def)
  next
    case (2 v s' bs)
    then show ?thesis using s(1,3) assms(2) finish_ready by (simp add: built_def)
  qed
qed

lemma built_runs:
  assumes "built junk cap f = Some out"
  obtains s v s' where "f s = (Some v, s')"
proof (cases "CBB_init True True (\<lambda>_. True) junk cap")
  case (Pair r s)
  show thesis
  proof (cases "f s")
    case f: (Pair r' s')
    then show thesis using assms Pair that by (cases r; cases r') (auto simp: built_def)
  qed
qed

end
