(* ===== verification/Unicode.thy ===== *)
theory Unicode
  imports CbbDer
begin

text \<open>
  The character encodings of BoringSSL (\<open>crypto/bytestring/unicode.c\<close>): reading one code point
  from a \<open>CBS\<close> and writing one to a \<open>CBB\<close>, in UTF-8, Latin-1, UCS-2 and UTF-32.
\<close>

section \<open>The code\<close>

definition is_valid_code_point :: "u32 \<Rightarrow> bool" where
  "is_valid_code_point v =
     (if v > 0x10ffff \<or> v AND 0xfffe = 0xfffe \<or> (v \<ge> 0xfdd0 \<and> v \<le> 0xfdef) \<or> (v \<ge> 0xd800 \<and> v \<le> 0xdfff)
      then False else True)"

definition BOTTOM_BITS :: "nat \<Rightarrow> byte" where
  "BOTTOM_BITS n = ucast (push_bit n (1 :: u32) - 1)"

definition TOP_BITS :: "nat \<Rightarrow> byte" where
  "TOP_BITS n = NOT (BOTTOM_BITS (8 - n))"

text \<open>The loop over the continuation bytes.\<close>

fun utf8_loop :: "nat \<Rightarrow> u32 \<Rightarrow> u32 cact" where
  "utf8_loop 0 v cbs = ret v cbs"
| "utf8_loop (Suc n) v cbs =
     and_then CBS_get_u8 (\<lambda>c.
       if c AND TOP_BITS 2 \<noteq> TOP_BITS 1 then fail
       else utf8_loop n (push_bit 6 v OR ucast (c AND BOTTOM_BITS 6))) cbs"

definition cbs_get_utf8 :: "u32 cact" where
  "cbs_get_utf8 =
     and_then CBS_get_u8 (\<lambda>c.
       if c \<le> 0x7f then ret (ucast c)
       else
         (case (if c AND TOP_BITS 3 = TOP_BITS 2 then Some (c AND BOTTOM_BITS 5, 1, 0x80)
                else if c AND TOP_BITS 4 = TOP_BITS 3 then Some (c AND BOTTOM_BITS 4, 2, 0x800)
                else if c AND TOP_BITS 5 = TOP_BITS 4 then Some (c AND BOTTOM_BITS 3, 3, 0x10000)
                else None) of
            None \<Rightarrow> fail
          | Some (v, len, lower_bound) \<Rightarrow>
              and_then (utf8_loop len (ucast v)) (\<lambda>v.
                if \<not> is_valid_code_point v \<or> v < lower_bound then fail else ret v)))"

definition cbs_get_latin1 :: "u32 cact" where
  "cbs_get_latin1 = and_then CBS_get_u8 (\<lambda>c. ret (ucast c))"

definition cbs_get_ucs2_be :: "u32 cact" where
  "cbs_get_ucs2_be =
     and_then CBS_get_u16 (\<lambda>c. if \<not> is_valid_code_point (ucast c) then fail else ret (ucast c))"

definition cbs_get_utf32_be :: "u32 cact" where
  "cbs_get_utf32_be = and_then CBS_get_u32 (\<lambda>c. if is_valid_code_point c then ret c else fail)"

definition cbb_get_utf8_len :: "u32 \<Rightarrow> nat" where
  "cbb_get_utf8_len u = (if u \<le> 0x7f then 1 else if u \<le> 0x7ff then 2 else if u \<le> 0xffff then 3 else 4)"

definition cbb_add_utf8 :: "nat \<Rightarrow> u32 \<Rightarrow> unit bact" where
  "cbb_add_utf8 d u =
     (if \<not> is_valid_code_point u then fail
      else if u \<le> 0x7f then CBB_add_u8 d (ucast u)
      else if u \<le> 0x7ff then
        and_then (CBB_add_u8 d (TOP_BITS 2 OR ucast (drop_bit 6 u))) (\<lambda>_.
          CBB_add_u8 d (TOP_BITS 1 OR ucast (u AND ucast (BOTTOM_BITS 6))))
      else if u \<le> 0xffff then
        and_then (CBB_add_u8 d (TOP_BITS 3 OR ucast (drop_bit 12 u))) (\<lambda>_.
          and_then (CBB_add_u8 d (TOP_BITS 1 OR ucast (drop_bit 6 u AND ucast (BOTTOM_BITS 6)))) (\<lambda>_.
            CBB_add_u8 d (TOP_BITS 1 OR ucast (u AND ucast (BOTTOM_BITS 6)))))
      else if u \<le> 0x10ffff then
        and_then (CBB_add_u8 d (TOP_BITS 4 OR ucast (drop_bit 18 u))) (\<lambda>_.
          and_then (CBB_add_u8 d (TOP_BITS 1 OR ucast (drop_bit 12 u AND ucast (BOTTOM_BITS 6)))) (\<lambda>_.
            and_then (CBB_add_u8 d (TOP_BITS 1 OR ucast (drop_bit 6 u AND ucast (BOTTOM_BITS 6)))) (\<lambda>_.
              CBB_add_u8 d (TOP_BITS 1 OR ucast (u AND ucast (BOTTOM_BITS 6))))))
      else fail)"

definition cbb_add_latin1 :: "nat \<Rightarrow> u32 \<Rightarrow> unit bact" where
  "cbb_add_latin1 d u = (if u \<le> 0xff then CBB_add_u8 d (ucast u) else fail)"

definition cbb_add_ucs2_be :: "nat \<Rightarrow> u32 \<Rightarrow> unit bact" where
  "cbb_add_ucs2_be d u = (if u \<le> 0xffff \<and> is_valid_code_point u then CBB_add_u16 d (ucast u) else fail)"

definition cbb_add_utf32_be :: "nat \<Rightarrow> u32 \<Rightarrow> unit bact" where
  "cbb_add_utf32_be d u = (if is_valid_code_point u then CBB_add_u32 d u else fail)"

section \<open>UTF-8\<close>

lemma BOTTOM_BITS_mask: "n \<le> 8 \<Longrightarrow> BOTTOM_BITS n = mask n"
proof -
  have "BOTTOM_BITS n = ucast (mask n :: u32)"
    by (simp add: BOTTOM_BITS_def push_bit_eq_mult flip: mask_eq_exp_minus_1)
  also have "\<dots> = mask n" by (rule bit_word_eqI) (auto simp: bit_simps)
  finally show ?thesis .
qed

lemma bit_BOTTOM [const_bits]: "n \<le> 8 \<Longrightarrow> bit (BOTTOM_BITS n) i \<longleftrightarrow> i < n"
  by (auto simp: BOTTOM_BITS_mask bit_simps)

lemma bit_TOP [const_bits]: "bit (TOP_BITS n) i \<longleftrightarrow> 8 - n \<le> i \<and> i < 8"
  by (auto simp: TOP_BITS_def bit_BOTTOM bit_simps)

definition low6 :: "u32 \<Rightarrow> byte" where
  "low6 w = ucast w AND BOTTOM_BITS 6"

text \<open>The encoding of a code point: its continuation bytes and the whole.\<close>

fun cont_bytes :: "nat \<Rightarrow> u32 \<Rightarrow> byte list" where
  "cont_bytes 0 w = []"
| "cont_bytes (Suc n) w = (TOP_BITS 1 OR low6 (drop_bit (6 * n) w)) # cont_bytes n w"

definition utf8_bytes :: "u32 \<Rightarrow> byte list" where
  "utf8_bytes u =
     (if u \<le> 0x7f then [ucast u]
      else if u \<le> 0x7ff then (TOP_BITS 2 OR ucast (drop_bit 6 u)) # cont_bytes 1 u
      else if u \<le> 0xffff then (TOP_BITS 3 OR ucast (drop_bit 12 u)) # cont_bytes 2 u
      else (TOP_BITS 4 OR ucast (drop_bit 18 u)) # cont_bytes 3 u)"

lemma low6_and: "ucast (u AND ucast (BOTTOM_BITS 6)) = low6 u"
  by (rule bit_word_eqI) (auto simp: low6_def bit_simps const_bits)

lemma cont_byte_split: "c AND TOP_BITS 2 = TOP_BITS 1 \<longleftrightarrow> c = TOP_BITS 1 OR (c AND BOTTOM_BITS 6)"
proof
  assume *: "c AND TOP_BITS 2 = TOP_BITS 1"
  have "c = (c AND TOP_BITS 2) OR (c AND BOTTOM_BITS 6)"
    by (rule bit_word_eqI) (auto simp: bit_simps const_bits)
  with * show "c = TOP_BITS 1 OR (c AND BOTTOM_BITS 6)" by simp
next
  assume "c = TOP_BITS 1 OR (c AND BOTTOM_BITS 6)"
  then have "c AND TOP_BITS 2 = (TOP_BITS 1 OR (c AND BOTTOM_BITS 6)) AND TOP_BITS 2" by simp
  also have "\<dots> = TOP_BITS 1" by (rule bit_word_eqI) (auto simp: bit_simps const_bits)
  finally show "c AND TOP_BITS 2 = TOP_BITS 1" .
qed

lemma utf8_step:
  assumes "drop_bit 26 v = 0"
  shows "w = push_bit 6 v OR ucast (c AND BOTTOM_BITS 6) \<longleftrightarrow> drop_bit 6 w = v \<and> low6 w = c AND BOTTOM_BITS 6"
proof
  assume w: "w = push_bit 6 v OR ucast (c AND BOTTOM_BITS 6)"
  have "drop_bit 6 w = v" unfolding w
    by (rule bit_word_eqI) (use drop_bit_0_bits [OF assms] in \<open>auto simp: bit_simps const_bits dest: bit_imp_le_length\<close>)
  moreover have "low6 w = c AND BOTTOM_BITS 6" unfolding w low6_def
    by (rule bit_word_eqI) (auto simp: bit_simps const_bits)
  ultimately show "drop_bit 6 w = v \<and> low6 w = c AND BOTTOM_BITS 6" by simp
next
  assume a: "drop_bit 6 w = v \<and> low6 w = c AND BOTTOM_BITS 6"
  have "w = push_bit 6 (drop_bit 6 w) OR ucast (low6 w)"
  proof (rule bit_word_eqI)
    fix n assume "n < LENGTH(32)"
    then show "bit w n = bit (push_bit 6 (drop_bit 6 w) OR ucast (low6 w)) n"
      by (cases "n < 6") (auto simp: low6_def bit_simps const_bits)
  qed
  with a show "w = push_bit 6 v OR ucast (c AND BOTTOM_BITS 6)" by simp
qed

lemma utf8_loop_iff:
  "6 * n \<le> 26 \<Longrightarrow> drop_bit (32 - 6 * n) v = 0 \<Longrightarrow>
   utf8_loop n v bs = (Some w, r) \<longleftrightarrow> drop_bit (6 * n) w = v \<and> bs = cont_bytes n w @ r"
proof (induction n arbitrary: v bs)
  case 0
  then show ?case by auto
next
  case (Suc n)
  show ?case
  proof (cases bs)
    case Nil
    then show ?thesis by simp
  next
    case (Cons c cs)
    let ?w = "push_bit 6 v OR ucast (c AND BOTTOM_BITS 6)"
    have v: "drop_bit (26 - 6 * n) v = 0" using Suc.prems by simp
    have v26: "drop_bit 26 v = 0"
      by (rule bit_word_eqI) (use drop_bit_0_bits [OF v] in \<open>force simp: bit_simps\<close>)
    have "drop_bit (32 - 6 * n) ?w = 0"
      by (rule bit_word_eqI)
        (use Suc.prems(1) in \<open>auto simp: bit_simps const_bits dest: bit_imp_le_length drop_bit_0_bits [OF v]\<close>)
    then have IH: "utf8_loop n ?w cs = (Some w, r) \<longleftrightarrow> drop_bit (6 * n) w = ?w \<and> cs = cont_bytes n w @ r"
      using Suc.IH Suc.prems(1) by simp
    have step: "drop_bit (6 * n) w = ?w \<longleftrightarrow>
        drop_bit (6 * Suc n) w = v \<and> low6 (drop_bit (6 * n) w) = c AND BOTTOM_BITS 6"
      using utf8_step [OF v26, of "drop_bit (6 * n) w" c] by (simp add: add.commute)
    show ?thesis
    proof (cases "c AND TOP_BITS 2 = TOP_BITS 1")
      case False
      then have "utf8_loop (Suc n) v bs = (None, cs)" using Cons by simp
      moreover have "c \<noteq> TOP_BITS 1 OR low6 (drop_bit (6 * n) w)"
      proof
        assume c: "c = TOP_BITS 1 OR low6 (drop_bit (6 * n) w)"
        have "c AND BOTTOM_BITS 6 = low6 (drop_bit (6 * n) w)" unfolding c low6_def
          by (rule bit_word_eqI) (auto simp: bit_simps const_bits)
        with c cont_byte_split [of c] False show False by simp
      qed
      ultimately show ?thesis using Cons by auto
    next
      case True
      then have c: "c = TOP_BITS 1 OR (c AND BOTTOM_BITS 6)" by (rule iffD1 [OF cont_byte_split])
      have same: "c = TOP_BITS 1 OR low6 x \<longleftrightarrow> low6 x = c AND BOTTOM_BITS 6" for x
      proof
        assume x: "c = TOP_BITS 1 OR low6 x"
        show "low6 x = c AND BOTTOM_BITS 6" unfolding x low6_def
          by (rule bit_word_eqI) (auto simp: bit_simps const_bits)
      qed (use c in simp)
      have "utf8_loop (Suc n) v bs = utf8_loop n ?w cs" using Cons True by simp
      then show ?thesis using IH step Cons same by auto
    qed
  qed
qed

text \<open>The first byte of a sequence of \<open>n + 1\<close> bytes holds \<open>6 - n\<close> bits.\<close>

lemma lead_byte:
  fixes w :: u32
  assumes "1 \<le> n" "n \<le> 3" "drop_bit (6 * n) w = ucast (c AND BOTTOM_BITS (6 - n))" "c AND TOP_BITS (n + 2) = TOP_BITS (n + 1)"
  shows "c = TOP_BITS (n + 1) OR ucast (drop_bit (6 * n) w)" "drop_bit (6 * n + (6 - n)) w = 0"
proof -
  have "c = (c AND TOP_BITS (n + 2)) OR (c AND BOTTOM_BITS (6 - n))"
    using assms(1,2) by (intro bit_word_eqI) (auto simp: bit_simps const_bits)
  moreover have "ucast (ucast (c AND BOTTOM_BITS (6 - n)) :: u32) = c AND BOTTOM_BITS (6 - n)"
    by (rule bit_word_eqI) (auto simp: bit_simps)
  then have "ucast (drop_bit (6 * n) w) = c AND BOTTOM_BITS (6 - n)" by (simp only: assms(3))
  ultimately show "c = TOP_BITS (n + 1) OR ucast (drop_bit (6 * n) w)" by (simp only: assms(4))
  have "drop_bit (6 - n) (drop_bit (6 * n) w) = 0"
    unfolding assms(3) by (rule bit_word_eqI) (auto simp: bit_simps const_bits)
  then show "drop_bit (6 * n + (6 - n)) w = 0" by (simp add: add.commute)
qed

lemma lead_byte_back:
  fixes w :: u32
  assumes "1 \<le> n" "n \<le> 3" "drop_bit (6 * n + (6 - n)) w = 0"
  defines "c \<equiv> TOP_BITS (n + 1) OR ucast (drop_bit (6 * n) w)"
  shows "c AND TOP_BITS (n + 2) = TOP_BITS (n + 1)" "drop_bit (6 * n) w = ucast (c AND BOTTOM_BITS (6 - n))"
proof -
  have w: "bit w (6 * n + i) \<Longrightarrow> i < 6 - n" for i using drop_bit_0_bits [OF assms(3), of "6 * n + i"] by simp
  show "c AND TOP_BITS (n + 2) = TOP_BITS (n + 1)"
    unfolding c_def using assms(1,2)
    by (intro bit_word_eqI) (auto simp: bit_simps const_bits dest!: w)
  show "drop_bit (6 * n) w = ucast (c AND BOTTOM_BITS (6 - n))"
    unfolding c_def using assms(1,2)
    by (intro bit_word_eqI) (auto simp: bit_simps const_bits dest: w)
qed

lemma multi_byte_iff:
  assumes "1 \<le> n" "n \<le> 3"
  shows "c AND TOP_BITS (n + 2) = TOP_BITS (n + 1) \<and> utf8_loop n (ucast (c AND BOTTOM_BITS (6 - n))) bs = (Some w, r)
    \<longleftrightarrow> drop_bit (6 * n + (6 - n)) w = 0 \<and> c # bs = (TOP_BITS (n + 1) OR ucast (drop_bit (6 * n) w)) # cont_bytes n w @ r"
proof -
  have "drop_bit (32 - 6 * n) (ucast (c AND BOTTOM_BITS (6 - n)) :: u32) = 0"
    by (rule bit_word_eqI) (use assms in \<open>auto simp: bit_simps const_bits\<close>)
  from utf8_loop_iff [OF _ this, of bs w r] assms
  have loop: "utf8_loop n (ucast (c AND BOTTOM_BITS (6 - n))) bs = (Some w, r)
    \<longleftrightarrow> drop_bit (6 * n) w = ucast (c AND BOTTOM_BITS (6 - n)) \<and> bs = cont_bytes n w @ r"
    by simp
  show ?thesis unfolding loop
    using lead_byte [OF assms, of w c] lead_byte_back [OF assms, of w] by blast
qed

lemma byte_le_7F: "(c :: byte) \<le> 0x7f \<longleftrightarrow> \<not> bit c 7"
proof -
  have "c \<le> 0x7f \<longleftrightarrow> unat c < 128" by (auto simp: word_le_nat_alt)
  also have "\<dots> \<longleftrightarrow> drop_bit 7 c = 0" by (simp add: drop_bit_0_iff)
  also have "\<dots> \<longleftrightarrow> \<not> bit c 7"
  proof
    assume "\<not> bit c 7"
    have "i \<le> 7 \<Longrightarrow> i < 7 \<or> i = 7" for i :: nat by linarith
    show "drop_bit 7 c = 0"
    proof (rule bit_word_eqI)
      fix i assume "i < LENGTH(8)"
      show "bit (drop_bit 7 c) i = bit (0 :: byte) i"
        using \<open>\<not> bit c 7\<close> by (cases "i = 0") (auto simp: bit_simps dest: bit_imp_le_length)
    qed
  qed (auto dest: drop_bit_0_bits)
  finally show ?thesis .
qed

lemma top_bit_7: "1 \<le> n \<Longrightarrow> bit (TOP_BITS n OR b) 7"
  by (auto simp: bit_simps const_bits)

lemma lead_distinct:
  "c AND TOP_BITS 3 = TOP_BITS 2 \<Longrightarrow> c AND TOP_BITS 4 \<noteq> TOP_BITS 3"
  "c AND TOP_BITS 3 = TOP_BITS 2 \<Longrightarrow> c AND TOP_BITS 5 \<noteq> TOP_BITS 4"
  "c AND TOP_BITS 4 = TOP_BITS 3 \<Longrightarrow> c AND TOP_BITS 5 \<noteq> TOP_BITS 4"
proof -
  have b: "bit (c AND TOP_BITS k) i = bit (TOP_BITS m) i" if "c AND TOP_BITS k = TOP_BITS m" for k m i
    using that by simp
  have no: False if "c AND TOP_BITS k = TOP_BITS m" "c AND TOP_BITS k' = TOP_BITS m'" "bit (TOP_BITS k) i" "bit (TOP_BITS k') i"
    "bit (TOP_BITS m) i \<noteq> bit (TOP_BITS m') i" for k m k' m' i
    using b [OF that(1), of i] b [OF that(2), of i] that(3-5) by (simp add: bit_simps)
  show "c AND TOP_BITS 4 \<noteq> TOP_BITS 3" "c AND TOP_BITS 5 \<noteq> TOP_BITS 4" if "c AND TOP_BITS 3 = TOP_BITS 2"
    using no [OF that, of 4 3 5] no [OF that, of 5 4 5] by (auto simp: bit_TOP)
  show "c AND TOP_BITS 5 \<noteq> TOP_BITS 4" if "c AND TOP_BITS 4 = TOP_BITS 3"
    using no [OF that, of 5 4 4] by (auto simp: bit_TOP)
qed

lemma utf8_lead_bit: "utf8_bytes u @ r = x # xs \<Longrightarrow> \<not> u \<le> 0x7f \<Longrightarrow> bit x 7"
  by (auto simp: utf8_bytes_def top_bit_7 split: if_splits)

lemma valid_limits: "is_valid_code_point u \<Longrightarrow> u \<le> 0x10ffff"
  by (auto simp: is_valid_code_point_def split: if_splits)

lemma multi_byte_range:
  "drop_bit 11 (u :: u32) = 0 \<longleftrightarrow> u \<le> 0x7ff" "drop_bit 16 u = 0 \<longleftrightarrow> u \<le> 0xffff"
  "u \<le> 0x10ffff \<Longrightarrow> drop_bit 21 u = 0"
  by (auto simp: drop_bit_0_iff word_le_nat_alt)

lemma small_valid: "(c :: byte) \<le> 0x7f \<Longrightarrow> is_valid_code_point (ucast c) \<and> (ucast c :: u32) \<le> 0x7f"
proof -
  assume c: "c \<le> 0x7f"
  then have u: "unat (ucast c :: u32) < 128" by (simp add: unat_ucast_up word_le_nat_alt)
  have "(ucast c :: u32) AND 0xfffe \<noteq> 0xfffe"
  proof
    assume "(ucast c :: u32) AND 0xfffe = 0xfffe"
    then have "bit ((ucast c :: u32) AND 0xfffe) 15 = bit (0xfffe :: u32) 15" by (rule arg_cong)
    then show False by (auto simp: bit_simps dest: bit_imp_le_length)
  qed
  with u show ?thesis by (simp add: is_valid_code_point_def word_le_nat_alt word_less_nat_alt)
qed

lemma get_utf8_iff:
  "cbs_get_utf8 cbs = (Some u, r) \<longleftrightarrow> is_valid_code_point u \<and> cbs = utf8_bytes u @ r"
proof (cases cbs)
  case Nil
  then show ?thesis by (auto simp: cbs_get_utf8_def utf8_bytes_def split: if_splits)
next
  case (Cons c bs)
  show ?thesis
  proof (cases "c \<le> 0x7f")
    case True
    have cc: "(ucast (ucast c :: u32) :: byte) = c" by (rule bit_word_eqI) (auto simp: bit_simps)
    have inv: "u = ucast c" if "u \<le> 0x7f" "c = ucast u"
    proof (rule bit_word_eqI)
      fix i assume "i < LENGTH(32)"
      have "drop_bit 7 u = 0" using that(1) by (auto simp: drop_bit_0_iff word_le_nat_alt)
      then show "bit u i = bit (ucast c :: u32) i" using that(2) by (auto simp: bit_simps dest: drop_bit_0_bits)
    qed
    have "\<not> bit c 7" using True by (simp add: byte_le_7F)
    then have small: "u \<le> 0x7f" if "c # bs = utf8_bytes u @ r"
      using utf8_lead_bit [of u r c bs] that by auto
    have "utf8_bytes (ucast c) = [c]" using small_valid [OF True] cc by (simp add: utf8_bytes_def)
    moreover have "u = ucast c \<and> r = bs" if "c # bs = utf8_bytes u @ r"
      using small [OF that] inv that by (simp add: utf8_bytes_def)
    moreover have "cbs_get_utf8 cbs = (Some (ucast c), bs)" using Cons True by (simp add: cbs_get_utf8_def)
    ultimately show ?thesis
      using Cons small_valid [OF True] by auto
  next
    case False
    let ?M = "\<lambda>n. c AND TOP_BITS (n + 2) = TOP_BITS (n + 1) \<and>
      utf8_loop n (ucast (c AND BOTTOM_BITS (6 - n))) bs = (Some u, r)"
    have "cbs_get_utf8 cbs = (Some u, r) \<longleftrightarrow>
      is_valid_code_point u \<and> (?M 1 \<and> \<not> u < 0x80 \<or> ?M 2 \<and> \<not> u < 0x800 \<or> ?M 3 \<and> \<not> u < 0x10000)"
    proof -
      have guard: "and_then m (\<lambda>v. if is_valid_code_point v \<longrightarrow> v < lb then fail else ret v) s = (Some u, r) \<longleftrightarrow>
          m s = (Some u, r) \<and> is_valid_code_point u \<and> \<not> u < lb" for m :: "u32 cact" and s lb
        by (cases "m s"; cases "fst (m s)") auto
      consider "c AND TOP_BITS 3 = TOP_BITS 2" "c AND TOP_BITS 4 \<noteq> TOP_BITS 3" "c AND TOP_BITS 5 \<noteq> TOP_BITS 4"
        | "c AND TOP_BITS 3 \<noteq> TOP_BITS 2" "c AND TOP_BITS 4 = TOP_BITS 3" "c AND TOP_BITS 5 \<noteq> TOP_BITS 4"
        | "c AND TOP_BITS 3 \<noteq> TOP_BITS 2" "c AND TOP_BITS 4 \<noteq> TOP_BITS 3" "c AND TOP_BITS 5 = TOP_BITS 4"
        | "c AND TOP_BITS 3 \<noteq> TOP_BITS 2" "c AND TOP_BITS 4 \<noteq> TOP_BITS 3" "c AND TOP_BITS 5 \<noteq> TOP_BITS 4"
        using lead_distinct [of c] by blast
      then show ?thesis
        by cases (use Cons False in \<open>simp_all add: cbs_get_utf8_def guard conj_ac del: utf8_loop.simps One_nat_def\<close>)
    qed
    also have "\<dots> \<longleftrightarrow> is_valid_code_point u \<and> cbs = utf8_bytes u @ r"
    proof (intro conj_cong refl)
      assume "is_valid_code_point u"
      then have u: "u \<le> 0x10ffff" by (rule valid_limits)
      have no1: "cbs \<noteq> ucast u # xs" if "u \<le> 0x7f" for xs
      proof
        assume "cbs = ucast u # xs"
        then have "bit (ucast u :: byte) 7" using Cons False by (simp add: byte_le_7F)
        moreover have "drop_bit 7 u = 0" using that by (auto simp: drop_bit_0_iff word_le_nat_alt)
        ultimately show False by (auto simp: bit_simps dest: drop_bit_0_bits)
      qed
      have M: "?M 1 \<longleftrightarrow> u \<le> 0x7ff \<and> cbs = (TOP_BITS 2 OR ucast (drop_bit 6 u)) # cont_bytes 1 u @ r"
        "?M 2 \<longleftrightarrow> u \<le> 0xffff \<and> cbs = (TOP_BITS 3 OR ucast (drop_bit 12 u)) # cont_bytes 2 u @ r"
        "?M 3 \<longleftrightarrow> cbs = (TOP_BITS 4 OR ucast (drop_bit 18 u)) # cont_bytes 3 u @ r"
        using multi_byte_iff [of 1 c bs u r] multi_byte_iff [of 2 c bs u r] multi_byte_iff [of 3 c bs u r]
          multi_byte_range [of u] u Cons by (simp_all del: cont_bytes.simps utf8_loop.simps One_nat_def)
      have le: "u \<le> 0x7f \<longleftrightarrow> u < 0x80" "u \<le> 0x7ff \<longleftrightarrow> u < 0x800" "u \<le> 0xffff \<longleftrightarrow> u < 0x10000"
        "u < 0x80 \<Longrightarrow> u < 0x800" "u < 0x800 \<Longrightarrow> u < 0x10000"
        by (auto simp: word_le_nat_alt word_less_nat_alt)
      show "(?M 1 \<and> \<not> u < 0x80 \<or> ?M 2 \<and> \<not> u < 0x800 \<or> ?M 3 \<and> \<not> u < 0x10000) \<longleftrightarrow> cbs = utf8_bytes u @ r"
        unfolding M utf8_bytes_def using no1 le by (auto simp del: cont_bytes.simps)
    qed
    finally show ?thesis .
  qed
qed

text \<open>The encoding of Unicode, with numbers: what may be encoded, and the shortest form of it.\<close>

definition code_point :: "nat \<Rightarrow> bool" where
  "code_point n \<longleftrightarrow> n \<le> 0x10FFFF \<and> n \<notin> {0xD800..0xDFFF} \<and> n \<notin> {0xFDD0..0xFDEF} \<and> n mod 0x10000 \<notin> {0xFFFE, 0xFFFF}"

definition utf8_octets :: "nat \<Rightarrow> nat list" where
  "utf8_octets n =
     (if n < 0x80 then [n]
      else if n < 0x800 then [0xC0 + n div 0x40, 0x80 + n mod 0x40]
      else if n < 0x10000 then [0xE0 + n div 0x1000, 0x80 + n div 0x40 mod 0x40, 0x80 + n mod 0x40]
      else [0xF0 + n div 0x40000, 0x80 + n div 0x1000 mod 0x40, 0x80 + n div 0x40 mod 0x40, 0x80 + n mod 0x40])"

lemma unat_drop: "unat (drop_bit k u) = unat u div 2 ^ k" for u :: "'a::len word"
  by (subst unat_drop_bit_eq) (simp add: drop_bit_eq_div)

lemma and_fffe: "v AND 0xfffe = 0xfffe \<longleftrightarrow> unat v mod 0x10000 \<in> {0xFFFE, 0xFFFF}" for v :: u32
proof -
  have f: "(0xfffe :: u32) = push_bit 1 (mask 15)" "(0xffff :: u32) = mask 16"
    by (simp_all add: mask_eq_exp_minus_1 push_bit_eq_mult)
  have c: "bit (0xfffe :: u32) i \<longleftrightarrow> 1 \<le> i \<and> i < 16" "bit (0xffff :: u32) i \<longleftrightarrow> i < 16" for i
    unfolding f bit_push_bit_iff bit_mask_iff by auto
  have "v AND 0xfffe = 0xfffe \<longleftrightarrow> take_bit 16 v = 0xfffe \<or> take_bit 16 v = 0xffff"
  proof
    assume "v AND 0xfffe = 0xfffe"
    then have "bit (v AND 0xfffe) i = bit (0xfffe :: u32) i" for i by (simp only:)
    then have bits: "bit v i" if "1 \<le> i" "i < 16" for i using that unfolding bit_and_iff c by blast
    show "take_bit 16 v = 0xfffe \<or> take_bit 16 v = 0xffff"
    proof (cases "bit v 0")
      case True
      with bits have "bit v i" if "i < 16" for i using that by (cases "i = 0") auto
      then have "take_bit 16 v = 0xffff" by (intro bit_word_eqI, unfold bit_take_bit_iff c) auto
      then show ?thesis ..
    next
      case False
      with bits have "bit v i \<longleftrightarrow> 1 \<le> i" if "i < 16" for i using that by (cases "i = 0") auto
      then have "take_bit 16 v = 0xfffe" by (intro bit_word_eqI, unfold bit_take_bit_iff c) auto
      then show ?thesis ..
    qed
  next
    assume t: "take_bit 16 v = 0xfffe \<or> take_bit 16 v = 0xffff"
    have "v AND 0xfffe = take_bit 16 v AND 0xfffe" by (rule bit_word_eqI, unfold bit_and_iff bit_take_bit_iff c) auto
    with t show "v AND 0xfffe = 0xfffe" by auto
  qed
  also have "\<dots> \<longleftrightarrow> unat (take_bit 16 v) = 0xfffe \<or> unat (take_bit 16 v) = 0xffff"
    unfolding word_unat_eq_iff by simp
  also have "unat (take_bit 16 v) = unat v mod 0x10000" by (subst unsigned_take_bit_eq) (simp add: take_bit_eq_mod)
  finally show ?thesis by simp
qed

lemma valid_code_point: "is_valid_code_point u \<longleftrightarrow> code_point (unat u)"
  unfolding is_valid_code_point_def code_point_def and_fffe by (auto simp: word_le_nat_alt word_less_nat_alt)

lemma top_bits: "TOP_BITS (Suc 0) = 0x80" "TOP_BITS 2 = 0xC0" "TOP_BITS 3 = 0xE0" "TOP_BITS 4 = 0xF0"
  by (simp_all add: TOP_BITS_def BOTTOM_BITS_def)

lemma byte_of_nat: "x = of_nat n" if "unat x = n" for x :: byte
  using that by auto

lemma low6_nat: "TOP_BITS 1 OR low6 (drop_bit k u) = of_nat (0x80 + unat u div 2 ^ k mod 0x40)"
proof -
  have "TOP_BITS 1 AND low6 (drop_bit k u) = 0"
    by (rule bit_word_eqI) (auto simp: low6_def bit_simps const_bits)
  then have "TOP_BITS 1 OR low6 (drop_bit k u) = TOP_BITS 1 + low6 (drop_bit k u)" by (rule disjunctive_add_eq_or [symmetric])
  moreover have "low6 (drop_bit k u) = ucast (take_bit 6 (drop_bit k u))"
    by (rule bit_word_eqI) (auto simp: low6_def bit_simps const_bits)
  moreover have "unat (take_bit 6 (drop_bit k u)) = unat u div 2 ^ k mod 0x40"
    by (subst unsigned_take_bit_eq, subst unat_drop) (simp add: take_bit_eq_mod)
  then have "(ucast (take_bit 6 (drop_bit k u)) :: byte) = of_nat (unat u div 2 ^ k mod 0x40)"
    unfolding unsigned_ucast_eq by (metis of_nat_unat)
  ultimately show ?thesis by (simp add: top_bits)
qed

lemma lead_nat:
  assumes "unat u div 2 ^ k < 2 ^ (7 - n)" "n \<in> {2, 3, 4}"
  shows "TOP_BITS n OR ucast (drop_bit k u) = TOP_BITS n + of_nat (unat u div 2 ^ k)"
proof -
  have d: "drop_bit (7 - n) (drop_bit k u) = 0" unfolding drop_bit_0_iff unat_drop by (rule assms(1))
  have "TOP_BITS n AND ucast (drop_bit k u) = 0"
    by (rule bit_word_eqI) (use assms(2) drop_bit_0_bits [OF d] in \<open>force simp: bit_simps const_bits\<close>)
  then have "TOP_BITS n OR ucast (drop_bit k u) = TOP_BITS n + ucast (drop_bit k u)" by (rule disjunctive_add_eq_or [symmetric])
  moreover have "(ucast (drop_bit k u) :: byte) = of_nat (unat u div 2 ^ k)"
    using unat_drop [of k u] by (metis of_nat_unat)
  ultimately show ?thesis by simp
qed

lemma cont_bytes_num:
  "cont_bytes 2 u = [TOP_BITS 1 OR low6 (drop_bit 6 u), TOP_BITS 1 OR low6 u]"
  "cont_bytes 3 u = [TOP_BITS 1 OR low6 (drop_bit 12 u), TOP_BITS 1 OR low6 (drop_bit 6 u), TOP_BITS 1 OR low6 u]"
  by (simp_all add: numeral_2_eq_2 numeral_3_eq_3)

lemma utf8_bytes_octets:
  assumes "code_point (unat u)"
  shows "utf8_bytes u = map of_nat (utf8_octets (unat u))"
proof -
  have le: "u \<le> 0x7f \<longleftrightarrow> unat u < 0x80" "u \<le> 0x7ff \<longleftrightarrow> unat u < 0x800" "u \<le> 0xffff \<longleftrightarrow> unat u < 0x10000"
    by (auto simp: word_le_nat_alt)
  have one: "ucast u = (of_nat (unat u) :: byte)" by simp
  have lead: "unat u < 0x800 \<Longrightarrow> TOP_BITS 2 OR ucast (drop_bit 6 u) = of_nat (0xC0 + unat u div 0x40)"
    "unat u < 0x10000 \<Longrightarrow> TOP_BITS 3 OR ucast (drop_bit 12 u) = of_nat (0xE0 + unat u div 0x1000)"
    "TOP_BITS 4 OR ucast (drop_bit 18 u) = of_nat (0xF0 + unat u div 0x40000)"
    using lead_nat [of u 6 2] lead_nat [of u 12 3] lead_nat [of u 18 4] assms
    by (simp_all add: top_bits code_point_def div_less_iff_less_mult)
  have cont: "cont_bytes (Suc 0) u = [of_nat (0x80 + unat u mod 0x40)]"
    "cont_bytes 2 u = [of_nat (0x80 + unat u div 0x40 mod 0x40), of_nat (0x80 + unat u mod 0x40)]"
    "cont_bytes 3 u = [of_nat (0x80 + unat u div 0x1000 mod 0x40), of_nat (0x80 + unat u div 0x40 mod 0x40), of_nat (0x80 + unat u mod 0x40)]"
    using low6_nat [of 0 u] low6_nat [of 6 u] low6_nat [of 12 u] by (simp_all add: cont_bytes_num)
  show ?thesis
    unfolding utf8_bytes_def utf8_octets_def le
    using lead cont one by (simp del: of_nat_add cont_bytes.simps of_nat_unat ucast_eq)
qed

text \<open>C18: \<open>cbs_get_utf8\<close> reads the code point \<open>u\<close> exactly when \<open>u\<close> may be encoded (at most U+10FFFF, no surrogate, no
  noncharacter) and the window starts with the octets of its shortest UTF-8 encoding; these are given as numbers,
  apart from the code. So overlong forms, surrogates, noncharacters, values beyond U+10FFFF, stray continuation bytes
  and truncated sequences are all refused.\<close>

theorem cbs_get_utf8_iff:
  "cbs_get_utf8 cbs = (Some u, r) \<longleftrightarrow> code_point (unat u) \<and> cbs = map of_nat (utf8_octets (unat u)) @ r"
  unfolding get_utf8_iff valid_code_point by (auto simp: utf8_bytes_octets)

lemma get_utf8_bytes: "is_valid_code_point u \<Longrightarrow> cbs_get_utf8 (utf8_bytes u @ r) = (Some u, r)"
  by (simp add: get_utf8_iff)

interpretation utf8: codec utf8_bytes "\<lambda>bs. case cbs_get_utf8 bs of (None, _) \<Rightarrow> None | (Some u, r) \<Rightarrow> Some (u, r)"
    is_valid_code_point
  by unfold_locales (simp add: get_utf8_bytes)

text \<open>Hence the two directions, and the length \<open>cbb_get_utf8_len\<close> promises.\<close>

lemma u16_be: "be_bytes 2 (ucast (v :: u16)) = [ucast (drop_bit 8 v), ucast v]"
  by (simp add: numeral_2_eq_2) (rule conjI; rule bit_word_eqI; auto simp: bit_simps)

lemma appends_utf8: "is_valid_code_point u \<Longrightarrow> appends d (cbb_add_utf8 d u) (Some (utf8_bytes u, ()))"
proof -
  assume v: "is_valid_code_point u"
  have two: "appends d (and_then (CBB_add_u8 d b) (\<lambda>_. f)) (Some (b # bs, ()))" if "appends d f (Some (bs, ()))" for b f bs
    using appends_and_then [OF appends_u8 that] by simp
  show ?thesis
    using v valid_limits [OF v]
    by (auto simp: cbb_add_utf8_def utf8_bytes_def low6_and cont_bytes_num intro!: two appends_u8)
qed

lemma utf8_invalid: "\<not> is_valid_code_point u \<Longrightarrow> cbb_add_utf8 d u s = (None, s)"
  by (simp add: cbb_add_utf8_def)

lemma length_cont_bytes [simp]: "length (cont_bytes n u) = n"
  by (induction n) simp_all

lemma length_utf8_bytes: "length (utf8_bytes u) = cbb_get_utf8_len u"
  by (simp add: utf8_bytes_def cbb_get_utf8_len_def del: cont_bytes.simps)

text \<open>C32: what \<open>cbb_add_utf8\<close> writes for a valid code point is read back by \<open>cbs_get_utf8\<close>, whatever
  follows, and has the length \<open>cbb_get_utf8_len\<close> announces; an invalid code point is refused and
  nothing is written.\<close>

theorem utf8_roundtrip:
  assumes "cap < 2 ^ 64"
  shows "if is_valid_code_point u
    then \<exists>out. built junk cap (cbb_add_utf8 0 u) = Some out \<and> length out = cbb_get_utf8_len u \<and>
      cbs_get_utf8 (out @ r) = (Some u, r)
    else built junk cap (cbb_add_utf8 0 u) = None \<and> cbb_add_utf8 0 u s = (None, s)"
proof (cases "is_valid_code_point u")
  case True
  have "length (utf8_bytes u) < 2 ^ 64" by (simp add: length_utf8_bytes cbb_get_utf8_len_def)
  with built_appends [OF appends_utf8 [OF True] assms, of junk] True show ?thesis
    by (simp add: length_utf8_bytes get_utf8_bytes)
next
  case False
  then show ?thesis
    by (auto simp: built_def cbb_add_utf8_def split: option.split prod.split)
qed

theorem utf8_roundtrip_witness:
  "\<exists>out. built (\<lambda>_. 0) 0 (cbb_add_utf8 0 0x20ac) = Some out \<and> length out = 3 \<and> cbs_get_utf8 (out @ [1]) = (Some 0x20ac, [1])"
  using utf8_roundtrip [where cap = 0 and u = "0x20ac" and junk = "\<lambda>_. 0" and r = "[1]"] by (simp add: is_valid_code_point_def cbb_get_utf8_len_def)

end
