(* ===== verification/Oid.thy ===== *)
theory Oid
  imports CbbDer
begin

text \<open>
  Object identifiers between dotted text and DER (\<open>CBB_add_asn1_oid_from_text\<close> of
  \<open>crypto/bytestring/cbb.c\<close> and \<open>CBS_asn1_oid_to_text\<close> of \<open>crypto/bytestring/cbs.c\<close>). Text is a list
  of bytes, 46 being the dot and 48 the digit zero.
\<close>

section \<open>From text\<close>

definition UINT64_MAX :: u64 where "UINT64_MAX = - 1"

text \<open>The loop of \<open>parse_dotted_decimal\<close>, with \<open>*out\<close> and \<open>seen_digit\<close> as arguments.\<close>

fun dotted_loop :: "u64 \<Rightarrow> bool \<Rightarrow> u64 cact" where
  "dotted_loop out seen_digit [] = (if seen_digit then (Some out, []) else (None, []))"
| "dotted_loop out seen_digit (u # cbs) =
     (if u = 46 \<and> length cbs > 0 then (if seen_digit then (Some out, cbs) else (None, cbs))
      else if u < 48 \<or> u > 57 \<or> (seen_digit \<and> out = 0) \<or> out > UINT64_MAX div 10 \<or>
              out * 10 > UINT64_MAX - (ucast u - 48) then (None, cbs)
      else dotted_loop (out * 10 + (ucast u - 48)) True cbs)"

definition parse_dotted_decimal :: "u64 cact" where
  "parse_dotted_decimal = dotted_loop 0 False"

lemma dotted_loop_shorter: "dotted_loop out seen bs = (r, t) \<Longrightarrow> length t \<le> length bs"
proof (induction out seen bs arbitrary: r t rule: dotted_loop.induct)
  case (2 out seen u cbs)
  then show ?case by (force split: if_splits)
qed (auto split: if_splits)

lemma parse_dotted_shorter: "parse_dotted_decimal (u # bs) = (Some v, t) \<Longrightarrow> length t < length (u # bs)"
  by (auto simp: parse_dotted_decimal_def dest!: dotted_loop_shorter split: if_splits)

text \<open>The loop over the components after the second.\<close>

function oid_components :: "nat \<Rightarrow> cbs \<Rightarrow> unit bact" where
  "oid_components d cbs s =
     (if length cbs > 0 then
        (case parse_dotted_decimal cbs of
           (None, _) \<Rightarrow> (None, s)
         | (Some a, cbs') \<Rightarrow> and_then (add_base128_integer d a) (\<lambda>_. oid_components d cbs') s)
      else ret () s)"
  by pat_completeness auto
termination
  by (relation "measure (\<lambda>(d, cbs, s). length cbs)")
    (auto, metis parse_dotted_shorter list.exhaust length_Cons)

declare oid_components.simps [simp del]

definition CBB_add_asn1_oid_from_text :: "nat \<Rightarrow> byte list \<Rightarrow> unit bact" where
  "CBB_add_asn1_oid_from_text d text =
     and_then (CBB_flush d) (\<lambda>_ s.
       case parse_dotted_decimal text of
         (None, _) \<Rightarrow> (None, s)
       | (Some a, cbs) \<Rightarrow>
           (case parse_dotted_decimal cbs of
              (None, _) \<Rightarrow> (None, s)
            | (Some b, cbs') \<Rightarrow>
                if a > 2 \<or> (a < 2 \<and> b > 39) \<or> b > UINT64_MAX - 80 then (None, s)
                else and_then (add_base128_integer d (40 * a + b)) (\<lambda>_. oid_components d cbs') s))"

section \<open>To text\<close>

text \<open>The digits \<open>BIO_snprintf\<close> prints for \<open>%PRIu64\<close>.\<close>

fun decimal :: "nat \<Rightarrow> byte list" where
  "decimal n = (if n < 10 then [of_nat (48 + n)] else decimal (n div 10) @ [of_nat (48 + n mod 10)])"

declare decimal.simps [simp del]

definition add_decimal :: "nat \<Rightarrow> u64 \<Rightarrow> unit bact" where
  "add_decimal d v = CBB_add_bytes d (decimal (unat v))"

lemma parse_base128_shorter: "parse_base128_integer bs = (Some v, t) \<Longrightarrow> length t < length bs"
  by (auto simp: parse_base128_iff base128_bytes_def)

function oid_text_loop :: "cbs \<Rightarrow> unit bact" where
  "oid_text_loop copy s =
     (if length copy \<noteq> 0 then
        (case parse_base128_integer copy of
           (None, _) \<Rightarrow> (None, s)
         | (Some v, copy') \<Rightarrow>
             and_then (CBB_add_u8 0 46) (\<lambda>_. and_then (add_decimal 0 v) (\<lambda>_. oid_text_loop copy')) s)
      else ret () s)"
  by pat_completeness auto
termination
  by (relation "measure (\<lambda>(copy, s). length copy)") (auto dest: parse_base128_shorter [OF sym])

declare oid_text_loop.simps [simp del]

text \<open>The result is the string with its terminator; \<open>None\<close> is \<open>NULL\<close>.\<close>

definition CBS_asn1_oid_to_text :: "bool \<Rightarrow> bool \<Rightarrow> (nat \<Rightarrow> bool) \<Rightarrow> (nat \<Rightarrow> byte) \<Rightarrow> cbs \<Rightarrow> byte list option" where
  "CBS_asn1_oid_to_text buf_ok struct_ok oracle junk cbs =
     (case CBB_init buf_ok struct_ok oracle junk 32 of
        (None, _) \<Rightarrow> None
      | (Some _, s) \<Rightarrow>
          (case parse_base128_integer cbs of
             (None, _) \<Rightarrow> None
           | (Some v, copy) \<Rightarrow>
               fst (and_then
                      (if v \<ge> 80 then and_then (CBB_add_bytes 0 [50, 46]) (\<lambda>_. add_decimal 0 (v - 80))
                       else and_then (add_decimal 0 (v div 40)) (\<lambda>_.
                              and_then (CBB_add_u8 0 46) (\<lambda>_. add_decimal 0 (v mod 40))))
                      (\<lambda>_. and_then (oid_text_loop copy) (\<lambda>_.
                         and_then (CBB_add_u8 0 0) (\<lambda>_. CBB_finish True 0))) s)))"

section \<open>Decimal numbers\<close>

lemma digit: "n < 10 \<Longrightarrow> unat (of_nat (48 + n) :: byte) = 48 + n"
  by (rule unat_of_nat_byte) simp

lemma digit_u64: "n < 10 \<Longrightarrow> (ucast (of_nat (48 + n) :: byte) :: u64) - 48 = of_nat n"
proof -
  assume "n < 10"
  then have "(ucast (of_nat (48 + n) :: byte) :: u64) = of_nat (48 + n)"
    using digit [of n] unat_ucast_up [of "of_nat (48 + n) :: byte", where 'a = 64]
    by (metis of_nat_unat ucast_id len_bit0 len_num1 mult_2 numeral_Bit0 nat_le_linear)
  then show ?thesis by simp
qed

lemma unat_MAX: "unat UINT64_MAX = 2 ^ 64 - 1"
  unfolding UINT64_MAX_def by (simp add: unsigned_minus_1_eq_mask mask_eq_exp_minus_1)

lemma unat_small: "n < 10 \<Longrightarrow> unat (of_nat n :: u64) = n"
  by (rule unat_of_nat_64) simp

text \<open>The two guards of the loop detect exactly the overflow.\<close>

lemma overflow_guard:
  assumes "n < 10"
  shows "(out > UINT64_MAX div 10 \<or> out * 10 > UINT64_MAX - of_nat n) \<longleftrightarrow> 2 ^ 64 \<le> unat out * 10 + n"
proof -
  have div: "unat (UINT64_MAX div 10) = (2 ^ 64 - 1) div 10" by (simp add: unat_div unat_MAX)
  have "of_nat n \<le> UINT64_MAX" using assms by (simp add: word_le_nat_alt unat_MAX unat_small)
  then have sub: "unat (UINT64_MAX - of_nat n) = 2 ^ 64 - 1 - n"
    using assms by (simp add: unat_sub unat_MAX unat_small)
  show ?thesis
  proof (cases "unat out \<le> (2 ^ 64 - 1) div 10")
    case True
    then have "unat (out * 10) = unat out * 10"
      using unat_mult_lem [of out 10] by simp
    with True show ?thesis unfolding word_less_nat_alt div sub using assms by simp arith
  next
    case False
    then show ?thesis unfolding word_less_nat_alt div by simp
  qed
qed

lemma next_value:
  fixes out :: u64
  assumes "n < 10" "unat out * 10 + n < 2 ^ 64"
  shows "unat (out * 10 + of_nat n) = unat out * 10 + n"
proof -
  have "unat (out * 10) = unat out * 10" using unat_mult_lem [of out 10] assms(2) by simp
  then show ?thesis using unat_add_lem [of "out * 10" "of_nat n"] assms by (simp add: unat_small)
qed

lemma dotted_digit:
  assumes "n < 10"
  shows "dotted_loop out seen (of_nat (48 + n) # cbs) =
    (if (seen \<and> out = 0) \<or> 2 ^ 64 \<le> unat out * 10 + n then (None, cbs)
     else dotted_loop (out * 10 + of_nat n) True cbs)"
proof -
  have u: "unat (of_nat (48 + n) :: byte) = 48 + n" using assms by (rule digit)
  have "(of_nat (48 + n) :: byte) \<noteq> 46"
  proof
    assume "(of_nat (48 + n) :: byte) = 46"
    then have "unat (of_nat (48 + n) :: byte) = 46" by (simp del: of_nat_add)
    with u show False by simp
  qed
  moreover have "\<not> (of_nat (48 + n) :: byte) < 48" "\<not> (of_nat (48 + n) :: byte) > 57"
    using u assms by (simp_all add: word_less_nat_alt del: of_nat_add)
  ultimately show ?thesis
    unfolding dotted_loop.simps digit_u64 [OF assms] using overflow_guard [OF assms, of out] by auto
qed

lemma byte_digit:
  assumes "\<not> u < (48 :: byte)" "\<not> u > 57"
  obtains n where "n < 10" "u = of_nat (48 + n)"
proof -
  have "u = of_nat (48 + (unat u - 48))" "unat u - 48 < 10"
    using assms by (simp_all add: word_less_nat_alt)
  then show thesis using that by blast
qed

lemma decimal_step: "0 < m \<Longrightarrow> n < 10 \<Longrightarrow> decimal (m * 10 + n) = decimal m @ [of_nat (48 + n)]"
  by (subst decimal.simps) auto

lemma decimal_digit: "n < 10 \<Longrightarrow> decimal n = [of_nat (48 + n)]"
  by (subst decimal.simps) simp

lemma dotted_loop_decimal: "n < 2 ^ 64 \<Longrightarrow> dotted_loop 0 False (decimal n @ t) = dotted_loop (of_nat n) True t"
proof (induction n arbitrary: t rule: decimal.induct)
  case (1 n)
  show ?case
  proof (cases "n < 10")
    case True
    then show ?thesis by (simp add: decimal_digit dotted_digit del: dotted_loop.simps of_nat_add)
  next
    case False
    let ?m = "n div 10" and ?d = "n mod 10"
    have n: "n = ?m * 10 + ?d" by simp
    have m: "0 < ?m" "?m < 2 ^ 64" using False 1(2) by auto
    have um: "unat (of_nat ?m :: u64) = ?m" using m(2) by (rule unat_of_nat_64)
    have "decimal n @ t = decimal ?m @ (of_nat (48 + ?d) # t)"
      using decimal_step [OF m(1), of ?d] n by simp
    then have "dotted_loop 0 False (decimal n @ t) = dotted_loop (of_nat ?m) True (of_nat (48 + ?d) # t)"
      using 1(1) [OF False, of "of_nat (48 + ?d) # t"] m(2) by simp
    also have "\<dots> = dotted_loop (of_nat ?m * 10 + of_nat ?d) True t"
    proof (subst dotted_digit)
      have "(of_nat ?m :: u64) \<noteq> 0" using um m(1) by (metis unat_0 less_irrefl)
      moreover have "\<not> 2 ^ 64 \<le> unat (of_nat ?m :: u64) * 10 + ?d" unfolding um using 1(2) by simp
      ultimately show "(if (True \<and> (of_nat ?m :: u64) = 0) \<or> 2 ^ 64 \<le> unat (of_nat ?m :: u64) * 10 + ?d then (None, t)
          else dotted_loop (of_nat ?m * 10 + of_nat ?d) True t) = dotted_loop (of_nat ?m * 10 + of_nat ?d) True t"
        by simp
    qed simp
    also have "of_nat ?m * 10 + of_nat ?d = (of_nat n :: u64)"
      using arg_cong [OF n, of "of_nat :: nat \<Rightarrow> u64"] by (simp only: of_nat_add of_nat_mult of_nat_numeral)
    finally show ?thesis .
  qed
qed

lemma dotted_loop_only:
  "dotted_loop out seen bs = (Some v, r) \<Longrightarrow> seen \<or> out = 0 \<Longrightarrow>
   \<exists>q. (if seen then decimal (unat out) else []) @ q = decimal (unat v) \<and> (r = [] \<and> bs = q \<or> r \<noteq> [] \<and> bs = q @ 46 # r)"
proof (induction out seen bs rule: dotted_loop.induct)
  case (1 out seen)
  then show ?case by (auto split: if_splits)
next
  case (2 out seen u cbs)
  show ?case
  proof (cases "u = 46 \<and> length cbs > 0")
    case True
    then have "seen" "v = out" "r = cbs" using 2(2) by (auto split: if_splits)
    with True show ?thesis by (intro exI [of _ "[]"]) auto
  next
    case no_dot: False
    with 2(2) have u: "\<not> u < 48" "\<not> u > 57"
      and rest: "\<not> (u < 48 \<or> u > 57 \<or> seen \<and> out = 0 \<or> out > UINT64_MAX div 10 \<or> out * 10 > UINT64_MAX - (ucast u - 48))"
      by (auto split: if_splits)
    from u obtain n where n: "n < 10" "u = of_nat (48 + n)" by (rule byte_digit)
    have fits: "unat out * 10 + n < 2 ^ 64"
      using rest overflow_guard [OF n(1), of out] unfolding n(2) digit_u64 [OF n(1)] by simp
    have step: "dotted_loop (out * 10 + of_nat n) True cbs = (Some v, r)"
      using 2(2) no_dot rest unfolding n(2) digit_u64 [OF n(1)] dotted_loop.simps by (simp only: if_False)
    obtain q where q: "decimal (unat (out * 10 + of_nat n)) @ q = decimal (unat v)"
      "r = [] \<and> cbs = q \<or> r \<noteq> [] \<and> cbs = q @ 46 # r"
      using 2(1) [OF no_dot rest] step unfolding n(2) digit_u64 [OF n(1)] by auto
    have "(if seen then decimal (unat out) else []) @ [u] = decimal (unat (out * 10 + of_nat n))"
    proof (cases seen)
      case True
      then have "0 < unat out" using rest by (simp add: unat_gt_0)
      then show ?thesis using True next_value [OF n(1) fits] decimal_step [OF _ n(1)] n(2) by simp
    next
      case False
      then have "out = 0" using 2(3) by simp
      then show ?thesis using False next_value [OF n(1) fits] decimal_digit [OF n(1)] n(2) by simp
    qed
    then have "(if seen then decimal (unat out) else []) @ (u # q) = decimal (unat v)" using q(1)
      by (metis append.assoc append_Cons append_Nil)
    then show ?thesis using q(2) by (intro exI [of _ "u # q"]) auto
  qed
qed

lemma parse_dotted_iff:
  "parse_dotted_decimal bs = (Some v, r) \<longleftrightarrow>
   (r = [] \<and> bs = decimal (unat v) \<or> r \<noteq> [] \<and> bs = decimal (unat v) @ 46 # r)"
proof
  assume "parse_dotted_decimal bs = (Some v, r)"
  then show "r = [] \<and> bs = decimal (unat v) \<or> r \<noteq> [] \<and> bs = decimal (unat v) @ 46 # r"
    using dotted_loop_only [of 0 False bs v r] by (auto simp: parse_dotted_decimal_def)
next
  have v: "unat v < 2 ^ 64" using unsigned_less [of v] by simp
  assume "r = [] \<and> bs = decimal (unat v) \<or> r \<noteq> [] \<and> bs = decimal (unat v) @ 46 # r"
  then show "parse_dotted_decimal bs = (Some v, r)"
    using dotted_loop_decimal [OF v, of "[]"] dotted_loop_decimal [OF v, of "46 # r"]
    by (auto simp: parse_dotted_decimal_def)
qed

section \<open>Round trips\<close>

fun dotted :: "u64 list \<Rightarrow> byte list" where
  "dotted [] = []"
| "dotted [v] = decimal (unat v)"
| "dotted (v # vs) = decimal (unat v) @ 46 # dotted vs"

definition oid_der :: "u64 list \<Rightarrow> byte list" where
  "oid_der vs = concat (map base128_bytes vs)"

lemma decimal_nonempty: "decimal n \<noteq> []"
  by (subst decimal.simps) simp

lemma dotted_nonempty: "vs \<noteq> [] \<Longrightarrow> dotted vs \<noteq> []"
  by (cases vs rule: dotted.cases) (simp_all add: decimal_nonempty)

lemma dotted_Cons: "vs \<noteq> [] \<Longrightarrow> dotted (v # vs) = decimal (unat v) @ 46 # dotted vs"
  by (cases vs) simp_all

lemma parse_dotted_dotted: "parse_dotted_decimal (dotted (v # vs)) = (Some v, dotted vs)"
  by (cases "vs = []") (simp_all add: parse_dotted_iff dotted_Cons dotted_nonempty)

lemma oid_components_append:
  "appends d (oid_components d (dotted vs)) (Some (oid_der vs, ()))"
proof (induction vs)
  case Nil
  have "oid_components d (dotted []) = ret ()" by (rule ext) (subst oid_components.simps, simp)
  then show ?case using appends_ret [of d "()"] by (simp add: oid_der_def del: ret_simp)
next
  case (Cons v vs)
  have "oid_components d (dotted (v # vs)) = and_then (add_base128_integer d v) (\<lambda>_. oid_components d (dotted vs))"
    by (rule ext) (subst oid_components.simps, simp add: parse_dotted_dotted dotted_nonempty)
  then show ?case using appends_and_then [OF appends_base128 Cons] by (simp add: oid_der_def)
qed

lemma oid_components_only:
  "oid_components d cbs s = (Some (), s') \<Longrightarrow> \<exists>vs. cbs = dotted vs"
proof (induction "length cbs" arbitrary: cbs s rule: less_induct)
  case less
  show ?case
  proof (cases "cbs = []")
    case True
    then show ?thesis by (intro exI [of _ "[]"]) simp
  next
    case False
    then obtain v t s1 where v: "parse_dotted_decimal cbs = (Some v, t)" "oid_components d t s1 = (Some (), s')"
      using less.prems by (subst (asm) oid_components.simps) (auto split: option.splits prod.splits elim!: and_then_SomeE)
    have "length t < length cbs"
      using False v(1) parse_dotted_shorter by (cases cbs) auto
    then obtain vs where vs: "t = dotted vs" using less.hyps v(2) by blast
    have "cbs = dotted (v # vs)"
      using v(1) vs by (cases "vs = []") (auto simp: parse_dotted_iff dotted_Cons dotted_nonempty)
    then show ?thesis by blast
  qed
qed

text \<open>The first two components share one number.\<close>

definition oid_first :: "u64 \<Rightarrow> u64 \<Rightarrow> bool" where
  "oid_first a b \<longleftrightarrow> \<not> (a > 2 \<or> (a < 2 \<and> b > 39) \<or> b > UINT64_MAX - 80)"

lemma from_text_append:
  assumes "oid_first a b"
  shows "appends d (CBB_add_asn1_oid_from_text d (dotted (a # b # vs))) (Some (oid_der ((40 * a + b) # vs), ()))"
proof -
  have "appends d (and_then (add_base128_integer d (40 * a + b)) (\<lambda>_. oid_components d (dotted vs)))
    (Some (oid_der ((40 * a + b) # vs), ()))"
    using appends_and_then [OF appends_base128 oid_components_append] by (simp add: oid_der_def)
  moreover have "CBB_add_asn1_oid_from_text d (dotted (a # b # vs)) = and_then (CBB_flush d) (\<lambda>_.
      and_then (add_base128_integer d (40 * a + b)) (\<lambda>_. oid_components d (dotted vs)))"
  proof -
    have "\<not> a > 2" "\<not> (a < 2 \<and> b > 39)" "\<not> b > UINT64_MAX - 80" using assms by (auto simp: oid_first_def)
    then show ?thesis
      unfolding CBB_add_asn1_oid_from_text_def parse_dotted_dotted prod.case option.case by (simp only: simp_thms if_False)
  qed
  ultimately show ?thesis by (simp only: appends_flushed)
qed

lemma from_text_only:
  assumes "CBB_add_asn1_oid_from_text d text s = (Some (), s')"
  shows "\<exists>a b vs. text = dotted (a # b # vs) \<and> oid_first a b"
proof -
  from assms obtain a t b t' s1 where *: "parse_dotted_decimal text = (Some a, t)" "parse_dotted_decimal t = (Some b, t')"
    "oid_first a b" "oid_components d t' s1 = (Some (), s')"
    by (auto simp: CBB_add_asn1_oid_from_text_def oid_first_def elim!: and_then_SomeE split: option.splits prod.splits if_splits)
  from oid_components_only [OF *(4)] obtain vs where vs: "t' = dotted vs" by blast
  have "t = dotted (b # vs)"
    using *(2) vs by (cases "vs = []") (auto simp: parse_dotted_iff dotted_Cons dotted_nonempty)
  moreover from this have "text = dotted (a # b # vs)"
    using *(1) by (auto simp: parse_dotted_iff dotted_nonempty)
  ultimately show ?thesis using *(3) by blast
qed

lemma oid_first_nat:
  "oid_first a b \<longleftrightarrow> unat a \<le> 2 \<and> (unat a < 2 \<longrightarrow> unat b \<le> 39) \<and> unat b \<le> 2 ^ 64 - 81"
proof -
  have "80 \<le> UINT64_MAX" by (simp add: word_le_nat_alt unat_MAX)
  then have "unat (UINT64_MAX - 80) = 2 ^ 64 - 81" by (simp add: unat_sub unat_MAX)
  then show ?thesis by (auto simp: oid_first_def word_less_nat_alt)
qed

lemma oid_sum:
  assumes "oid_first a b"
  shows "unat (40 * a + b) = 40 * unat a + unat b"
proof -
  have "unat (40 * a) = 40 * unat a"
    using unat_mult_lem [of 40 a] assms by (simp add: oid_first_nat)
  then show ?thesis using unat_add_lem [of "40 * a" b] assms by (auto simp: oid_first_nat)
qed

lemma oid_split:
  assumes "oid_first a b"
  defines "v \<equiv> 40 * a + b"
  shows "if v \<ge> 80 then a = 2 \<and> b = v - 80 else a = v div 40 \<and> b = v mod 40"
proof -
  note ab = assms(1) [unfolded oid_first_nat]
  have v: "unat v = 40 * unat a + unat b" unfolding v_def by (rule oid_sum [OF assms(1)])
  show ?thesis
  proof (cases "80 \<le> v")
    case True
    then have "unat a = 2" using ab v by (simp add: word_le_nat_alt)
    then have "a = 2" by (metis of_nat_numeral of_nat_unat ucast_id)
    then show ?thesis using True by (simp add: v_def)
  next
    case False
    then have "unat a < 2" "unat b < 40" using ab v by (auto simp: word_le_nat_alt)
    then have "unat (v div 40) = unat a" "unat (v mod 40) = unat b"
      using v by (simp_all add: unat_div unat_mod)
    then show ?thesis using False by (metis of_nat_unat ucast_id)
  qed
qed

lemma oid_join:
  fixes v :: u64
  shows "if v \<ge> 80 then oid_first 2 (v - 80) \<and> 40 * 2 + (v - 80) = v
    else oid_first (v div 40) (v mod 40) \<and> 40 * (v div 40) + v mod 40 = v"
proof (cases "80 \<le> v")
  case True
  then have "unat (v - 80) = unat v - 80" by (simp add: unat_sub)
  moreover have "unat v < 2 ^ 64" using unsigned_less [of v] by simp
  ultimately show ?thesis using True by (simp add: oid_first_nat)
next
  case False
  then have v: "unat v < 80" by (simp add: word_le_nat_alt)
  have sum: "40 * (v div 40) + v mod 40 = v" using mult_div_mod_eq [of 40 v] by simp
  have "unat v mod 40 \<le> 39" using mod_less_divisor [of 40 "unat v"] by linarith
  moreover have "unat v div 40 < 2" using v by (simp add: less_mult_imp_div_less)
  ultimately have "oid_first (v div 40) (v mod 40)" by (simp add: oid_first_nat unat_div unat_mod)
  then show ?thesis using False sum by simp
qed

text \<open>Printing.\<close>

lemma decimal_length: "length (decimal n) \<le> Suc (n div 10)"
proof (induction n rule: decimal.induct)
  case (1 n)
  show ?case
  proof (cases "n < 10")
    case False
    then have "length (decimal (n div 10)) \<le> Suc (n div 10 div 10)" by (rule 1)
    moreover have "n div 10 div 10 < n div 10" using False by simp
    ultimately show ?thesis using False by (subst decimal.simps) simp
  qed (simp add: decimal_digit)
qed

lemma appends_decimal: "appends d (add_decimal d v) (Some (decimal (unat v), ()))"
proof -
  have "unat v < 2 ^ 64" using unsigned_less [of v] by simp
  then have "unat v div 10 < 2 ^ 64 - 1" by (simp add: less_mult_imp_div_less)
  then have "length (decimal (unat v)) < 2 ^ 64" using decimal_length [of "unat v"] by simp
  then show ?thesis unfolding add_decimal_def by (rule appends_bytes)
qed

definition dots :: "u64 list \<Rightarrow> byte list" where
  "dots vs = concat (map (\<lambda>v. 46 # decimal (unat v)) vs)"

lemma dotted_dots: "dotted (v # vs) = decimal (unat v) @ dots vs"
proof (induction vs arbitrary: v)
  case (Cons w ws)
  then show ?case by (simp add: dots_def)
qed (simp add: dots_def)

lemma oid_text_loop_append: "appends 0 (oid_text_loop (oid_der vs)) (Some (dots vs, ()))"
proof (induction vs)
  case Nil
  have "oid_text_loop (oid_der []) = ret ()" by (rule ext) (subst oid_text_loop.simps, simp add: oid_der_def)
  then show ?case using appends_ret [of 0 "()"] by (simp add: dots_def del: ret_simp)
next
  case (Cons v vs)
  have "oid_der (v # vs) = base128_bytes v @ oid_der vs" "base128_bytes v \<noteq> []"
    by (simp_all add: oid_der_def base128_bytes_def)
  then have "oid_text_loop (oid_der (v # vs)) =
      and_then (CBB_add_u8 0 46) (\<lambda>_. and_then (add_decimal 0 v) (\<lambda>_. oid_text_loop (oid_der vs)))"
    by (intro ext) (subst oid_text_loop.simps, simp add: parse_base128_bytes parse_base128_iff)
  then show ?case
    using appends_and_then [OF appends_u8 [of 0 46] appends_and_then [OF appends_decimal [of 0 v] Cons]]
    by (simp add: dots_def)
qed

lemma oid_text_loop_only: "oid_text_loop copy s = (Some (), s') \<Longrightarrow> \<exists>vs. copy = oid_der vs"
proof (induction "length copy" arbitrary: copy s rule: less_induct)
  case less
  show ?case
  proof (cases "copy = []")
    case True
    then show ?thesis by (intro exI [of _ "[]"]) (simp add: oid_der_def)
  next
    case False
    then obtain v t s1 where v: "parse_base128_integer copy = (Some v, t)" "oid_text_loop t s1 = (Some (), s')"
      using less.prems by (subst (asm) oid_text_loop.simps) (auto split: option.splits prod.splits elim!: and_then_SomeE)
    then obtain vs where "t = oid_der vs" using less.hyps parse_base128_shorter by blast
    with v(1) have "copy = oid_der (v # vs)" by (simp add: parse_base128_iff oid_der_def)
    then show ?thesis by blast
  qed
qed

text \<open>The text of a decoded identifier; \<open>oid_text v vs\<close> has no terminator.\<close>

definition oid_text :: "u64 \<Rightarrow> u64 list \<Rightarrow> byte list" where
  "oid_text v vs = (if v \<ge> 80 then dotted (2 # (v - 80) # vs) else dotted ((v div 40) # (v mod 40) # vs))"

definition to_text_body :: "u64 \<Rightarrow> cbs \<Rightarrow> unit bact" where
  "to_text_body v copy =
     and_then
       (if v \<ge> 80 then and_then (CBB_add_bytes 0 [50, 46]) (\<lambda>_. add_decimal 0 (v - 80))
        else and_then (add_decimal 0 (v div 40)) (\<lambda>_. and_then (CBB_add_u8 0 46) (\<lambda>_. add_decimal 0 (v mod 40))))
       (\<lambda>_. and_then (oid_text_loop copy) (\<lambda>_. CBB_add_u8 0 0))"

lemma to_text_body_append: "appends 0 (to_text_body v (oid_der vs)) (Some (oid_text v vs @ [0], ()))"
proof -
  have two: "decimal (unat (2 :: u64)) = [50]"
    using decimal_digit [of 2] by simp
  have "appends 0 (and_then (CBB_add_bytes 0 [50, 46]) (\<lambda>_. add_decimal 0 (v - 80))) (Some ([50, 46] @ decimal (unat (v - 80)), ()))"
    by (rule appends_and_then [OF appends_bytes appends_decimal]) simp
  moreover have "appends 0 (and_then (add_decimal 0 (v div 40)) (\<lambda>_. and_then (CBB_add_u8 0 46) (\<lambda>_. add_decimal 0 (v mod 40))))
      (Some (decimal (unat (v div 40)) @ [46] @ decimal (unat (v mod 40)), ()))"
    by (rule appends_and_then [OF appends_decimal appends_and_then [OF appends_u8 appends_decimal]])
  ultimately have "appends 0 (if v \<ge> 80 then and_then (CBB_add_bytes 0 [50, 46]) (\<lambda>_. add_decimal 0 (v - 80))
      else and_then (add_decimal 0 (v div 40)) (\<lambda>_. and_then (CBB_add_u8 0 46) (\<lambda>_. add_decimal 0 (v mod 40))))
    (Some (if v \<ge> 80 then [50, 46] @ decimal (unat (v - 80)) else decimal (unat (v div 40)) @ [46] @ decimal (unat (v mod 40)), ()))"
    by (cases "v \<ge> 80") simp_all
  from appends_and_then [OF this appends_and_then [OF oid_text_loop_append [of vs] appends_u8 [of 0 0]]]
  show ?thesis
    unfolding to_text_body_def oid_text_def dotted_dots
    by (cases "v \<ge> 80") (simp_all add: two [simplified] dots_def)
qed

lemma to_text_built:
  "CBS_asn1_oid_to_text True True (\<lambda>_. True) junk cbs =
    (case parse_base128_integer cbs of (None, _) \<Rightarrow> None | (Some v, copy) \<Rightarrow> built junk 32 (to_text_body v copy))"
  by (simp add: CBS_asn1_oid_to_text_def built_def to_text_body_def and_then_assoc split: option.split prod.split)

text \<open>C16: text that \<open>CBB_add_asn1_oid_from_text\<close> accepts comes back from \<open>CBS_asn1_oid_to_text\<close>,
  terminated by a zero byte, byte for byte: the reader of decimals accepts no other spelling of a
  number (no leading zeros, no overflow), and the first two components share one number without
  loss.\<close>

theorem oid_from_text_to_text:
  assumes "built junk cap (CBB_add_asn1_oid_from_text 0 text) = Some out" "cap < 2 ^ 64" "length text < 2 ^ 64 - 1"
  shows "CBS_asn1_oid_to_text True True (\<lambda>_. True) junk' out = Some (text @ [0])"
proof -
  from assms(1) obtain s v s' where "CBB_add_asn1_oid_from_text 0 text s = (Some v, s')" by (rule built_runs)
  then obtain a b vs where tx: "text = dotted (a # b # vs)" "oid_first a b"
    using from_text_only by (cases v) blast
  let ?v = "40 * a + b"
  have out: "out = oid_der (?v # vs)"
    using built_Some [OF from_text_append [OF tx(2)] _ assms(2)] assms(1) tx(1) by blast
  then have parse: "parse_base128_integer out = (Some ?v, oid_der vs)"
    by (simp add: oid_der_def parse_base128_bytes)
  have t: "oid_text ?v vs = text"
    using oid_split [OF tx(2)] tx(1) unfolding oid_text_def by (cases "?v \<ge> 80") (simp_all del: dotted.simps)
  have "built junk' 32 (to_text_body ?v (oid_der vs)) = Some (text @ [0])"
    using built_appends [OF to_text_body_append [of ?v vs], of 32 junk'] assms(3) t by simp
  then show ?thesis by (simp add: to_text_built parse)
qed

theorem oid_from_text_to_text_witness:
  "\<exists>out. built (\<lambda>_. 0) 0 (CBB_add_asn1_oid_from_text 0 [49, 46, 50, 46, 56, 52, 48]) = Some out \<and>
     CBS_asn1_oid_to_text True True (\<lambda>_. True) (\<lambda>_. 0) out = Some [49, 46, 50, 46, 56, 52, 48, 0]"
proof -
  let ?text = "[49, 46, 50, 46, 56, 52, 48] :: byte list"
  have lit: "?text = dotted [1, 2, 840]"
    by (simp add: decimal_digit decimal.simps [of 84] decimal.simps [of 840])
  have "oid_first 1 2" by (simp add: oid_first_nat)
  from built_appends [OF from_text_append [OF this, of 0 "[840]"], of 0 "\<lambda>_. 0"]
  have "built (\<lambda>_. 0) 0 (CBB_add_asn1_oid_from_text 0 ?text) = Some (oid_der [42, 840])"
    unfolding lit by (simp add: oid_der_def base128_bytes_def base128_hi.simps [of 6])
  with oid_from_text_to_text [OF this] show ?thesis by simp
qed

text \<open>C31: conversely, the text that \<open>CBS_asn1_oid_to_text\<close> produces is accepted by
  \<open>CBB_add_asn1_oid_from_text\<close>, which gives back the same contents octets.\<close>

theorem oid_to_text_from_text:
  assumes "CBS_asn1_oid_to_text True True (\<lambda>_. True) junk cbs = Some txt" "length cbs < 2 ^ 64" "cap < 2 ^ 64"
  shows "\<exists>text. txt = text @ [0] \<and> built junk' cap (CBB_add_asn1_oid_from_text 0 text) = Some cbs"
proof -
  from assms(1) obtain v copy where v: "parse_base128_integer cbs = (Some v, copy)"
    "built junk 32 (to_text_body v copy) = Some txt"
    by (auto simp: to_text_built split: option.splits prod.splits)
  from v(2) obtain s u s' where "to_text_body v copy s = (Some u, s')" by (rule built_runs)
  then obtain s1 s2 where "oid_text_loop copy s1 = (Some (), s2)"
    by (auto simp: to_text_body_def elim!: and_then_SomeE)
  then obtain vs where vs: "copy = oid_der vs" using oid_text_loop_only by blast
  have cbs: "cbs = oid_der (v # vs)" using v(1) vs by (simp add: parse_base128_iff oid_der_def)
  have te: "txt = oid_text v vs @ [0]"
    using built_Some [OF to_text_body_append [of v vs] _] v(2) vs by fastforce
  obtain a b where ab: "oid_first a b" "40 * a + b = v" "oid_text v vs = dotted (a # b # vs)"
    using oid_join [of v] unfolding oid_text_def by (cases "v \<ge> 80") (auto simp del: dotted.simps)
  have "built junk' cap (CBB_add_asn1_oid_from_text 0 (oid_text v vs)) = Some cbs"
    using built_appends [OF from_text_append [OF ab(1), of 0 vs] assms(3), of junk'] ab(2,3) cbs assms(2) by simp
  with te show ?thesis by blast
qed

theorem oid_to_text_from_text_witness:
  "\<exists>text. built (\<lambda>_. 0) 0 (CBB_add_asn1_oid_from_text 0 text) = Some [0x2a, 0x03]"
proof -
  have der: "[0x2a, 0x03] = oid_der [42, 3]" by (simp add: oid_der_def base128_bytes_def)
  have "length (oid_text 42 [3]) < 100"
    using decimal_length [of 1] decimal_length [of 2] decimal_length [of 3]
    by (simp add: oid_text_def word_le_nat_alt)
  then have "CBS_asn1_oid_to_text True True (\<lambda>_. True) (\<lambda>_. 0) [0x2a, 0x03] = Some (oid_text 42 [3] @ [0])"
    unfolding to_text_built der
    using built_appends [OF to_text_body_append [of 42 "[3]"], of 32 "\<lambda>_. 0"]
    by (simp add: oid_der_def parse_base128_bytes)
  from oid_to_text_from_text [OF this, of 0 "\<lambda>_. 0"] show ?thesis by auto
qed

end
