(* ===== verification/Ordering.thy ===== *)
theory Ordering
  imports Main "HOL-Library.Multiset"
begin

text \<open>
  Comparison functions in the manner of C: the sign of the result orders two elements. The interface
  \<open>comparison\<close> holds the laws that sorting and binary search rely on, \<open>qsort\<close> is the sorting
  function of the C library.
\<close>

text \<open>
  The library's \<open>qsort\<close>. The standard leaves the order of elements that compare equal open; where a
  program compares different elements as equal, only what \<open>qsort_mset\<close> and \<open>qsort_sorted\<close> say is used.
\<close>

fun insert_cmp :: "('a \<Rightarrow> 'a \<Rightarrow> int) \<Rightarrow> 'a \<Rightarrow> 'a list \<Rightarrow> 'a list" where
  "insert_cmp cmp x [] = [x]"
| "insert_cmp cmp x (y # ys) = (if cmp x y \<le> 0 then x # y # ys else y # insert_cmp cmp x ys)"

definition qsort :: "('a \<Rightarrow> 'a \<Rightarrow> int) \<Rightarrow> 'a list \<Rightarrow> 'a list" where
  "qsort cmp xs = foldr (insert_cmp cmp) xs []"

lemma insert_cmp_mset [simp]: "mset (insert_cmp cmp x xs) = add_mset x (mset xs)"
  by (induction xs) auto

lemma qsort_mset: "mset (qsort cmp xs) = mset xs"
  by (induction xs) (auto simp: qsort_def)

lemma qsort_length [simp]: "length (qsort cmp xs) = length xs"
  using qsort_mset [of cmp xs] by (metis size_mset)

lemma qsort_set [simp]: "set (qsort cmp xs) = set xs"
  using qsort_mset [of cmp xs] by (metis set_mset_mset)

lemma insert_cmp_set [simp]: "set (insert_cmp cmp x xs) = insert x (set xs)"
  using insert_cmp_mset [of cmp x xs] by (metis set_mset_add_mset_insert set_mset_mset)

locale comparison =
  fixes cmp :: "'a \<Rightarrow> 'a \<Rightarrow> int"
  assumes cmp_flip: "cmp a b < 0 \<longleftrightarrow> 0 < cmp b a"
    and cmp_trans: "cmp a b \<le> 0 \<Longrightarrow> cmp b c \<le> 0 \<Longrightarrow> cmp a c \<le> 0"
begin

lemma cmp_refl [simp]: "cmp a a = 0"
  using cmp_flip [of a a] by linarith

lemma cmp_total: "cmp a b \<le> 0 \<or> cmp b a \<le> 0"
  using cmp_flip [of b a] by linarith

lemma cmp_equal_le: "cmp a b = 0 \<Longrightarrow> cmp c a \<le> 0 \<longleftrightarrow> cmp c b \<le> 0"
  using cmp_trans [of c a b] cmp_trans [of c b a] cmp_flip [of a b] by auto

abbreviation ordered :: "'a list \<Rightarrow> bool" where
  "ordered \<equiv> sorted_wrt (\<lambda>a b. cmp a b \<le> 0)"

lemma insert_cmp_sorted: "ordered xs \<Longrightarrow> ordered (insert_cmp cmp x xs)"
proof (induction xs)
  case (Cons y ys)
  then show ?case using cmp_total [of x y] by (auto intro: cmp_trans)
qed simp

lemma qsort_sorted: "ordered (qsort cmp xs)"
  by (induction xs) (auto simp: qsort_def intro: insert_cmp_sorted)

text \<open>The elements before, equal to and after a key in an ordered list.\<close>

lemma ordered_nth: "ordered xs \<Longrightarrow> i \<le> j \<Longrightarrow> j < length xs \<Longrightarrow> cmp (xs ! i) (xs ! j) \<le> 0"
  by (cases "i = j") (auto simp: sorted_wrt_iff_nth_less)

lemma ordered_above:
  assumes "ordered xs" "i \<le> j" "j < length xs" "0 < cmp k (xs ! j)"
  shows "0 < cmp k (xs ! i)"
proof (rule ccontr)
  assume "\<not> 0 < cmp k (xs ! i)"
  then have "cmp k (xs ! j) \<le> 0" using cmp_trans ordered_nth [OF assms(1-3)] by (meson not_le)
  with assms(4) show False by simp
qed

lemma ordered_below:
  assumes "ordered xs" "i \<le> j" "j < length xs" "cmp k (xs ! i) < 0"
  shows "cmp k (xs ! j) < 0"
proof (rule ccontr)
  assume "\<not> cmp k (xs ! j) < 0"
  then have "cmp (xs ! j) k \<le> 0" using cmp_flip [of k "xs ! j"] by linarith
  then have "cmp (xs ! i) k \<le> 0" using cmp_trans ordered_nth [OF assms(1-3)] by blast
  with assms(4) cmp_flip [of k "xs ! i"] show False by simp
qed

end

text \<open>Comparing by a part of the elements.\<close>

lemma comparison_on: "comparison cmp \<Longrightarrow> comparison (\<lambda>x y. cmp (f x) (f y))"
  unfolding comparison_def by blast

end
