(* ===== verification/SetOf.thy ===== *)
theory SetOf
  imports CbbDer Ordering
begin

text \<open>
  The SET OF of \<open>crypto/bytestring/cbb.c\<close>: \<open>CBB_flush_asn1_set_of\<close> takes the elements written to a
  handle apart, sorts them by their encodings and writes them back.
\<close>

section \<open>The code\<close>

definition compare_set_of_element :: "byte list \<Rightarrow> byte list \<Rightarrow> int" where
  "compare_set_of_element a b =
     (let a_len = length a; b_len = length b;
          min_len = (if a_len < b_len then a_len else b_len);
          r = memcmp (take min_len a) (take min_len b)
      in if r \<noteq> 0 then r
         else if a_len = b_len then 0
         else if a_len < b_len then -1 else 1)"

lemma element_shorter: "CBS_get_any_asn1_element cbs = (Some (out, t, n), r) \<Longrightarrow> length r < length cbs"
  using get_element_only [of cbs out t n r]
  by (auto simp: CBS_get_any_asn1_element_def der_def der_tag_def)

text \<open>The loop that counts the children, and the one that takes \<open>n\<close> of them.\<close>

function count_children :: "cbs \<Rightarrow> nat option" where
  "count_children cbs =
     (if length cbs \<noteq> 0 then
        (case CBS_get_any_asn1_element cbs of
           (None, _) \<Rightarrow> None
         | (Some (out, t, n), cbs') \<Rightarrow> map_option (\<lambda>k. k + 1) (count_children cbs'))
      else Some 0)"
  by pat_completeness auto
termination by (relation "measure length") (auto dest: element_shorter [OF sym])

declare count_children.simps [simp del]

fun take_children :: "nat \<Rightarrow> cbs \<Rightarrow> byte list list option" where
  "take_children 0 cbs = Some []"
| "take_children (Suc k) cbs =
     (case CBS_get_any_asn1_element cbs of
        (None, _) \<Rightarrow> None
      | (Some (out, t, n), cbs') \<Rightarrow> map_option (Cons out) (take_children k cbs'))"

fun add_children :: "nat \<Rightarrow> byte list list \<Rightarrow> unit bact" where
  "add_children d [] = ret ()"
| "add_children d (c # cs) = and_then (CBB_add_bytes d c) (\<lambda>_. add_children d cs)"

definition sizeof_CBS :: nat where "sizeof_CBS = 16"

text \<open>\<open>mem_ok\<close> is the success of the two allocations.\<close>

definition CBB_flush_asn1_set_of :: "bool \<Rightarrow> nat \<Rightarrow> unit bact" where
  "CBB_flush_asn1_set_of mem_ok d =
     and_then (CBB_flush d) (\<lambda>_ s.
       let cbs = take (CBB_len d s) (drop (CBB_data d s) (cbuf (the (base s)))) in
       case count_children cbs of
         None \<Rightarrow> (None, s)
       | Some num_children \<Rightarrow>
           if num_children < 2 then (Some (), s)
           else if num_children > SIZE_MAX div sizeof_CBS then (None, s)
           else if \<not> mem_ok then (None, s)
           else
             (case take_children num_children cbs of
                None \<Rightarrow> (None, s)
              | Some elems \<Rightarrow>
                  and_then (on_base (\<lambda>b. (Some (), b\<lparr>clen := fst (own_prefix d s) + snd (own_prefix d s)\<rparr>)))
                    (\<lambda>_. add_children d (qsort compare_set_of_element elems)) s))"

section \<open>The order\<close>

lemma compare_simps [simp]:
  "compare_set_of_element [] [] = 0"
  "compare_set_of_element [] (b # bs) = -1"
  "compare_set_of_element (a # as) [] = 1"
  "compare_set_of_element (a # as) (b # bs) =
    (if a < b then -1 else if b < a then 1 else compare_set_of_element as bs)"
  by (auto simp: compare_set_of_element_def Let_def)

lemma compare_total: "compare_set_of_element a b \<le> 0 \<or> compare_set_of_element b a \<le> 0"
  by (induction a b rule: list_induct2') auto

lemma compare_antisym: "compare_set_of_element a b \<le> 0 \<Longrightarrow> compare_set_of_element b a \<le> 0 \<Longrightarrow> a = b"
  by (induction a b rule: list_induct2') (auto split: if_splits)

lemma compare_trans:
  "compare_set_of_element a b \<le> 0 \<Longrightarrow> compare_set_of_element b c \<le> 0 \<Longrightarrow> compare_set_of_element a c \<le> 0"
proof (induction a b arbitrary: c rule: list_induct2')
  case 1
  then show ?case by simp
next
  case (2 x xs)
  then show ?case by simp
next
  case (3 y ys)
  then show ?case by (cases c) auto
next
  case (4 x xs y ys)
  then show ?case by (cases c) (auto split: if_splits)
qed

lemma compare_flip: "compare_set_of_element a b < 0 \<longleftrightarrow> 0 < compare_set_of_element b a"
  by (induction a b rule: list_induct2') auto

interpretation der_order: comparison compare_set_of_element
  by unfold_locales (auto simp: compare_flip intro: compare_trans)

text \<open>
  The order of X.690, 11.6: octet by octet, as numbers. Where one encoding is the front of another the shorter comes
  first; the standard extends it with zeros, which is the same order up to encodings that are equal then.
\<close>

definition der_set_le :: "byte list \<Rightarrow> byte list \<Rightarrow> bool" where
  "der_set_le a b = ord_class.lexordp_eq (map unat a) (map unat b)"

lemma compare_der_set: "compare_set_of_element a b \<le> 0 \<longleftrightarrow> der_set_le a b"
  unfolding der_set_le_def by (induction a b rule: list_induct2') (auto simp: word_less_nat_alt)

section \<open>Taking the contents apart\<close>

definition elements :: "(u32 \<times> byte list) list \<Rightarrow> byte list" where
  "elements es = concat (map (\<lambda>(t, c). der t c) es)"

lemma count_elements:
  "\<forall>(t, c) \<in> set es. length c < 2 ^ 32 \<Longrightarrow> count_children (elements es) = Some (length es)"
proof (induction es)
  case Nil
  show ?case by (subst count_children.simps) (simp add: elements_def)
next
  case (Cons e es)
  obtain t c where e: "e = (t, c)" by fastforce
  have "CBS_get_any_asn1_element (elements (e # es)) = (Some (der t c, t, length (der_header t (length c))), elements es)"
    using get_element_der [of c False t "elements es"] Cons.prems e
    by (simp add: elements_def CBS_get_any_asn1_element_def)
  moreover have "elements (e # es) \<noteq> []" using e by (simp add: elements_def der_def der_tag_def)
  ultimately show ?case using Cons by (subst count_children.simps) simp
qed

lemma take_elements:
  "\<forall>(t, c) \<in> set es. length c < 2 ^ 32 \<Longrightarrow>
   take_children (length es) (elements es) = Some (map (\<lambda>(t, c). der t c) es)"
proof (induction es)
  case (Cons e es)
  obtain t c where e: "e = (t, c)" by fastforce
  have "CBS_get_any_asn1_element (elements (e # es)) = (Some (der t c, t, length (der_header t (length c))), elements es)"
    using get_element_der [of c False t "elements es"] Cons.prems e
    by (simp add: elements_def CBS_get_any_asn1_element_def)
  then show ?case using Cons e by simp
qed simp

lemma count_only:
  "count_children cbs = Some k \<Longrightarrow> \<exists>es. cbs = elements es \<and> length es = k \<and> (\<forall>(t, c) \<in> set es. length c < 2 ^ 32)"
proof (induction "length cbs" arbitrary: cbs k rule: less_induct)
  case less
  show ?case
  proof (cases "cbs = []")
    case True
    then show ?thesis using less.prems by (intro exI [of _ "[]"]) (simp add: elements_def count_children.simps)
  next
    case False
    then obtain out t n r j where r: "CBS_get_any_asn1_element cbs = (Some (out, t, n), r)" "count_children r = Some j" "k = j + 1"
      using less.prems by (subst (asm) count_children.simps) (auto split: option.splits prod.splits)
    from less.hyps [OF element_shorter [OF r(1)] r(2)] obtain es where
      es: "r = elements es" "length es = j" "\<forall>(t, c) \<in> set es. length c < 2 ^ 32" by blast
    from r(1) obtain c where "length c < 2 ^ 32" "cbs = der t c @ r"
      using get_element_only [of cbs out t n r] by (auto simp: CBS_get_any_asn1_element_def)
    with es r(3) show ?thesis by (intro exI [of _ "(t, c) # es"]) (auto simp: elements_def)
  qed
qed

lemma appends_children:
  "\<forall>c \<in> set cs. length c < 2 ^ 64 \<Longrightarrow> appends d (add_children d cs) (Some (concat cs, ()))"
proof (induction cs)
  case Nil
  then show ?case using appends_ret [of d "()"] by (simp del: ret_simp)
next
  case (Cons c cs)
  then show ?case using appends_and_then [OF appends_bytes [of c d]] by simp
qed

section \<open>The flush\<close>

lemma wf_chain_last:
  "wf_chain lo cs n \<Longrightarrow> cs \<noteq> [] \<Longrightarrow>
   wf_chain lo cs (coffset (last cs) + pending_len_len (last cs)) \<and> coffset (last cs) + pending_len_len (last cs) \<le> n"
proof (induction cs arbitrary: lo)
  case (Cons c cs)
  then show ?case by (cases "cs = []") (auto dest: wf_chain_le)
qed simp

lemma handle_start:
  assumes "ready d s"
  shows "CBB_data d s \<le> clen (buffer s)" "wf_chain 0 (children s) (CBB_data d s)"
    "CBB_len d s = clen (buffer s) - CBB_data d s"
proof -
  have wf: "wf_chain 0 (children s) (clen (buffer s))" "length (children s) = d" "clen (buffer s) < 2 ^ 64"
    using assms by (auto simp: ready_def sound_def wf_buf_def)
  have data: "CBB_data d s = (if children s = [] then 0 else coffset (last (children s)) + pending_len_len (last (children s)))"
    using wf(2) by (auto simp: CBB_data_def own_prefix_def last_conv_nth)
  show le: "CBB_data d s \<le> clen (buffer s)" and "wf_chain 0 (children s) (CBB_data d s)"
    using wf_chain_last [OF wf(1)] by (auto simp: data)
  obtain off n where p: "own_prefix d s = (off, n)" by fastforce
  then have "CBB_data d s = off + n" by (simp add: CBB_data_def)
  then show "CBB_len d s = clen (buffer s) - CBB_data d s"
    using le wf(3) p by (simp add: CBB_len_def size_sub_small flip: buffer_def)
qed

text \<open>Moving the end of the buffer back to the start of the handle's contents.\<close>

lemma rewind:
  assumes "ready d s"
  defines "s1 \<equiv> s\<lparr>base := Some ((buffer s)\<lparr>clen := CBB_data d s\<rparr>)\<rparr>"
  shows "on_base (\<lambda>b. (Some (), b\<lparr>clen := fst (own_prefix d s) + snd (own_prefix d s)\<rparr>)) s = (Some (), s1)"
    "ready d s1" "stored (buffer s1) = take (CBB_data d s) (stored (buffer s))" "children s1 = children s"
    "room (clen (buffer s)) (buffer s1)"
proof -
  note start = handle_start [OF assms(1)]
  have wf: "wf_buf (buffer s)" and base: "base s = Some (buffer s)" using assms(1) by (simp_all add: readyD)
  show "on_base (\<lambda>b. (Some (), b\<lparr>clen := fst (own_prefix d s) + snd (own_prefix d s)\<rparr>)) s = (Some (), s1)"
    using base by (simp add: on_base_def s1_def CBB_data_def split: prod.split)
  have b1: "buffer s1 = (buffer s)\<lparr>clen := CBB_data d s\<rparr>" by (simp add: s1_def buffer_def)
  show "stored (buffer s1) = take (CBB_data d s) (stored (buffer s))"
    using start(1) by (simp add: b1 stored_def min_def)
  show "children s1 = children s" by (simp add: s1_def)
  show "room (clen (buffer s)) (buffer s1)" using wf by (simp add: b1 room_def wf_buf_def ccap_def)
  show "ready d s1"
    using assms(1) start wf b1 by (auto simp: ready_def sound_def s1_def wf_buf_def ccap_def)
qed

text \<open>C13: when the contents of a handle are a sequence of DER elements, \<open>CBB_flush_asn1_set_of\<close> replaces
  them by the same elements (the same multiset) in the ascending order of their encodings that DER
  requires of a SET OF (octets compared as numbers, the first difference decides); what stands before the contents is
  untouched, nothing is lost when the buffer is fixed, and the builder stays usable.\<close>

theorem flush_asn1_set_of_sorts:
  assumes "ready d s" "drop (CBB_data d s) (stored (buffer s)) = elements es"
    and "\<forall>(t, c) \<in> set es. length c < 2 ^ 32" "length es \<le> SIZE_MAX div sizeof_CBS"
  shows "\<exists>s' sorted. CBB_flush_asn1_set_of True d s = (Some (), s') \<and> ready d s' \<and>
    stored (buffer s') = take (CBB_data d s) (stored (buffer s)) @ concat sorted \<and>
    mset sorted = mset (map (\<lambda>(t, c). der t c) es) \<and>
    sorted_wrt der_set_le sorted"
proof -
  let ?es = "map (\<lambda>(t, c). der t c) es" and ?start = "CBB_data d s"
  have wf: "wf_buf (buffer s)" and base: "base s = Some (buffer s)" using assms(1) by (simp_all add: readyD)
  note start = handle_start [OF assms(1)] and rw = rewind [OF assms(1)]
  have cbs: "take (CBB_len d s) (drop ?start (cbuf (the (base s)))) = elements es"
    using assms(2) start(1,3) by (simp add: base stored_def drop_take)
  have whole: "stored (buffer s) = take ?start (stored (buffer s)) @ concat ?es"
    using assms(2) by (metis append_take_drop_id elements_def)
  note code = CBB_flush_asn1_set_of_def flush_ready [OF assms(1)]
  show ?thesis
  proof (cases "length es < 2")
    case True
    then have "sorted_wrt der_set_le ?es"
      by (cases es) auto
    moreover have "CBB_flush_asn1_set_of True d s = (Some (), s)"
      using True cbs count_elements [OF assms(3)] by (simp add: code Let_def)
    ultimately show ?thesis using assms(1) whole by metis
  next
    case False
    let ?sorted = "qsort compare_set_of_element ?es"
    let ?s1 = "s\<lparr>base := Some ((buffer s)\<lparr>clen := ?start\<rparr>)\<rparr>"
    have "mset ?sorted = mset ?es" by (rule qsort_mset)
    then have same: "length (concat ?sorted) = length (concat ?es)"
      by (metis length_concat mset_map sum_mset_sum_list)
    have "length x < 2 ^ 64" if "x \<in> set ?sorted" for x
    proof -
      from that have "x \<in> set ?es" using qsort_mset [of compare_set_of_element ?es] by (metis set_mset_mset)
      then obtain t c where "x = der t c" "length c < 2 ^ 32" using assms(3) by auto
      then show ?thesis using length_der_tag [of t] len_octets_range [of "length c"]
        by (auto simp: der_def der_length_def)
    qed
    then have app: "appends d (add_children d ?sorted) (Some (concat ?sorted, ()))"
      by (intro appends_children) blast
    have run: "CBB_flush_asn1_set_of True d s = add_children d ?sorted ?s1"
      using False assms(4) cbs count_elements [OF assms(3)] take_elements [OF assms(3)] rw(1)
      by (simp add: code Let_def)
    from app rw(2) show ?thesis
    proof (cases rule: appendsE)
      case (1 s')
      have "clen (buffer ?s1) + length (concat ?sorted) = clen (buffer s)"
        using clen_stored [OF assms(1)] clen_stored [OF rw(2)] rw(3) whole same by (metis length_append)
      with 1(3) [OF refl] rw(5) show ?thesis by simp
    next
      case (2 v s' bs)
      then have "stored (buffer s') = take ?start (stored (buffer s)) @ concat ?sorted" using rw(3) by simp
      moreover have "CBB_flush_asn1_set_of True d s = (Some (), s')" using run 2(1) by simp
      ultimately show ?thesis
        using 2(2) qsort_mset der_order.qsort_sorted [of ?es, unfolded compare_der_set] by blast
    qed
  qed
qed

theorem flush_asn1_set_of_sorts_witness:
  "let s = \<lparr>base = Some \<lparr>cbuf = [2, 1, 9, 2, 1, 3], clen = 6, can_resize = False, berror = False,
               realloc_ok = (\<lambda>_. False), reallocs = 0, fresh = (\<lambda>_. 0)\<rparr>, children = []\<rparr>
   in \<exists>s' sorted. CBB_flush_asn1_set_of True 0 s = (Some (), s') \<and> stored (buffer s') = concat sorted \<and>
      mset sorted = {#[2, 1, 9], [2, 1, 3]#} \<and> sorted_wrt der_set_le sorted"
proof -
  let ?s = "\<lparr>base = Some \<lparr>cbuf = [2, 1, 9, 2, 1, 3], clen = 6, can_resize = False, berror = False,
    realloc_ok = (\<lambda>_. False), reallocs = 0, fresh = (\<lambda>_. 0)\<rparr>, children = []\<rparr>"
  have tag: "der 2 [x] = [2, 1, x]" for x
    by (simp add: der_def der_length_def der_tag_def tag_number_def tag_class_def CBS_ASN1_TAG_NUMBER_MASK_def
        CBS_ASN1_TAG_SHIFT_def)
  have s: "ready 0 ?s" "CBB_data 0 ?s = 0" "drop 0 (stored (buffer ?s)) = elements [(2, [9]), (2, [3])]"
    by (simp_all add: ready_def sound_def wf_buf_def ccap_def buffer_def stored_def elements_def tag CBB_data_def own_prefix_def)
  from flush_asn1_set_of_sorts [OF s(1), of "[(2, [9]), (2, [3])]"] s(2,3) show ?thesis
    unfolding Let_def by (auto simp: tag SIZE_MAX_def sizeof_CBS_def)
qed

end
