(* ===== verification/Bio.thy ===== *)
theory Bio
  imports Prelude
begin

text \<open>
  The abstract I/O layer of BoringSSL (\<open>crypto/bio/bio.c\<close>, \<open>openssl/bio.h\<close>): a \<open>BIO\<close> is an object
  with a table of methods; here the objects live in a store, and a method works on the store. The
  messages put on the error queue are not modelled.
\<close>

section \<open>Objects and methods\<close>

text \<open>\<open>struct bio_bio_st\<close> of \<open>pair.c\<close>; the peer is the name of the other \<open>BIO\<close>.\<close>

record bio_bio =
  peer :: "nat option"
  closed :: bool
  blen :: nat
  offset :: nat
  bsize :: nat
  bbuf :: "byte list option"
  request :: nat

text \<open>
  \<open>BUF_MEM\<close>: \<open>mdata\<close> is the storage and \<open>mstart\<close> the place in it where \<open>data\<close> points (zero unless the
  storage is that of a read-only memory \<open>BIO\<close>). \<open>mrealloc_ok k\<close> is the success of the \<open>k\<close>th
  reallocation and \<open>mfresh\<close> the contents of new memory.
\<close>

record buf_mem =
  mlength :: nat
  mdata :: "byte list option"
  mstart :: nat
  mmax :: nat
  mrealloc_ok :: "nat \<Rightarrow> bool"
  mreallocs :: nat
  mfresh :: "nat \<Rightarrow> byte"

datatype bio_ptr = NULL | Bio_bio bio_bio | Buf_mem buf_mem

record bio =
  meth :: "nat option"
  init :: int
  shutdown :: int
  flags :: u32
  retry_reason :: int
  num :: int
  references :: u32
  ptr :: bio_ptr
  next_bio :: "nat option"
  num_read :: nat
  num_write :: nat

type_synonym bios = "nat \<rightharpoonup> bio"

text \<open>What the pointer argument of \<open>ctrl\<close> points to, before and after the call.\<close>

datatype ctrl_arg = No_arg | Bio_arg nat | Mem_arg buf_mem | Data_arg "byte list" | Int_arg int

text \<open>
  A method writes the bytes at the pointer it is given (\<open>None\<close> for \<open>NULL\<close>), or says which bytes it
  stores from the given pointer on (the flag says that it is not \<open>NULL\<close>).
\<close>

record bio_method =
  mtype :: u32
  bwrite :: "(nat \<Rightarrow> byte list option \<Rightarrow> int \<Rightarrow> bios \<Rightarrow> int \<times> bios) option"
  bread :: "(nat \<Rightarrow> bool \<Rightarrow> int \<Rightarrow> bios \<Rightarrow> int \<times> byte list \<times> bios) option"
  bgets :: "(nat \<Rightarrow> bool \<Rightarrow> int \<Rightarrow> bios \<Rightarrow> int \<times> byte list \<times> bios) option"
  ctrl :: "(nat \<Rightarrow> nat \<Rightarrow> int \<Rightarrow> ctrl_arg \<Rightarrow> bios \<Rightarrow> int \<times> ctrl_arg \<times> bios) option"
  create :: "(nat \<Rightarrow> bios \<Rightarrow> bool \<times> bios) option"
  destroy :: "(nat \<Rightarrow> bios \<Rightarrow> bios) option"
  callback_ctrl :: "(nat \<Rightarrow> nat \<Rightarrow> nat \<Rightarrow> bios \<Rightarrow> int \<times> bios) option"

type_synonym methods = "nat \<Rightarrow> bio_method"

definition upd :: "nat \<Rightarrow> (bio \<Rightarrow> bio) \<Rightarrow> bios \<Rightarrow> bios" where
  "upd b f S = S(b \<mapsto> f (the (S b)))"

text \<open>The entry of the method table that a \<open>BIO\<close> has, if it has one.\<close>

definition method_of :: "methods \<Rightarrow> (bio_method \<Rightarrow> 'f option) \<Rightarrow> nat option \<Rightarrow> bios \<Rightarrow> 'f option" where
  "method_of M sel bio S =
     (case bio of
        None \<Rightarrow> None
      | Some b \<Rightarrow> (case meth (the (S b)) of None \<Rightarrow> None | Some m \<Rightarrow> sel (M m)))"

section \<open>Flags\<close>

definition BIO_FLAGS_READ :: u32 where "BIO_FLAGS_READ = 0x01"
definition BIO_FLAGS_WRITE :: u32 where "BIO_FLAGS_WRITE = 0x02"
definition BIO_FLAGS_IO_SPECIAL :: u32 where "BIO_FLAGS_IO_SPECIAL = 0x04"
definition BIO_FLAGS_RWS :: u32 where "BIO_FLAGS_RWS = (BIO_FLAGS_READ OR BIO_FLAGS_WRITE OR BIO_FLAGS_IO_SPECIAL)"
definition BIO_FLAGS_SHOULD_RETRY :: u32 where "BIO_FLAGS_SHOULD_RETRY = 0x08"
definition BIO_FLAGS_MEM_RDONLY :: u32 where "BIO_FLAGS_MEM_RDONLY = 0x200"

definition kRetryFlags :: u32 where "kRetryFlags = BIO_FLAGS_RWS OR BIO_FLAGS_SHOULD_RETRY"

definition BIO_set_flags :: "nat \<Rightarrow> u32 \<Rightarrow> bios \<Rightarrow> bios" where
  "BIO_set_flags b fl = upd b (\<lambda>x. x\<lparr>flags := flags x OR fl\<rparr>)"

definition BIO_test_flags :: "nat \<Rightarrow> u32 \<Rightarrow> bios \<Rightarrow> u32" where
  "BIO_test_flags b fl S = flags (the (S b)) AND fl"

definition BIO_should_read :: "nat \<Rightarrow> bios \<Rightarrow> u32" where
  "BIO_should_read b = BIO_test_flags b BIO_FLAGS_READ"

definition BIO_should_write :: "nat \<Rightarrow> bios \<Rightarrow> u32" where
  "BIO_should_write b = BIO_test_flags b BIO_FLAGS_WRITE"

definition BIO_should_retry :: "nat \<Rightarrow> bios \<Rightarrow> u32" where
  "BIO_should_retry b = BIO_test_flags b BIO_FLAGS_SHOULD_RETRY"

definition BIO_should_io_special :: "nat \<Rightarrow> bios \<Rightarrow> u32" where
  "BIO_should_io_special b = BIO_test_flags b BIO_FLAGS_IO_SPECIAL"

definition BIO_get_retry_reason :: "nat \<Rightarrow> bios \<Rightarrow> int" where
  "BIO_get_retry_reason b S = retry_reason (the (S b))"

definition BIO_clear_flags :: "nat \<Rightarrow> u32 \<Rightarrow> bios \<Rightarrow> bios" where
  "BIO_clear_flags b fl = upd b (\<lambda>x. x\<lparr>flags := flags x AND NOT fl\<rparr>)"

definition BIO_set_retry_read :: "nat \<Rightarrow> bios \<Rightarrow> bios" where
  "BIO_set_retry_read b = upd b (\<lambda>x. x\<lparr>flags := flags x OR (BIO_FLAGS_READ OR BIO_FLAGS_SHOULD_RETRY)\<rparr>)"

definition BIO_set_retry_write :: "nat \<Rightarrow> bios \<Rightarrow> bios" where
  "BIO_set_retry_write b = upd b (\<lambda>x. x\<lparr>flags := flags x OR (BIO_FLAGS_WRITE OR BIO_FLAGS_SHOULD_RETRY)\<rparr>)"

definition BIO_set_retry_special :: "nat \<Rightarrow> bios \<Rightarrow> bios" where
  "BIO_set_retry_special b = upd b (\<lambda>x. x\<lparr>flags := flags x OR (BIO_FLAGS_READ OR BIO_FLAGS_IO_SPECIAL)\<rparr>)"

definition BIO_get_retry_flags :: "nat \<Rightarrow> bios \<Rightarrow> u32" where
  "BIO_get_retry_flags b S = flags (the (S b)) AND kRetryFlags"

definition BIO_clear_retry_flags :: "nat \<Rightarrow> bios \<Rightarrow> bios" where
  "BIO_clear_retry_flags b = upd b (\<lambda>x. x\<lparr>flags := flags x AND NOT kRetryFlags, retry_reason := 0\<rparr>)"

definition BIO_copy_next_retry :: "nat \<Rightarrow> bios \<Rightarrow> bios" where
  "BIO_copy_next_retry b S =
     (let S1 = BIO_clear_retry_flags b S;
          n = the (next_bio (the (S1 b)));
          S2 = BIO_set_flags b (BIO_get_retry_flags n S1) S1
      in upd b (\<lambda>x. x\<lparr>retry_reason := retry_reason (the (S2 n))\<rparr>) S2)"

definition BIO_method_type :: "methods \<Rightarrow> nat \<Rightarrow> bios \<Rightarrow> u32" where
  "BIO_method_type M b S = mtype (M (the (meth (the (S b)))))"

section \<open>Creating, chaining and freeing\<close>

text \<open>\<open>addr\<close> is what \<open>OPENSSL_malloc\<close> returns, \<open>None\<close> for \<open>NULL\<close>.\<close>

definition BIO_new :: "methods \<Rightarrow> nat option \<Rightarrow> nat \<Rightarrow> bios \<Rightarrow> nat option \<times> bios" where
  "BIO_new M addr m S =
     (case addr of
        None \<Rightarrow> (None, S)
      | Some b \<Rightarrow>
          let S1 = S(b \<mapsto> \<lparr>meth = Some m, init = 0, shutdown = 1, flags = 0, retry_reason = 0, num = 0,
                           references = 1, ptr = NULL, next_bio = None, num_read = 0, num_write = 0\<rparr>)
          in case create (M m) of
               None \<Rightarrow> (Some b, S1)
             | Some f \<Rightarrow> (case f b S1 of (ok, S2) \<Rightarrow> if \<not> ok then (None, S2(b := None)) else (Some b, S2)))"

definition CRYPTO_REFCOUNT_MAX :: u32 where "CRYPTO_REFCOUNT_MAX = 0xffffffff"

definition CRYPTO_refcount_inc :: "u32 \<Rightarrow> u32" where
  "CRYPTO_refcount_inc count = (if count < CRYPTO_REFCOUNT_MAX then count + 1 else count)"

text \<open>\<open>None\<close> is \<open>abort\<close>.\<close>

definition CRYPTO_refcount_dec_and_test_zero :: "u32 \<Rightarrow> (bool \<times> u32) option" where
  "CRYPTO_refcount_dec_and_test_zero count =
     (if count = 0 then None
      else
        let count' = (if count < CRYPTO_REFCOUNT_MAX then count - 1 else count)
        in Some (count' = 0, count'))"

definition BIO_up_ref :: "nat \<Rightarrow> bios \<Rightarrow> bios" where
  "BIO_up_ref b = upd b (\<lambda>x. x\<lparr>references := CRYPTO_refcount_inc (references x)\<rparr>)"

definition BIO_pop :: "nat option \<Rightarrow> bios \<Rightarrow> nat option \<times> bios" where
  "BIO_pop bio S =
     (case bio of
        None \<Rightarrow> (None, S)
      | Some b \<Rightarrow> (next_bio (the (S b)), upd b (\<lambda>x. x\<lparr>next_bio := None\<rparr>) S))"

definition BIO_next :: "nat option \<Rightarrow> bios \<Rightarrow> nat option" where
  "BIO_next bio S = (case bio of None \<Rightarrow> None | Some b \<Rightarrow> next_bio (the (S b)))"

text \<open>The loops along a chain: \<open>None\<close> when they do not end (or abort).\<close>

partial_function (option) BIO_free :: "methods \<Rightarrow> nat option \<Rightarrow> bios \<Rightarrow> (bool \<times> bios) option" where
  "BIO_free M bio S =
     (case bio of
        None \<Rightarrow> Some (True, S)
      | Some b \<Rightarrow>
          (case CRYPTO_refcount_dec_and_test_zero (references (the (S b))) of
             None \<Rightarrow> None
           | Some (zero, count) \<Rightarrow>
               let S1 = upd b (\<lambda>x. x\<lparr>references := count\<rparr>) S in
               if \<not> zero then Some (False, S1)
               else
                 (case BIO_pop (Some b) S1 of (next, S2) \<Rightarrow>
                    let S3 = (case method_of M destroy (Some b) S2 of None \<Rightarrow> S2 | Some f \<Rightarrow> f b S2)
                    in BIO_free M next (S3(b := None)))))"

partial_function (option) last_of :: "nat \<Rightarrow> bios \<Rightarrow> nat option" where
  "last_of b S = (case next_bio (the (S b)) of None \<Rightarrow> Some b | Some n \<Rightarrow> last_of n S)"

definition BIO_push :: "nat option \<Rightarrow> nat option \<Rightarrow> bios \<Rightarrow> (nat option \<times> bios) option" where
  "BIO_push bio appended S =
     (case bio of
        None \<Rightarrow> Some (None, S)
      | Some b \<Rightarrow> map_option (\<lambda>l. (Some b, upd l (\<lambda>x. x\<lparr>next_bio := appended\<rparr>) S)) (last_of b S))"

partial_function (option) find_type_loop :: "methods \<Rightarrow> u32 \<Rightarrow> nat \<Rightarrow> bios \<Rightarrow> nat option option" where
  "find_type_loop M type b S =
     (let mask = type AND 0xff in
      if (case meth (the (S b)) of
            None \<Rightarrow> False
          | Some m \<Rightarrow> if mask = 0 then mtype (M m) AND type \<noteq> 0 else mtype (M m) = type)
      then Some (Some b)
      else (case next_bio (the (S b)) of None \<Rightarrow> Some None | Some n \<Rightarrow> find_type_loop M type n S))"

definition BIO_find_type :: "methods \<Rightarrow> nat option \<Rightarrow> u32 \<Rightarrow> bios \<Rightarrow> nat option option" where
  "BIO_find_type M bio type S = (case bio of None \<Rightarrow> Some None | Some b \<Rightarrow> find_type_loop M type b S)"

section \<open>Making methods\<close>

definition BIO_TYPE_START :: nat where "BIO_TYPE_START = 128"

text \<open>The argument and the second result are the value of \<open>g_index\<close>.\<close>

definition BIO_get_new_index :: "nat \<Rightarrow> int \<times> nat" where
  "BIO_get_new_index g_index = (if g_index > 255 then (-1, g_index) else (int g_index, g_index + 1))"

definition BIO_meth_new :: "bool \<Rightarrow> u32 \<Rightarrow> bio_method option" where
  "BIO_meth_new mem_ok type =
     (if \<not> mem_ok then None
      else Some \<lparr>mtype = type, bwrite = None, bread = None, bgets = None, ctrl = None, create = None, destroy = None,
                 callback_ctrl = None\<rparr>)"

definition BIO_meth_set_create :: "(nat \<Rightarrow> bios \<Rightarrow> bool \<times> bios) option \<Rightarrow> bio_method \<Rightarrow> bio_method" where
  "BIO_meth_set_create f m = m\<lparr>create := f\<rparr>"

definition BIO_meth_set_destroy :: "(nat \<Rightarrow> bios \<Rightarrow> bios) option \<Rightarrow> bio_method \<Rightarrow> bio_method" where
  "BIO_meth_set_destroy f m = m\<lparr>destroy := f\<rparr>"

definition BIO_meth_set_write :: "(nat \<Rightarrow> byte list option \<Rightarrow> int \<Rightarrow> bios \<Rightarrow> int \<times> bios) option \<Rightarrow> bio_method \<Rightarrow> bio_method" where
  "BIO_meth_set_write f m = m\<lparr>bwrite := f\<rparr>"

definition BIO_meth_set_read :: "(nat \<Rightarrow> bool \<Rightarrow> int \<Rightarrow> bios \<Rightarrow> int \<times> byte list \<times> bios) option \<Rightarrow> bio_method \<Rightarrow> bio_method" where
  "BIO_meth_set_read f m = m\<lparr>bread := f\<rparr>"

definition BIO_meth_set_gets :: "(nat \<Rightarrow> bool \<Rightarrow> int \<Rightarrow> bios \<Rightarrow> int \<times> byte list \<times> bios) option \<Rightarrow> bio_method \<Rightarrow> bio_method" where
  "BIO_meth_set_gets f m = m\<lparr>bgets := f\<rparr>"

definition BIO_meth_set_ctrl ::
    "(nat \<Rightarrow> nat \<Rightarrow> int \<Rightarrow> ctrl_arg \<Rightarrow> bios \<Rightarrow> int \<times> ctrl_arg \<times> bios) option \<Rightarrow> bio_method \<Rightarrow> bio_method" where
  "BIO_meth_set_ctrl f m = m\<lparr>ctrl := f\<rparr>"

definition BIO_set_data :: "nat \<Rightarrow> bio_ptr \<Rightarrow> bios \<Rightarrow> bios" where
  "BIO_set_data b p = upd b (\<lambda>x. x\<lparr>ptr := p\<rparr>)"

definition BIO_get_data :: "nat \<Rightarrow> bios \<Rightarrow> bio_ptr" where
  "BIO_get_data b S = ptr (the (S b))"

definition BIO_set_init :: "nat \<Rightarrow> int \<Rightarrow> bios \<Rightarrow> bios" where
  "BIO_set_init b i = upd b (\<lambda>x. x\<lparr>init := i\<rparr>)"

definition BIO_get_init :: "nat \<Rightarrow> bios \<Rightarrow> int" where
  "BIO_get_init b S = init (the (S b))"

definition BIO_set_shutdown :: "nat \<Rightarrow> int \<Rightarrow> bios \<Rightarrow> bios" where
  "BIO_set_shutdown b i = upd b (\<lambda>x. x\<lparr>shutdown := i\<rparr>)"

definition BIO_get_shutdown :: "nat \<Rightarrow> bios \<Rightarrow> int" where
  "BIO_get_shutdown b S = shutdown (the (S b))"

section \<open>Input and output\<close>

definition BIO_read :: "methods \<Rightarrow> nat option \<Rightarrow> bool \<Rightarrow> int \<Rightarrow> bios \<Rightarrow> int \<times> byte list \<times> bios" where
  "BIO_read M bio buf len S =
     (case method_of M bread bio S of
        None \<Rightarrow> (-2, [], S)
      | Some f \<Rightarrow>
          let b = the bio in
          if init (the (S b)) = 0 then (-2, [], S)
          else if len \<le> 0 then (0, [], S)
          else
            (case f b buf len S of (r, out, S') \<Rightarrow>
               (r, out, if r > 0 then upd b (\<lambda>x. x\<lparr>num_read := size_add (num_read x) (nat r)\<rparr>) S' else S')))"

definition BIO_gets :: "methods \<Rightarrow> nat option \<Rightarrow> bool \<Rightarrow> int \<Rightarrow> bios \<Rightarrow> int \<times> byte list \<times> bios" where
  "BIO_gets M bio buf len S =
     (case method_of M bgets bio S of
        None \<Rightarrow> (-2, [], S)
      | Some f \<Rightarrow>
          let b = the bio in
          if init (the (S b)) = 0 then (-2, [], S)
          else if len \<le> 0 then (0, [], S)
          else
            (case f b buf len S of (r, out, S') \<Rightarrow>
               (r, out, if r > 0 then upd b (\<lambda>x. x\<lparr>num_read := size_add (num_read x) (nat r)\<rparr>) S' else S')))"

definition BIO_write :: "methods \<Rightarrow> nat option \<Rightarrow> byte list option \<Rightarrow> int \<Rightarrow> bios \<Rightarrow> int \<times> bios" where
  "BIO_write M bio inp inl S =
     (case method_of M bwrite bio S of
        None \<Rightarrow> (-2, S)
      | Some f \<Rightarrow>
          let b = the bio in
          if init (the (S b)) = 0 then (-2, S)
          else if inl \<le> 0 then (0, S)
          else
            (case f b inp inl S of (r, S') \<Rightarrow>
               (r, if r > 0 then upd b (\<lambda>x. x\<lparr>num_write := size_add (num_write x) (nat r)\<rparr>) S' else S')))"

text \<open>\<open>len\<close> bytes at \<open>data\<close>; the loop does not end when the method returns more than it was given.\<close>

partial_function (option) BIO_write_all :: "methods \<Rightarrow> nat option \<Rightarrow> byte list \<Rightarrow> nat \<Rightarrow> bios \<Rightarrow> (bool \<times> bios) option" where
  "BIO_write_all M bio data len S =
     (if len > 0 then
        (case BIO_write M bio (Some data) (if len > INT_MAX then int INT_MAX else int_of_size len) S of
           (r, S') \<Rightarrow>
             if r \<le> 0 then Some (False, S')
             else BIO_write_all M bio (drop (nat r) data) (size_sub len (nat r)) S')
      else Some (True, S))"

text \<open>The argument is the string without its terminator.\<close>

definition BIO_puts :: "methods \<Rightarrow> nat option \<Rightarrow> byte list \<Rightarrow> bios \<Rightarrow> int \<times> bios" where
  "BIO_puts M bio inp = BIO_write M bio (Some inp) (int_of_size (length inp))"

definition BIO_ctrl :: "methods \<Rightarrow> nat option \<Rightarrow> nat \<Rightarrow> int \<Rightarrow> ctrl_arg \<Rightarrow> bios \<Rightarrow> int \<times> ctrl_arg \<times> bios" where
  "BIO_ctrl M bio cmd larg parg S =
     (case bio of
        None \<Rightarrow> (0, parg, S)
      | Some b \<Rightarrow>
          (case method_of M ctrl bio S of
             None \<Rightarrow> (-2, parg, S)
           | Some f \<Rightarrow> f b cmd larg parg S))"

definition BIO_ptr_ctrl :: "methods \<Rightarrow> nat option \<Rightarrow> nat \<Rightarrow> int \<Rightarrow> bios \<Rightarrow> ctrl_arg \<times> bios" where
  "BIO_ptr_ctrl M b cmd larg S =
     (case BIO_ctrl M b cmd larg (Data_arg []) S of (r, p, S') \<Rightarrow> (if r \<le> 0 then No_arg else p, S'))"

definition BIO_int_ctrl :: "methods \<Rightarrow> nat option \<Rightarrow> nat \<Rightarrow> int \<Rightarrow> int \<Rightarrow> bios \<Rightarrow> int \<times> bios" where
  "BIO_int_ctrl M b cmd larg iarg S = (case BIO_ctrl M b cmd larg (Int_arg iarg) S of (r, _, S') \<Rightarrow> (r, S'))"

text \<open>The function pointer is the number \<open>fp\<close>.\<close>

definition BIO_callback_ctrl :: "methods \<Rightarrow> nat option \<Rightarrow> nat \<Rightarrow> nat \<Rightarrow> bios \<Rightarrow> int \<times> bios" where
  "BIO_callback_ctrl M bio cmd fp S =
     (case bio of
        None \<Rightarrow> (0, S)
      | Some b \<Rightarrow>
          (case method_of M callback_ctrl bio S of None \<Rightarrow> (0, S) | Some f \<Rightarrow> f b cmd fp S))"

definition BIO_CTRL_RESET :: nat where "BIO_CTRL_RESET = 1"
definition BIO_CTRL_EOF :: nat where "BIO_CTRL_EOF = 2"
definition BIO_CTRL_INFO :: nat where "BIO_CTRL_INFO = 3"
definition BIO_CTRL_GET_CLOSE :: nat where "BIO_CTRL_GET_CLOSE = 8"
definition BIO_CTRL_SET_CLOSE :: nat where "BIO_CTRL_SET_CLOSE = 9"
definition BIO_CTRL_PENDING :: nat where "BIO_CTRL_PENDING = 10"
definition BIO_CTRL_FLUSH :: nat where "BIO_CTRL_FLUSH = 11"
definition BIO_CTRL_WPENDING :: nat where "BIO_CTRL_WPENDING = 13"

definition BIO_flush :: "methods \<Rightarrow> nat option \<Rightarrow> bios \<Rightarrow> int \<times> bios" where
  "BIO_flush M bio S = (case BIO_ctrl M bio BIO_CTRL_FLUSH 0 No_arg S of (r, _, S') \<Rightarrow> (r, S'))"

definition BIO_reset :: "methods \<Rightarrow> nat option \<Rightarrow> bios \<Rightarrow> int \<times> bios" where
  "BIO_reset M bio S = (case BIO_ctrl M bio BIO_CTRL_RESET 0 No_arg S of (r, _, S') \<Rightarrow> (r, S'))"

definition BIO_eof :: "methods \<Rightarrow> nat option \<Rightarrow> bios \<Rightarrow> int \<times> bios" where
  "BIO_eof M bio S = (case BIO_ctrl M bio BIO_CTRL_EOF 0 No_arg S of (r, _, S') \<Rightarrow> (r, S'))"

definition BIO_pending :: "methods \<Rightarrow> nat option \<Rightarrow> bios \<Rightarrow> nat" where
  "BIO_pending M bio S = (let r = fst (BIO_ctrl M bio BIO_CTRL_PENDING 0 No_arg S) in if r < 0 then 0 else nat r)"

definition BIO_ctrl_pending :: "methods \<Rightarrow> nat option \<Rightarrow> bios \<Rightarrow> nat" where
  "BIO_ctrl_pending M bio S = BIO_pending M bio S"

definition BIO_wpending :: "methods \<Rightarrow> nat option \<Rightarrow> bios \<Rightarrow> nat" where
  "BIO_wpending M bio S = (let r = fst (BIO_ctrl M bio BIO_CTRL_WPENDING 0 No_arg S) in if r < 0 then 0 else nat r)"

definition BIO_set_close :: "methods \<Rightarrow> nat option \<Rightarrow> int \<Rightarrow> bios \<Rightarrow> int \<times> bios" where
  "BIO_set_close M bio close_flag S = (case BIO_ctrl M bio BIO_CTRL_SET_CLOSE close_flag No_arg S of (r, _, S') \<Rightarrow> (r, S'))"

definition BIO_number_read :: "nat \<Rightarrow> bios \<Rightarrow> nat" where
  "BIO_number_read b S = num_read (the (S b))"

definition BIO_number_written :: "nat \<Rightarrow> bios \<Rightarrow> nat" where
  "BIO_number_written b S = num_write (the (S b))"

fun BIO_indent_loop :: "methods \<Rightarrow> nat option \<Rightarrow> nat \<Rightarrow> bios \<Rightarrow> bool \<times> bios" where
  "BIO_indent_loop M bio 0 S = (True, S)"
| "BIO_indent_loop M bio (Suc n) S =
     (case BIO_puts M bio [0x20] S of (r, S') \<Rightarrow> if r \<noteq> 1 then (False, S') else BIO_indent_loop M bio n S')"

definition BIO_indent :: "methods \<Rightarrow> nat option \<Rightarrow> nat \<Rightarrow> nat \<Rightarrow> bios \<Rightarrow> bool \<times> bios" where
  "BIO_indent M bio indent max_indent = BIO_indent_loop M bio (if indent > max_indent then max_indent else indent)"

section \<open>Reading an element\<close>

text \<open>
  The loop of \<open>bio_read_full\<close>, with the bytes read so far: success, the bytes, and whether the end
  was met on the first read.
\<close>

partial_function (option) read_full_loop ::
    "methods \<Rightarrow> nat option \<Rightarrow> bool \<Rightarrow> nat \<Rightarrow> bios \<Rightarrow> (bool \<times> byte list \<times> bool \<times> bios) option" where
  "read_full_loop M bio first_read len S =
     (if len > 0 then
        (case BIO_read M bio True (if len \<le> INT_MAX then int_of_size len else int INT_MAX) S of
           (r, out, S') \<Rightarrow>
             if r \<le> 0 then Some (False, [], first_read \<and> r = 0, S')
             else
               Option.bind (read_full_loop M bio False (size_sub len (nat r)) S')
                 (\<lambda>(ok, out', eof, S''). Some (ok, take (nat r) out @ out', eof, S'')))
      else Some (True, [], False, S))"

definition bio_read_full :: "methods \<Rightarrow> nat option \<Rightarrow> nat \<Rightarrow> bios \<Rightarrow> (bool \<times> byte list \<times> bool \<times> bios) option" where
  "bio_read_full M bio len S = read_full_loop M bio True len S"

definition kChunkSize :: nat where "kChunkSize = 4096"

text \<open>
  The loop of \<open>bio_read_all\<close>: \<open>buf\<close> is the allocated buffer, \<open>done\<close> how much of it is filled. The
  oracle \<open>mem_ok k\<close> is the success of the \<open>k\<close>th allocation and \<open>junk\<close> what new memory holds.
\<close>

partial_function (option) read_all_loop ::
    "methods \<Rightarrow> (nat \<Rightarrow> bool) \<Rightarrow> (nat \<Rightarrow> byte) \<Rightarrow> nat option \<Rightarrow> nat \<Rightarrow> nat \<Rightarrow> byte list \<Rightarrow> nat \<Rightarrow> bios \<Rightarrow> (byte list option \<times> bios) option" where
  "read_all_loop M mem_ok junk bio max_len k buf filled S =
     (let len = length buf in
      if filled = len then Some (None, S)
      else
        (case BIO_read M bio True (int_of_size (size_sub len filled)) S of
           (n, out, S') \<Rightarrow>
             if n = 0 then Some (Some (take filled buf), S')
             else if n = -1 then Some (None, S')
             else
               let buf1 = take filled buf @ out @ drop (filled + length out) buf;
                   filled1 = size_add filled (size_of_int n) in
               if len < max_len \<and> size_sub len filled1 < kChunkSize div 2 then
                 let len1 = size_add len kChunkSize;
                     len2 = (if len1 < kChunkSize \<or> len1 > max_len then max_len else len1) in
                 if \<not> mem_ok k then Some (None, S')
                 else read_all_loop M mem_ok junk bio max_len (k + 1) (buf1 @ map junk [length buf1..<len2]) filled1 S'
               else read_all_loop M mem_ok junk bio max_len k buf1 filled1 S'))"

definition bio_read_all ::
    "methods \<Rightarrow> (nat \<Rightarrow> bool) \<Rightarrow> (nat \<Rightarrow> byte) \<Rightarrow> nat option \<Rightarrow> byte list \<Rightarrow> nat \<Rightarrow> bios \<Rightarrow> (byte list option \<times> bios) option" where
  "bio_read_all M mem_ok junk bio prefix max_len S =
     (let len1 = size_add (length prefix) kChunkSize;
          len = (if len1 > max_len then max_len else len1) in
      if len < length prefix then Some (None, S)
      else if \<not> mem_ok 0 then Some (None, S)
      else read_all_loop M mem_ok junk bio max_len 1 (prefix @ map junk [length prefix..<len]) (length prefix) S)"

datatype asn1_reason =
    ASN1_R_DECODE_ERROR | ASN1_R_HEADER_TOO_LONG | ASN1_R_NOT_ENOUGH_DATA | ASN1_R_TOO_LONG | ERR_R_MALLOC_FAILURE

text \<open>The end of \<open>BIO_read_asn1\<close>, when the header and the length of the contents are known.\<close>

definition read_contents ::
    "methods \<Rightarrow> (nat \<Rightarrow> bool) \<Rightarrow> nat option \<Rightarrow> nat \<Rightarrow> byte list \<Rightarrow> nat \<Rightarrow> bios \<Rightarrow> ((asn1_reason + byte list) \<times> bios) option" where
  "read_contents M mem_ok bio max_len header len S =
     (let header_len = length header in
      if size_add len header_len < len \<or> size_add len header_len > max_len \<or> len > INT_MAX
      then Some (Inl ASN1_R_TOO_LONG, S)
      else if \<not> mem_ok 0 then Some (Inl ERR_R_MALLOC_FAILURE, S)
      else
        (case bio_read_full M bio (size_sub (size_add len header_len) header_len) S of
           None \<Rightarrow> None
         | Some (ok, out, _, S') \<Rightarrow>
             if \<not> ok then Some (Inl ASN1_R_NOT_ENOUGH_DATA, S') else Some (Inr (header @ out), S')))"

definition BIO_read_asn1 ::
    "methods \<Rightarrow> (nat \<Rightarrow> bool) \<Rightarrow> (nat \<Rightarrow> byte) \<Rightarrow> nat option \<Rightarrow> nat \<Rightarrow> bios \<Rightarrow> ((asn1_reason + byte list) \<times> bios) option" where
  "BIO_read_asn1 M mem_ok junk bio max_len S =
     (case bio_read_full M bio 2 S of
        None \<Rightarrow> None
      | Some (ok, header, eof_on_first_read, S1) \<Rightarrow>
          if \<not> ok then
            Some (Inl (if eof_on_first_read then ASN1_R_HEADER_TOO_LONG else ASN1_R_NOT_ENOUGH_DATA), S1)
          else
            let tag = header ! 0; length_byte = header ! 1 in
            if tag AND 0x1f = 0x1f then Some (Inl ASN1_R_DECODE_ERROR, S1)
            else if length_byte AND 0x80 = 0 then
              read_contents M mem_ok bio max_len header (unat length_byte) S1
            else
              let num_bytes = unat (length_byte AND 0x7f) in
              if tag AND 0x20 \<noteq> 0 \<and> num_bytes = 0 then
                (case bio_read_all M mem_ok junk bio header max_len S1 of
                   None \<Rightarrow> None
                 | Some (None, S2) \<Rightarrow> Some (Inl ASN1_R_NOT_ENOUGH_DATA, S2)
                 | Some (Some out, S2) \<Rightarrow> Some (Inr out, S2))
              else if num_bytes = 0 \<or> num_bytes > 4 then Some (Inl ASN1_R_DECODE_ERROR, S1)
              else
                (case bio_read_full M bio num_bytes S1 of
                   None \<Rightarrow> None
                 | Some (ok, rest, _, S2) \<Rightarrow>
                     if \<not> ok then Some (Inl ASN1_R_NOT_ENOUGH_DATA, S2)
                     else
                       let len32 = foldl (\<lambda>v b. push_bit 8 v OR ucast b) (0 :: u32) rest in
                       if len32 < 128 then Some (Inl ASN1_R_DECODE_ERROR, S2)
                       else if drop_bit ((num_bytes - 1) * 8) len32 = 0 then Some (Inl ASN1_R_DECODE_ERROR, S2)
                       else read_contents M mem_ok bio max_len (header @ rest) (unat len32) S2))"

end
