(* ===== verification/BioMem.thy ===== *)
theory BioMem
  imports Bio
begin

text \<open>
  Growing byte buffers (\<open>crypto/buf/buf.c\<close>, with the string functions of \<open>crypto/mem.c\<close> it exports)
  and the \<open>BIO\<close>s over them (\<open>crypto/bio/bio_mem.c\<close>).
\<close>

section \<open>Strings\<close>

text \<open>A C string is the list of the bytes that can be read from the pointer on.\<close>

primrec strlen :: "byte list \<Rightarrow> nat" where
  "strlen [] = 0"
| "strlen (c # s) = (if c = 0 then 0 else Suc (strlen s))"

fun OPENSSL_strnlen :: "byte list \<Rightarrow> nat \<Rightarrow> nat" where
  "OPENSSL_strnlen s 0 = 0"
| "OPENSSL_strnlen [] (Suc n) = 0"
| "OPENSSL_strnlen (c # s) (Suc n) = (if c = 0 then 0 else Suc (OPENSSL_strnlen s n))"

definition OPENSSL_strdup :: "bool \<Rightarrow> byte list option \<Rightarrow> byte list option" where
  "OPENSSL_strdup mem_ok s =
     (case s of
        None \<Rightarrow> None
      | Some s \<Rightarrow> if \<not> mem_ok then None else Some (take (strlen s) s @ [0]))"

definition OPENSSL_strndup :: "bool \<Rightarrow> byte list \<Rightarrow> nat \<Rightarrow> byte list option" where
  "OPENSSL_strndup mem_ok str n =
     (let size = OPENSSL_strnlen str n; alloc_size = size_add size 1 in
      if alloc_size < size then None
      else if \<not> mem_ok then None
      else Some (take size str @ [0]))"

definition OPENSSL_memdup :: "bool \<Rightarrow> byte list \<Rightarrow> byte list option" where
  "OPENSSL_memdup mem_ok data = (if data = [] then None else if \<not> mem_ok then None else Some data)"

text \<open>The loop of \<open>OPENSSL_strlcpy\<close>: the bytes copied, what is left of the source and of the size.\<close>

fun strlcpy_loop :: "byte list \<Rightarrow> nat \<Rightarrow> byte list \<times> byte list \<times> nat" where
  "strlcpy_loop (c # src) dst_size =
     (if dst_size > 1 \<and> c \<noteq> 0 then (case strlcpy_loop src (dst_size - 1) of (cs, src', n) \<Rightarrow> (c # cs, src', n))
      else ([], c # src, dst_size))"
| "strlcpy_loop [] dst_size = ([], [], dst_size)"

text \<open>The result: the new contents of the destination and the returned length.\<close>

definition OPENSSL_strlcpy :: "byte list \<Rightarrow> byte list \<Rightarrow> nat \<Rightarrow> byte list \<times> nat" where
  "OPENSSL_strlcpy dst src dst_size =
     (case strlcpy_loop src dst_size of (cs, src', n) \<Rightarrow>
        let out = (if n \<noteq> 0 then cs @ [0] else cs)
        in (out @ drop (length out) dst, length cs + strlen src'))"

fun strlcat_loop :: "byte list \<Rightarrow> nat \<Rightarrow> nat" where
  "strlcat_loop (c # dst) dst_size = (if dst_size > 0 \<and> c \<noteq> 0 then Suc (strlcat_loop dst (dst_size - 1)) else 0)"
| "strlcat_loop [] dst_size = 0"

definition OPENSSL_strlcat :: "byte list \<Rightarrow> byte list \<Rightarrow> nat \<Rightarrow> byte list \<times> nat" where
  "OPENSSL_strlcat dst src dst_size =
     (let l = strlcat_loop dst dst_size in
      case OPENSSL_strlcpy (drop l dst) src (dst_size - l) of (out, n) \<Rightarrow> (take l dst @ out, l + n))"

definition BUF_strdup :: "bool \<Rightarrow> byte list option \<Rightarrow> byte list option" where
  "BUF_strdup = OPENSSL_strdup"

definition BUF_strnlen :: "byte list \<Rightarrow> nat \<Rightarrow> nat" where
  "BUF_strnlen = OPENSSL_strnlen"

definition BUF_strndup :: "bool \<Rightarrow> byte list \<Rightarrow> nat \<Rightarrow> byte list option" where
  "BUF_strndup = OPENSSL_strndup"

definition BUF_strlcpy :: "byte list \<Rightarrow> byte list \<Rightarrow> nat \<Rightarrow> byte list \<times> nat" where
  "BUF_strlcpy = OPENSSL_strlcpy"

definition BUF_strlcat :: "byte list \<Rightarrow> byte list \<Rightarrow> nat \<Rightarrow> byte list \<times> nat" where
  "BUF_strlcat = OPENSSL_strlcat"

definition BUF_memdup :: "bool \<Rightarrow> byte list \<Rightarrow> byte list option" where
  "BUF_memdup = OPENSSL_memdup"

section \<open>Growing buffers\<close>

text \<open>\<open>mem_ok\<close> is the success of the allocation; the oracle and the contents of new memory are for later.\<close>

definition BUF_MEM_new :: "bool \<Rightarrow> (nat \<Rightarrow> bool) \<Rightarrow> (nat \<Rightarrow> byte) \<Rightarrow> buf_mem option" where
  "BUF_MEM_new mem_ok oracle junk =
     (if \<not> mem_ok then None
      else Some \<lparr>mlength = 0, mdata = None, mstart = 0, mmax = 0, mrealloc_ok = oracle, mreallocs = 0, mfresh = junk\<rparr>)"

definition storage :: "buf_mem \<Rightarrow> byte list" where
  "storage b = (case mdata b of None \<Rightarrow> [] | Some d \<Rightarrow> d)"

definition BUF_MEM_reserve :: "nat \<Rightarrow> buf_mem \<Rightarrow> bool \<times> buf_mem" where
  "BUF_MEM_reserve cap b =
     (if mmax b \<ge> cap then (True, b)
      else
        let n = size_add cap 3 in
        if n < cap then (False, b)
        else
          let n = n div 3; alloc_size = size_mul n 4 in
          if alloc_size div 4 \<noteq> n then (False, b)
          else
            let b1 = b\<lparr>mreallocs := mreallocs b + 1\<rparr> in
            if \<not> mrealloc_ok b (mreallocs b) then (False, b1)
            else
              (True, b1\<lparr>mdata := Some (storage b @ map (mfresh b) [length (storage b)..<alloc_size]), mmax := alloc_size\<rparr>))"

definition BUF_MEM_grow :: "nat \<Rightarrow> buf_mem \<Rightarrow> nat \<times> buf_mem" where
  "BUF_MEM_grow len b =
     (case BUF_MEM_reserve len b of
        (False, b1) \<Rightarrow> (0, b1)
      | (True, b1) \<Rightarrow>
          let b2 = (if mlength b1 < len
                    then b1\<lparr>mdata := Some (take (mlength b1) (storage b1) @ replicate (len - mlength b1) 0 @ drop len (storage b1))\<rparr>
                    else b1)
          in (len, b2\<lparr>mlength := len\<rparr>))"

definition BUF_MEM_grow_clean :: "nat \<Rightarrow> buf_mem \<Rightarrow> nat \<times> buf_mem" where
  "BUF_MEM_grow_clean len b = BUF_MEM_grow len b"

definition BUF_MEM_append :: "byte list \<Rightarrow> buf_mem \<Rightarrow> bool \<times> buf_mem" where
  "BUF_MEM_append inp b =
     (let len = length inp in
      if len = 0 then (True, b)
      else
        let new_len = size_add (mlength b) len in
        if new_len < len then (False, b)
        else
          (case BUF_MEM_reserve new_len b of
             (False, b1) \<Rightarrow> (False, b1)
           | (True, b1) \<Rightarrow>
               (True, b1\<lparr>mdata := Some (take (mlength b1) (storage b1) @ inp @ drop new_len (storage b1)), mlength := new_len\<rparr>)))"

section \<open>Memory BIOs\<close>

definition mem_of :: "nat \<Rightarrow> bios \<Rightarrow> buf_mem" where
  "mem_of b S = (case ptr (the (S b)) of Buf_mem m \<Rightarrow> m | _ \<Rightarrow> the (BUF_MEM_new True (\<lambda>_. False) (\<lambda>_. 0)))"

definition upd_mem :: "nat \<Rightarrow> (buf_mem \<Rightarrow> buf_mem) \<Rightarrow> bios \<Rightarrow> bios" where
  "upd_mem b f S = upd b (\<lambda>x. x\<lparr>ptr := Buf_mem (f (mem_of b S))\<rparr>) S"

definition rdonly :: "nat \<Rightarrow> bios \<Rightarrow> bool" where
  "rdonly b S = (flags (the (S b)) AND BIO_FLAGS_MEM_RDONLY \<noteq> 0)"

definition mem_new :: "bool \<Rightarrow> (nat \<Rightarrow> bool) \<Rightarrow> (nat \<Rightarrow> byte) \<Rightarrow> nat \<Rightarrow> bios \<Rightarrow> bool \<times> bios" where
  "mem_new mem_ok oracle junk b S =
     (case BUF_MEM_new mem_ok oracle junk of
        None \<Rightarrow> (False, S)
      | Some m \<Rightarrow> (True, upd b (\<lambda>x. x\<lparr>shutdown := 1, init := 1, num := -1, ptr := Buf_mem m\<rparr>) S))"

definition mem_free :: "nat \<Rightarrow> bios \<Rightarrow> bios" where
  "mem_free b S =
     (if shutdown (the (S b)) = 0 \<or> init (the (S b)) = 0 \<or> ptr (the (S b)) = NULL then S
      else upd b (\<lambda>x. x\<lparr>ptr := NULL\<rparr>) S)"

definition mem_read :: "nat \<Rightarrow> bool \<Rightarrow> int \<Rightarrow> bios \<Rightarrow> int \<times> byte list \<times> bios" where
  "mem_read b buf outl S =
     (let S1 = BIO_clear_retry_flags b S; m = mem_of b S1;
          r = (if mlength m < INT_MAX \<and> outl > int (mlength m) then int (mlength m) else outl) in
      if r > 0 then
        let n = nat r; len = size_sub (mlength m) n;
            m1 = (if rdonly b S1 then m\<lparr>mlength := len, mstart := mstart m + n\<rparr>
                  else m\<lparr>mlength := len, mdata := Some (take len (drop n (storage m)) @ drop len (storage m))\<rparr>)
        in (r, take n (drop (mstart m) (storage m)), upd_mem b (\<lambda>_. m1) S1)
      else if mlength m = 0 then
        let r = num (the (S1 b)) in (r, [], if r \<noteq> 0 then BIO_set_retry_read b S1 else S1)
      else (r, [], S1))"

definition mem_write :: "nat \<Rightarrow> byte list option \<Rightarrow> int \<Rightarrow> bios \<Rightarrow> int \<times> bios" where
  "mem_write b inp inl S =
     (if rdonly b S then (-1, S)
      else
        let S1 = BIO_clear_retry_flags b S; blen = int_of_size (mlength (mem_of b S1)) in
        if int INT_MAX - blen < inl then (-1, S1)
        else
          (case BUF_MEM_grow_clean (size_of_int (blen + inl)) (mem_of b S1) of
             (n, m) \<Rightarrow>
               if n \<noteq> size_add (size_of_int blen) (size_of_int inl) then (-1, upd_mem b (\<lambda>_. m) S1)
               else
                 (inl, upd_mem b (\<lambda>_. m\<lparr>mdata := Some (take (nat blen) (storage m) @ take (nat inl) (the inp) @
                                            drop (nat blen + nat inl) (storage m))\<rparr>) S1)))"

text \<open>The loop that looks for the end of a line among the first \<open>j\<close> bytes.\<close>

fun line_length :: "nat \<Rightarrow> byte list \<Rightarrow> nat" where
  "line_length (Suc j) (c # p) = (if c = 10 then 1 else Suc (line_length j p))"
| "line_length _ _ = 0"

definition mem_gets :: "nat \<Rightarrow> bool \<Rightarrow> int \<Rightarrow> bios \<Rightarrow> int \<times> byte list \<times> bios" where
  "mem_gets b buf size0 S =
     (let S1 = BIO_clear_retry_flags b S; m = mem_of b S1;
          j0 = int_of_size (mlength m);
          j = (if size0 - 1 < j0 then size0 - 1 else j0) in
      if j \<le> 0 then (0, if size0 > 0 then [0] else [], S1)
      else
        (case mem_read b buf (int (line_length (nat j) (drop (mstart m) (storage m)))) S1 of
           (i, out, S2) \<Rightarrow> (i, if i > 0 then out @ [0] else out, S2)))"

definition BIO_C_SET_BUF_MEM :: nat where "BIO_C_SET_BUF_MEM = 114"
definition BIO_C_GET_BUF_MEM_PTR :: nat where "BIO_C_GET_BUF_MEM_PTR = 115"
definition BIO_C_SET_BUF_MEM_EOF_RETURN :: nat where "BIO_C_SET_BUF_MEM_EOF_RETURN = 130"

text \<open>The bytes \<open>data[0..length]\<close>.\<close>

definition contents :: "buf_mem \<Rightarrow> byte list" where
  "contents m = take (mlength m) (drop (mstart m) (storage m))"

definition mem_ctrl :: "nat \<Rightarrow> nat \<Rightarrow> int \<Rightarrow> ctrl_arg \<Rightarrow> bios \<Rightarrow> int \<times> ctrl_arg \<times> bios" where
  "mem_ctrl bio cmd larg parg S =
     (let b = mem_of bio S in
      if cmd = BIO_CTRL_RESET then
        (1, parg,
         if mdata b = None then S
         else if rdonly bio S then
           upd_mem bio (\<lambda>b. b\<lparr>mstart := mstart b - (mmax b - mlength b), mlength := mmax b\<rparr>) S
         else upd_mem bio (\<lambda>b. b\<lparr>mdata := Some (replicate (mmax b) 0), mlength := 0\<rparr>) S)
      else if cmd = BIO_CTRL_EOF then (if mlength b = 0 then 1 else 0, parg, S)
      else if cmd = BIO_C_SET_BUF_MEM_EOF_RETURN then (1, parg, upd bio (\<lambda>x. x\<lparr>num := int_of_long larg\<rparr>) S)
      else if cmd = BIO_CTRL_INFO then (int (mlength b), if parg = No_arg then No_arg else Data_arg (contents b), S)
      else if cmd = BIO_C_SET_BUF_MEM then
        (1, parg, upd bio (\<lambda>x. x\<lparr>shutdown := int_of_long larg, ptr := (case parg of Mem_arg m \<Rightarrow> Buf_mem m | _ \<Rightarrow> NULL)\<rparr>) (mem_free bio S))
      else if cmd = BIO_C_GET_BUF_MEM_PTR then (1, if parg = No_arg then No_arg else Mem_arg b, S)
      else if cmd = BIO_CTRL_GET_CLOSE then (shutdown (the (S bio)), parg, S)
      else if cmd = BIO_CTRL_SET_CLOSE then (1, parg, upd bio (\<lambda>x. x\<lparr>shutdown := int_of_long larg\<rparr>) S)
      else if cmd = BIO_CTRL_WPENDING then (0, parg, S)
      else if cmd = BIO_CTRL_PENDING then (int (mlength b), parg, S)
      else if cmd = BIO_CTRL_FLUSH then (1, parg, S)
      else (0, parg, S))"

definition BIO_TYPE_MEM :: u32 where "BIO_TYPE_MEM = 1 OR 0x0400"

definition mem_method :: "bool \<Rightarrow> (nat \<Rightarrow> bool) \<Rightarrow> (nat \<Rightarrow> byte) \<Rightarrow> bio_method" where
  "mem_method mem_ok oracle junk =
     \<lparr>mtype = BIO_TYPE_MEM, bwrite = Some mem_write, bread = Some mem_read, bgets = Some mem_gets,
      ctrl = Some mem_ctrl, create = Some (mem_new mem_ok oracle junk), destroy = Some mem_free,
      callback_ctrl = None\<rparr>"

text \<open>
  \<open>m\<close> is the entry of the method table that \<open>BIO_s_mem\<close> returns. The code takes the length of the
  string before it looks whether \<open>buf\<close> is \<open>NULL\<close>.
\<close>

definition BIO_new_mem_buf :: "methods \<Rightarrow> nat \<Rightarrow> nat option \<Rightarrow> byte list option \<Rightarrow> int \<Rightarrow> bios \<Rightarrow> nat option \<times> bios" where
  "BIO_new_mem_buf M m addr buf len S =
     (let size = (if len < 0 then strlen (the buf) else size_of_int len) in
      if buf = None \<and> len \<noteq> 0 then (None, S)
      else
        (case BIO_new M addr m S of
           (None, S1) \<Rightarrow> (None, S1)
         | (Some b, S1) \<Rightarrow>
             let S2 = upd_mem b (\<lambda>x. x\<lparr>mdata := buf, mlength := size, mmax := size\<rparr>) S1
             in (Some b, upd b (\<lambda>x. x\<lparr>flags := flags x OR BIO_FLAGS_MEM_RDONLY, num := 0\<rparr>) S2)))"

definition BIO_mem_contents :: "nat \<Rightarrow> nat \<Rightarrow> bios \<Rightarrow> byte list option" where
  "BIO_mem_contents m b S = (if meth (the (S b)) \<noteq> Some m then None else Some (contents (mem_of b S)))"

definition BIO_get_mem_data :: "methods \<Rightarrow> nat option \<Rightarrow> bios \<Rightarrow> int \<times> ctrl_arg \<times> bios" where
  "BIO_get_mem_data M bio S = BIO_ctrl M bio BIO_CTRL_INFO 0 (Data_arg []) S"

definition BIO_get_mem_ptr :: "methods \<Rightarrow> nat option \<Rightarrow> bios \<Rightarrow> int \<times> ctrl_arg \<times> bios" where
  "BIO_get_mem_ptr M bio S = BIO_ctrl M bio BIO_C_GET_BUF_MEM_PTR 0 (Data_arg []) S"

definition BIO_set_mem_buf :: "methods \<Rightarrow> nat option \<Rightarrow> buf_mem \<Rightarrow> int \<Rightarrow> bios \<Rightarrow> int \<times> ctrl_arg \<times> bios" where
  "BIO_set_mem_buf M bio b take_ownership S = BIO_ctrl M bio BIO_C_SET_BUF_MEM take_ownership (Mem_arg b) S"

definition BIO_set_mem_eof_return :: "methods \<Rightarrow> nat option \<Rightarrow> int \<Rightarrow> bios \<Rightarrow> int \<times> ctrl_arg \<times> bios" where
  "BIO_set_mem_eof_return M bio eof_value S = BIO_ctrl M bio BIO_C_SET_BUF_MEM_EOF_RETURN eof_value No_arg S"

section \<open>The buffers\<close>

definition wf_mem :: "buf_mem \<Rightarrow> bool" where
  "wf_mem m \<longleftrightarrow> mstart m = 0 \<and> mmax m = length (storage m) \<and> mlength m \<le> mmax m \<and> mmax m < 2 ^ 64"

lemma storage_simps [simp]:
  "storage (m\<lparr>mdata := Some d\<rparr>) = d" "storage (m\<lparr>mlength := n\<rparr>) = storage m" "storage (m\<lparr>mreallocs := k\<rparr>) = storage m"
  "storage (m\<lparr>mmax := n\<rparr>) = storage m" "storage (m\<lparr>mstart := n\<rparr>) = storage m"
  by (simp_all add: storage_def)

lemma wf_contents: "wf_mem m \<Longrightarrow> contents m = take (mlength m) (storage m)" "wf_mem m \<Longrightarrow> length (contents m) = mlength m"
  by (auto simp: wf_mem_def contents_def)

lemma reserve_facts:
  assumes "wf_mem b" "BUF_MEM_reserve cap b = (ok, b')" "cap < 2 ^ 64"
  shows "wf_mem b'" "contents b' = contents b" "mlength b' = mlength b" "ok \<Longrightarrow> cap \<le> mmax b'"
    "take (mlength b) (storage b') = take (mlength b) (storage b)"
proof -
  note b = assms(1) [unfolded wf_mem_def]
  define n where "n = size_add cap 3 div 3"
  consider "ok" "b' = b" "cap \<le> mmax b" | "\<not> ok" "b' = b \<or> b' = b\<lparr>mreallocs := mreallocs b + 1\<rparr>"
    | "ok" "mmax b < cap" "\<not> size_add cap 3 < cap" "size_mul n 4 div 4 = n"
      "b' = b\<lparr>mreallocs := mreallocs b + 1, mdata := Some (storage b @ map (mfresh b) [length (storage b)..<size_mul n 4]), mmax := size_mul n 4\<rparr>"
    using assms(2) by (auto simp: BUF_MEM_reserve_def Let_def n_def split: if_splits)
  then have "wf_mem b' \<and> contents b' = contents b \<and> mlength b' = mlength b \<and> (ok \<longrightarrow> cap \<le> mmax b') \<and>
    take (mlength b) (storage b') = take (mlength b) (storage b)"
  proof cases
    case 3
    have "cap + 3 < 2 ^ 64" using 3(3) size_add_wraps_iff [of cap 3] assms(3) by (simp add: not_less)
    then have n: "n = (cap + 3) div 3" by (simp add: n_def size_add_small)
    have m: "size_mul n 4 < 2 ^ 64" by (simp add: size_mul_def)
    have n4: "n * 4 < 2 ^ 64"
    proof (rule ccontr)
      assume "\<not> n * 4 < 2 ^ 64"
      then have "size_mul n 4 div 4 < n" using m by simp
      then show False using 3(4) by simp
    qed
    then have alloc: "size_mul n 4 = n * 4" by (simp add: size_mul_small)
    have "cap \<le> n * 4" unfolding n by simp
    then show ?thesis using 3 b n4 by (auto simp: alloc wf_mem_def contents_def)
  qed (use assms(1) in \<open>auto simp: wf_mem_def contents_def\<close>)
  then show "wf_mem b'" "contents b' = contents b" "mlength b' = mlength b" "ok \<Longrightarrow> cap \<le> mmax b'"
    "take (mlength b) (storage b') = take (mlength b) (storage b)" by auto
qed

text \<open>\<open>BUF_MEM_append\<close> adds the bytes at the end or changes nothing: the buffer stays well formed,
  and when it reports failure - the new length overflows, the size to allocate does, or memory runs
  out - the contents are those from before.\<close>

theorem BUF_MEM_append_contents:
  assumes "wf_mem b" "length inp < 2 ^ 64" "BUF_MEM_append inp b = (ok, b')"
  shows "wf_mem b' \<and> contents b' = (if ok then contents b @ inp else contents b)"
proof (cases "inp = []")
  case True
  then show ?thesis using assms by (simp add: BUF_MEM_append_def)
next
  case False
  note b = assms(1) [unfolded wf_mem_def]
  let ?n = "size_add (mlength b) (length inp)"
  show ?thesis
  proof (cases "?n < length inp")
    case True
    then show ?thesis using assms False by (simp add: BUF_MEM_append_def)
  next
    case ge: False
    have "size_add (length inp) (mlength b) = ?n" by (simp add: size_add_def add.commute)
    then have n: "?n = mlength b + length inp" "mlength b + length inp < 2 ^ 64"
      using ge b assms(2) size_add_wraps_iff [of "length inp" "mlength b"] by (auto simp: size_add_def add.commute)
    obtain r b1 where res: "BUF_MEM_reserve (mlength b + length inp) b = (r, b1)" by fastforce
    note f = reserve_facts [OF assms(1) res n(2)]
    show ?thesis
    proof (cases r)
      case True
      then have "ok" "b' = b1\<lparr>mdata := Some (take (mlength b1) (storage b1) @ inp @ drop (mlength b + length inp) (storage b1)),
        mlength := mlength b + length inp\<rparr>"
        using assms(3) False ge res n(1) by (simp_all add: BUF_MEM_append_def Let_def)
      moreover have "mlength b + length inp \<le> length (storage b1)" "mmax b1 = length (storage b1)" "mstart b1 = 0" "mmax b1 < 2 ^ 64"
        using f(1,4) True by (simp_all add: wf_mem_def)
      moreover have "mlength b \<le> length (storage b)" using b by simp
      ultimately show ?thesis using f(3,5) wf_contents(1) [OF assms(1)] by (simp add: wf_mem_def contents_def)
    next
      case r: False
      then have "\<not> ok" "b' = b1" using assms(3) False ge res n(1) by (simp_all add: BUF_MEM_append_def Let_def)
      then show ?thesis using f by simp
    qed
  qed
qed

theorem BUF_MEM_append_contents_witness:
  "let b = the (BUF_MEM_new True (\<lambda>_. True) (\<lambda>_. 0)); (ok, b') = BUF_MEM_append [1, 2, 3] b
   in wf_mem b \<and> ok \<and> wf_mem b' \<and> contents b' = [1, 2, 3]"
proof -
  let ?b = "the (BUF_MEM_new True (\<lambda>_. True) (\<lambda>_. 0))"
  have wf: "wf_mem ?b" by (simp add: BUF_MEM_new_def wf_mem_def storage_def)
  obtain ok b' where r: "BUF_MEM_append [1, 2, 3] ?b = (ok, b')" by fastforce
  have "ok" using r
    by (auto simp: BUF_MEM_append_def BUF_MEM_new_def BUF_MEM_reserve_def Let_def size_add_def size_mul_def storage_def)
  with BUF_MEM_append_contents [OF wf _ r] wf r show ?thesis
    by (simp add: Let_def contents_def BUF_MEM_new_def storage_def)
qed

section \<open>Reading and writing\<close>

lemma mem_of_upd_mem: "mem_of z (upd_mem b f S) = (if z = b then f (mem_of b S) else mem_of z S)"
  by (simp add: upd_mem_def mem_of_def upd_def)

lemma mem_of_flags:
  "mem_of z (BIO_clear_retry_flags b S) = mem_of z S" "mem_of z (BIO_set_retry_read b S) = mem_of z S"
  by (simp_all add: BIO_clear_retry_flags_def BIO_set_retry_read_def mem_of_def upd_def)

text \<open>What reading and writing leave alone.\<close>

definition same_mem_bio :: "nat \<Rightarrow> bios \<Rightarrow> bios \<Rightarrow> bool" where
  "same_mem_bio b S S' \<longleftrightarrow> meth (the (S' b)) = meth (the (S b)) \<and> init (the (S' b)) = init (the (S b)) \<and>
     num (the (S' b)) = num (the (S b)) \<and> rdonly b S' = rdonly b S"

lemma rdonly_retry: "(fl AND NOT kRetryFlags) AND BIO_FLAGS_MEM_RDONLY = fl AND BIO_FLAGS_MEM_RDONLY"
  "(fl OR (BIO_FLAGS_READ OR BIO_FLAGS_SHOULD_RETRY)) AND BIO_FLAGS_MEM_RDONLY = fl AND BIO_FLAGS_MEM_RDONLY"
proof -
  have "kRetryFlags AND BIO_FLAGS_MEM_RDONLY = 0"
    by (simp add: kRetryFlags_def BIO_FLAGS_RWS_def BIO_FLAGS_READ_def BIO_FLAGS_WRITE_def
        BIO_FLAGS_IO_SPECIAL_def BIO_FLAGS_SHOULD_RETRY_def BIO_FLAGS_MEM_RDONLY_def)
  then have "\<not> bit kRetryFlags n" if "bit BIO_FLAGS_MEM_RDONLY n" for n
    using that by (metis bit_0_eq bit_and_iff bot_apply bot_bool_def)
  moreover have "bit kRetryFlags n" if "bit (BIO_FLAGS_READ OR BIO_FLAGS_SHOULD_RETRY) n" for n
    using that by (auto simp: kRetryFlags_def BIO_FLAGS_RWS_def bit_simps)
  ultimately show "(fl AND NOT kRetryFlags) AND BIO_FLAGS_MEM_RDONLY = fl AND BIO_FLAGS_MEM_RDONLY"
    "(fl OR (BIO_FLAGS_READ OR BIO_FLAGS_SHOULD_RETRY)) AND BIO_FLAGS_MEM_RDONLY = fl AND BIO_FLAGS_MEM_RDONLY"
    by (auto intro!: bit_word_eqI simp: bit_simps dest: bit_imp_le_length) blast+
qed

lemma same_mem_bio [simp]:
  "same_mem_bio b S S" "same_mem_bio b S (BIO_clear_retry_flags b S)" "same_mem_bio b S (BIO_set_retry_read b S)"
  "same_mem_bio b S (upd_mem b f S)"
  by (simp_all add: same_mem_bio_def rdonly_def BIO_clear_retry_flags_def BIO_set_retry_read_def upd_mem_def upd_def rdonly_retry)

lemma same_mem_trans: "same_mem_bio b S S' \<Longrightarrow> same_mem_bio b S' S'' \<Longrightarrow> same_mem_bio b S S''"
  by (simp add: same_mem_bio_def)

lemma same_mem_count: "same_mem_bio b S (upd b (\<lambda>x. x\<lparr>num_read := k x\<rparr>) S)" "same_mem_bio b S (upd b (\<lambda>x. x\<lparr>num_write := k x\<rparr>) S)"
  by (simp_all add: same_mem_bio_def rdonly_def upd_def)

lemma mem_of_count: "mem_of z (upd b (\<lambda>x. x\<lparr>num_read := k x\<rparr>) S) = mem_of z S" "mem_of z (upd b (\<lambda>x. x\<lparr>num_write := k x\<rparr>) S) = mem_of z S"
  by (simp_all add: mem_of_def upd_def)

definition readable :: "buf_mem \<Rightarrow> bool" where
  "readable m \<longleftrightarrow> mstart m + mlength m \<le> length (storage m) \<and> mlength m < 2 ^ 64"

lemma wf_readable: "wf_mem m \<Longrightarrow> readable m"
  by (auto simp: wf_mem_def readable_def)

lemma readable_contents: "readable m \<Longrightarrow> length (contents m) = mlength m"
  by (auto simp: readable_def contents_def)

lemma mem_read_spec:
  assumes "mem_read b buf (int n) S = (r, out, S')" "0 < n" "n \<le> INT_MAX" "readable (mem_of b S)" "rdonly b S \<or> wf_mem (mem_of b S)"
  shows "same_mem_bio b S S' \<and> readable (mem_of b S') \<and> (wf_mem (mem_of b S) \<and> \<not> rdonly b S \<longrightarrow> wf_mem (mem_of b S')) \<and>
    contents (mem_of b S') = drop n (contents (mem_of b S)) \<and>
    (if contents (mem_of b S) = [] then r = num (the (S b)) \<and> out = []
     else r = int (min n (length (contents (mem_of b S)))) \<and> out = take n (contents (mem_of b S)))"
proof -
  let ?S1 = "BIO_clear_retry_flags b S" and ?m = "mem_of b S"
  note rd = assms(4) [unfolded readable_def] and len = readable_contents [OF assms(4)]
  have same: "rdonly b ?S1 = rdonly b S" "num (the (?S1 b)) = num (the (S b))"
    using same_mem_bio(2) [of b S] by (simp_all add: same_mem_bio_def)
  define k where "k = min n (mlength ?m)"
  have k: "(if mlength ?m < INT_MAX \<and> int n > int (mlength ?m) then int (mlength ?m) else int n) = int k"
    using assms(3) by (auto simp: k_def)
  show ?thesis
  proof (cases "mlength ?m = 0")
    case True
    then have "r = num (the (S b))" "out = []" "S' = (if r \<noteq> 0 then BIO_set_retry_read b ?S1 else ?S1)"
      using assms(1) k by (auto simp: mem_read_def Let_def mem_of_flags same k_def split: if_splits)
    then show ?thesis
      using True assms(4) len same_mem_trans [of b S ?S1] by (auto simp: mem_of_flags contents_def)
  next
    case False
    then have k0: "0 < k" "k \<le> mlength ?m" using assms(2) by (simp_all add: k_def)
    define l where "l = mlength ?m - k"
    have l: "size_sub (mlength ?m) k = l" using rd k0(2) by (simp add: size_sub_small l_def)
    define m1 where "m1 = (if rdonly b S then ?m\<lparr>mlength := l, mstart := mstart ?m + k\<rparr>
      else ?m\<lparr>mlength := l, mdata := Some (take l (drop k (storage ?m)) @ drop l (storage ?m))\<rparr>)"
    have run: "r = int k" "out = take k (drop (mstart ?m) (storage ?m))" "S' = upd_mem b (\<lambda>_. m1) ?S1"
      using assms(1) k0(1) unfolding mem_read_def Let_def mem_of_flags k same
      by (simp_all add: l m1_def cong: if_cong)
    have "l + k = mlength ?m" using k0(2) by (simp add: l_def)
    then have m1: "contents m1 = drop k (contents ?m)" "readable m1" "wf_mem ?m \<and> \<not> rdonly b S \<longrightarrow> wf_mem m1"
      using rd assms(5)
      by (auto simp: m1_def contents_def readable_def wf_mem_def drop_take add.commute l_def min_def)
    have c: "take k (contents ?m) = take n (contents ?m)" "drop k (contents ?m) = drop n (contents ?m)" "contents ?m \<noteq> []"
      "k = min n (length (contents ?m))"
      using len False by (auto simp: k_def min_def)
    have "out = take k (contents ?m)" using run(2) k0(2) by (simp add: contents_def min_absorb1)
    then show ?thesis
      using run m1 c same_mem_trans [OF same_mem_bio(2) same_mem_bio(4)] by (simp add: mem_of_upd_mem)
  qed
qed

lemma mem_write_spec:
  assumes "mem_write b (Some data) (int n) S = (r, S')" "n \<le> length data" "\<not> rdonly b S" "wf_mem (mem_of b S)"
    "mlength (mem_of b S) \<le> INT_MAX"
  shows "same_mem_bio b S S' \<and> wf_mem (mem_of b S') \<and> mlength (mem_of b S') \<le> INT_MAX \<and> (r = int n \<or> r = -1) \<and>
    contents (mem_of b S') = contents (mem_of b S) @ take (nat r) data"
proof -
  let ?S1 = "BIO_clear_retry_flags b S" and ?m = "mem_of b S"
  note wf = assms(4) [unfolded wf_mem_def]
  have len: "int_of_size (mlength ?m) = int (mlength ?m)" using assms(5) by (rule int_of_size_small)
  show ?thesis
  proof (cases "int INT_MAX - int (mlength ?m) < int n")
    case True
    then have "r = -1" "S' = ?S1" using assms(1,3) by (simp_all add: mem_write_def Let_def mem_of_flags len)
    then show ?thesis using assms(4,5) by (simp add: mem_of_flags)
  next
    case False
    then have fit: "mlength ?m + n \<le> INT_MAX" by simp
    then have sz: "size_of_int (int (mlength ?m) + int n) = mlength ?m + n" "size_of_int (int (mlength ?m)) = mlength ?m"
      "size_of_int (int n) = n" "size_add (mlength ?m) n = mlength ?m + n" "mlength ?m + n < 2 ^ 64"
      by (simp_all add: size_of_int_small size_add_small INT_MAX_def nat_add_distrib)
    obtain ok b1 where res: "BUF_MEM_reserve (mlength ?m + n) ?m = (ok, b1)" by fastforce
    note f = reserve_facts [OF assms(4) res sz(5)]
    show ?thesis
    proof (cases ok)
      case no: False
      then have "BUF_MEM_grow_clean (mlength ?m + n) ?m = (0, b1)" using res by (simp add: BUF_MEM_grow_clean_def BUF_MEM_grow_def)
      then have "(r = -1 \<or> n = 0 \<and> mlength ?m = 0 \<and> r = 0) \<and> \<not> (n = 0 \<and> mlength ?m = 0)"
        using assms(1,3) fit no res by (auto simp: mem_write_def Let_def mem_of_flags len sz BUF_MEM_reserve_def split: if_splits)
      moreover from this have "S' = upd_mem b (\<lambda>_. b1) ?S1"
        using assms(1,3) fit \<open>BUF_MEM_grow_clean (mlength ?m + n) ?m = (0, b1)\<close>
        by (auto simp: mem_write_def Let_def mem_of_flags len sz split: if_splits)
      ultimately show ?thesis
        using f(1-3) assms(5) same_mem_trans [OF same_mem_bio(2) same_mem_bio(4)] by (auto simp: mem_of_upd_mem)
    next
      case True
      define g where "g = (if mlength b1 < mlength ?m + n
        then b1\<lparr>mdata := Some (take (mlength b1) (storage b1) @ replicate n 0 @ drop (mlength ?m + n) (storage b1))\<rparr> else b1)
        \<lparr>mlength := mlength ?m + n\<rparr>"
      have grow: "BUF_MEM_grow_clean (mlength ?m + n) ?m = (mlength ?m + n, g)"
        using res True f(3) by (simp add: BUF_MEM_grow_clean_def BUF_MEM_grow_def g_def)
      define m2 where "m2 = g\<lparr>mdata := Some (take (mlength ?m) (storage g) @ take n data @ drop (mlength ?m + n) (storage g))\<rparr>"
      have run: "r = int n" "S' = upd_mem b (\<lambda>_. m2) ?S1"
        using assms(1,3) fit by (simp_all add: mem_write_def Let_def mem_of_flags len sz grow m2_def)
      have b1: "mstart b1 = 0" "mmax b1 = length (storage b1)" "mmax b1 < 2 ^ 64" "mlength ?m + n \<le> mmax b1" "mlength b1 = mlength ?m"
        using f True by (auto simp: wf_mem_def)
      have g: "length (storage g) = mmax b1" "take (mlength ?m) (storage g) = take (mlength ?m) (storage ?m)" "mstart g = 0" "mmax g = mmax b1"
        using b1 f(5) wf by (auto simp: g_def)
      have "wf_mem m2 \<and> mlength m2 \<le> INT_MAX \<and> contents m2 = contents ?m @ take n data"
        using g b1 assms(2) fit wf wf_contents(1) [OF assms(4)] by (simp add: m2_def wf_mem_def contents_def g_def)
      then show ?thesis using run same_mem_trans [OF same_mem_bio(2) same_mem_bio(4)] by (simp add: mem_of_upd_mem)
    qed
  qed
qed

section \<open>A memory BIO as a queue\<close>

definition is_mem :: "methods \<Rightarrow> nat \<Rightarrow> bios \<Rightarrow> bool" where
  "is_mem M b S \<longleftrightarrow> (\<exists>m ok oracle junk. meth (the (S b)) = Some m \<and> M m = mem_method ok oracle junk) \<and> init (the (S b)) \<noteq> 0"

text \<open>A memory \<open>BIO\<close> that can be written to.\<close>

definition mem_inv :: "methods \<Rightarrow> nat \<Rightarrow> bios \<Rightarrow> bool" where
  "mem_inv M b S \<longleftrightarrow> is_mem M b S \<and> \<not> rdonly b S \<and> wf_mem (mem_of b S) \<and> mlength (mem_of b S) \<le> INT_MAX"

lemma is_mem_methods:
  assumes "is_mem M b S"
  shows "method_of M bread (Some b) S = Some mem_read" "method_of M bwrite (Some b) S = Some mem_write"
    "method_of M bgets (Some b) S = Some mem_gets" "method_of M ctrl (Some b) S = Some mem_ctrl" "init (the (S b)) \<noteq> 0"
  using assms by (auto simp: is_mem_def method_of_def mem_method_def)

lemma same_is_mem: "same_mem_bio b S S' \<Longrightarrow> is_mem M b S' = is_mem M b S"
  by (simp add: is_mem_def same_mem_bio_def)

lemma BIO_read_mem:
  assumes "is_mem M b S" "BIO_read M (Some b) True (int n) S = (r, out, S')" "n \<le> INT_MAX" "readable (mem_of b S)"
    and "rdonly b S \<or> wf_mem (mem_of b S)"
  shows "same_mem_bio b S S' \<and> readable (mem_of b S') \<and> (wf_mem (mem_of b S) \<and> \<not> rdonly b S \<longrightarrow> wf_mem (mem_of b S')) \<and>
    contents (mem_of b S') = drop n (contents (mem_of b S)) \<and>
    (if n = 0 then r = 0 \<and> out = [] else if contents (mem_of b S) = [] then r = num (the (S b)) \<and> out = []
     else r = int (min n (length (contents (mem_of b S)))) \<and> out = take n (contents (mem_of b S)))"
proof (cases "n = 0")
  case True
  then have "r = 0" "out = []" "S' = S" using assms(1,2) by (auto simp: BIO_read_def is_mem_methods)
  then show ?thesis using assms True by simp
next
  case False
  obtain S1 where w: "mem_read b True (int n) S = (r, out, S1)"
    and S': "S' = (if r > 0 then upd b (\<lambda>x. x\<lparr>num_read := size_add (num_read x) (nat r)\<rparr>) S1 else S1)"
    using assms(1,2) False by (auto simp: BIO_read_def is_mem_methods split: prod.splits)
  have "same_mem_bio b S1 S'" "mem_of b S' = mem_of b S1" by (simp_all add: S' same_mem_count mem_of_count)
  then show ?thesis using mem_read_spec [OF w _ assms(3-5)] False same_mem_trans by auto
qed

lemma BIO_write_mem:
  assumes "mem_inv M b S" "BIO_write M (Some b) (Some data) (int n) S = (r, S')" "n \<le> length data"
  shows "mem_inv M b S' \<and> same_mem_bio b S S' \<and> (r = int n \<or> r = -1) \<and>
    contents (mem_of b S') = contents (mem_of b S) @ take (nat r) data"
proof (cases "n = 0")
  case True
  then have "r = 0" "S' = S" using assms(1,2) by (auto simp: BIO_write_def is_mem_methods mem_inv_def)
  then show ?thesis using assms True by simp
next
  case False
  obtain S1 where w: "mem_write b (Some data) (int n) S = (r, S1)"
    and S': "S' = (if r > 0 then upd b (\<lambda>x. x\<lparr>num_write := size_add (num_write x) (nat r)\<rparr>) S1 else S1)"
    using assms(1,2) False by (auto simp: BIO_write_def is_mem_methods mem_inv_def split: prod.splits)
  have same: "same_mem_bio b S1 S'" "mem_of b S' = mem_of b S1" by (simp_all add: S' same_mem_count mem_of_count)
  have sp: "same_mem_bio b S S1 \<and> wf_mem (mem_of b S1) \<and> mlength (mem_of b S1) \<le> INT_MAX \<and> (r = int n \<or> r = -1) \<and>
    contents (mem_of b S1) = contents (mem_of b S) @ take (nat r) data"
    using assms(1) by (intro mem_write_spec [OF w assms(3)]) (auto simp: mem_inv_def)
  have "same_mem_bio b S S'" using sp same same_mem_trans by blast
  then show ?thesis
    using sp same assms(1) same_is_mem [of b S S' M] by (auto simp: mem_inv_def same_mem_bio_def)
qed

definition mem_push :: "methods \<Rightarrow> nat \<Rightarrow> byte list \<Rightarrow> bios \<Rightarrow> nat \<times> bios" where
  "mem_push M b bs S = (case BIO_write M (Some b) (Some bs) (int (min (length bs) INT_MAX)) S of (r, S') \<Rightarrow> (nat r, S'))"

definition mem_pop :: "methods \<Rightarrow> nat \<Rightarrow> nat \<Rightarrow> bios \<Rightarrow> byte list \<times> bios" where
  "mem_pop M b k S = (case BIO_read M (Some b) True (int (min k INT_MAX)) S of (_, out, S') \<Rightarrow> (out, S'))"

lemma mem_push_facts:
  assumes "mem_inv M b S" "mem_push M b bs S = (n, S')"
  shows "mem_inv M b S'" "contents (mem_of b S') = contents (mem_of b S) @ take n bs" "n \<le> length bs"
proof -
  obtain r where w: "BIO_write M (Some b) (Some bs) (int (min (length bs) INT_MAX)) S = (r, S')" and n: "n = nat r"
    using assms(2) by (auto simp: mem_push_def split: prod.splits)
  have "min (length bs) INT_MAX \<le> length bs" by simp
  from BIO_write_mem [OF assms(1) w this]
  show "mem_inv M b S'" "contents (mem_of b S') = contents (mem_of b S) @ take n bs" "n \<le> length bs" by (auto simp: n)
qed

lemma mem_pop_facts:
  assumes "mem_inv M b S" "mem_pop M b k S = (out, S')"
  shows "mem_inv M b S'" "contents (mem_of b S) = out @ contents (mem_of b S')"
proof -
  obtain r where w: "BIO_read M (Some b) True (int (min k INT_MAX)) S = (r, out, S')"
    using assms(2) by (auto simp: mem_pop_def split: prod.splits)
  have inv: "is_mem M b S" "\<not> rdonly b S" "wf_mem (mem_of b S)" "mlength (mem_of b S) \<le> INT_MAX"
    using assms(1) by (auto simp: mem_inv_def)
  have n: "min k INT_MAX \<le> INT_MAX" by simp
  note sp = BIO_read_mem [OF inv(1) w n wf_readable [OF inv(3)] disjI2 [OF inv(3)]]
  then have wf: "wf_mem (mem_of b S')" "same_mem_bio b S S'" using inv by auto
  moreover have "mlength (mem_of b S') \<le> INT_MAX"
    using sp wf_contents(2) [OF wf(1)] wf_contents(2) [OF inv(3)] inv(4) by (metis diff_le_self length_drop order_trans)
  ultimately show "mem_inv M b S'" using inv same_is_mem [OF wf(2)] by (simp add: mem_inv_def same_mem_bio_def)
  show "contents (mem_of b S) = out @ contents (mem_of b S')" using sp by (auto split: if_splits)
qed

interpretation mem: byte_fifo "\<lambda>S. contents (mem_of b S)" "mem_inv M b" "mem_push M b" "mem_pop M b" for M b
  by unfold_locales (blast intro: mem_push_facts mem_pop_facts)+

section \<open>Lines and rewinding\<close>

definition first_line :: "byte list \<Rightarrow> byte list" where
  "first_line c = takeWhile (\<lambda>x. x \<noteq> 10) c @ (if 10 \<in> set c then [10] else [])"

lemma line_length: "j \<le> length p \<Longrightarrow> line_length j p = length (take j (first_line p))"
proof (induction j p rule: line_length.induct)
  case (1 j c p)
  show ?case
  proof (cases "c = 10")
    case False
    then have "first_line (c # p) = c # first_line p" by (auto simp: first_line_def)
    then show ?thesis using 1 False by simp
  qed (simp add: first_line_def)
qed (auto simp: first_line_def)

lemma first_line_take: "take k (first_line (take j p)) = take k (first_line p)" if "k \<le> j" for k j
  using that
proof (induction p arbitrary: k j)
  case (Cons c p)
  show ?case
  proof (cases "j = 0 \<or> c = 10")
    case True
    then show ?thesis using Cons.prems by (cases j) (auto simp: first_line_def)
  next
    case False
    then obtain i where j: "j = Suc i" by (cases j) auto
    have "first_line (c # q) = c # first_line q" for q using False by (auto simp: first_line_def)
    then show ?thesis using Cons.IH [of "k - 1" i] Cons.prems j by (cases k) auto
  qed
qed (simp add: first_line_def)

text \<open>
  A memory \<open>BIO\<close> that can be read, writable or made read-only by \<open>BIO_new_mem_buf\<close>: its data lies in its
  storage and its length is an \<open>int\<close>.
\<close>

definition mem_readable :: "methods \<Rightarrow> nat \<Rightarrow> bios \<Rightarrow> bool" where
  "mem_readable M b S \<longleftrightarrow> is_mem M b S \<and> readable (mem_of b S) \<and> (rdonly b S \<or> wf_mem (mem_of b S)) \<and>
     mlength (mem_of b S) \<le> INT_MAX"

lemma mem_inv_readable: "mem_inv M b S \<Longrightarrow> mem_readable M b S"
  by (simp add: mem_inv_def mem_readable_def wf_readable)

lemma first_line_length: "length (first_line p) \<le> length p"
  by (cases "10 \<in> set p")
    (auto simp: first_line_def length_takeWhile_le, metis (full_types) Suc_leI in_set_conv_nth length_takeWhile_le
      le_neq_implies_less takeWhile_eq_all_conv takeWhile_eq_take take_all_iff)

lemma first_line_prefix: "take k (first_line p) = take (length (take k (first_line p))) p"
proof (induction p arbitrary: k)
  case (Cons x p)
  then show ?case by (cases k; cases "x = 10") (auto simp: first_line_def)
qed (simp add: first_line_def)

text \<open>C33: \<open>BIO_gets\<close> on any memory \<open>BIO\<close>, writable or read-only, whose length is an \<open>int\<close>, takes the first
  line \<open>l\<close>, newline included, or as much of it as fits with a terminator into \<open>size\<close> bytes: it stores \<open>l\<close>
  and the terminator, returns the number of bytes without it and leaves exactly the rest as the
  contents, so that the next call reads on behind it; for empty contents and for \<open>size\<close> 1 only the
  terminator is stored and 0 returned. For a \<open>size\<close> below 1 nothing is stored and 0 returned. The
  \<open>BIO\<close> stays read-only or writable as it was.\<close>

theorem mem_gets_line:
  assumes "mem_readable M b S" "n \<le> int INT_MAX" "BIO_gets M (Some b) True n S = (r, out, S')"
  defines "l \<equiv> take (nat (n - 1)) (first_line (contents (mem_of b S)))"
  shows "r = int (length l) \<and> out = (if n < 1 then [] else l @ [0]) \<and>
    contents (mem_of b S') = drop (length l) (contents (mem_of b S)) \<and>
    mem_readable M b S' \<and> rdonly b S' = rdonly b S"
proof -
  let ?S1 = "BIO_clear_retry_flags b S" and ?m = "mem_of b S"
  let ?p = "drop (mstart ?m) (storage ?m)"
  have inv: "is_mem M b S" "readable ?m" "rdonly b S \<or> wf_mem ?m" "mlength ?m \<le> INT_MAX"
    using assms(1) by (auto simp: mem_readable_def)
  have c: "contents ?m = take (mlength ?m) ?p" "length (contents ?m) = mlength ?m"
    using readable_contents [OF inv(2)] by (simp_all add: contents_def)
  have same: "mem_of b ?S1 = ?m" "rdonly b ?S1 = rdonly b S" "same_mem_bio b S ?S1"
    using same_mem_bio(2) [of b S] by (simp_all add: mem_of_flags same_mem_bio_def)
  have sz: "int_of_size (mlength ?m) = int (mlength ?m)" using inv(4) by (rule int_of_size_small)
  have after: "mem_readable M b S' \<and> rdonly b S' = rdonly b S"
    if "same_mem_bio b S S'" "readable (mem_of b S')" "wf_mem ?m \<and> \<not> rdonly b S \<longrightarrow> wf_mem (mem_of b S')"
      "mlength (mem_of b S') \<le> INT_MAX"
    using that inv same_is_mem [OF that(1)] by (auto simp: mem_readable_def same_mem_bio_def)
  show ?thesis
  proof (cases "n - 1 \<le> 0 \<or> contents ?m = []")
    case True
    then have l: "l = []" by (auto simp: l_def first_line_def)
    have "BIO_gets M (Some b) True n S = (0, if n < 1 then [] else [0], if n < 1 then S else ?S1)"
      using True inv(1) c(2) same(1) sz
      by (auto simp: BIO_gets_def is_mem_methods mem_gets_def Let_def)
    then have "r = 0" "out = (if n < 1 then [] else [0])" "S' = S \<or> S' = ?S1" using assms(3) by auto
    then show ?thesis using l assms(1) same same_is_mem [OF same(3)] by (auto simp: mem_readable_def)
  next
    case False
    define j where "j = min (nat (n - 1)) (mlength ?m)"
    have "0 < mlength ?m" using False c(2) by (metis length_greater_0_conv)
    then have j: "(if n - 1 < int_of_size (mlength ?m) then n - 1 else int_of_size (mlength ?m)) = int j" "0 < j"
      using False by (auto simp: j_def sz)
    have "j \<le> length ?p" using inv(2) by (auto simp: j_def readable_def)
    from line_length [OF this] have "line_length j ?p = length (take j (first_line ?p))" by simp
    also have "take j (first_line ?p) = take j (first_line (contents ?m))"
      using first_line_take [of j "mlength ?m" ?p] c(1) by (simp add: j_def)
    also have "\<dots> = l" using first_line_length [of "contents ?m"] c(2) by (auto simp: l_def j_def min_def)
    finally have len: "line_length j ?p = length l" .
    have l0: "l \<noteq> []" using False by (cases "contents ?m") (auto simp: l_def first_line_def)
    have ll: "length l \<le> length (contents ?m)" "0 < length l" "length l \<le> INT_MAX"
      using first_line_length [of "contents ?m"] l0 inv(4) c(2) by (auto simp: l_def)
    have tl: "take (length l) (contents ?m) = l" using first_line_prefix by (metis l_def)
    obtain i out1 S2 where rd: "mem_read b True (int (length l)) ?S1 = (i, out1, S2)" by (metis prod.exhaust)
    note sp = mem_read_spec [OF rd ll(2,3)]
    from sp same inv(2,3) False ll(1) tl
    have i: "i = int (length l)" "out1 = l" "contents (mem_of b S2) = drop (length l) (contents ?m)"
      by (auto simp: min_absorb1)
    have "mem_gets b True n S = (i, out1 @ [0], S2)"
      unfolding mem_gets_def Let_def same(1) j(1) using rd j(2) l0 i(1) by (simp add: len)
    then have r: "r = i" "out = out1 @ [0]" "mem_of b S' = mem_of b S2" "same_mem_bio b S2 S'"
      using assms(3) False inv(1) by (auto simp: BIO_gets_def is_mem_methods mem_of_count same_mem_count split: prod.splits if_splits)
    have s2: "same_mem_bio b S S2" "readable (mem_of b S2)" "wf_mem ?m \<and> \<not> rdonly b S \<longrightarrow> wf_mem (mem_of b S2)"
      using sp same inv(2,3) same_mem_trans [OF same(3)] by auto
    have "mlength (mem_of b S2) \<le> INT_MAX"
      using readable_contents [OF s2(2)] i(3) c(2) inv(4) by simp
    with r s2 have "mem_readable M b S' \<and> rdonly b S' = rdonly b S"
      using same_mem_trans [OF s2(1) r(4)] by (intro after) simp_all
    then show ?thesis using i r False by simp
  qed
qed

lemma new_mem_bio:
  assumes "BIO_new M (Some b) m S = (Some b', S')" "M m = mem_method True oracle junk"
  shows "b' = b" "mem_inv M b S'" "contents (mem_of b S') = []" "num (the (S' b)) = -1"
proof -
  have ctor: "create (M m) = Some (mem_new True oracle junk)" by (simp add: assms(2) mem_method_def)
  have "b' = b \<and> meth (the (S' b)) = Some m \<and> init (the (S' b)) = 1 \<and> flags (the (S' b)) = 0 \<and> num (the (S' b)) = -1 \<and>
    mem_of b S' = \<lparr>mlength = 0, mdata = None, mstart = 0, mmax = 0, mrealloc_ok = oracle, mreallocs = 0, mfresh = junk\<rparr>"
    using assms(1) by (auto simp: BIO_new_def ctor mem_new_def BUF_MEM_new_def upd_def Let_def mem_of_def)
  then show "b' = b" "mem_inv M b S'" "contents (mem_of b S') = []" "num (the (S' b)) = -1"
    using assms(2) by (auto simp: mem_inv_def is_mem_def rdonly_def wf_mem_def storage_def contents_def)
qed

lemma new_mem_buf:
  assumes "M m = mem_method True oracle junk" "n \<le> length buf" "n \<le> INT_MAX"
  shows "\<exists>S'. BIO_new_mem_buf M m (Some b) (Some buf) (int n) S = (Some b, S') \<and> mem_readable M b S' \<and> rdonly b S' \<and>
    contents (mem_of b S') = take n buf"
proof -
  obtain S0 where new: "BIO_new M (Some b) m S = (Some b, S0)"
    by (simp add: BIO_new_def assms(1) mem_method_def mem_new_def BUF_MEM_new_def)
  note f = new_mem_bio [OF new assms(1)]
  define S1 where "S1 = upd_mem b (\<lambda>x. x\<lparr>mdata := Some buf, mlength := n, mmax := n\<rparr>) S0"
  define S' where "S' = upd b (\<lambda>x. x\<lparr>flags := flags x OR BIO_FLAGS_MEM_RDONLY, num := 0\<rparr>) S1"
  have "mem_of b S' = (mem_of b S0)\<lparr>mdata := Some buf, mlength := n, mmax := n\<rparr>"
    by (simp add: S'_def S1_def mem_of_def upd_mem_def upd_def)
  moreover have "mstart (mem_of b S0) = 0" using f(2) by (simp add: mem_inv_def wf_mem_def)
  moreover have "(fl OR BIO_FLAGS_MEM_RDONLY) AND BIO_FLAGS_MEM_RDONLY = BIO_FLAGS_MEM_RDONLY" for fl
    by (rule bit_word_eqI) (auto simp: bit_simps)
  then have "rdonly b S'" by (simp add: rdonly_def S'_def upd_def) (simp add: BIO_FLAGS_MEM_RDONLY_def)
  moreover have "is_mem M b S'"
    using f(2) by (simp add: mem_inv_def is_mem_def S'_def S1_def upd_mem_def upd_def)
  moreover have "BIO_new_mem_buf M m (Some b) (Some buf) (int n) S = (Some b, S')"
    using assms(3) by (simp add: BIO_new_mem_buf_def new S'_def S1_def size_of_int_small INT_MAX_def)
  ultimately show ?thesis
    using assms(2,3) by (intro exI [of _ S']) (simp add: mem_readable_def readable_def contents_def INT_MAX_def)
qed

text \<open>Two lines read from a read-only \<open>BIO\<close>, one after the other.\<close>

theorem mem_gets_line_witness:
  "\<exists>S S' S''. BIO_new_mem_buf (\<lambda>_. mem_method True (\<lambda>_. True) (\<lambda>_. 0)) 0 (Some 1) (Some [65, 10, 66]) 3 Map.empty = (Some 1, S) \<and>
     rdonly 1 S \<and>
     BIO_gets (\<lambda>_. mem_method True (\<lambda>_. True) (\<lambda>_. 0)) (Some 1) True 100 S = (2, [65, 10, 0], S') \<and>
     BIO_gets (\<lambda>_. mem_method True (\<lambda>_. True) (\<lambda>_. 0)) (Some 1) True 100 S' = (1, [66, 0], S'') \<and>
     contents (mem_of 1 S'') = []"
proof -
  let ?M = "\<lambda>_::nat. mem_method True (\<lambda>_. True) (\<lambda>_. 0)"
  obtain S where new: "BIO_new_mem_buf ?M 0 (Some 1) (Some [65, 10, 66]) (int 3) Map.empty = (Some 1, S)"
    and S: "mem_readable ?M 1 S" "rdonly 1 S" "contents (mem_of 1 S) = take 3 [65, 10, 66]"
    using new_mem_buf [of ?M 0 "\<lambda>_. True" "\<lambda>_. 0" 3 "[65, 10, 66]" 1 Map.empty] by (auto simp: INT_MAX_def)
  obtain r out S' where g: "BIO_gets ?M (Some 1) True 100 S = (r, out, S')" by (metis prod.exhaust)
  from mem_gets_line [OF S(1) _ g] S(3)
  have S': "r = 2" "out = [65, 10, 0]" "contents (mem_of 1 S') = [66]" "mem_readable ?M 1 S'"
    by (simp_all add: first_line_def INT_MAX_def)
  obtain r' out' S'' where g': "BIO_gets ?M (Some 1) True 100 S' = (r', out', S'')" by (metis prod.exhaust)
  from mem_gets_line [OF S'(4) _ g'] S'(3)
  have "r' = 1" "out' = [66, 0]" "contents (mem_of 1 S'') = []"
    by (simp_all add: first_line_def INT_MAX_def)
  then show ?thesis using S' S(2) g g' new by auto
qed

end
