(* ===== verification/BioPair.thy ===== *)
theory BioPair
  imports Bio
begin

text \<open>
  Pairs of \<open>BIO\<close>s (\<open>crypto/bio/pair.c\<close>): what is written to one end is read from the other, through a
  ring buffer in each direction. The structure of an end holds the buffer it writes to; the reader
  finds it through its peer.
\<close>

section \<open>The code\<close>

definition bio_bio_zero :: bio_bio where
  "bio_bio_zero = \<lparr>peer = None, closed = False, blen = 0, offset = 0, bsize = 0, bbuf = None, request = 0\<rparr>"

definition pair_of :: "nat \<Rightarrow> bios \<Rightarrow> bio_bio" where
  "pair_of b S = (case ptr (the (S b)) of Bio_bio p \<Rightarrow> p | _ \<Rightarrow> bio_bio_zero)"

definition upd_pair :: "nat \<Rightarrow> (bio_bio \<Rightarrow> bio_bio) \<Rightarrow> bios \<Rightarrow> bios" where
  "upd_pair b f S = upd b (\<lambda>x. x\<lparr>ptr := Bio_bio (f (pair_of b S))\<rparr>) S"

definition bio_new :: "bool \<Rightarrow> nat \<Rightarrow> bios \<Rightarrow> bool \<times> bios" where
  "bio_new mem_ok b S =
     (if \<not> mem_ok then (False, S)
      else (True, upd b (\<lambda>x. x\<lparr>ptr := Bio_bio (bio_bio_zero\<lparr>bsize := 17 * 1024\<rparr>)\<rparr>) S))"

definition bio_destroy_pair :: "nat \<Rightarrow> bios \<Rightarrow> bios" where
  "bio_destroy_pair b S =
     (if ptr (the (S b)) = NULL then S
      else
        (case peer (pair_of b S) of
           None \<Rightarrow> S
         | Some peer_bio \<Rightarrow>
             let S1 = upd_pair peer_bio (\<lambda>p. p\<lparr>peer := None\<rparr>) S;
                 S2 = upd peer_bio (\<lambda>x. x\<lparr>init := 0\<rparr>) S1;
                 S3 = upd_pair peer_bio (\<lambda>p. p\<lparr>blen := 0, offset := 0\<rparr>) S2;
                 S4 = upd_pair b (\<lambda>p. p\<lparr>peer := None\<rparr>) S3;
                 S5 = upd b (\<lambda>x. x\<lparr>init := 0\<rparr>) S4
             in upd_pair b (\<lambda>p. p\<lparr>blen := 0, offset := 0\<rparr>) S5))"

definition bio_free :: "nat \<Rightarrow> bios \<Rightarrow> bios" where
  "bio_free b S =
     (let S1 = (if peer (pair_of b S) \<noteq> None then bio_destroy_pair b S else S)
      in upd b (\<lambda>x. x\<lparr>ptr := NULL\<rparr>) S1)"

text \<open>
  The copying loops take \<open>one or two iterations\<close>, as the source says, so the fuel is two; they also
  return how many bytes were left to do, which \<open>read_loop_ring\<close> and \<open>write_loop_ring\<close> show to be none.
  The sums of an offset and a length in them do not wrap around for buffers of up to 2^63 bytes, the
  most that an allocation gives, and are written without the wrap.
\<close>

primrec read_loop :: "nat \<Rightarrow> nat \<Rightarrow> bio_bio \<Rightarrow> byte list \<times> nat \<times> bio_bio" where
  "read_loop 0 rest p = ([], rest, p)"
| "read_loop (Suc fuel) rest p =
     (let chunk = (if offset p + rest \<le> bsize p then rest else bsize p - offset p);
          data = take chunk (drop (offset p) (the (bbuf p)));
          p1 = p\<lparr>blen := blen p - chunk\<rparr>;
          p2 = (if blen p1 \<noteq> 0
                then p1\<lparr>offset := (if offset p1 + chunk = bsize p1 then 0 else offset p1 + chunk)\<rparr>
                else p1\<lparr>offset := 0\<rparr>)
      in if rest - chunk \<noteq> 0
         then (case read_loop fuel (rest - chunk) p2 of (data', left, p3) \<Rightarrow> (data @ data', left, p3))
         else (data, 0, p2))"

definition bio_read :: "nat \<Rightarrow> bool \<Rightarrow> int \<Rightarrow> bios \<Rightarrow> int \<times> byte list \<times> bios" where
  "bio_read b buf size0 S =
     (let size = size_of_int size0; S1 = BIO_clear_retry_flags b S in
      if init (the (S1 b)) = 0 then (0, [], S1)
      else
        let c = the (peer (pair_of b S1)); S2 = upd_pair c (\<lambda>p. p\<lparr>request := 0\<rparr>) S1 in
        if \<not> buf \<or> size = 0 then (0, [], S2)
        else
          let peer_b = pair_of c S2 in
          if blen peer_b = 0 then
            if closed peer_b then (0, [], S2)
            else
              (-1, [], upd_pair c (\<lambda>p. p\<lparr>request := (if size \<le> bsize p then size else bsize p)\<rparr>)
                         (BIO_set_retry_read b S2))
          else
            let size' = (if blen peer_b < size then blen peer_b else size) in
            (case read_loop 2 size' peer_b of (data, _, p) \<Rightarrow>
               (int_of_size size', data, upd_pair c (\<lambda>_. p) S2)))"

primrec write_loop :: "nat \<Rightarrow> nat \<Rightarrow> byte list \<Rightarrow> bio_bio \<Rightarrow> nat \<times> bio_bio" where
  "write_loop 0 rest buf p = (rest, p)"
| "write_loop (Suc fuel) rest buf p =
     (let write_offset1 = offset p + blen p;
          write_offset = (if write_offset1 \<ge> bsize p then write_offset1 - bsize p else write_offset1);
          chunk = (if write_offset + rest \<le> bsize p then rest else bsize p - write_offset);
          storage = the (bbuf p);
          p1 = p\<lparr>bbuf := Some (take write_offset storage @ take chunk buf @ drop (write_offset + chunk) storage),
                 blen := blen p + chunk\<rparr>
      in if rest - chunk \<noteq> 0 then write_loop fuel (rest - chunk) (drop chunk buf) p1 else (0, p1))"

definition bio_write :: "nat \<Rightarrow> byte list option \<Rightarrow> int \<Rightarrow> bios \<Rightarrow> int \<times> bios" where
  "bio_write b buf num0 S =
     (let num = size_of_int num0; S1 = BIO_clear_retry_flags b S in
      case buf of
        None \<Rightarrow> (0, S1)
      | Some data \<Rightarrow>
          if init (the (S1 b)) = 0 \<or> num = 0 then (0, S1)
          else
            let S2 = upd_pair b (\<lambda>p. p\<lparr>request := 0\<rparr>) S1; p = pair_of b S2 in
            if closed p then (-1, S2)
            else if blen p = bsize p then (-1, BIO_set_retry_write b S2)
            else
              let num' = (if num > bsize p - blen p then bsize p - blen p else num) in
              (case write_loop 2 num' data p of (_, p') \<Rightarrow>
                 (int_of_size num', upd_pair b (\<lambda>_. p') S2)))"

text \<open>\<open>mem_ok\<close> says for each of the two buffers whether its allocation succeeds, \<open>junk\<close> what it holds.\<close>

definition bio_make_pair ::
    "bool \<times> bool \<Rightarrow> (nat \<Rightarrow> byte) \<Rightarrow> nat \<Rightarrow> nat \<Rightarrow> nat \<Rightarrow> nat \<Rightarrow> bios \<Rightarrow> bool \<times> bios" where
  "bio_make_pair mem_ok junk bio1 bio2 writebuf1_len writebuf2_len S =
     (let alloc = (\<lambda>ok b n S.
        if bbuf (pair_of b S) = None then
          let S1 = (if n \<noteq> 0 then upd_pair b (\<lambda>p. p\<lparr>bsize := n\<rparr>) S else S) in
          if \<not> ok then (False, S1)
          else (True, upd_pair b (\<lambda>p. p\<lparr>bbuf := Some (map junk [0..<bsize p]), blen := 0, offset := 0\<rparr>) S1)
        else (True, S))
      in
      if peer (pair_of bio1 S) \<noteq> None \<or> peer (pair_of bio2 S) \<noteq> None then (False, S)
      else
        (case alloc (fst mem_ok) bio1 writebuf1_len S of
           (False, S1) \<Rightarrow> (False, S1)
         | (True, S1) \<Rightarrow>
             (case alloc (snd mem_ok) bio2 writebuf2_len S1 of
                (False, S2) \<Rightarrow> (False, S2)
              | (True, S2) \<Rightarrow>
                  let S3 = upd_pair bio1 (\<lambda>p. p\<lparr>peer := Some bio2, closed := False, request := 0\<rparr>) S2;
                      S4 = upd_pair bio2 (\<lambda>p. p\<lparr>peer := Some bio1, closed := False, request := 0\<rparr>) S3
                  in (True, upd bio2 (\<lambda>x. x\<lparr>init := 1\<rparr>) (upd bio1 (\<lambda>x. x\<lparr>init := 1\<rparr>) S4)))))"

definition BIO_C_GET_WRITE_BUF_SIZE :: nat where "BIO_C_GET_WRITE_BUF_SIZE = 137"
definition BIO_C_GET_WRITE_GUARANTEE :: nat where "BIO_C_GET_WRITE_GUARANTEE = 140"
definition BIO_C_GET_READ_REQUEST :: nat where "BIO_C_GET_READ_REQUEST = 141"
definition BIO_C_SHUTDOWN_WR :: nat where "BIO_C_SHUTDOWN_WR = 142"
definition BIO_C_RESET_READ_REQUEST :: nat where "BIO_C_RESET_READ_REQUEST = 147"

definition bio_ctrl :: "nat \<Rightarrow> nat \<Rightarrow> int \<Rightarrow> ctrl_arg \<Rightarrow> bios \<Rightarrow> int \<times> ctrl_arg \<times> bios" where
  "bio_ctrl bio cmd larg parg S =
     (let b = pair_of bio S in
      if cmd = BIO_C_GET_WRITE_BUF_SIZE then (int (bsize b), parg, S)
      else if cmd = BIO_C_GET_WRITE_GUARANTEE then
        (if peer b = None \<or> closed b then 0 else int (bsize b) - int (blen b), parg, S)
      else if cmd = BIO_C_GET_READ_REQUEST then (int (request b), parg, S)
      else if cmd = BIO_C_RESET_READ_REQUEST then (1, parg, upd_pair bio (\<lambda>p. p\<lparr>request := 0\<rparr>) S)
      else if cmd = BIO_C_SHUTDOWN_WR then (1, parg, upd_pair bio (\<lambda>p. p\<lparr>closed := True\<rparr>) S)
      else if cmd = BIO_CTRL_GET_CLOSE then (shutdown (the (S bio)), parg, S)
      else if cmd = BIO_CTRL_SET_CLOSE then (1, parg, upd bio (\<lambda>x. x\<lparr>shutdown := int_of_long larg\<rparr>) S)
      else if cmd = BIO_CTRL_PENDING then
        (case peer b of None \<Rightarrow> 0 | Some c \<Rightarrow> int (blen (pair_of c S)), parg, S)
      else if cmd = BIO_CTRL_WPENDING then (if bbuf b \<noteq> None then int (blen b) else 0, parg, S)
      else if cmd = BIO_CTRL_FLUSH then (1, parg, S)
      else if cmd = BIO_CTRL_EOF then
        (case parg of
           Bio_arg other \<Rightarrow> (if blen (pair_of other S) = 0 \<and> closed (pair_of other S) then 1 else 0, parg, S)
         | _ \<Rightarrow> (1, parg, S))
      else (0, parg, S))"

definition BIO_TYPE_BIO :: u32 where "BIO_TYPE_BIO = 19 OR 0x0400"

definition methods_biop :: "bool \<Rightarrow> bio_method" where
  "methods_biop mem_ok =
     \<lparr>mtype = BIO_TYPE_BIO, bwrite = Some bio_write, bread = Some bio_read, bgets = None,
      ctrl = Some bio_ctrl, create = Some (bio_new mem_ok), destroy = Some bio_free, callback_ctrl = None\<rparr>"

text \<open>\<open>m\<close> is the entry of the method table that \<open>bio_s_bio\<close> returns.\<close>

definition BIO_new_bio_pair ::
    "methods \<Rightarrow> nat \<Rightarrow> nat option \<Rightarrow> nat option \<Rightarrow> bool \<times> bool \<Rightarrow> (nat \<Rightarrow> byte) \<Rightarrow> nat \<Rightarrow> nat \<Rightarrow> bios \<Rightarrow>
     ((nat \<times> nat) option \<times> bios) option" where
  "BIO_new_bio_pair M m addr1 addr2 mem_ok junk writebuf1_len writebuf2_len S =
     (case BIO_new M addr1 m S of
        (bio1, S1) \<Rightarrow>
          (case BIO_new M addr2 m S1 of
             (bio2, S2) \<Rightarrow>
               (case (if bio1 = None \<or> bio2 = None then (False, S2)
                      else bio_make_pair mem_ok junk (the bio1) (the bio2) writebuf1_len writebuf2_len S2) of
                  (True, S3) \<Rightarrow> Some (Some (the bio1, the bio2), S3)
                | (False, S3) \<Rightarrow>
                    Option.bind (BIO_free M bio1 S3) (\<lambda>(_, S4).
                      Option.bind (BIO_free M bio2 S4) (\<lambda>(_, S5). Some (None, S5))))))"

definition BIO_ctrl_get_read_request :: "methods \<Rightarrow> nat \<Rightarrow> bios \<Rightarrow> int" where
  "BIO_ctrl_get_read_request M b S = fst (BIO_ctrl M (Some b) BIO_C_GET_READ_REQUEST 0 No_arg S)"

definition BIO_ctrl_get_write_guarantee :: "methods \<Rightarrow> nat \<Rightarrow> bios \<Rightarrow> int" where
  "BIO_ctrl_get_write_guarantee M b S = fst (BIO_ctrl M (Some b) BIO_C_GET_WRITE_GUARANTEE 0 No_arg S)"

definition BIO_shutdown_wr :: "methods \<Rightarrow> nat \<Rightarrow> bios \<Rightarrow> int \<times> bios" where
  "BIO_shutdown_wr M b S = (case BIO_ctrl M (Some b) BIO_C_SHUTDOWN_WR 0 No_arg S of (r, _, S') \<Rightarrow> (r, S'))"

section \<open>The ring\<close>

text \<open>
  What the comments of \<open>struct bio_bio_st\<close> demand of an end that has a peer, and the bytes its buffer
  holds, in order.
\<close>

definition ring_ok :: "bio_bio \<Rightarrow> bool" where
  "ring_ok p \<longleftrightarrow> bbuf p \<noteq> None \<and> length (the (bbuf p)) = bsize p \<and> 0 < bsize p \<and> bsize p < 2 ^ 64 \<and>
     blen p \<le> bsize p \<and> offset p < bsize p \<and> (blen p = 0 \<longrightarrow> offset p = 0) \<and>
     (blen p \<noteq> 0 \<longrightarrow> request p = 0) \<and> request p \<le> bsize p - blen p"

definition ring :: "bio_bio \<Rightarrow> byte list" where
  "ring p = take (blen p) (rotate (offset p) (the (bbuf p)))"

lemma length_ring: "ring_ok p \<Longrightarrow> length (ring p) = blen p"
  by (simp add: ring_ok_def ring_def)

lemma rotate_less: "off < length B \<Longrightarrow> rotate off B = drop off B @ take off B"
  by (simp add: rotate_drop_take)

lemma take_rotate: "n + k \<le> length B \<Longrightarrow> take k (rotate n B) = take k (drop n B)"
  by (cases "n = length B") (auto simp: rotate_less)

text \<open>Taking bytes off the front moves the start, modulo the size.\<close>

lemma ring_drop:
  assumes "n \<le> len" "len \<le> length B" "off' = (off + n) mod length B"
  shows "take (len - n) (rotate off' B) = drop n (take len (rotate off B))"
proof -
  have "rotate off' B = rotate n (rotate off B)"
    using assms(3) by (simp add: rotate_rotate add.commute rotate_conv_mod [of "n + off"])
  then show ?thesis using assms(1,2) by (simp add: take_rotate drop_take)
qed

text \<open>The two ways a round can go.\<close>

lemma read_round:
  assumes "offset p + n \<le> bsize p"
  shows "read_loop (Suc f) n p = (take n (drop (offset p) (the (bbuf p))), 0, p\<lparr>blen := blen p - n,
    offset := (if blen p - n = 0 \<or> offset p + n = bsize p then 0 else offset p + n)\<rparr>)"
  using assms by (auto simp: Let_def)

lemma read_round_wrap:
  assumes "offset p + k = bsize p" "k < n" "k < blen p"
  shows "read_loop (Suc f) n p =
    (case read_loop f (n - k) (p\<lparr>blen := blen p - k, offset := 0\<rparr>) of
       (data', left, p') \<Rightarrow> (take k (drop (offset p) (the (bbuf p))) @ data', left, p'))"
proof -
  have "\<not> offset p + n \<le> bsize p" "bsize p - offset p = k" "n - k \<noteq> 0" "blen p - k \<noteq> 0" using assms by auto
  then show ?thesis by (simp add: Let_def assms(1))
qed

lemma write_round:
  assumes "w = (if offset p + blen p \<ge> bsize p then offset p + blen p - bsize p else offset p + blen p)"
    and "w + n \<le> bsize p"
  shows "write_loop (Suc f) n data p = (0, p\<lparr>bbuf := Some (take w (the (bbuf p)) @ take n data @ drop (w + n) (the (bbuf p))),
    blen := blen p + n\<rparr>)"
  using assms by (simp add: Let_def)

lemma write_round_wrap:
  assumes "w = (if offset p + blen p \<ge> bsize p then offset p + blen p - bsize p else offset p + blen p)"
    and "w + k = bsize p" "k < n"
  shows "write_loop (Suc f) n data p = write_loop f (n - k) (drop k data)
    (p\<lparr>bbuf := Some (take w (the (bbuf p)) @ take k data @ drop (w + k) (the (bbuf p))), blen := blen p + k\<rparr>)"
proof -
  have "\<not> w + n \<le> bsize p" "bsize p - w = k" "n - k \<noteq> 0" using assms(2,3) by auto
  then show ?thesis by (simp add: Let_def assms(1) [symmetric])
qed

declare read_loop.simps [simp del] write_loop.simps [simp del]

lemma read_loop_ring:
  assumes "ring_ok p" "0 < n" "n \<le> blen p"
  obtains p' where "read_loop 2 n p = (take n (ring p), 0, p')" "ring_ok p'" "ring p' = drop n (ring p)"
    "bsize p' = bsize p" "peer p' = peer p" "closed p' = closed p"
proof -
  obtain B where B: "bbuf p = Some B" using assms(1) by (auto simp: ring_ok_def)
  have ok: "length B = bsize p" "bsize p < 2 ^ 64" "blen p \<le> bsize p" "offset p < bsize p" "request p = 0"
    using assms B by (auto simp: ring_ok_def)
  define off where "off = (if blen p = n then 0 else (offset p + n) mod bsize p)"
  define p' where "p' = p\<lparr>blen := blen p - n, offset := off\<rparr>"
  have "off < bsize p" using ok(4) by (auto simp: off_def intro!: mod_less_divisor)
  then have "ring_ok p'" using ok B assms(3) by (auto simp: ring_ok_def p'_def off_def)
  moreover have "ring p' = drop n (ring p)"
    using ring_drop [OF assms(3), of B "(offset p + n) mod bsize p" "offset p"] ok B
    by (auto simp: ring_def p'_def off_def)
  moreover have "read_loop 2 n p = (take n (ring p), 0, p')"
  proof (cases "offset p + n \<le> bsize p")
    case True
    have "take n (ring p) = take n (drop (offset p) B)"
      using True ok assms(3) B by (simp add: ring_def take_rotate min_absorb1)
    moreover have "off = (if blen p = n then 0 else if offset p + n = bsize p then 0 else offset p + n)"
      using True by (auto simp: off_def)
    ultimately show ?thesis using assms(3) B unfolding numeral_2_eq_2 read_round [OF True] by (auto simp: p'_def)
  next
    case False
    define k where "k = bsize p - offset p"
    have k: "0 < k" "k < n" "k < blen p" "offset p + k = bsize p" using False ok assms(3) by (auto simp: k_def)
    have r: "n - k < offset p \<or> n - k = offset p \<and> blen p = n" "n - k \<le> bsize p" "n - k \<noteq> 0" using k ok assms(3) by auto
    have e: "n + offset p - bsize p = n - k" using k(4) by simp
    have "take n (ring p) = drop (offset p) B @ take (n - k) B"
      using k ok assms(3) B r e by (auto simp: ring_def rotate_less min_absorb1 min_absorb2)
    moreover have "off = (if blen p = n then 0 else n - k)"
    proof -
      have "(offset p + n) mod bsize p = n - k" if "blen p \<noteq> n"
        using k r ok(4) that mod_add_self1 [of "bsize p" "n - k"] by (simp add: k(4) [symmetric])
      then show ?thesis by (simp add: off_def)
    qed
    moreover have "0 + (n - k) \<le> bsize p" "blen p - k - (n - k) = blen p - n" "k + (n - k) = n" using r k(2) by simp_all
    ultimately show ?thesis
      using k(4) ok B r(1) assms(3)
      unfolding numeral_2_eq_2 read_round_wrap [OF k(4,2,3)] by (subst read_round) (auto simp: p'_def)
  qed
  ultimately show thesis by (intro that [of p']) (simp_all add: p'_def)
qed

text \<open>Writing puts the bytes behind those that are there.\<close>

lemma ring_add:
  assumes "len + length xs \<le> length B" "off < length B" "w = (off + len) mod length B" "w + length xs \<le> length B"
  shows "take (len + length xs) (rotate off (take w B @ xs @ drop (w + length xs) B)) = take len (rotate off B) @ xs"
proof (rule nth_equalityI)
  let ?B = "take w B @ xs @ drop (w + length xs) B"
  have l: "length ?B = length B" using assms(4) by simp
  show "length (take (len + length xs) (rotate off ?B)) = length (take len (rotate off B) @ xs)"
    using assms(1) l by simp
  fix i assume "i < length (take (len + length xs) (rotate off ?B))"
  then have i: "i < len + length xs" using assms(1) l by simp
  then have iB: "i < length B" using assms(1) by simp
  have L: "take (len + length xs) (rotate off ?B) ! i = ?B ! ((off + i) mod length B)"
    using i iB l nth_rotate [of i ?B off] by simp
  show "take (len + length xs) (rotate off ?B) ! i = (take len (rotate off B) @ xs) ! i"
  proof (cases "i < len")
    case True
    have "(off + i) mod length B < w \<or> w + length xs \<le> (off + i) mod length B"
    proof (cases "off + i < length B")
      case wi: True
      show ?thesis
      proof (cases "off + len < length B")
        case False
        then have "w = off + len - length B" using assms(1-3) by (simp add: le_mod_geq)
        then have "w + length xs \<le> off + i" using False assms(1) by arith
        then show ?thesis using wi by simp
      qed (use wi True assms(3) in simp)
    next
      case False
      then have "(off + i) mod length B = off + i - length B" "w = off + len - length B"
        using True assms(1-3) by (simp_all add: le_mod_geq)
      then show ?thesis using True False by auto
    qed
    then have "?B ! ((off + i) mod length B) = B ! ((off + i) mod length B)"
      using assms(4) iB by (auto simp: nth_append)
    then show ?thesis using L True iB nth_rotate [of i B off] assms(1) by (simp add: nth_append)
  next
    case False
    define j where "j = i - len"
    have j: "i = len + j" "j < length xs" using False i by (auto simp: j_def)
    have "(off + i) mod length B = w + j"
    proof -
      have "(off + i) mod length B = ((off + len) mod length B + j) mod length B"
        by (simp add: j(1) mod_add_left_eq add.assoc)
      then show ?thesis using assms(3,4) j(2) by simp
    qed
    then show ?thesis using L j assms(1,4) by (simp add: nth_append)
  qed
qed

lemma write_loop_ring:
  assumes "ring_ok p" "request p = 0" "0 < n" "n \<le> bsize p - blen p" "n \<le> length data"
  obtains p' where "write_loop 2 n data p = (0, p')" "ring_ok p'" "ring p' = ring p @ take n data"
    "bsize p' = bsize p" "peer p' = peer p" "closed p' = closed p" "request p' = 0"
proof -
  obtain B where B: "bbuf p = Some B" using assms(1) by (auto simp: ring_ok_def)
  have ok: "length B = bsize p" "bsize p < 2 ^ 64" "blen p \<le> bsize p" "offset p < bsize p" "blen p < bsize p"
    "blen p = 0 \<Longrightarrow> offset p = 0"
    using assms B by (auto simp: ring_ok_def)
  define w where "w = (offset p + blen p) mod bsize p"
  have w: "(if offset p + blen p \<ge> bsize p then offset p + blen p - bsize p else offset p + blen p) = w" "w < bsize p"
    using ok by (auto simp: w_def le_mod_geq)
  define upd1 where "upd1 q k xs v = q\<lparr>bbuf := Some (take v (the (bbuf q)) @ xs @ drop (v + length xs) (the (bbuf q))),
    blen := blen q + k\<rparr>" for q :: bio_bio and k v and xs :: "byte list"
  have step: "ring_ok (upd1 q (length xs) xs v) \<and> ring (upd1 q (length xs) xs v) = ring q @ xs"
    if "ring_ok q" "request q = 0" "blen q + length xs \<le> bsize q" "v = (offset q + blen q) mod bsize q" "v + length xs \<le> bsize q" "xs \<noteq> []"
      "blen q = 0 \<Longrightarrow> offset q = 0"
    for q xs v
    using that ring_add [of "blen q" xs "the (bbuf q)" "offset q" v]
    by (auto simp: ring_ok_def ring_def upd1_def)
  show thesis
  proof (cases "w + n \<le> bsize p")
    case True
    have len: "length (take n data) = n" using assms(5) by simp
    have run: "write_loop 2 n data p = (0, upd1 p n (take n data) w)"
      unfolding numeral_2_eq_2 write_round [OF w(1) [symmetric] True] using assms(5) by (simp add: upd1_def)
    have "take n data \<noteq> []" using assms(3,5) by auto
    with step [OF assms(1,2), of "take n data" w] len True assms(4) ok w_def
    have "ring_ok (upd1 p n (take n data) w) \<and> ring (upd1 p n (take n data) w) = ring p @ take n data"
      by simp
    then show thesis using run assms(2) by (intro that [of "upd1 p n (take n data) w"]) (auto simp: upd1_def)
  next
    case False
    define k where "k = bsize p - w"
    have k: "0 < k" "k < n" "w + k = bsize p" using False w(2) by (auto simp: k_def)
    let ?p1 = "upd1 p k (take k data) w"
    let ?rest = "take (n - k) (drop k data)"
    have len: "length (take k data) = k" "length ?rest = n - k" using assms(5) k by simp_all
    have ne: "take k data \<noteq> []" "?rest \<noteq> []" using len k by (auto simp del: length_take length_drop)
    from step [OF assms(1,2), of "take k data" w] len ne k assms(4) ok w_def
    have p1: "ring_ok ?p1 \<and> ring ?p1 = ring p @ take k data" by simp
    have f1: "blen ?p1 = blen p + k" "offset ?p1 = offset p" "bsize ?p1 = bsize p" "request ?p1 = 0"
      by (simp_all add: upd1_def assms(2))
    have w0: "(offset ?p1 + blen ?p1) mod bsize ?p1 = 0"
    proof -
      have "(offset p + blen p + k) mod bsize p = (w + k) mod bsize p" by (simp add: w_def mod_add_left_eq)
      then show ?thesis using k(3) f1 by (simp add: add.assoc)
    qed
    have wo: "(if offset ?p1 + blen ?p1 \<ge> bsize ?p1 then offset ?p1 + blen ?p1 - bsize ?p1 else offset ?p1 + blen ?p1) = 0"
    proof -
      have "offset p + (blen p + k) < 2 * bsize p" using ok(4) k(2) assms(4) by arith
      moreover have "offset p + blen p = w" if "offset p + blen p < bsize p" using that by (simp add: w_def)
      moreover have "offset p + blen p = w + bsize p" if "bsize p \<le> offset p + blen p" using that w(1) by auto
      ultimately show ?thesis using k(3) f1 by (cases "offset p + blen p < bsize p") simp_all
    qed
    let ?p2 = "upd1 ?p1 (n - k) ?rest 0"
    have run: "write_loop 2 n data p = (0, ?p2)"
    proof -
      have "0 + (n - k) \<le> bsize ?p1" using f1(3) assms(4) by simp
      from write_round [OF wo [symmetric] this, of 0 "drop k data"]
      have "write_loop (Suc 0) (n - k) (drop k data) ?p1 = (0, ?p2)" using len(2) by (simp add: upd1_def)
      moreover have "write_loop 2 n data p = write_loop (Suc 0) (n - k) (drop k data) ?p1"
        unfolding numeral_2_eq_2 write_round_wrap [OF w(1) [symmetric] k(3,2)] using len(1) by (simp add: upd1_def)
      ultimately show ?thesis by simp
    qed
    from step [of ?p1 ?rest 0] p1 f1 w0 len ne k assms(4)
    have "ring_ok ?p2 \<and> ring ?p2 = ring ?p1 @ ?rest" by simp
    moreover have "take k data @ ?rest = take n data" using k(2) by (simp flip: take_add)
    ultimately show thesis using run p1 assms(2) by (intro that [of ?p2]) (auto simp: upd1_def)
  qed
qed

section \<open>Two ends\<close>

definition linked :: "nat \<Rightarrow> nat \<Rightarrow> bios \<Rightarrow> bool" where
  "linked b c S \<longleftrightarrow> init (the (S b)) \<noteq> 0 \<and> peer (pair_of b S) = Some c \<and> ring_ok (pair_of b S)"

definition paired :: "nat \<Rightarrow> nat \<Rightarrow> bios \<Rightarrow> bool" where
  "paired b c S \<longleftrightarrow> b \<noteq> c \<and> linked b c S \<and> linked c b S"

text \<open>The bytes on their way from an end to its peer.\<close>

definition pipe :: "nat \<Rightarrow> bios \<Rightarrow> byte list" where
  "pipe b S = ring (pair_of b S)"

named_theorems store_simps \<open>reading a store that has been updated\<close>

lemma upd_at [store_simps]: "the (upd b f S z) = (if z = b then f (the (S b)) else the (S z))"
  by (simp add: upd_def)

lemma pair_of_upd_pair [store_simps]: "pair_of z (upd_pair b f S) = (if z = b then f (pair_of b S) else pair_of z S)"
  by (simp add: upd_pair_def pair_of_def upd_def)

lemma pair_of_upd: "(\<And>x. ptr (f x) = ptr x) \<Longrightarrow> pair_of z (upd b f S) = pair_of z S"
  by (simp add: pair_of_def upd_def)

lemma init_upd: "(\<And>x. init (f x) = init x) \<Longrightarrow> init (the (upd b f S z)) = init (the (S z))"
  by (simp add: upd_def)

lemma pair_of_flags [store_simps]:
  "pair_of z (BIO_clear_retry_flags b S) = pair_of z S"
  "pair_of z (BIO_set_retry_read b S) = pair_of z S"
  "pair_of z (BIO_set_retry_write b S) = pair_of z S"
  by (simp_all add: BIO_clear_retry_flags_def BIO_set_retry_read_def BIO_set_retry_write_def pair_of_upd)

lemma init_flags [store_simps]:
  "init (the (BIO_clear_retry_flags b S z)) = init (the (S z))"
  "init (the (BIO_set_retry_read b S z)) = init (the (S z))"
  "init (the (BIO_set_retry_write b S z)) = init (the (S z))"
  "init (the (upd_pair b f S z)) = init (the (S z))"
  by (simp_all add: BIO_clear_retry_flags_def BIO_set_retry_read_def BIO_set_retry_write_def upd_pair_def init_upd)

lemma other_bios [store_simps]:
  "z \<noteq> b \<Longrightarrow> upd b f S z = S z" "z \<noteq> b \<Longrightarrow> upd_pair b g S z = S z"
  "z \<noteq> b \<Longrightarrow> BIO_clear_retry_flags b S z = S z"
  "z \<noteq> b \<Longrightarrow> BIO_set_retry_read b S z = S z" "z \<noteq> b \<Longrightarrow> BIO_set_retry_write b S z = S z"
  by (simp_all add: upd_def upd_pair_def BIO_clear_retry_flags_def BIO_set_retry_read_def BIO_set_retry_write_def)

lemma paired_sym: "paired b c S \<Longrightarrow> paired c b S"
  by (auto simp: paired_def)

lemma ring_request:
  "ring (p\<lparr>request := n\<rparr>) = ring p"
  "ring_ok p \<Longrightarrow> n = 0 \<or> blen p = 0 \<and> n \<le> bsize p \<Longrightarrow> ring_ok (p\<lparr>request := n\<rparr>)"
  by (auto simp: ring_def ring_ok_def)

text \<open>What a write and a read do, in terms of the two pipes.\<close>

lemma bio_write_spec:
  assumes "paired b c S" "bio_write b (Some data) (int n) S = (r, S')" "0 < n" "n \<le> INT_MAX" "n \<le> length data"
  defines "p \<equiv> pair_of b S"
  shows "paired b c S' \<and> pair_of c S' = pair_of c S \<and> closed (pair_of b S') = closed p \<and> bsize (pair_of b S') = bsize p \<and>
    r = (if closed p \<or> blen p = bsize p then -1 else int (min n (bsize p - blen p))) \<and>
    pipe b S' = pipe b S @ take (nat r) data"
proof -
  let ?p = "p\<lparr>request := 0\<rparr>"
  have l: "b \<noteq> c" "init (the (S b)) \<noteq> 0" "init (the (S c)) \<noteq> 0" "peer p = Some c" "ring_ok p"
    "peer (pair_of c S) = Some b" "ring_ok (pair_of c S)"
    using assms(1) by (auto simp: paired_def linked_def p_def)
  have ok: "ring_ok ?p" "ring ?p = ring p" using l(5) by (simp_all add: ring_request)
  have n: "size_of_int (int n) = n" using assms(4) by (simp add: size_of_int_small INT_MAX_def)
  consider (closed) "closed p" | (full) "\<not> closed p" "blen p = bsize p" | (room) "\<not> closed p" "blen p \<noteq> bsize p" by blast
  then show ?thesis
  proof cases
    case closed
    then have "r = -1" "S' = upd_pair b (\<lambda>p. p\<lparr>request := 0\<rparr>) (BIO_clear_retry_flags b S)"
      using assms(2,3) l(2) by (simp_all add: bio_write_def n store_simps Let_def p_def)
    then show ?thesis using l ok closed by (simp add: paired_def linked_def pipe_def store_simps p_def)
  next
    case full
    then have "r = -1" "S' = BIO_set_retry_write b (upd_pair b (\<lambda>p. p\<lparr>request := 0\<rparr>) (BIO_clear_retry_flags b S))"
      using assms(2,3) l(2) by (simp_all add: bio_write_def n store_simps Let_def p_def)
    then show ?thesis using l ok full by (simp add: paired_def linked_def pipe_def store_simps p_def)
  next
    case room
    define k where "k = min n (bsize p - blen p)"
    have k: "(if n > bsize p - blen p then bsize p - blen p else n) = k" by (simp add: k_def)
    have "blen p \<le> bsize p" using l(5) by (simp add: ring_ok_def)
    then have k0: "0 < k" "k \<le> bsize p - blen p" "k \<le> length data" "k \<le> INT_MAX"
      using room assms(3,4,5) by (auto simp: k_def)
    obtain p' where p': "write_loop 2 k data ?p = (0, p')" "ring_ok p'" "ring p' = ring p @ take k data"
      "bsize p' = bsize p" "peer p' = peer p" "closed p' = closed p"
      by (rule write_loop_ring [OF ok(1), of k data]) (use k0 ok(2) in auto)
    have "r = int k" "S' = upd_pair b (\<lambda>_. p') (upd_pair b (\<lambda>p. p\<lparr>request := 0\<rparr>) (BIO_clear_retry_flags b S))"
      using assms(2,3) l(2) room p'(1) k0(4)
      by (simp_all add: bio_write_def n store_simps Let_def k int_of_size_small cong: if_cong flip: p_def)
    then show ?thesis
      using l p' room by (simp add: paired_def linked_def pipe_def store_simps k_def flip: p_def)
  qed
qed

lemma bio_read_spec:
  assumes "paired b c S" "bio_read b True (int n) S = (r, out, S')" "0 < n" "n \<le> INT_MAX"
  defines "q \<equiv> pair_of c S"
  shows "paired b c S' \<and> pair_of b S' = pair_of b S \<and> closed (pair_of c S') = closed q \<and> bsize (pair_of c S') = bsize q \<and>
    r = (if pipe c S = [] then if closed q then 0 else -1 else int (min n (length (pipe c S)))) \<and>
    out = take n (pipe c S) \<and> pipe c S' = drop n (pipe c S)"
proof -
  let ?q = "q\<lparr>request := 0\<rparr>"
  have l: "b \<noteq> c" "init (the (S b)) \<noteq> 0" "init (the (S c)) \<noteq> 0" "peer q = Some b" "ring_ok q"
    "peer (pair_of b S) = Some c" "ring_ok (pair_of b S)"
    using assms(1) by (auto simp: paired_def linked_def q_def)
  have ok: "ring_ok ?q" "ring ?q = ring q" using l(5) by (simp_all add: ring_request)
  have len: "length (pipe c S) = blen q" using l(5) by (simp add: pipe_def length_ring q_def)
  have n: "size_of_int (int n) = n" using assms(4) by (simp add: size_of_int_small INT_MAX_def)
  consider (closed) "closed q" "blen q = 0" | (empty) "\<not> closed q" "blen q = 0" | (some) "blen q \<noteq> 0" by blast
  then show ?thesis
  proof cases
    case closed
    then have "r = 0" "out = []" "S' = upd_pair c (\<lambda>p. p\<lparr>request := 0\<rparr>) (BIO_clear_retry_flags b S)"
      using assms(2,3) l(2,6) by (simp_all add: bio_read_def n store_simps Let_def q_def)
    then show ?thesis using l ok closed len by (simp add: paired_def linked_def pipe_def store_simps q_def)
  next
    case empty
    define rq where "rq = (if n \<le> bsize q then n else bsize q)"
    have "r = -1" "out = []" "S' = upd_pair c (\<lambda>p. p\<lparr>request := (if n \<le> bsize p then n else bsize p)\<rparr>)
      (BIO_set_retry_read b (upd_pair c (\<lambda>p. p\<lparr>request := 0\<rparr>) (BIO_clear_retry_flags b S)))"
      using empty assms(2,3) l(2,6) by (simp_all add: bio_read_def n store_simps Let_def q_def)
    moreover have "ring_ok (q\<lparr>request := rq\<rparr>)" using l(5) empty by (auto simp: rq_def intro!: ring_request)
    ultimately show ?thesis
      using l empty len by (simp add: paired_def linked_def pipe_def store_simps rq_def ring_request flip: q_def)
  next
    case some
    define k where "k = min n (blen q)"
    have k: "(if blen q < n then blen q else n) = k" "0 < k" "k \<le> blen q" "k \<le> INT_MAX"
      using some assms(3,4) by (auto simp: k_def)
    obtain q' where q': "read_loop 2 k ?q = (take k (ring q), 0, q')" "ring_ok q'" "ring q' = drop k (ring q)"
      "bsize q' = bsize q" "peer q' = peer q" "closed q' = closed q"
      by (rule read_loop_ring [OF ok(1), of k]) (use k ok(2) in auto)
    have "r = int k" "out = take k (ring q)"
      "S' = upd_pair c (\<lambda>_. q') (upd_pair c (\<lambda>p. p\<lparr>request := 0\<rparr>) (BIO_clear_retry_flags b S))"
      using assms(2,3) l(2,6) some q'(1) k(4)
      by (simp_all add: bio_read_def n store_simps Let_def k(1) int_of_size_small cong: if_cong flip: q_def)
    moreover have "take k (ring q) = take n (ring q)" "drop k (ring q) = drop n (ring q)"
      using length_ring [OF l(5)] by (simp_all add: k_def min_def)
    moreover have "ring q \<noteq> []" using length_ring [OF l(5)] some by auto
    ultimately show ?thesis
      using l q' some len by (simp add: paired_def linked_def pipe_def store_simps k_def flip: q_def)
  qed
qed

section \<open>Through the method table\<close>

definition is_pair :: "methods \<Rightarrow> nat \<Rightarrow> bios \<Rightarrow> bool" where
  "is_pair M b S \<longleftrightarrow> (\<exists>m ok. meth (the (S b)) = Some m \<and> M m = methods_biop ok)"

definition pair_inv :: "methods \<Rightarrow> nat \<Rightarrow> nat \<Rightarrow> bios \<Rightarrow> bool" where
  "pair_inv M b c S \<longleftrightarrow> paired b c S \<and> is_pair M b S \<and> is_pair M c S"

lemma pair_inv_sym: "pair_inv M b c S \<Longrightarrow> pair_inv M c b S"
  by (auto simp: pair_inv_def intro: paired_sym)

lemma method_kept [store_simps]:
  "meth (the (BIO_clear_retry_flags b S z)) = meth (the (S z))"
  "meth (the (BIO_set_retry_read b S z)) = meth (the (S z))"
  "meth (the (BIO_set_retry_write b S z)) = meth (the (S z))"
  "meth (the (upd_pair b f S z)) = meth (the (S z))"
  by (simp_all add: BIO_clear_retry_flags_def BIO_set_retry_read_def BIO_set_retry_write_def upd_pair_def upd_def)

lemma bio_write_method: "bio_write b buf n S = (r, S') \<Longrightarrow> meth (the (S' z)) = meth (the (S z))"
  by (auto simp: bio_write_def Let_def store_simps split: option.splits if_splits prod.splits)

lemma bio_read_method: "bio_read b buf n S = (r, out, S') \<Longrightarrow> meth (the (S' z)) = meth (the (S z))"
  by (auto simp: bio_read_def Let_def store_simps split: if_splits prod.splits)

lemma is_pair_method: "(\<And>z. meth (the (S' z)) = meth (the (S z))) \<Longrightarrow> is_pair M b S' = is_pair M b S"
  by (simp add: is_pair_def)

lemma pair_method_of:
  assumes "is_pair M b S"
  shows "method_of M bread (Some b) S = Some bio_read" "method_of M bwrite (Some b) S = Some bio_write"
    "method_of M ctrl (Some b) S = Some bio_ctrl"
  using assms by (auto simp: is_pair_def method_of_def methods_biop_def)

text \<open>The counters of \<open>BIO_read\<close> and \<open>BIO_write\<close> do not matter here.\<close>

lemma count_kept:
  assumes "\<And>x. ptr (f x) = ptr x" "\<And>x. init (f x) = init x" "\<And>x. meth (f x) = meth x"
  shows "pair_inv M b c (upd z f S) = pair_inv M b c S" "pair_of y (upd z f S) = pair_of y S"
  using assms by (simp_all add: pair_inv_def paired_def linked_def is_pair_def pair_of_upd init_upd upd_at)

lemma BIO_write_pair:
  assumes "pair_inv M b c S" "BIO_write M (Some b) (Some data) (int n) S = (r, S')" "n \<le> INT_MAX" "n \<le> length data"
  defines "p \<equiv> pair_of b S"
  shows "pair_inv M b c S' \<and> pair_of c S' = pair_of c S \<and> closed (pair_of b S') = closed p \<and> bsize (pair_of b S') = bsize p \<and>
    r = (if n = 0 then 0 else if closed p \<or> blen p = bsize p then -1 else int (min n (bsize p - blen p))) \<and>
    pipe b S' = pipe b S @ take (nat r) data"
proof (cases "n = 0")
  case True
  have "r = 0" "S' = S"
    using assms(1,2) True by (auto simp: BIO_write_def pair_method_of pair_inv_def paired_def linked_def)
  then show ?thesis using assms(1) True by (simp add: p_def)
next
  case False
  obtain S1 where w: "bio_write b (Some data) (int n) S = (r, S1)"
    and S': "S' = (if r > 0 then upd b (\<lambda>x. x\<lparr>num_write := size_add (num_write x) (nat r)\<rparr>) S1 else S1)"
    using assms(1,2) False by (auto simp: BIO_write_def pair_method_of pair_inv_def paired_def linked_def split: prod.splits)
  note sp = bio_write_spec [OF _ w _ assms(3,4), of c, folded p_def]
  from sp assms(1) False
  have sp: "paired b c S1 \<and> pair_of c S1 = pair_of c S \<and> closed (pair_of b S1) = closed p \<and> bsize (pair_of b S1) = bsize p \<and>
    r = (if closed p \<or> blen p = bsize p then -1 else int (min n (bsize p - blen p))) \<and>
    pipe b S1 = pipe b S @ take (nat r) data"
    by (simp add: pair_inv_def)
  have "pair_inv M b c S1"
    using assms(1) sp is_pair_method [OF bio_write_method [OF w]] by (simp add: pair_inv_def)
  then show ?thesis using sp False by (simp add: S' count_kept pipe_def)
qed

lemma BIO_read_pair:
  assumes "pair_inv M b c S" "BIO_read M (Some b) True (int n) S = (r, out, S')" "n \<le> INT_MAX"
  defines "q \<equiv> pair_of c S"
  shows "pair_inv M b c S' \<and> pair_of b S' = pair_of b S \<and> closed (pair_of c S') = closed q \<and> bsize (pair_of c S') = bsize q \<and>
    r = (if n = 0 then 0 else if pipe c S = [] then if closed q then 0 else -1 else int (min n (length (pipe c S)))) \<and>
    out = take n (pipe c S) \<and> pipe c S' = drop n (pipe c S)"
proof (cases "n = 0")
  case True
  have "r = 0" "out = []" "S' = S"
    using assms(1,2) True by (auto simp: BIO_read_def pair_method_of pair_inv_def paired_def linked_def)
  then show ?thesis using assms(1) True by (simp add: q_def)
next
  case False
  obtain S1 where w: "bio_read b True (int n) S = (r, out, S1)"
    and S': "S' = (if r > 0 then upd b (\<lambda>x. x\<lparr>num_read := size_add (num_read x) (nat r)\<rparr>) S1 else S1)"
    using assms(1,2) False by (auto simp: BIO_read_def pair_method_of pair_inv_def paired_def linked_def split: prod.splits)
  from bio_read_spec [OF _ w _ assms(3), of c, folded q_def] assms(1) False
  have sp: "paired b c S1 \<and> pair_of b S1 = pair_of b S \<and> closed (pair_of c S1) = closed q \<and> bsize (pair_of c S1) = bsize q \<and>
    r = (if pipe c S = [] then if closed q then 0 else -1 else int (min n (length (pipe c S)))) \<and>
    out = take n (pipe c S) \<and> pipe c S1 = drop n (pipe c S)"
    by (simp add: pair_inv_def)
  have "pair_inv M b c S1"
    using assms(1) sp is_pair_method [OF bio_read_method [OF w]] by (simp add: pair_inv_def)
  then show ?thesis using sp False by (simp add: S' count_kept pipe_def)
qed

text \<open>One direction: writing as much of \<open>bs\<close> as an \<open>int\<close> can count, reading at most \<open>k\<close> bytes.\<close>

definition pair_push :: "methods \<Rightarrow> nat \<Rightarrow> byte list \<Rightarrow> bios \<Rightarrow> nat \<times> bios" where
  "pair_push M b bs S = (case BIO_write M (Some b) (Some bs) (int (min (length bs) INT_MAX)) S of (r, S') \<Rightarrow> (nat r, S'))"

definition pair_pop :: "methods \<Rightarrow> nat \<Rightarrow> nat \<Rightarrow> bios \<Rightarrow> byte list \<times> bios" where
  "pair_pop M b k S = (case BIO_read M (Some b) True (int (min k INT_MAX)) S of (_, out, S') \<Rightarrow> (out, S'))"

lemma pair_push_facts:
  assumes "pair_inv M b c S" "pair_push M b bs S = (n, S')"
  shows "pair_inv M b c S'" "pipe b S' = pipe b S @ take n bs" "n \<le> length bs" "pipe c S' = pipe c S"
proof -
  obtain r where w: "BIO_write M (Some b) (Some bs) (int (min (length bs) INT_MAX)) S = (r, S')" and n: "n = nat r"
    using assms(2) by (auto simp: pair_push_def split: prod.splits)
  have "min (length bs) INT_MAX \<le> INT_MAX" "min (length bs) INT_MAX \<le> length bs" by simp_all
  from BIO_write_pair [OF assms(1) w this]
  show "pair_inv M b c S'" "pipe b S' = pipe b S @ take n bs" "n \<le> length bs" "pipe c S' = pipe c S"
    by (auto simp: n pipe_def split: if_splits)
qed

lemma pair_pop_facts:
  assumes "pair_inv M b c S" "pair_pop M c k S = (out, S')"
  shows "pair_inv M b c S'" "pipe b S = out @ pipe b S'" "pipe c S' = pipe c S"
proof -
  obtain r where w: "BIO_read M (Some c) True (int (min k INT_MAX)) S = (r, out, S')"
    using assms(2) by (auto simp: pair_pop_def split: prod.splits)
  have "min k INT_MAX \<le> INT_MAX" by simp
  from BIO_read_pair [OF pair_inv_sym [OF assms(1)] w this]
  show "pair_inv M b c S'" "pipe b S = out @ pipe b S'" "pipe c S' = pipe c S"
    by (auto simp: pipe_def intro: pair_inv_sym)
qed

interpretation pair: duplex "pipe b" "pipe c" "pair_inv M b c" "pair_push M b" "pair_pop M c" "pair_push M c" "pair_pop M b"
  for M b c
  by unfold_locales
    (blast intro: pair_push_facts pair_pop_facts pair_inv_sym
      dest: pair_push_facts [OF pair_inv_sym] pair_pop_facts [OF pair_inv_sym])+

section \<open>A new pair\<close>

lemma init_ctor [store_simps]: "the ((S(b \<mapsto> x)) z) = (if z = b then x else the (S z))"
  by simp

lemma pair_of_ctor [store_simps]: "pair_of z (S(b \<mapsto> x)) = (if z = b then (case ptr x of Bio_bio p \<Rightarrow> p | _ \<Rightarrow> bio_bio_zero) else pair_of z S)"
  by (simp add: pair_of_def)

lemma pair_of_set [store_simps]:
  "pair_of z (upd b (\<lambda>x. x\<lparr>ptr := Bio_bio p\<rparr>) S) = (if z = b then p else pair_of z S)"
  "pair_of z (upd b (\<lambda>x. x\<lparr>init := i\<rparr>) S) = pair_of z S"
  by (simp_all add: pair_of_def upd_def)

definition fresh_end :: "nat \<Rightarrow> bio" where
  "fresh_end m = \<lparr>meth = Some m, init = 0, shutdown = 1, flags = 0, retry_reason = 0, num = 0, references = 1,
     ptr = Bio_bio (bio_bio_zero\<lparr>bsize := 17 * 1024\<rparr>), next_bio = None, num_read = 0, num_write = 0\<rparr>"

lemma BIO_new_pair_end:
  assumes "BIO_new M addr m S = (Some b, S')" "M m = methods_biop ok"
  shows "addr = Some b" "S' = S(b \<mapsto> fresh_end m)"
  using assms
  by (auto simp: BIO_new_def methods_biop_def bio_new_def upd_def fresh_end_def Let_def split: option.splits if_splits prod.splits)

lemma ring_ok_new: "0 < n \<Longrightarrow> n < 2 ^ 64 \<Longrightarrow>
  ring_ok \<lparr>peer = pr, closed = cl, blen = 0, offset = 0, bsize = n, bbuf = Some (map junk [0..<n]), request = 0\<rparr>"
  by (simp add: ring_ok_def)

lemma make_pair_new:
  assumes "bio_make_pair mem_ok junk b c n1 n2 (S(b \<mapsto> fresh_end m, c \<mapsto> fresh_end m)) = (True, S')" "b \<noteq> c"
  shows "S' = S(b \<mapsto> (fresh_end m)\<lparr>init := 1, ptr := Bio_bio \<lparr>peer = Some c, closed = False, blen = 0, offset = 0,
      bsize = (if n1 = 0 then 17 * 1024 else n1), bbuf = Some (map junk [0..<if n1 = 0 then 17 * 1024 else n1]), request = 0\<rparr>\<rparr>,
    c \<mapsto> (fresh_end m)\<lparr>init := 1, ptr := Bio_bio \<lparr>peer = Some b, closed = False, blen = 0, offset = 0,
      bsize = (if n2 = 0 then 17 * 1024 else n2), bbuf = Some (map junk [0..<if n2 = 0 then 17 * 1024 else n2]), request = 0\<rparr>\<rparr>)"
  using assms
  by (cases "n1 = 0"; cases "n2 = 0")
    (auto simp: bio_make_pair_def Let_def fresh_end_def bio_bio_zero_def upd_pair_def upd_def pair_of_def fun_eq_iff
      simp del: upt_Suc split: if_splits prod.splits)

lemma new_pair_inv:
  assumes "BIO_new_bio_pair M m (Some b) (Some c) mem_ok junk n1 n2 S = Some (Some (b', c'), S')"
    and "M m = methods_biop ok" "b \<noteq> c" "n1 < 2 ^ 64" "n2 < 2 ^ 64"
  shows "b' = b" "c' = c" "pair_inv M b c S'" "pipe b S' = []" "pipe c S' = []"
    "closed (pair_of b S') = False" "closed (pair_of c S') = False"
    "bsize (pair_of b S') = (if n1 = 0 then 17 * 1024 else n1)" "bsize (pair_of c S') = (if n2 = 0 then 17 * 1024 else n2)"
proof -
  obtain bio1 S1 where 1: "BIO_new M (Some b) m S = (bio1, S1)" by fastforce
  obtain bio2 S2 where 2: "BIO_new M (Some c) m S1 = (bio2, S2)" by fastforce
  from assms(1) 1 2 have some: "bio1 = Some b'" "bio2 = Some c'" and mk: "bio_make_pair mem_ok junk b' c' n1 n2 S2 = (True, S')"
    by (auto simp: BIO_new_bio_pair_def Option.bind_eq_Some_conv split: if_splits prod.splits bool.splits)
  from BIO_new_pair_end [OF 1 [unfolded some] assms(2)] have b: "b' = b" "S1 = S(b \<mapsto> fresh_end m)" by auto
  from BIO_new_pair_end [OF 2 [unfolded some] assms(2)] have c: "c' = c" "S2 = S1(c \<mapsto> fresh_end m)" by auto
  show "b' = b" "c' = c" by (fact b c)+
  note S' = make_pair_new [OF mk [unfolded b c] assms(3)]
  show "pair_inv M b c S'"
    using assms(2-5) ring_ok_new
    by (auto simp: S' pair_inv_def paired_def linked_def is_pair_def store_simps fresh_end_def simp del: upt_Suc)
  show "pipe b S' = []" "pipe c S' = []" "closed (pair_of b S') = False" "closed (pair_of c S') = False"
    "bsize (pair_of b S') = (if n1 = 0 then 17 * 1024 else n1)" "bsize (pair_of c S') = (if n2 = 0 then 17 * 1024 else n2)"
    using assms(3) by (simp_all add: S' pipe_def store_simps ring_def)
qed

lemma new_pair_ok:
  assumes "M m = methods_biop True" "b \<noteq> c"
  obtains S' where "BIO_new_bio_pair M m (Some b) (Some c) (True, True) junk n1 n2 S = Some (Some (b, c), S')"
proof -
  have "BIO_new M (Some x) m T = (Some x, T(x \<mapsto> fresh_end m))" for x T
    using assms(1) by (simp add: BIO_new_def methods_biop_def bio_new_def upd_def fresh_end_def)
  moreover have "fst (bio_make_pair (True, True) junk b c n1 n2 (S(b \<mapsto> fresh_end m, c \<mapsto> fresh_end m)))"
    using assms(2) by (simp add: bio_make_pair_def Let_def fresh_end_def bio_bio_zero_def store_simps split: prod.split)
  ultimately show thesis
    by (cases "bio_make_pair (True, True) junk b c n1 n2 (S(b \<mapsto> fresh_end m, c \<mapsto> fresh_end m))")
      (auto simp: BIO_new_bio_pair_def intro: that)
qed

section \<open>Any use of a pair\<close>

text \<open>
  A step of the two ends: a write, a read or a control command at either of them, with any arguments
  C allows (the count is an \<open>int\<close>, and the buffer to write has at least that many bytes).
\<close>

inductive pair_step :: "methods \<Rightarrow> nat \<Rightarrow> nat \<Rightarrow> bios \<Rightarrow> bios \<Rightarrow> bool" for M b c where
  step_write: "z = b \<or> z = c \<Longrightarrow> n \<le> INT_MAX \<Longrightarrow> n \<le> length data \<Longrightarrow>
    BIO_write M (Some z) (Some data) (int n) S = (r, S') \<Longrightarrow> pair_step M b c S S'"
| step_read: "z = b \<or> z = c \<Longrightarrow> n \<le> INT_MAX \<Longrightarrow>
    BIO_read M (Some z) True (int n) S = (r, out, S') \<Longrightarrow> pair_step M b c S S'"
| step_ctrl: "z = b \<or> z = c \<Longrightarrow> BIO_ctrl M (Some z) cmd larg parg S = (r, parg', S') \<Longrightarrow> pair_step M b c S S'"

inductive_cases pair_stepE: "pair_step M b c S S'"

lemma ring_closed:
  "ring_ok (p\<lparr>closed := v\<rparr>) = ring_ok p" "ring (p\<lparr>closed := v\<rparr>) = ring p"
  by (simp_all add: ring_ok_def ring_def)

lemma BIO_ctrl_pair:
  assumes "pair_inv M b c S" "BIO_ctrl M (Some b) cmd larg parg S = (r, parg', S')"
  shows "pair_inv M b c S' \<and> pipe b S' = pipe b S \<and> pipe c S' = pipe c S"
proof -
  have run: "bio_ctrl b cmd larg parg S = (r, parg', S')"
    using assms by (simp add: BIO_ctrl_def pair_method_of pair_inv_def)
  have l: "b \<noteq> c" "linked b c S" "linked c b S" "is_pair M b S" "is_pair M c S"
    using assms(1) by (auto simp: pair_inv_def paired_def)
  consider "S' = S" | "S' = upd_pair b (\<lambda>p. p\<lparr>request := 0\<rparr>) S" | "S' = upd_pair b (\<lambda>p. p\<lparr>closed := True\<rparr>) S"
    | "S' = upd b (\<lambda>x. x\<lparr>shutdown := int_of_long larg\<rparr>) S"
    using run by (auto simp: bio_ctrl_def Let_def split: if_splits ctrl_arg.splits)
  then show ?thesis
  proof cases
    case 1
    then show ?thesis using assms(1) by simp
  next
    case 2
    then show ?thesis
      using l is_pair_method [of S' S M]
      by (simp add: pair_inv_def paired_def linked_def pipe_def store_simps ring_request)
  next
    case 3
    then show ?thesis
      using l is_pair_method [of S' S M]
      by (simp add: pair_inv_def paired_def linked_def pipe_def store_simps ring_closed)
  next
    case 4
    then show ?thesis using assms(1) by (simp add: count_kept pipe_def)
  qed
qed

lemma pair_step_inv: "pair_step M b c S S' \<Longrightarrow> pair_inv M b c S \<Longrightarrow> pair_inv M b c S'"
proof (induction rule: pair_step.induct)
  case (step_write z n data S r S')
  then show ?case using BIO_write_pair [of M _ _ S data n r S'] pair_inv_sym by metis
next
  case (step_read z n S r out S')
  then show ?case using BIO_read_pair [of M _ _ S n r out S'] pair_inv_sym by metis
next
  case (step_ctrl z cmd larg parg S r parg' S')
  then show ?case using BIO_ctrl_pair [of M _ _ S cmd larg parg r parg' S'] pair_inv_sym by metis
qed

text \<open>C14: whatever is done to the two ends of a pair that \<open>BIO_new_bio_pair\<close> has made - reads, writes and
  control commands in any order, with any sizes - the constraints stated in \<open>struct bio_bio_st\<close> hold:
  the peers point at each other, the buffer is never overfull, its offset stays inside it and is
  zero when it is empty, and a read request is recorded only while it is empty and never exceeds
  the free space.\<close>

theorem bio_pair_invariant:
  assumes "BIO_new_bio_pair M m (Some b) (Some c) mem_ok junk n1 n2 S = Some (Some (b, c), S0)"
    and "M m = methods_biop True" "b \<noteq> c" "n1 < 2 ^ 64" "n2 < 2 ^ 64"
    and "(pair_step M b c)\<^sup>*\<^sup>* S0 S'"
  shows "peer (pair_of b S') = Some c \<and> peer (pair_of c S') = Some b \<and> ring_ok (pair_of b S') \<and> ring_ok (pair_of c S')"
proof -
  from assms(6) have "pair_inv M b c S'"
    by (induction rule: rtranclp_induct) (use new_pair_inv(3) [OF assms(1-5)] pair_step_inv in blast)+
  then show ?thesis by (auto simp: pair_inv_def paired_def linked_def)
qed

theorem bio_pair_invariant_witness:
  "\<exists>S0 S'. BIO_new_bio_pair (\<lambda>_. methods_biop True) 0 (Some 1) (Some 2) (True, True) (\<lambda>_. 0) 4 0 Map.empty = Some (Some (1, 2), S0) \<and>
     (pair_step (\<lambda>_. methods_biop True) 1 2)\<^sup>*\<^sup>* S0 S' \<and> snd (BIO_write (\<lambda>_. methods_biop True) (Some 1) (Some [7, 8]) 2 S0) = S' \<and>
     peer (pair_of 1 S') = Some 2 \<and> peer (pair_of 2 S') = Some 1 \<and> ring_ok (pair_of 1 S') \<and> ring_ok (pair_of 2 S')"
proof -
  let ?M = "\<lambda>_::nat. methods_biop True"
  obtain S0 where S0: "BIO_new_bio_pair ?M 0 (Some 1) (Some 2) (True, True) (\<lambda>_. 0) 4 0 Map.empty = Some (Some (1, 2), S0)"
    by (rule new_pair_ok [of ?M 0 1 2]) auto
  obtain r S' where S': "BIO_write ?M (Some 1) (Some [7, 8]) (int 2) S0 = (r, S')" by fastforce
  have "pair_step ?M 1 2 S0 S'" by (rule step_write [OF _ _ _ S']) (simp_all add: INT_MAX_def)
  then have "(pair_step ?M 1 2)\<^sup>*\<^sup>* S0 S'" by blast
  with bio_pair_invariant [OF S0 _ _ _ _ this] S0 S' show ?thesis by auto
qed

text \<open>An exchange: writes and reads at both ends in any order, with what each direction took and gave.\<close>

fun pair_exchange :: "methods \<Rightarrow> nat \<Rightarrow> nat \<Rightarrow> duplex_event list \<Rightarrow> bios \<Rightarrow> (byte list \<times> byte list) \<times> (byte list \<times> byte list) \<times> bios" where
  "pair_exchange M b c [] S = (([], []), ([], []), S)"
| "pair_exchange M b c (Up_write bs # es) S =
     (let (n, S') = pair_push M b bs S; ((i, out), d, S'') = pair_exchange M b c es S' in ((take n bs @ i, out), d, S''))"
| "pair_exchange M b c (Up_read k # es) S =
     (let (o1, S') = pair_pop M c k S; ((i, out), d, S'') = pair_exchange M b c es S' in ((i, o1 @ out), d, S''))"
| "pair_exchange M b c (Down_write bs # es) S =
     (let (n, S') = pair_push M c bs S; (u, (i, out), S'') = pair_exchange M b c es S' in (u, (take n bs @ i, out), S''))"
| "pair_exchange M b c (Down_read k # es) S =
     (let (o1, S') = pair_pop M b k S; (u, (i, out), S'') = pair_exchange M b c es S' in (u, (i, o1 @ out), S''))"

lemma pair_exchange_eq: "pair_exchange M b c es S = pair.exchange M b c es S"
  by (induction M b c es S rule: pair_exchange.induct) (simp_all split: prod.split)

text \<open>C6: the bytes read at one end of a pair are those written to the other, in order, none lost, none
  added: after any interleaving of reads and writes at both ends, what a direction has accepted is
  what it has delivered followed by what its ring still holds; the two directions do not mix,
  although their buffers wrap around independently.\<close>

theorem bio_pair_delivers:
  assumes "BIO_new_bio_pair M m (Some b) (Some c) mem_ok junk n1 n2 S = Some (Some (b, c), S0)"
    and "M m = methods_biop True" "b \<noteq> c" "n1 < 2 ^ 64" "n2 < 2 ^ 64"
    and "pair_exchange M b c es S0 = ((in1, out1), (in2, out2), S')"
  shows "in1 = out1 @ pipe b S' \<and> in2 = out2 @ pipe c S'"
proof -
  note new = new_pair_inv [OF assms(1-5)]
  from pair.exchange_order [OF new(3) assms(6) [unfolded pair_exchange_eq]] new(4,5) show ?thesis by simp
qed

theorem bio_pair_delivers_witness:
  "\<exists>S0 i1 o1 i2 o2 S'.
     BIO_new_bio_pair (\<lambda>_. methods_biop True) 0 (Some 1) (Some 2) (True, True) (\<lambda>_. 0) 4 0 Map.empty = Some (Some (1, 2), S0) \<and>
     pair_exchange (\<lambda>_. methods_biop True) 1 2 [Up_write [1, 2, 3], Down_write [9], Up_read 2, Up_write [4, 5, 6], Up_read 9] S0 =
       ((i1, o1), (i2, o2), S') \<and> i1 = o1 @ pipe 1 S' \<and> i2 = o2 @ pipe 2 S'"
proof -
  let ?M = "\<lambda>_::nat. methods_biop True"
  let ?es = "[Up_write [1, 2, 3], Down_write [9], Up_read 2, Up_write [4, 5, 6], Up_read 9]"
  obtain S0 where S0: "BIO_new_bio_pair ?M 0 (Some 1) (Some 2) (True, True) (\<lambda>_. 0) 4 0 Map.empty = Some (Some (1, 2), S0)"
    by (rule new_pair_ok [of ?M 0 1 2]) auto
  obtain i1 o1 i2 o2 S' where run: "pair_exchange ?M 1 2 ?es S0 = ((i1, o1), (i2, o2), S')" by (metis prod.exhaust)
  from bio_pair_delivers [OF S0 _ _ _ _ run] S0 run show ?thesis by auto
qed

text \<open>reading from a pair with nothing to read. After the peer has shut its writing side down the
  result is the end of file, with no retry flag; otherwise it is -1 with the flags for a later read,
  and the peer learns how much was asked for, at most what its buffer can hold, which it can then
  write at once.\<close>

theorem bio_pair_read_empty:
  assumes "pair_inv M b c S" "pipe c S = []" "0 < n" "n \<le> INT_MAX"
    and "BIO_read M (Some b) True (int n) S = (r, out, S')"
  shows "out = [] \<and>
    (if closed (pair_of c S) then r = 0 \<and> BIO_get_retry_flags b S' = 0
     else r = -1 \<and> BIO_get_retry_flags b S' = BIO_FLAGS_READ OR BIO_FLAGS_SHOULD_RETRY \<and>
       BIO_ctrl_get_read_request M c S' = int (min n (bsize (pair_of c S))) \<and>
       BIO_ctrl_get_read_request M c S' \<le> BIO_ctrl_get_write_guarantee M c S')"
proof -
  have l: "b \<noteq> c" "init (the (S b)) \<noteq> 0" "peer (pair_of b S) = Some c" "ring_ok (pair_of c S)" "peer (pair_of c S) = Some b"
    using assms(1) by (auto simp: pair_inv_def paired_def linked_def)
  have empty: "blen (pair_of c S) = 0" using assms(2) length_ring [OF l(4)] by (simp add: pipe_def)
  have n: "size_of_int (int n) = n" using assms(4) by (simp add: size_of_int_small INT_MAX_def)
  obtain S1 where S1: "bio_read b True (int n) S = (r, out, S1)"
    and S': "S' = (if r > 0 then upd b (\<lambda>x. x\<lparr>num_read := size_add (num_read x) (nat r)\<rparr>) S1 else S1)"
    using assms by (auto simp: BIO_read_def pair_method_of pair_inv_def paired_def linked_def split: prod.splits)
  have "BIO_ctrl M (Some c) cmd larg parg S' = bio_ctrl c cmd larg parg S'" for cmd larg parg
    using BIO_read_pair [OF assms(1,5,4)] by (simp add: BIO_ctrl_def pair_method_of pair_inv_def)
  then have ctrl: "BIO_ctrl_get_read_request M c S' = int (request (pair_of c S'))"
    "BIO_ctrl_get_write_guarantee M c S' = (if peer (pair_of c S') = None \<or> closed (pair_of c S') then 0
      else int (bsize (pair_of c S')) - int (blen (pair_of c S')))"
    by (simp_all add: BIO_ctrl_get_read_request_def BIO_ctrl_get_write_guarantee_def bio_ctrl_def Let_def
        BIO_C_GET_READ_REQUEST_def BIO_C_GET_WRITE_GUARANTEE_def BIO_C_GET_WRITE_BUF_SIZE_def)
  have clear: "BIO_get_retry_flags b (upd_pair c f (BIO_clear_retry_flags b S)) = 0" for f
    using l(1) by (simp add: BIO_get_retry_flags_def BIO_clear_retry_flags_def store_simps upd_pair_def)
      (rule bit_word_eqI, simp add: bit_simps)
  have set: "BIO_get_retry_flags b (upd_pair c f (BIO_set_retry_read b (upd_pair c g (BIO_clear_retry_flags b S)))) =
    BIO_FLAGS_READ OR BIO_FLAGS_SHOULD_RETRY" for f g
    using l(1)
    by (simp add: BIO_get_retry_flags_def BIO_clear_retry_flags_def BIO_set_retry_read_def store_simps upd_pair_def)
      (rule bit_word_eqI, auto simp: bit_simps kRetryFlags_def BIO_FLAGS_RWS_def)
  show ?thesis
  proof (cases "closed (pair_of c S)")
    case True
    then have "r = 0" "out = []" "S' = upd_pair c (\<lambda>p. p\<lparr>request := 0\<rparr>) (BIO_clear_retry_flags b S)"
      using S1 S' assms(3) l empty by (simp_all add: bio_read_def n store_simps Let_def)
    then show ?thesis using True clear by simp
  next
    case False
    then have "r = -1" "out = []" "S' = upd_pair c (\<lambda>p. p\<lparr>request := (if n \<le> bsize p then n else bsize p)\<rparr>)
      (BIO_set_retry_read b (upd_pair c (\<lambda>p. p\<lparr>request := 0\<rparr>) (BIO_clear_retry_flags b S)))"
      using S1 S' assms(3) l empty by (simp_all add: bio_read_def n store_simps Let_def)
    then show ?thesis unfolding ctrl using False set empty l by (simp add: store_simps min_def)
  qed
qed

theorem bio_pair_read_empty_witness:
  "\<exists>S S' r. BIO_new_bio_pair (\<lambda>_. methods_biop True) 0 (Some 1) (Some 2) (True, True) (\<lambda>_. 0) 4 0 Map.empty = Some (Some (1, 2), S) \<and>
     BIO_read (\<lambda>_. methods_biop True) (Some 1) True 100 S = (-1, [], S') \<and>
     BIO_get_retry_flags 1 S' = BIO_FLAGS_READ OR BIO_FLAGS_SHOULD_RETRY \<and>
     BIO_ctrl_get_read_request (\<lambda>_. methods_biop True) 2 S' = 100"
proof -
  let ?M = "\<lambda>_::nat. methods_biop True"
  obtain S where S: "BIO_new_bio_pair ?M 0 (Some 1) (Some 2) (True, True) (\<lambda>_. 0) 4 0 Map.empty = Some (Some (1, 2), S)"
    by (rule new_pair_ok [of ?M 0 1 2]) auto
  note new = new_pair_inv [OF S, of True]
  obtain r out S' where run: "BIO_read ?M (Some 1) True (int 100) S = (r, out, S')" by (metis prod.exhaust)
  from bio_pair_read_empty [OF _ _ _ _ run, of 2] new S run show ?thesis by (auto simp: INT_MAX_def)
qed

end
