(* ===== verification/BioAsn1.thy ===== *)
theory BioAsn1
  imports BioMem BioPair Der
begin

text \<open>
  Reading an ASN.1 element from a \<open>BIO\<close> (\<open>BIO_read_asn1\<close> of \<open>crypto/bio/bio.c\<close>). What it needs of the
  \<open>BIO\<close> is stated as an interface, which memory \<open>BIO\<close>s and pairs implement.
\<close>

section \<open>Sources\<close>

text \<open>
  A source delivers the bytes it has in order, in pieces of any size, and at least one byte while it
  has any.
\<close>

locale bio_source =
  fixes M :: methods and b :: nat and inv :: "bios \<Rightarrow> bool" and avail :: "bios \<Rightarrow> byte list"
  assumes source_read: "inv S \<Longrightarrow> 0 < n \<Longrightarrow> n \<le> INT_MAX \<Longrightarrow> BIO_read M (Some b) True (int n) S = (r, out, S') \<Longrightarrow>
    inv S' \<and> avail S = out @ avail S' \<and> length out = nat r \<and> nat r \<le> n \<and> (avail S \<noteq> [] \<longrightarrow> 0 < r)"
begin

lemma read_full:
  "inv S \<Longrightarrow> len < 2 ^ 64 \<Longrightarrow> \<exists>eof S'. read_full_loop M (Some b) f len S =
     Some (len \<le> length (avail S), take len (avail S), eof, S') \<and> inv S' \<and> avail S' = drop len (avail S) \<and>
     (eof \<longrightarrow> f \<and> avail S = [])"
proof (induction len arbitrary: S f rule: less_induct)
  case (less len)
  show ?case
  proof (cases "len = 0")
    case True
    then show ?thesis using less.prems by (intro exI [of _ False] exI [of _ S]) (simp add: read_full_loop.simps)
  next
    case False
    define n where "n = min len INT_MAX"
    have n: "(if len \<le> INT_MAX then int_of_size len else int INT_MAX) = int n" "0 < n" "n \<le> INT_MAX" "n \<le> len"
      using False by (auto simp: n_def int_of_size_small INT_MAX_def)
    obtain r out S1 where rd: "BIO_read M (Some b) True (int n) S = (r, out, S1)" by (metis prod.exhaust)
    note c = source_read [OF less.prems(1) n(2,3) rd]
    have code: "read_full_loop M (Some b) f len S =
      (if r \<le> 0 then Some (False, [], f \<and> r = 0, S1)
       else Option.bind (read_full_loop M (Some b) False (size_sub len (nat r)) S1)
         (\<lambda>(ok, out', eof, S''). Some (ok, take (nat r) out @ out', eof, S'')))"
      using False by (subst read_full_loop.simps) (simp add: n(1) rd)
    show ?thesis
    proof (cases "r \<le> 0")
      case True
      then have "avail S = []" "avail S1 = []" using c by auto
      then show ?thesis using True c False by (simp add: code)
    next
      case r: False
      have sub: "size_sub len (nat r) = len - nat r" using c n(4) less.prems(2) by (intro size_sub_small) auto
      have "len - nat r < len" using r False by simp
      moreover have "len - nat r < 2 ^ 64" using less.prems(2) by (rule less_imp_diff_less)
      ultimately obtain S' where
        IH: "read_full_loop M (Some b) False (len - nat r) S1 =
          Some (len - nat r \<le> length (avail S1), take (len - nat r) (avail S1), False, S')" "inv S'"
          "avail S' = drop (len - nat r) (avail S1)"
        using less.IH [of "len - nat r" S1 False] c by auto
      have le: "nat r \<le> len" using c n(4) by simp
      show ?thesis using r c IH le by (auto simp: code sub)
    qed
  qed
qed

lemma bio_read_full:
  assumes "inv S" "len < 2 ^ 64"
  obtains eof S' where "bio_read_full M (Some b) len S = Some (len \<le> length (avail S), take len (avail S), eof, S')"
    "inv S'" "avail S' = drop len (avail S)" "eof \<longrightarrow> avail S = []"
  using read_full [OF assms, of True] unfolding bio_read_full_def by blast

lemma read_contents:
  assumes "inv S" "len \<le> length (avail S)" "len \<le> INT_MAX" "length header + len \<le> max_len" "max_len < 2 ^ 64" "mem_ok 0"
  obtains S' where "read_contents M mem_ok (Some b) max_len header len S = Some (Inr (header @ take len (avail S)), S')"
    "inv S'" "avail S' = drop len (avail S)"
proof -
  have small: "length header + len < 2 ^ 64" using assms(4,5) by linarith
  then have sz: "size_add len (length header) = length header + len" "size_sub (length header + len) (length header) = len"
    by (simp_all add: size_add_small size_sub_small add.commute)
  obtain eof S' where rd: "bio_read_full M (Some b) len S = Some (len \<le> length (avail S), take len (avail S), eof, S')"
    "inv S'" "avail S' = drop len (avail S)"
    by (rule bio_read_full [OF assms(1), of len]) (use small in auto)
  have "\<not> size_add len (length header) < len" using sz by simp
  then show thesis
    using rd assms that by (simp add: read_contents_def Let_def sz)
qed

end

section \<open>Headers\<close>

lemma foldl_be32: "foldl (\<lambda>v b. push_bit 8 v OR ucast b) (ucast v :: u32) bs = ucast (foldl (\<lambda>v b. push_bit 8 v OR ucast (b :: byte)) (v :: u64) bs)"
proof (induction bs arbitrary: v)
  case (Cons x bs)
  have "push_bit 8 (ucast v) OR ucast x = (ucast (push_bit 8 v OR ucast x) :: u32)"
    by (rule bit_word_eqI) (auto simp: bit_simps)
  then show ?case by (simp add: Cons.IH)
qed simp

lemma be32: "foldl (\<lambda>v b. push_bit 8 v OR ucast b) (0 :: u32) bs = ucast (be64 bs)"
  using foldl_be32 [of 0 bs] by (simp add: be64_def)

lemma small_tag:
  assumes "tag_number tag < 0x1f"
  obtains t where "der_tag tag = [t]" "t AND 0x1f \<noteq> 0x1f"
proof -
  let ?t = "tag_class tag OR ucast (tag_number tag)"
  have "(ucast (?t AND 0x1f) :: u32) = tag_number tag"
  proof -
    have "(ucast (?t AND 0x1f) :: u32) = ucast ?t AND 0x1f" by (rule bit_word_eqI) (auto simp: bit_simps const_bits)
    then show ?thesis using tag_byte_small [OF assms] by simp
  qed
  then have "?t AND 0x1f \<noteq> 0x1f" using assms by auto
  then show thesis using assms by (intro that [of ?t]) (auto simp: der_tag_def)
qed

context bio_source begin

lemma read_der:
  assumes "inv S" "avail S = der tag c @ rest" "tag_number tag < 0x1f" "length c \<le> INT_MAX"
    and "length (der tag c) \<le> max_len" "max_len < 2 ^ 64" "mem_ok 0"
  obtains S' where "BIO_read_asn1 M mem_ok junk (Some b) max_len S = Some (Inr (der tag c), S')" "inv S'" "avail S' = rest"
proof -
  obtain t where t: "der_tag tag = [t]" "t AND 0x1f \<noteq> 0x1f" using small_tag [OF assms(3)] .
  have c32: "length c < 2 ^ 32" using assms(4) by (simp add: INT_MAX_def)
  show thesis
  proof (cases "length c < 128")
    case True
    note short = der_length_short [OF True]
    have av: "avail S = t # of_nat (length c) # c @ rest" using assms(2) t short by (simp add: der_def)
    obtain eof S1 where h: "bio_read_full M (Some b) 2 S = Some (2 \<le> length (avail S), take 2 (avail S), eof, S1)"
      "inv S1" "avail S1 = drop 2 (avail S)"
      by (rule bio_read_full [OF assms(1), of 2]) auto
    obtain S' where rc: "read_contents M mem_ok (Some b) max_len [t, of_nat (length c)] (length c) S1 =
        Some (Inr ([t, of_nat (length c)] @ take (length c) (avail S1)), S')" "inv S'" "avail S' = drop (length c) (avail S1)"
      by (rule read_contents [OF h(2), of "length c" "[t, of_nat (length c)]" max_len mem_ok])
        (use h(3) av assms(4-7) t short in \<open>simp_all add: der_def\<close>)
    have "BIO_read_asn1 M mem_ok junk (Some b) max_len S = Some (Inr (der tag c), S')"
      using h(1,3) av t rc(1) short by (simp add: BIO_read_asn1_def numeral_2_eq_2 der_def)
    then show thesis using rc h(3) av by (intro that) simp_all
  next
    case False
    then have ge: "128 \<le> length c" by simp
    note long = der_length_long [OF ge c32]
    define k where "k = len_octets (length c)"
    define lb where "lb = (of_nat (0x80 + k) :: byte)"
    let ?ls = "be_bytes k (of_nat (length c) :: u64)"
    note long = long [folded k_def, folded lb_def]
    have av: "avail S = t # lb # ?ls @ c @ rest" using assms(2) t long(1) by (simp add: der_def)
    obtain eof S1 where h: "bio_read_full M (Some b) 2 S = Some (2 \<le> length (avail S), take 2 (avail S), eof, S1)"
      "inv S1" "avail S1 = drop 2 (avail S)"
      by (rule bio_read_full [OF assms(1), of 2]) auto
    obtain eof2 S2 where l: "bio_read_full M (Some b) k S1 = Some (k \<le> length (avail S1), take k (avail S1), eof2, S2)"
      "inv S2" "avail S2 = drop k (avail S1)"
      by (rule bio_read_full [OF h(2), of k]) (use long(5) in auto)
    have ls: "take k (avail S1) = ?ls" "drop k (avail S1) = c @ rest" "k \<le> length (avail S1)" using h(3) av by simp_all
    have "be64 ?ls = of_nat (length c)" using long by (simp add: be64_be_bytes drop_bit_0_take)
    then have "foldl (\<lambda>v b. push_bit 8 v OR ucast b) (0 :: u32) ?ls = ucast (of_nat (length c) :: u64)"
      by (simp only: be32)
    moreover have "(ucast (of_nat (length c) :: u64) :: u32) = of_nat (length c)" by (rule bit_word_eqI) (auto simp: bit_simps)
    ultimately have len32: "foldl (\<lambda>v b. push_bit 8 v OR ucast b) (0 :: u32) ?ls = of_nat (length c)" by (simp only:)
    have unat32: "unat (of_nat (length c) :: u32) = length c" using c32 by (simp add: unat_of_nat take_bit_eq_mod)
    have "2 ^ ((k - 1) * 8) \<le> length c"
      using len_octets_bounds [OF ge c32] by (simp add: k_def mult.commute)
    then have guards: "\<not> (of_nat (length c) :: u32) < 128" "drop_bit ((k - 1) * 8) (of_nat (length c) :: u32) \<noteq> 0"
      using ge unat32 by (simp_all add: word_less_nat_alt drop_bit_0_iff)
    obtain S' where rc: "read_contents M mem_ok (Some b) max_len ([t, lb] @ ?ls) (length c) S2 =
        Some (Inr (([t, lb] @ ?ls) @ take (length c) (avail S2)), S')" "inv S'" "avail S' = drop (length c) (avail S2)"
      by (rule read_contents [OF l(2), of "length c" "[t, lb] @ ?ls" max_len mem_ok])
        (use l(3) ls assms(4-7) t long(1) in \<open>simp_all add: der_def\<close>)
    have "BIO_read_asn1 M mem_ok junk (Some b) max_len S = Some (Inr (der tag c), S')"
      using h(1,3) av t rc(1) l long ls len32 guards unat32
      by (simp add: BIO_read_asn1_def numeral_2_eq_2 der_def)
    then show thesis using rc l(3) ls by (intro that) simp_all
  qed
qed

end

section \<open>Reading to the end\<close>

text \<open>A source whose end shows as a zero, which \<open>bio_read_all\<close> needs.\<close>

locale bio_file = bio_source +
  assumes at_end: "inv S \<Longrightarrow> 0 < n \<Longrightarrow> n \<le> INT_MAX \<Longrightarrow> avail S = [] \<Longrightarrow>
    BIO_read M (Some b) True (int n) S = (r, out, S') \<Longrightarrow> r = 0"
begin

lemma read_all_loop:
  assumes "inv S" "filled \<le> length buf" "filled = length buf \<longrightarrow> length buf = max_len" "length buf \<le> max_len"
    "length buf - filled \<le> INT_MAX" "max_len + kChunkSize < 2 ^ 64" "\<And>k. mem_ok k"
  shows "\<exists>S'. read_all_loop M mem_ok junk (Some b) max_len k buf filled S =
    Some (if filled + length (avail S) < max_len then Some (take filled buf @ avail S) else None, S') \<and> inv S' \<and>
    (filled + length (avail S) < max_len \<longrightarrow> avail S' = [])"
  using assms(1-5)
proof (induction "length (avail S)" arbitrary: S k buf filled rule: less_induct)
  case less
  show ?case
  proof (cases "filled = length buf")
    case True
    then show ?thesis using less.prems by (simp add: read_all_loop.simps)
  next
    case False
    define n where "n = length buf - filled"
    have len: "length buf < 2 ^ 64" using less.prems(4) assms(6) by simp
    have n: "int_of_size (size_sub (length buf) filled) = int n" "0 < n" "n \<le> INT_MAX"
      using False less.prems(2,5) len by (simp_all add: n_def size_sub_small int_of_size_small)
    obtain r out S1 where rd: "BIO_read M (Some b) True (int n) S = (r, out, S1)" by (metis prod.exhaust)
    note c = source_read [OF less.prems(1) n(2,3) rd]
    note code = read_all_loop.simps [of M mem_ok junk "Some b" max_len k buf filled S, unfolded Let_def n(1) rd if_not_P [OF False] prod.case]
    show ?thesis
    proof (cases "avail S = []")
      case True
      then have "r = 0" using at_end [OF less.prems(1) n(2,3) _ rd] by simp
      moreover have "filled < max_len" using False less.prems(2,4) by simp
      ultimately show ?thesis using True c by (simp add: code)
    next
      case more: False
      then have r: "0 < r" "r \<noteq> 0" "r \<noteq> -1" "out \<noteq> []" using c by auto
      define filled1 where "filled1 = filled + nat r"
      have "nat r \<le> length buf - filled" using c by (simp add: n_def)
      then have f1: "filled1 \<le> length buf" using less.prems(2) unfolding filled1_def by arith
      have sz: "size_add filled (size_of_int r) = filled1"
      proof -
        have "size_of_int r = nat r" using c n(3) r(1) by (intro size_of_int_small) (auto simp: INT_MAX_def)
        then show ?thesis using f1 len by (simp add: filled1_def size_add_small)
      qed
      define buf1 where "buf1 = take filled buf @ out @ drop (filled + length out) buf"
      have buf1: "length buf1 = length buf" "take filled1 buf1 = take filled buf @ out"
        using c f1 less.prems(2) by (auto simp: buf1_def filled1_def)
      have av: "length (avail S1) < length (avail S)" "filled1 + length (avail S1) = filled + length (avail S)"
        "take filled buf @ avail S = take filled1 buf1 @ avail S1"
        using c r(4) buf1(2) by (auto simp: filled1_def)
      have sub: "size_sub (length buf) filled1 = length buf - filled1" using f1 len by (simp add: size_sub_small)
      show ?thesis
      proof (cases "length buf < max_len \<and> length buf - filled1 < kChunkSize div 2")
        case grow: True
        define len2 where "len2 = min (length buf + kChunkSize) max_len"
        have "length buf + kChunkSize < 2 ^ 64" using less.prems(4) assms(6) by simp
        then have len2: "(if size_add (length buf) kChunkSize < kChunkSize \<or> size_add (length buf) kChunkSize > max_len
          then max_len else size_add (length buf) kChunkSize) = len2"
          by (auto simp: len2_def size_add_small)
        let ?buf2 = "buf1 @ map junk [length buf1..<len2]"
        have l2: "length ?buf2 = len2" using grow buf1(1) by (simp add: len2_def kChunkSize_def)
        have p: "inv S1" "filled1 \<le> length ?buf2" "filled1 = length ?buf2 \<longrightarrow> length ?buf2 = max_len" "length ?buf2 \<le> max_len"
          "length ?buf2 - filled1 \<le> INT_MAX"
          unfolding l2 using c f1 grow by (auto simp: len2_def kChunkSize_def INT_MAX_def)
        have "take filled1 ?buf2 = take filled1 buf1" using f1 buf1(1) by simp
        moreover have "read_all_loop M mem_ok junk (Some b) max_len k buf filled S =
            read_all_loop M mem_ok junk (Some b) max_len (k + 1) ?buf2 filled1 S1"
          unfolding code using r grow assms(7) by (simp add: sz sub len2 split del: if_split flip: buf1_def)
        ultimately show ?thesis using less.hyps [OF av(1) p, of "k + 1"] by (simp only: av(2,3))
      next
        case no: False
        have p: "filled1 \<le> length buf1" "filled1 = length buf1 \<longrightarrow> length buf1 = max_len" "length buf1 \<le> max_len"
          "length buf1 - filled1 \<le> INT_MAX"
          using f1 buf1(1) no less.prems(4,5) by (auto simp: kChunkSize_def filled1_def)
        have "read_all_loop M mem_ok junk (Some b) max_len k buf filled S =
            read_all_loop M mem_ok junk (Some b) max_len k buf1 filled1 S1"
          unfolding code using r no by (simp add: sz sub if_not_P [OF no] split del: if_split flip: buf1_def)
        moreover have "inv S1" using c by simp
        ultimately show ?thesis using less.hyps [OF av(1) _ p, of k] by (simp only: av(2,3))
      qed
    qed
  qed
qed

lemma read_all:
  assumes "inv S" "max_len + kChunkSize < 2 ^ 64" "\<And>k. mem_ok k" "length prefix \<le> INT_MAX"
  shows "\<exists>S'. bio_read_all M mem_ok junk (Some b) prefix max_len S =
    Some (if length prefix + length (avail S) < max_len then Some (prefix @ avail S) else None, S') \<and> inv S' \<and>
    (length prefix + length (avail S) < max_len \<longrightarrow> avail S' = [])"
proof -
  have "length prefix + kChunkSize < 2 ^ 64" using assms(4) by (simp add: INT_MAX_def kChunkSize_def)
  then have "size_add (length prefix) kChunkSize = length prefix + kChunkSize" by (simp add: size_add_small)
  then have code: "bio_read_all M mem_ok junk (Some b) prefix max_len S =
    (let len = min (length prefix + kChunkSize) max_len in
     if len < length prefix then Some (None, S)
     else read_all_loop M mem_ok junk (Some b) max_len 1 (prefix @ map junk [length prefix..<len]) (length prefix) S)"
    using assms(3) by (auto simp: bio_read_all_def Let_def min_def)
  show ?thesis
  proof (cases "max_len < length prefix")
    case True
    then show ?thesis using assms(1) by (auto simp: code Let_def min_def)
  next
    case False
    define len where "len = min (length prefix + kChunkSize) max_len"
    let ?buf = "prefix @ map junk [length prefix..<len]"
    have l: "length prefix \<le> len" "length ?buf = len" using False by (simp_all add: len_def)
    have p: "length prefix \<le> length ?buf" "length prefix = length ?buf \<longrightarrow> length ?buf = max_len" "length ?buf \<le> max_len"
      "length ?buf - length prefix \<le> INT_MAX"
      unfolding l(2) using l(1) by (auto simp: len_def kChunkSize_def INT_MAX_def)
    have "take (length prefix) ?buf = prefix" by simp
    from read_all_loop [OF assms(1) p assms(2), of mem_ok junk 1, unfolded this] assms(3) show ?thesis
      using l(1) by (simp add: code Let_def not_less flip: len_def)
  qed
qed

end

context bio_file begin

lemma read_indefinite:
  assumes "inv S" "avail S = t # 0x80 # rest" "t AND 0x1f \<noteq> 0x1f" "t AND 0x20 \<noteq> 0" "max_len + kChunkSize < 2 ^ 64" "\<And>k. mem_ok k"
  shows "\<exists>S'. BIO_read_asn1 M mem_ok junk (Some b) max_len S =
    Some (if length (avail S) < max_len then Inr (avail S) else Inl ASN1_R_NOT_ENOUGH_DATA, S')"
proof -
  obtain eof S1 where h: "bio_read_full M (Some b) 2 S = Some (2 \<le> length (avail S), take 2 (avail S), eof, S1)"
    "inv S1" "avail S1 = drop 2 (avail S)"
    by (rule bio_read_full [OF assms(1), of 2]) auto
  have hd: "take 2 (avail S) = [t, 0x80]" "avail S1 = rest" "2 \<le> length (avail S)" "length (avail S) = 2 + length rest"
    using h(3) assms(2) by simp_all
  obtain S' where "bio_read_all M mem_ok junk (Some b) [t, 0x80] max_len S1 =
      Some (if 2 + length rest < max_len then Some ([t, 0x80] @ rest) else None, S')"
    using read_all [OF h(2) assms(5), of mem_ok "[t, 0x80]" junk] assms(6) by (auto simp: hd(2) INT_MAX_def)
  then show ?thesis
    using h(1) hd assms(2-4) by (simp add: BIO_read_asn1_def)
qed

end

section \<open>The BIOs that are sources\<close>

definition mem_source :: "methods \<Rightarrow> nat \<Rightarrow> bios \<Rightarrow> bool" where
  "mem_source M b S \<longleftrightarrow> is_mem M b S \<and> readable (mem_of b S) \<and> (rdonly b S \<or> wf_mem (mem_of b S)) \<and> num (the (S b)) \<le> 0"

lemma mem_source_read:
  assumes "mem_source M b S" "0 < n" "n \<le> INT_MAX" "BIO_read M (Some b) True (int n) S = (r, out, S')"
  defines "c \<equiv> contents (mem_of b S)"
  shows "mem_source M b S'" "num (the (S' b)) = num (the (S b))" "c = out @ contents (mem_of b S')" "length out = nat r"
    "nat r \<le> n" "c \<noteq> [] \<Longrightarrow> 0 < r" "c = [] \<Longrightarrow> r = num (the (S b))"
proof -
  have inv: "is_mem M b S" "readable (mem_of b S)" "rdonly b S \<or> wf_mem (mem_of b S)" "num (the (S b)) \<le> 0"
    using assms(1) by (auto simp: mem_source_def)
  note sp = BIO_read_mem [OF inv(1) assms(4,3) inv(2,3)]
  then have same: "same_mem_bio b S S'" by simp
  then show "num (the (S' b)) = num (the (S b))" by (simp add: same_mem_bio_def)
  show "mem_source M b S'"
    using sp inv same_is_mem [OF same] same by (auto simp: mem_source_def same_mem_bio_def)
  show "c = out @ contents (mem_of b S')" "length out = nat r" "nat r \<le> n" "c \<noteq> [] \<Longrightarrow> 0 < r" "c = [] \<Longrightarrow> r = num (the (S b))"
    using sp inv(4) assms(2) by (auto simp: c_def split: if_splits)
qed

interpretation mem_src: bio_source M b "mem_source M b" "\<lambda>S. contents (mem_of b S)" for M b
  by unfold_locales (blast intro: mem_source_read)

interpretation mem_file: bio_file M b "\<lambda>S. mem_source M b S \<and> num (the (S b)) = 0" "\<lambda>S. contents (mem_of b S)" for M b
  by unfold_locales (metis mem_source_read)+

lemma pair_source_read:
  assumes "pair_inv M b c S" "0 < n" "n \<le> INT_MAX" "BIO_read M (Some b) True (int n) S = (r, out, S')"
  shows "pair_inv M b c S'" "closed (pair_of c S') = closed (pair_of c S)" "pipe c S = out @ pipe c S'" "length out = nat r"
    "nat r \<le> n" "pipe c S \<noteq> [] \<Longrightarrow> 0 < r" "pipe c S = [] \<Longrightarrow> closed (pair_of c S) \<Longrightarrow> r = 0"
  using BIO_read_pair [OF assms(1,4,3)] assms(2) by (auto split: if_splits)

interpretation pair_src: bio_source M b "pair_inv M b c" "pipe c" for M b c
  by unfold_locales (blast intro: pair_source_read)

interpretation pair_file: bio_file M b "\<lambda>S. pair_inv M b c S \<and> closed (pair_of c S)" "pipe c" for M b c
  by unfold_locales (metis pair_source_read)+

section \<open>Sinks\<close>

text \<open>A sink accepts a front of the bytes it is given and keeps it behind what it already has.\<close>

locale bio_sink =
  fixes M :: methods and b :: nat and inv :: "bios \<Rightarrow> bool" and stored :: "bios \<Rightarrow> byte list"
  assumes sink_write: "inv S \<Longrightarrow> 0 < n \<Longrightarrow> n \<le> INT_MAX \<Longrightarrow> n \<le> length data \<Longrightarrow>
    BIO_write M (Some b) (Some data) (int n) S = (r, S') \<Longrightarrow>
    inv S' \<and> stored S' = stored S @ take (nat r) data \<and> nat r \<le> n"
begin

lemma write_all:
  assumes "inv S" "len \<le> length data" "len < 2 ^ 64"
  shows "\<exists>ok S' k. BIO_write_all M (Some b) data len S = Some (ok, S') \<and> inv S' \<and> stored S' = stored S @ take k data \<and>
    k \<le> len \<and> (ok \<longleftrightarrow> k = len)"
  using assms
proof (induction len arbitrary: S data rule: less_induct)
  case (less len)
  show ?case
  proof (cases "len = 0")
    case True
    then show ?thesis using less.prems by (intro exI [of _ True] exI [of _ S] exI [of _ 0]) (simp add: BIO_write_all.simps)
  next
    case False
    define n where "n = min len INT_MAX"
    have n: "(if len > INT_MAX then int INT_MAX else int_of_size len) = int n" "0 < n" "n \<le> INT_MAX" "n \<le> len"
      using False by (auto simp: n_def int_of_size_small INT_MAX_def)
    obtain r S1 where w: "BIO_write M (Some b) (Some data) (int n) S = (r, S1)" by fastforce
    have c: "inv S1 \<and> stored S1 = stored S @ take (nat r) data \<and> nat r \<le> n"
      using n(4) less.prems(2) by (intro sink_write [OF less.prems(1) n(2,3) _ w]) simp
    show ?thesis
    proof (cases "r \<le> 0")
      case True
      then show ?thesis
        using c False by (intro exI [of _ False] exI [of _ S1] exI [of _ 0]) (simp add: BIO_write_all.simps [of _ _ _ len] n(1) w)
    next
      case r: False
      have sub: "size_sub len (nat r) = len - nat r" using c n(4) less.prems(3) by (intro size_sub_small) auto
      have smaller: "len - nat r < len" "len - nat r < 2 ^ 64" "len - nat r \<le> length (drop (nat r) data)"
        using r False less.prems(2,3) by auto
      from less.IH [OF smaller(1), of S1 "drop (nat r) data"] c smaller obtain ok S' k where
        IH: "BIO_write_all M (Some b) (drop (nat r) data) (len - nat r) S1 = Some (ok, S')" "inv S'"
          "stored S' = stored S1 @ take k (drop (nat r) data)" "k \<le> len - nat r" "ok \<longleftrightarrow> k = len - nat r"
        by blast
      have "take (nat r) data @ take k (drop (nat r) data) = take (nat r + k) data" by (simp add: take_add)
      moreover have "nat r + k \<le> len" "ok \<longleftrightarrow> nat r + k = len" using IH(4,5) c n(4) by auto
      ultimately show ?thesis
        using IH(1-3) c r False
        by (intro exI [of _ ok] exI [of _ S'] exI [of _ "nat r + k"]) (simp add: BIO_write_all.simps [of _ _ _ len] n(1) w sub)
    qed
  qed
qed

end

interpretation pair_sink: bio_sink M b "pair_inv M b c" "pipe b" for M b c
  by unfold_locales (use BIO_write_pair in \<open>force split: if_splits\<close>)

interpretation mem_sink: bio_sink M b "mem_inv M b" "\<lambda>S. contents (mem_of b S)" for M b
  by unfold_locales (use BIO_write_mem in force)

text \<open>C34: \<open>BIO_write_all\<close> on a pair ends, however small the ring is: it succeeds exactly when all bytes are
  in the pipe, and otherwise what it has put there is a front of them.\<close>

theorem BIO_write_all_pair_ends:
  assumes "pair_inv M b c S" "length data < 2 ^ 64"
  shows "\<exists>ok S' k. BIO_write_all M (Some b) data (length data) S = Some (ok, S') \<and> pair_inv M b c S' \<and>
    pipe b S' = pipe b S @ take k data \<and> k \<le> length data \<and> (ok \<longleftrightarrow> k = length data)"
  using pair_sink.write_all [OF assms(1) order_refl assms(2)] .

theorem BIO_write_all_pair_ends_witness:
  "\<exists>S ok S' k. BIO_new_bio_pair (\<lambda>_. methods_biop True) 0 (Some 1) (Some 2) (True, True) (\<lambda>_. 0) 4 0 Map.empty = Some (Some (1, 2), S) \<and>
     BIO_write_all (\<lambda>_. methods_biop True) (Some 1) [1, 2, 3, 4, 5] 5 S = Some (ok, S') \<and>
     pipe 1 S' = take k [1, 2, 3, 4, 5] \<and> (ok \<longleftrightarrow> k = 5)"
proof -
  let ?M = "\<lambda>_::nat. methods_biop True"
  obtain S where S: "BIO_new_bio_pair ?M 0 (Some 1) (Some 2) (True, True) (\<lambda>_. 0) 4 0 Map.empty = Some (Some (1, 2), S)"
    by (rule new_pair_ok [of ?M 0 1 2]) auto
  note new = new_pair_inv [OF S, of True]
  have inv: "pair_inv ?M 1 2 S" "pipe 1 S = []" by ((rule new; simp)+)
  have len: "length [1, 2, 3, 4, 5 :: byte] = 5" by simp
  from BIO_write_all_pair_ends [OF inv(1), of "[1, 2, 3, 4, 5]", unfolded len inv(2) append_Nil] obtain ok S' k where
    "BIO_write_all ?M (Some 1) [1, 2, 3, 4, 5] 5 S = Some (ok, S')" "pipe 1 S' = take k [1, 2, 3, 4, 5]" "ok \<longleftrightarrow> k = 5"
    by (simp del: One_nat_def) blast
  then show ?thesis using S by blast
qed

section \<open>Elements from sources\<close>

text \<open>C23: an element that is on its way through a pair is read by \<open>BIO_read_asn1\<close> whole and alone: whatever
  pieces the ring delivers it in, the result is the encoding, and what follows stays in the pipe.
  (The tag must be of the short form; an element longer than \<open>max_len\<close> is not read.)\<close>

theorem BIO_read_asn1_pair:
  assumes "pair_inv M b c S" "pipe c S = der tag x @ rest" "tag_number tag < 0x1f" "length x \<le> INT_MAX"
    and "length (der tag x) \<le> max_len" "max_len < 2 ^ 64" "mem_ok 0"
  shows "\<exists>S'. BIO_read_asn1 M mem_ok junk (Some b) max_len S = Some (Inr (der tag x), S') \<and> pair_inv M b c S' \<and> pipe c S' = rest"
  by (rule pair_src.read_der [OF assms(1-6), of mem_ok junk, OF assms(7)]) blast

lemma small_der: "der 2 [7] = [2, 1, 7]" "tag_number 2 < 0x1f"
  by (simp_all add: der_def der_length_def der_tag_def tag_number_def tag_class_def CBS_ASN1_TAG_NUMBER_MASK_def CBS_ASN1_TAG_SHIFT_def)

theorem BIO_read_asn1_pair_witness:
  "\<exists>S S1 S'. BIO_new_bio_pair (\<lambda>_. methods_biop True) 0 (Some 1) (Some 2) (True, True) (\<lambda>_. 0) 0 0 Map.empty = Some (Some (1, 2), S) \<and>
     BIO_write (\<lambda>_. methods_biop True) (Some 1) (Some [2, 1, 7, 9]) 4 S = (4, S1) \<and>
     BIO_read_asn1 (\<lambda>_. methods_biop True) (\<lambda>_. True) (\<lambda>_. 0) (Some 2) 100 S1 = Some (Inr [2, 1, 7], S') \<and> pipe 1 S' = [9]"
proof -
  let ?M = "\<lambda>_::nat. methods_biop True"
  obtain S where S: "BIO_new_bio_pair ?M 0 (Some 1) (Some 2) (True, True) (\<lambda>_. 0) 0 0 Map.empty = Some (Some (1, 2), S)"
    by (rule new_pair_ok [of ?M 0 1 2]) auto
  note new = new_pair_inv [OF S, of True, simplified]
  have blen: "blen (pair_of 1 S) = 0"
    using new(3,4) length_ring [of "pair_of 1 S"] by (simp add: pair_inv_def paired_def linked_def pipe_def)
  obtain r S1 where w: "BIO_write ?M (Some 1) (Some [2, 1, 7, 9]) (int 4) S = (r, S1)" by fastforce
  from BIO_write_pair [OF new(3) [unfolded One_nat_def [symmetric]] w] new blen
  have S1: "r = 4" "pair_inv ?M 1 2 S1" "pipe 1 S1 = [2, 1, 7, 9]" by (simp_all add: INT_MAX_def)
  have "pipe 1 S1 = der 2 [7] @ [9]" using S1(3) by (simp add: small_der)
  from BIO_read_asn1_pair [OF pair_inv_sym [OF S1(2)] this, of 100 "\<lambda>_. True" "\<lambda>_. 0"] S w S1 show ?thesis
    by (auto simp: small_der INT_MAX_def)
qed

text \<open>on an element of indefinite length \<open>BIO_read_asn1\<close> reads a memory \<open>BIO\<close> to its end and returns
  everything, provided that it is shorter than \<open>max_len\<close>: \<open>bio_read_all\<close> grows its buffer in time, never
  stops early and never runs past \<open>max_len\<close>.\<close>

theorem BIO_read_asn1_indefinite:
  assumes "mem_source M b S" "num (the (S b)) = 0" "contents (mem_of b S) = t # 0x80 # rest" "t AND 0x1f \<noteq> 0x1f" "t AND 0x20 \<noteq> 0"
    and "max_len + kChunkSize < 2 ^ 64" "\<forall>k. mem_ok k"
  shows "\<exists>S'. BIO_read_asn1 M mem_ok junk (Some b) max_len S =
    Some (if length (t # 0x80 # rest) < max_len then Inr (t # 0x80 # rest) else Inl ASN1_R_NOT_ENOUGH_DATA, S')"
proof -
  have "mem_source M b S \<and> num (the (S b)) = 0" using assms(1,2) ..
  from mem_file.read_indefinite [OF this assms(3-6), of mem_ok junk] assms(7) show ?thesis unfolding assms(3) by blast
qed

theorem BIO_read_asn1_indefinite_witness:
  "\<exists>S S'. BIO_new_mem_buf (\<lambda>_. mem_method True (\<lambda>_. True) (\<lambda>_. 0)) 0 (Some 1) (Some [0x30, 0x80, 5, 6]) 4 Map.empty = (Some 1, S) \<and>
     BIO_read_asn1 (\<lambda>_. mem_method True (\<lambda>_. True) (\<lambda>_. 0)) (\<lambda>_. True) (\<lambda>_. 0) (Some 1) 100 S = Some (Inr [0x30, 0x80, 5, 6], S')"
proof -
  let ?M = "\<lambda>_::nat. mem_method True (\<lambda>_. True) (\<lambda>_. 0)"
  define S where "S = snd (BIO_new_mem_buf ?M 0 (Some 1) (Some [0x30, 0x80, 5, 6]) 4 Map.empty)"
  have new: "BIO_new_mem_buf ?M 0 (Some 1) (Some [0x30, 0x80, 5, 6]) 4 Map.empty = (Some 1, S)"
    by (simp add: S_def BIO_new_mem_buf_def BIO_new_def mem_method_def mem_new_def BUF_MEM_new_def Let_def)
  have "mem_of 1 S = \<lparr>mlength = 4, mdata = Some [0x30, 0x80, 5, 6], mstart = 0, mmax = 4, mrealloc_ok = \<lambda>_. True, mreallocs = 0,
      mfresh = \<lambda>_. 0\<rparr>" "is_mem ?M 1 S" "num (the (S 1)) = 0" "rdonly 1 S"
    by (auto simp: S_def BIO_new_mem_buf_def BIO_new_def mem_method_def mem_new_def BUF_MEM_new_def upd_def upd_mem_def mem_of_def
        is_mem_def rdonly_def size_of_int_def BIO_FLAGS_MEM_RDONLY_def Let_def)
  then have "mem_source ?M 1 S" "num (the (S 1)) = 0" "contents (mem_of 1 S) = [0x30, 0x80, 5, 6]"
    by (simp_all add: mem_source_def readable_def storage_def contents_def)
  from BIO_read_asn1_indefinite [OF this, of 100 "\<lambda>_. True" "\<lambda>_. 0"] new show ?thesis by (auto simp: kChunkSize_def)
qed

end
