(* ===== verification/CbbValues.thy ===== *)
theory CbbValues
  imports CbbDer
begin

text \<open>
  The values of \<open>Cbb\<close>: integers, booleans, octet strings and nested elements are written in the
  distinguished encoding, and the readers of \<open>Cbs\<close> return the value from exactly that encoding.
\<close>

section \<open>Unsigned integers\<close>

text \<open>The contents octets of a non-negative INTEGER.\<close>

definition uint64_octets :: "u64 \<Rightarrow> byte list" where
  "uint64_octets v =
     (let bs = dropWhile (\<lambda>b. b = 0) (be_bytes 8 v)
      in if bs = [] then [0] else if hd bs AND 0x80 \<noteq> 0 then 0 # bs else bs)"

lemma be_bytes_upt: "be_bytes k v = map (\<lambda>i. ucast (drop_bit (8 * (k - 1 - i)) v)) [0..<k]"
proof (induction k arbitrary: v)
  case 0
  show ?case by simp
next
  case (Suc k)
  have "8 * (k - Suc i) + 8 = 8 * (k - i)" if "i < k" for i using that by simp
  then show ?case by (simp add: Suc)
qed

lemma appends_uint64_out_started:
  "appends d (uint64_out d v True is) (Some (map (\<lambda>i. ucast (drop_bit (8 * (7 - i)) v AND 0xff)) is, True))"
proof (induction "is")
  case Nil
  show ?case using appends_ret [of d True] by (simp del: ret_simp)
next
  case (Cons i "is")
  from appends_and_then [OF appends_u8 Cons]
  have "appends d (and_then (CBB_add_u8 d (ucast (drop_bit (8 * (7 - i)) v AND 0xff))) (\<lambda>_. uint64_out d v True is))
    (Some (map (\<lambda>i. ucast (drop_bit (8 * (7 - i)) v AND 0xff)) (i # is), True))"
    by simp
  then show ?case by (simp add: Let_def and_then_ret del: ret_simp)
qed

definition significant :: "byte list \<Rightarrow> byte list" where
  "significant bs =
     (let bs = dropWhile (\<lambda>b. b = 0) bs in if bs \<noteq> [] \<and> hd bs AND 0x80 \<noteq> 0 then 0 # bs else bs)"

lemma appends_uint64_out:
  "appends d (uint64_out d v False is)
     (Some (significant (map (\<lambda>i. ucast (drop_bit (8 * (7 - i)) v AND 0xff)) is),
            \<exists>i\<in>set is. (ucast (drop_bit (8 * (7 - i)) v AND 0xff) :: byte) \<noteq> 0))"
proof (induction "is")
  case Nil
  show ?case using appends_ret [of d False] by (simp add: significant_def del: ret_simp)
next
  case (Cons i "is")
  let ?b = "ucast (drop_bit (8 * (7 - i)) v AND 0xff) :: byte"
  show ?case
  proof (cases "?b = 0")
    case True
    with Cons show ?thesis by (simp add: Let_def significant_def)
  next
    case False
    have "appends d (if ?b AND 0x80 \<noteq> 0 then CBB_add_u8 d 0 else ret ())
      (Some (if ?b AND 0x80 \<noteq> 0 then [0] else [], ()))"
      using appends_u8 appends_ret [of d "()"] by auto
    from appends_and_then [OF this appends_and_then [OF appends_u8 [of d ?b] appends_uint64_out_started [of d v "is"]]] False
    show ?thesis by (auto simp: Let_def significant_def and_then_ret simp del: ret_simp)
  qed
qed

lemma u64_bytes: "map (\<lambda>i. ucast (drop_bit (8 * (7 - i)) v AND 0xff) :: byte) [0..<8] = be_bytes 8 v"
proof -
  have "(ucast (x AND 0xff :: u64) :: byte) = ucast x" for x
    by (rule bit_word_eqI) (auto simp: and_mask_take_bit_8 bit_simps)
  then show ?thesis by (simp add: be_bytes_upt)
qed

lemma uint64_octets_significant:
  "uint64_octets v = (if \<exists>b\<in>set (be_bytes 8 v). b \<noteq> 0 then significant (be_bytes 8 v) else [0])"
  by (auto simp: uint64_octets_def significant_def Let_def dropWhile_eq_Nil_conv simp del: be_bytes.simps)

lemma length_uint64_octets: "length (uint64_octets v) \<le> 9" "uint64_octets v \<noteq> []"
  using length_dropWhile_le [of "\<lambda>b. b = 0" "be_bytes 8 v"]
  by (auto simp: uint64_octets_def Let_def simp del: be_bytes.simps)

lemma appends_asn1_uint64: "appends d (CBB_add_asn1_uint64 d v) (Some (der CBS_ASN1_INTEGER (uint64_octets v), ()))"
proof -
  let ?started = "\<exists>b\<in>set (be_bytes 8 v). b \<noteq> 0"
  have "(\<exists>i\<in>set [0..<8]. (ucast (drop_bit (8 * (7 - i)) v AND 0xff) :: byte) \<noteq> 0) \<longleftrightarrow> ?started"
    unfolding u64_bytes [symmetric] by (simp del: upt_Suc)
  with appends_uint64_out [of "d + 1" v "[0..<8]"]
  have "appends (d + 1) (uint64_out (d + 1) v False [0..<8]) (Some (significant (be_bytes 8 v), ?started))"
    by (simp only: u64_bytes)
  moreover have "appends (d + 1) (if \<not> ?started then CBB_add_u8 (d + 1) 0 else ret ()) (Some (if ?started then [] else [0], ()))"
    using appends_u8 [of "d + 1" 0] appends_ret [of "d + 1" "()"] by (simp del: ret_simp)
  ultimately have "appends (d + 1) (and_then (uint64_out (d + 1) v False [0..<8])
      (\<lambda>started. if \<not> started then CBB_add_u8 (d + 1) 0 else ret ()))
      (Some (significant (be_bytes 8 v) @ (if ?started then [] else [0]), ()))"
    by (rule appends_and_then)
  moreover have "significant (be_bytes 8 v) @ (if ?started then [] else [0]) = uint64_octets v"
  proof (cases ?started)
    case False
    then have "dropWhile (\<lambda>b. b = 0) (be_bytes 8 v) = []" by (simp add: dropWhile_eq_Nil_conv del: be_bytes.simps)
    with False show ?thesis by (simp add: uint64_octets_significant significant_def del: be_bytes.simps)
  qed (simp add: uint64_octets_significant)
  ultimately have "appends (d + 1) (and_then (uint64_out (d + 1) v False [0..<8])
      (\<lambda>started. if \<not> started then CBB_add_u8 (d + 1) 0 else ret ())) (Some (uint64_octets v, ()))"
    by (simp only:)
  from appends_asn1 [OF this, of CBS_ASN1_INTEGER] length_uint64_octets(1) [of v]
  show ?thesis by (simp add: CBB_add_asn1_uint64_def and_then_assoc)
qed

text \<open>Reading the contents octets.\<close>

lemma be64_Cons_0: "be64 (0 # bs) = be64 bs"
  by (simp add: be64_def)

lemma be64_dropWhile: "be64 (dropWhile (\<lambda>b. b = 0) bs) = be64 bs"
  by (induction bs) (auto simp: be64_Cons_0)

lemma uint64_loop_be64:
  "length ys + length xs \<le> 8 \<Longrightarrow> uint64_loop (be64 ys) xs = Some (be64 (ys @ xs))"
proof (induction xs arbitrary: ys)
  case Nil
  then show ?case by simp
next
  case (Cons x xs)
  have "drop_bit 56 (be64 ys) = 0"
    by (rule bit_word_eqI) (use Cons.prems in \<open>auto simp: bit_simps dest!: be64_bits\<close>)
  then show ?case using Cons.IH [of "ys @ [x]"] Cons.prems by (simp add: be64_snoc)
qed

lemma uint64_loop_octets: "uint64_loop 0 (uint64_octets v) = Some v"
proof -
  let ?bs = "dropWhile (\<lambda>b. b = 0) (be_bytes 8 v)"
  have "length ?bs \<le> 8" using length_dropWhile_le [of "\<lambda>b. b = 0" "be_bytes 8 v"] by (simp del: be_bytes.simps)
  then have loop: "uint64_loop 0 ?bs = Some (be64 (be_bytes 8 v))"
    using uint64_loop_be64 [of "[]" ?bs] be64_dropWhile by simp
  have v: "be64 (be_bytes 8 v) = v" by (simp add: be64_be_bytes word_take_bit_full del: be_bytes.simps)
  show ?thesis
  proof (cases "?bs = []")
    case True
    with loop v show ?thesis by (simp add: uint64_octets_def del: be_bytes.simps)
  next
    case False
    with loop v show ?thesis by (auto simp: uint64_octets_def Let_def simp del: be_bytes.simps)
  qed
qed

lemma hd_dropWhile_nonzero: "dropWhile (\<lambda>b. b = (0 :: byte)) bs = x # xs \<Longrightarrow> x \<noteq> 0"
  by (simp add: dropWhile_eq_Cons_conv)

lemma uint64_octets_form:
  obtains "uint64_octets v = [0]"
  | b bs where "uint64_octets v = 0 # b # bs" "b AND 0x80 \<noteq> 0"
  | b bs where "uint64_octets v = b # bs" "b \<noteq> 0" "b AND 0x80 = 0"
proof (cases "dropWhile (\<lambda>b. b = 0) (be_bytes 8 v)")
  case Nil
  then show thesis by (intro that(1)) (simp add: uint64_octets_def del: be_bytes.simps)
next
  case (Cons b bs)
  moreover have "b \<noteq> 0" using Cons by (rule hd_dropWhile_nonzero)
  ultimately show thesis
    by (cases "b AND 0x80 = 0") (auto simp: uint64_octets_def intro: that(2,3) simp del: be_bytes.simps)
qed

lemma get_uint64_octets:
  "CBS_get_asn1_uint64 (der CBS_ASN1_INTEGER (uint64_octets v) @ r) = (Some v, r)"
proof -
  have "CBS_get_asn1 CBS_ASN1_INTEGER (der CBS_ASN1_INTEGER (uint64_octets v) @ r) = (Some (uint64_octets v), r)"
    using length_uint64_octets(1) [of v] by (simp add: get_asn1_der)
  then show ?thesis
    using uint64_loop_octets [of v]
    by (cases rule: uint64_octets_form [of v]) (auto simp: CBS_get_asn1_uint64_def Let_def simp del: uint64_loop.simps)
qed

text \<open>The contents octets the reader accepts are these and no others.\<close>

lemma uint64_loop_length:
  "uint64_loop w xs = Some v \<Longrightarrow> drop_bit k w \<noteq> 0 \<Longrightarrow> k + 8 * length xs < 64"
proof (induction xs arbitrary: w k)
  case Nil
  have "drop_bit k w = 0" if "64 \<le> k"
    by (rule bit_word_eqI) (use that in \<open>auto simp: bit_simps dest: bit_imp_le_length\<close>)
  with Nil.prems(2) show ?case by (cases "k < 64") auto
next
  case (Cons x xs)
  let ?w = "push_bit 8 w OR ucast x"
  from Cons.prems(1) have 56: "drop_bit 56 w = 0" and rest: "uint64_loop ?w xs = Some v"
    by (auto split: if_splits)
  have "drop_bit 8 ?w = w"
    by (rule bit_word_eqI) (use drop_bit_0_bits [OF 56] in \<open>auto simp: bit_simps dest: bit_imp_le_length\<close>)
  then have "drop_bit k (drop_bit 8 ?w) = drop_bit k w" by (rule arg_cong)
  then have "drop_bit (k + 8) ?w = drop_bit k w" by (simp only: drop_bit_drop_bit)
  then show ?case using Cons.IH [OF rest, of "k + 8"] Cons.prems(2) by simp
qed

lemma uint64_octets_be64:
  assumes "length (b # bs) \<le> 8" "b \<noteq> 0"
  shows "dropWhile (\<lambda>b. b = 0) (be_bytes 8 (be64 (b # bs))) = b # bs"
proof -
  let ?p = "replicate (8 - length (b # bs)) 0 @ b # bs"
  have "be64 (replicate k 0 @ b # bs) = be64 (b # bs)" for k
    by (induction k) (simp_all add: be64_Cons_0)
  then have "be64 ?p = be64 (b # bs)" .
  moreover have "be_bytes (length ?p) (be64 ?p) = ?p" by (rule be_bytes_be64) (use assms in simp)
  ultimately have "be_bytes 8 (be64 (b # bs)) = ?p" using assms(1) by (simp del: be_bytes.simps)
  moreover have "dropWhile (\<lambda>b. b = 0) (replicate k 0 @ b # bs) = b # bs" for k
    using assms(2) by (induction k) simp_all
  ultimately show ?thesis by (simp only:)
qed

lemma uint64_octets_only:
  assumes "uint64_loop 0 data = Some v" "data \<noteq> []" "data ! 0 AND 0x80 = 0"
    and "\<not> (data ! 0 = 0 \<and> length data > 1 \<and> data ! 1 AND 0x80 = 0)"
  shows "data = uint64_octets v"
proof -
  have nonzero: "length (b # bs) \<le> 8 \<and> v = be64 (b # bs)" if "uint64_loop 0 (b # bs) = Some v" "b \<noteq> 0" for b bs
  proof -
    from that have "uint64_loop (ucast b) bs = Some v" by simp
    moreover have "drop_bit 0 (ucast b :: u64) \<noteq> 0" 
      using that(2) unat_ucast_up [of b, where 'a = 64] by (auto simp: unat_eq_zero)
    ultimately have "length bs < 8" using uint64_loop_length [of "ucast b" bs v 0] by simp
    then have "length (b # bs) \<le> 8" by simp
    with that(1) uint64_loop_be64 [of "[]" "b # bs"] show ?thesis by simp
  qed
  obtain b bs where data: "data = b # bs" using assms(2) by (cases data) auto
  show ?thesis
  proof (cases "b = 0")
    case False
    with nonzero [of b bs] assms data uint64_octets_be64 [of b bs]
    show ?thesis by (auto simp: uint64_octets_def simp del: be_bytes.simps uint64_loop.simps)
  next
    case True
    show ?thesis
    proof (cases bs)
      case Nil
      with assms(1) data True have "v = 0" by simp
      moreover have "dropWhile (\<lambda>b. b = (0 :: byte)) (be_bytes 8 0) = []" by (simp add: numeral_eq_Suc)
      ultimately show ?thesis using data True Nil by (simp add: uint64_octets_def del: be_bytes.simps)
    next
      case (Cons c cs)
      with assms data True have c: "c AND 0x80 \<noteq> 0" "uint64_loop 0 (c # cs) = Some v" by simp_all
      then have "c \<noteq> 0" by auto
      with c nonzero [of c cs] data True Cons uint64_octets_be64 [of c cs]
      show ?thesis by (auto simp: uint64_octets_def simp del: be_bytes.simps uint64_loop.simps)
    qed
  qed
qed

lemma get_asn1_only:
  assumes "CBS_get_asn1 t cbs = (Some c, r)"
  shows "cbs = der t c @ r"
proof -
  from assms obtain out tag n where e: "cbs_get_any_asn1_element False cbs = (Some (out, tag, n), r)" "tag = t"
    "fst (CBS_skip n out) \<noteq> None" "c = snd (CBS_skip n out)"
    by (auto simp: CBS_get_asn1_def cbs_get_asn1_def CBS_get_any_asn1_element_def elim!: and_then_SomeE
        split: if_splits option.splits prod.splits)
  from get_element_only [OF e(1)] obtain c' where "out = der tag c'" "n = length (der_header tag (length c'))" "cbs = out @ r"
    by blast
  with e show ?thesis by (simp add: CBS_skip_def der_def der_header_def cbs_get_def)
qed

text \<open>C28: \<open>CBS_get_asn1_uint64\<close> returns \<open>v\<close> exactly from the canonical INTEGER encoding of \<open>v\<close>: the
  minimal big-endian contents with a zero octet in front when the top bit is set. Negative numbers,
  redundant leading zeros and numbers of more than 64 bits are refused.\<close>

theorem get_asn1_uint64_iff:
  "CBS_get_asn1_uint64 cbs = (Some v, r) \<longleftrightarrow> cbs = der CBS_ASN1_INTEGER (uint64_octets v) @ r"
proof
  assume "CBS_get_asn1_uint64 cbs = (Some v, r)"
  then obtain data where data: "CBS_get_asn1 CBS_ASN1_INTEGER cbs = (Some data, r)" "data \<noteq> []" "data ! 0 AND 0x80 = 0"
    "\<not> (data ! 0 = 0 \<and> length data > 1 \<and> data ! 1 AND 0x80 = 0)" "uint64_loop 0 data = Some v"
    by (auto simp: CBS_get_asn1_uint64_def Let_def elim!: and_then_SomeE split: if_splits option.splits)
  from uint64_octets_only [OF data(5,2-4)] get_asn1_only [OF data(1)]
  show "cbs = der CBS_ASN1_INTEGER (uint64_octets v) @ r" by simp
qed (simp add: get_uint64_octets)

section \<open>Signed integers\<close>

definition int64_octets :: "u64 \<Rightarrow> byte list" where
  "int64_octets v =
     (if \<not> bit v 63 then uint64_octets v
      else rev (map (int64_byte v) [0..<Suc (skip_sign_bytes v 7)]))"

lemma appends_int64_out:
  "appends d (int64_out d v n) (Some (rev (map (int64_byte v) [0..<Suc n]), ()))"
proof (induction n)
  case 0
  show ?case using appends_u8 [of d "int64_byte v 0"] by simp
next
  case (Suc n)
  from appends_and_then [OF appends_u8 [of d "int64_byte v (Suc n)"] Suc] show ?case by simp
qed

lemma skip_sign_facts:
  "skip_sign_bytes v n \<le> n"
  "skip_sign_bytes v n < i \<Longrightarrow> i \<le> n \<Longrightarrow> int64_byte v i = 0xff"
  "skip_sign_bytes v n < n \<Longrightarrow> int64_byte v (skip_sign_bytes v n) AND 0x80 \<noteq> 0"
  "skip_sign_bytes v n = Suc k \<Longrightarrow> \<not> (int64_byte v (Suc k) = 0xff \<and> int64_byte v k AND 0x80 \<noteq> 0)"
proof (induction n arbitrary: i)
  case 0
  { case 1 show ?case by simp
  next case 2 then show ?case by simp
  next case 3 then show ?case by simp
  next case 4 then show ?case by simp }
next
  case (Suc n)
  { case 1 show ?case using Suc(1) by auto
  next case 2 then show ?case using Suc(2) [of i] by (cases "i = Suc n") (auto split: if_splits)
  next case 3 then show ?case using Suc(1,3) by (cases "skip_sign_bytes v n = n") (auto split: if_splits)
  next case 4 then show ?case using Suc(4) by (auto split: if_splits) }
qed

lemma appends_asn1_int64: "appends d (CBB_add_asn1_int64 d v) (Some (der CBS_ASN1_INTEGER (int64_octets v), ()))"
proof (cases "bit v 63")
  case False
  then show ?thesis using appends_asn1_uint64 [of d v] by (simp add: CBB_add_asn1_int64_def int64_octets_def)
next
  case True
  let ?n = "skip_sign_bytes v 7"
  have "?n \<le> 7" by (rule skip_sign_facts(1))
  with appends_asn1 [OF appends_int64_out [of "d + 1" v ?n], of CBS_ASN1_INTEGER]
  show ?thesis using True by (simp add: CBB_add_asn1_int64_def int64_octets_def Let_def)
qed

lemma le_int64_be64: "le_int64 bs = be64 (rev bs)"
  by (simp add: le_int64_def be64_def foldr_conv_foldl)

lemma be64_whole: "be64 (be_bytes 8 v) = v"
  by (simp add: be64_be_bytes word_take_bit_full del: be_bytes.simps)

lemma be64_pad: "be64 (replicate k 0 @ bs) = be64 bs"
  by (induction k) (simp_all add: be64_Cons_0)

lemma be64_uint64_octets: "be64 (uint64_octets v) = v"
proof -
  have "be64 (dropWhile (\<lambda>b. b = 0) (be_bytes 8 v)) = v" by (simp add: be64_dropWhile be64_whole del: be_bytes.simps)
  then show ?thesis
    by (cases "dropWhile (\<lambda>b. b = 0) (be_bytes 8 v) = []") (auto simp: uint64_octets_def Let_def be64_Cons_0 simp del: be_bytes.simps)
qed

lemma be_bytes_hd: "be_bytes (Suc k) v = ucast (drop_bit (8 * k) v) # be_bytes k v"
proof (induction k arbitrary: v)
  case (Suc k)
  have "be_bytes (Suc (Suc k)) v = be_bytes (Suc k) (drop_bit 8 v) @ [ucast v]" by simp
  also have "\<dots> = ucast (drop_bit (8 * k) (drop_bit 8 v)) # (be_bytes k (drop_bit 8 v) @ [ucast v])"
    by (simp only: Suc append_Cons)
  finally show ?case by (simp add: add.commute)
qed simp

lemma length_uint64_octets_nonneg: "\<not> bit v 63 \<Longrightarrow> length (uint64_octets v) \<le> 8"
proof -
  assume "\<not> bit v 63"
  let ?b = "ucast (drop_bit 56 v) :: byte"
  have "\<not> bit (?b AND 0x80) i" for i
    using \<open>\<not> bit v 63\<close> by (cases "i = 7") (auto simp: bit_simps const_bits)
  then have b: "?b AND 0x80 = 0" by (intro bit_word_eqI) simp
  have "be_bytes 8 v = ?b # be_bytes 7 v" using be_bytes_hd [of 7 v] by (simp del: be_bytes.simps)
  then show ?thesis
    using b length_dropWhile_le [of "\<lambda>b. b = 0" "be_bytes 7 v"]
    by (auto simp: uint64_octets_def Let_def simp del: be_bytes.simps)
qed

lemma get_asn1_int64_octets:
  "CBS_get_asn1_int64 (der CBS_ASN1_INTEGER (int64_octets v) @ r) = (Some v, r)"
proof (cases "bit v 63")
  case False
  let ?o = "uint64_octets v"
  note len = length_uint64_octets_nonneg [OF False] length_uint64_octets(2) [of v]
  have "be64 (replicate (8 - length ?o) 0 @ ?o) = v" by (simp add: be64_pad be64_uint64_octets)
  then show ?thesis
    using len False
    by (cases rule: uint64_octets_form [of v])
      (auto simp: CBS_get_asn1_int64_def get_asn1_der int64_octets_def Let_def le_int64_be64)
next
  case True
  let ?n = "skip_sign_bytes v 7" and ?o = "int64_octets v"
  have n: "?n \<le> 7" by (rule skip_sign_facts(1))
  have o: "?o = rev (map (int64_byte v) [0..<Suc ?n])" "length ?o = Suc ?n" using True by (simp_all add: int64_octets_def)
  have hd: "?o ! 0 = int64_byte v ?n" "?n = Suc k \<Longrightarrow> ?o ! 1 = int64_byte v k" for k
    using o by (simp_all add: rev_nth del: upt_Suc)
  have neg: "int64_byte v ?n AND 0x80 \<noteq> 0"
  proof (cases "?n = 7")
    case seven: True
    have "bit (int64_byte v 7 AND 0x80) 7" using True by (simp add: int64_byte_def bit_simps const_bits)
    then show ?thesis using seven by auto
  next
    case False
    then show ?thesis using n skip_sign_facts(3) [of v 7] by simp
  qed
  have "be_bytes 8 v = rev (map (int64_byte v) [0..<8])"
    unfolding be_bytes_upt int64_byte_def by (simp add: upt_rec)
  also have "[0..<8] = [0..<Suc ?n] @ [Suc ?n..<8]" using n upt_add_eq_append [of 0 "Suc ?n" "7 - ?n"] by simp
  finally have be: "be_bytes 8 v = rev (map (int64_byte v) ([0..<Suc ?n] @ [Suc ?n..<8]))" .
  have "map (int64_byte v) [Suc ?n..<8] = replicate (8 - Suc ?n) 0xff"
    using skip_sign_facts(2) [of v 7] by (intro replicate_eqI) auto
  with be have "be_bytes 8 v = replicate (8 - length ?o) 0xff @ ?o"
    using o by (simp del: upt_Suc be_bytes.simps)
  then have "be64 (replicate (8 - length ?o) 0xff @ ?o) = v" using be64_whole [of v] by (simp only:)
  moreover have "\<not> (length ?o > 1 \<and> ?o ! 0 = 0xff \<and> ?o ! 1 AND 0x80 \<noteq> 0)"
    using skip_sign_facts(4) [of v 7] hd o(2) by (cases ?n) auto
  moreover have "?o ! 0 \<noteq> 0" "?o \<noteq> []" using neg hd(1) o(2) by auto
  ultimately show ?thesis
    using o(2) n neg hd(1) by (simp add: CBS_get_asn1_int64_def get_asn1_der Let_def le_int64_be64)
qed

text \<open>an integer written by \<open>CBB_add_asn1_int64\<close> into a fresh builder is read back by
  \<open>CBS_get_asn1_int64\<close>, whatever follows it: the sign bytes \<open>skip_sign_bytes\<close> leaves out are exactly
  those the reader fills in, and what it writes is never refused as non-minimal.\<close>

theorem asn1_int64_roundtrip:
  assumes "cap < 2 ^ 64"
  shows "\<exists>out. built junk cap (CBB_add_asn1_int64 0 v) = Some out \<and> CBS_get_asn1_int64 (out @ r) = (Some v, r)"
proof -
  have "length (int64_octets v) \<le> 9"
    using length_uint64_octets(1) [of v] skip_sign_facts(1) [of v 7] by (simp add: int64_octets_def)
  then have "length (der CBS_ASN1_INTEGER (int64_octets v)) < 2 ^ 64"
    using length_der_tag [of CBS_ASN1_INTEGER] by (simp add: der_def der_length_def)
  with built_appends [OF appends_asn1_int64 [of 0 v] assms, of junk]
  show ?thesis by (auto simp: get_asn1_int64_octets)
qed

theorem asn1_int64_roundtrip_witness:
  "\<exists>out. built (\<lambda>_. 0) 16 (CBB_add_asn1_int64 0 (- 128)) = Some out \<and> CBS_get_asn1_int64 (out @ [5]) = (Some (- 128), [5])"
  by (rule asn1_int64_roundtrip) simp

section \<open>Nested elements\<close>

text \<open>
  How a caller writes a tree of elements: a child for every element, its contents through the
  handle of the child, and a flush of the parent to close it.
\<close>

datatype asn1 = Primitive u32 "byte list" | Constructed u32 "asn1 list"

fun add_tree :: "nat \<Rightarrow> asn1 \<Rightarrow> unit bact" and add_trees :: "nat \<Rightarrow> asn1 list \<Rightarrow> unit bact" where
  "add_tree d (Primitive t bs) =
     and_then (CBB_add_asn1 d t) (\<lambda>_. and_then (CBB_add_bytes (d + 1) bs) (\<lambda>_. CBB_flush d))"
| "add_tree d (Constructed t xs) =
     and_then (CBB_add_asn1 d t) (\<lambda>_. and_then (add_trees (d + 1) xs) (\<lambda>_. CBB_flush d))"
| "add_trees d [] = ret ()"
| "add_trees d (x # xs) = and_then (add_tree d x) (\<lambda>_. add_trees d xs)"

fun tree_bytes :: "asn1 \<Rightarrow> byte list" where
  "tree_bytes (Primitive t bs) = der t bs"
| "tree_bytes (Constructed t xs) = der t (concat (map tree_bytes xs))"

fun tree_contents :: "asn1 \<Rightarrow> byte list" where
  "tree_contents (Primitive t bs) = bs"
| "tree_contents (Constructed t xs) = concat (map tree_bytes xs)"

fun tree_tag :: "asn1 \<Rightarrow> u32" where
  "tree_tag (Primitive t bs) = t"
| "tree_tag (Constructed t xs) = t"

text \<open>Every contents fits the longest length prefix the builder writes.\<close>

fun tree_fits :: "asn1 \<Rightarrow> bool" where
  "tree_fits (Primitive t bs) = (length bs \<le> 0xfffffffe)"
| "tree_fits (Constructed t xs) = (list_all tree_fits xs \<and> length (concat (map tree_bytes xs)) \<le> 0xfffffffe)"

lemma tree_bytes_der: "tree_bytes x = der (tree_tag x) (tree_contents x)"
  by (cases x) simp_all

lemma appends_tree:
  "tree_fits x \<Longrightarrow> appends d (add_tree d x) (Some (tree_bytes x, ()))"
  "list_all tree_fits xs \<Longrightarrow> appends d (add_trees d xs) (Some (concat (map tree_bytes xs), ()))"
proof (induction d x and d xs rule: add_tree_add_trees.induct)
  case (1 d t bs)
  with appends_asn1 [OF appends_bytes [of bs "d + 1"], of t] show ?case by simp
next
  case (2 d t xs)
  with appends_asn1 [of d "add_trees (d + 1) xs" "concat (map tree_bytes xs)" "()" t] show ?case by simp
next
  case (3 d)
  then show ?case using appends_ret [of d "()"] by (simp del: ret_simp)
next
  case (4 d x xs)
  then show ?case using appends_and_then [of d "add_tree d x" "tree_bytes x" "()"] by simp
qed

text \<open>C4: a tree of elements of any depth and any tags, written through nested children, comes out of
  \<open>CBB_finish\<close> as bytes from which \<open>CBS_get_asn1\<close> takes the root's contents; the contents are
  again the encodings of the subtrees, one after the other. So every length prefix the nested
  flushes fill in, and move the contents for, is the one the reader expects.\<close>

theorem asn1_tree_roundtrip:
  assumes "tree_fits x" "cap < 2 ^ 64"
  shows "built junk cap (add_tree 0 x) = Some (tree_bytes x) \<and>
    CBS_get_asn1 (tree_tag x) (tree_bytes x @ r) = (Some (tree_contents x), r)"
proof -
  have c: "length (tree_contents x) \<le> 0xfffffffe" using assms(1) by (cases x) simp_all
  then have "length (tree_bytes x) < 2 ^ 64"
    using length_der_tag [of "tree_tag x"] len_octets_range [of "length (tree_contents x)"]
    by (auto simp: tree_bytes_der [of x] der_def der_length_def)
  with built_appends [OF appends_tree(1) [OF assms(1)] assms(2), of junk] c show ?thesis
    by (simp add: tree_bytes_der [of x] get_asn1_der)
qed

theorem asn1_tree_roundtrip_witness:
  "let x = Constructed CBS_ASN1_SEQUENCE [Primitive CBS_ASN1_BOOLEAN [0xff], Primitive CBS_ASN1_OCTETSTRING (replicate 200 7)]
   in tree_fits x \<and> built (\<lambda>_. 0) 4 (add_tree 0 x) = Some (tree_bytes x) \<and>
      CBS_get_asn1 (tree_tag x) (tree_bytes x @ [9]) = (Some (tree_contents x), [9])"
proof -
  let ?x = "Constructed CBS_ASN1_SEQUENCE [Primitive CBS_ASN1_BOOLEAN [0xff], Primitive CBS_ASN1_OCTETSTRING (replicate 200 7)]"
  have "tree_fits ?x"
    by (simp add: der_def der_length_def len_octets_def der_tag_def tag_number_def CBS_ASN1_TAG_NUMBER_MASK_def
        CBS_ASN1_BOOLEAN_def CBS_ASN1_OCTETSTRING_def CBS_ASN1_TAG_SHIFT_def word_le_nat_alt)
  then show ?thesis
    using asn1_tree_roundtrip [of ?x 4 "\<lambda>_. 0" "[9]"] unfolding Let_def by (intro conjI) simp_all
qed

end
