(* ===== verification/Ber.thy ===== *)
theory Ber
  imports CbbValues
begin

text \<open>
  From BER to DER (\<open>crypto/bytestring/ber.c\<close>): the walk that looks for indefinite lengths and
  constructed strings, the conversion, and the reader of implicitly tagged strings.
\<close>

section \<open>Looking for BER\<close>

definition kMaxDepth :: nat where "kMaxDepth = 2048"

definition string_tags :: "u32 list" where
  "string_tags = [0x3, 0x4, 0xc, 0x12, 0x13, 0x14, 0x15, 0x16, 0x19, 0x1a, 0x1b, 0x1c, 0x1e]"

definition is_string_type :: "u32 \<Rightarrow> bool" where
  "is_string_type tag = (tag AND NOT CBS_ASN1_CONSTRUCTED \<in> set string_tags)"

text \<open>What the reader of BER elements returns is a non-empty front of the window, header first.\<close>

lemma ber_element:
  assumes "cbs_get_any_asn1_element ber cbs = (Some (out, tag, n), r)"
  shows "cbs = out @ r \<and> 2 \<le> n \<and> n \<le> length out"
proof -
  from assms obtain t lb h where tag: "parse_asn1_tag cbs = (Some t, lb # h)"
    by (auto simp: cbs_get_any_asn1_element_def CBS_get_u8_def cbs_get_def and_then_def hd_conv_nth neq_Nil_conv
        Suc_le_eq not_less split: option.splits prod.splits if_splits)
  then have cbs: "cbs = der_tag t @ lb # h" by (simp add: parse_asn1_tag_iff)
  let ?m = "length (der_tag t) + 1"
  have m: "length cbs = ?m + length h" and m33: "?m \<le> 2 ^ 33" and m2: "2 \<le> ?m"
    using cbs length_der_tag [of t] by (simp_all add: der_tag_def Suc_le_eq)
  have get: "cbs = xs @ rest \<and> length xs = k" if "cbs_get k cbs = (Some xs, rest)" for k xs rest
    using that cbs_get_Some by blast
  show ?thesis
  proof (cases "lb AND 0x80 = 0")
    case True
    have "cbs_get (unat lb + ?m) cbs = (Some out, r)" "n = ?m"
      using assms unfolding element_short [OF tag True m m33] by (auto simp: CBS_get_bytes_def elim!: and_then_SomeE)
    with get m2 show ?thesis by fastforce
  next
    case False
    define k where "k = unat (lb AND 0x7f)"
    show ?thesis
    proof (cases "ber \<and> t AND CBS_ASN1_CONSTRUCTED \<noteq> 0 \<and> k = 0")
      case True
      have "length cbs - length h = ?m" using m by simp
      with True False assms tag have "cbs_get ?m cbs = (Some out, r)" "n = ?m"
        by (auto simp: cbs_get_any_asn1_element_def Let_def k_def CBS_get_bytes_def elim!: and_then_SomeE)
      with get m2 show ?thesis by auto
    next
      case no_indef: False
      from assms tag False no_indef obtain len h' where k: "1 \<le> k" "k \<le> 4" and u: "cbs_get_u k h = (Some len, h')"
        by (auto simp: cbs_get_any_asn1_element_def Let_def k_def Suc_le_eq split: option.splits prod.splits if_splits)
      from u obtain xs where "h = xs @ h'" "length xs = k" "len = be64 xs"
        by (auto simp: cbs_get_u_def dest!: cbs_get_Some elim!: and_then_SomeE)
      then have "drop_bit (8 * k) len = 0"
        using be64_small [of xs] by (auto simp: take_bit_eq_self_iff_drop_bit_eq_0)
      then have "unat len < 2 ^ (8 * k)" by (simp add: drop_bit_0_iff)
      also have "(2::nat) ^ (8 * k) \<le> 2 ^ 32" using k by (intro power_increasing) auto
      finally have len32: "unat len < 2 ^ 32" .
      have "cbs_get (unat len + ?m + k) cbs = (Some out, r)" "n = ?m + k"
        using assms unfolding element_long [OF tag False k_def [symmetric] k u m m33 len32]
        by (auto simp: CBS_get_bytes_def elim!: and_then_SomeE split: if_splits)
      with get m2 show ?thesis by fastforce
    qed
  qed
qed

lemma get_ber_element:
  "CBS_get_any_ber_asn1_element cbs = (Some (out, tag, n), r) \<Longrightarrow> cbs = out @ r \<and> 2 \<le> n \<and> n \<le> length out"
  using ber_element [of True] by (simp add: CBS_get_any_ber_asn1_element_def)

lemma ber_shorter:
  assumes "CBS_get_any_ber_asn1_element cbs = (Some (out, tag, n), r)"
  shows "length r < length cbs" "CBS_skip n out = (x, contents) \<Longrightarrow> length contents < length cbs"
  using get_ber_element [OF assms] by (auto simp: CBS_skip_def cbs_get_def)

text \<open>The test of both walks for the indefinite form.\<close>

definition indefinite :: "cbs \<Rightarrow> nat \<Rightarrow> bool" where
  "indefinite contents header_len =
     (length contents = header_len \<and> header_len > 0 \<and> contents ! (header_len - 1) = 0x80)"

text \<open>
  The loop of \<open>cbs_find_ber\<close>: \<open>ber_found\<close> is the current value of \<open>*ber_found\<close>, which the recursive
  call overwrites; the result is its last value, \<open>None\<close> an error.
\<close>

function find_ber_loop :: "nat \<Rightarrow> cbs \<Rightarrow> bool \<Rightarrow> bool option" where
  "find_ber_loop depth inp ber_found =
     (if length inp > 0 then
        (case CBS_get_any_ber_asn1_element inp of
           (None, _) \<Rightarrow> None
         | (Some (contents, tag, header_len), inp') \<Rightarrow>
             if indefinite contents header_len then Some True
             else if tag AND CBS_ASN1_CONSTRUCTED \<noteq> 0 then
               if is_string_type tag then Some True
               else
                 (case CBS_skip header_len contents of
                    (None, _) \<Rightarrow> None
                  | (Some _, contents') \<Rightarrow>
                      (case (if depth + 1 > kMaxDepth then None else find_ber_loop (depth + 1) contents' False) of
                         None \<Rightarrow> None
                       | Some ber_found' \<Rightarrow> find_ber_loop depth inp' ber_found'))
             else find_ber_loop depth inp' ber_found)
      else Some ber_found)"
  by pat_completeness auto
termination
  by (relation "measure (\<lambda>(depth, inp, f). length inp)")
    (auto dest: ber_shorter(1) [OF sym], metis ber_shorter(2))

declare find_ber_loop.simps [simp del]

definition cbs_find_ber :: "cbs \<Rightarrow> nat \<Rightarrow> bool option" where
  "cbs_find_ber orig_in depth = (if depth > kMaxDepth then None else find_ber_loop depth orig_in False)"

section \<open>The conversion\<close>

definition is_eoc :: "nat \<Rightarrow> cbs \<Rightarrow> bool" where
  "is_eoc header_len contents = (header_len = 2 \<and> length contents = 2 \<and> contents = [0, 0])"

definition on_in :: "(cbs, 'a) act \<Rightarrow> (cbs \<times> cbb, 'a) act" where
  "on_in f = (\<lambda>(i, s). case f i of (r, i') \<Rightarrow> (r, (i', s)))"

definition on_out :: "'a bact \<Rightarrow> (cbs \<times> cbb, 'a) act" where
  "on_out f = (\<lambda>(i, s). case f s of (r, s') \<Rightarrow> (r, (i, s')))"

text \<open>Running on another window and coming back to this one.\<close>

definition on_contents :: "cbs \<Rightarrow> (cbs \<times> cbb, 'a) act \<Rightarrow> (cbs \<times> cbb, 'a) act" where
  "on_contents contents f = (\<lambda>(i, s). case f (contents, s) of (r, (_, s')) \<Rightarrow> (r, (i, s')))"

text \<open>
  \<open>cbs_convert_ber\<close> and its loop, on the window and the builder. Every round of the loop and every
  recursive call takes bytes off the window, so its length is fuel enough. What happens when the fuel
  runs out is the parameter \<open>z\<close>, so that it cannot be taken for a result of the code: with more fuel
  than bytes, \<open>z\<close> does not matter (\<open>cbs_convert_ber_terminates\<close> in \<open>BerFacts\<close>).
\<close>

fun convert_loop ::
    "(cbs \<times> cbb, unit) act \<Rightarrow> nat \<Rightarrow> nat \<Rightarrow> u32 \<Rightarrow> bool \<Rightarrow> nat \<Rightarrow> (cbs \<times> cbb, unit) act" where
  "convert_loop z 0 out string_tag looking_for_eoc depth is = z is"
| "convert_loop z (Suc fuel) out string_tag looking_for_eoc depth is =
     (if length (fst is) > 0 then
        and_then (on_in CBS_get_any_ber_asn1_element) (\<lambda>(contents, tag, header_len).
          if is_eoc header_len contents then (if looking_for_eoc then ret () else fail)
          else
            and_then
              (if string_tag \<noteq> 0 then
                 if tag AND NOT CBS_ASN1_CONSTRUCTED \<noteq> string_tag then fail else ret (out, string_tag)
               else
                 let string_type = (tag AND CBS_ASN1_CONSTRUCTED \<noteq> 0 \<and> is_string_type tag);
                     out_tag = (if string_type then tag AND NOT CBS_ASN1_CONSTRUCTED else tag);
                     child_string_tag = (if string_type then out_tag else string_tag)
                 in and_then (on_out (CBB_add_asn1 out out_tag)) (\<lambda>_. ret (out + 1, child_string_tag)))
              (\<lambda>(out_contents, child_string_tag).
                 let convert = (\<lambda>eoc. if depth + 1 > kMaxDepth then fail
                                     else convert_loop z fuel out_contents child_string_tag eoc (depth + 1)) in
                 if indefinite contents header_len then
                   and_then (convert True) (\<lambda>_. and_then (on_out (CBB_flush out)) (\<lambda>_.
                     convert_loop z fuel out string_tag looking_for_eoc depth))
                 else
                   (case CBS_skip header_len contents of
                      (None, _) \<Rightarrow> fail
                    | (Some _, contents') \<Rightarrow>
                        and_then
                          (if tag AND CBS_ASN1_CONSTRUCTED \<noteq> 0 then on_contents contents' (convert False)
                           else on_out (CBB_add_bytes out_contents contents'))
                          (\<lambda>_. and_then (on_out (CBB_flush out)) (\<lambda>_.
                             convert_loop z fuel out string_tag looking_for_eoc depth))))) is
      else if looking_for_eoc then (None, is) else (Some (), is))"

declare convert_loop.simps(2) [simp del]

definition cbs_convert_ber :: "nat \<Rightarrow> u32 \<Rightarrow> bool \<Rightarrow> nat \<Rightarrow> (cbs \<times> cbb, unit) act" where
  "cbs_convert_ber out string_tag looking_for_eoc depth = (\<lambda>is.
     if depth > kMaxDepth then (None, is)
     else convert_loop fail (length (fst is) + 1) out string_tag looking_for_eoc depth is)"

text \<open>
  The result of \<open>CBS_asn1_ber_to_der\<close>: \<open>*out\<close> and whether \<open>*out_storage\<close> holds it. The builder starts
  from \<open>fresh\<close>, the outcome of \<open>CBB_init(&cbb, CBS_len(in))\<close>.
\<close>

definition CBS_asn1_ber_to_der :: "(nat \<Rightarrow> unit option \<times> cbb) \<Rightarrow> (cbs \<times> bool) cact" where
  "CBS_asn1_ber_to_der init inp =
     (case cbs_find_ber inp 0 of
        None \<Rightarrow> (None, inp)
      | Some conversion_needed \<Rightarrow>
          if \<not> conversion_needed then
            and_then CBS_get_any_asn1_element (\<lambda>(out, _, _). ret (out, False)) inp
          else
            (case init (length inp) of
               (None, _) \<Rightarrow> (None, inp)
             | (Some _, s) \<Rightarrow>
                 (case and_then (cbs_convert_ber 0 0 False 0) (\<lambda>_. on_out (CBB_finish True 0)) (inp, s) of
                    (None, (inp', _)) \<Rightarrow> (None, inp')
                  | (Some out, (inp', _)) \<Rightarrow> (Some (out, True), inp'))))"

section \<open>Implicitly tagged strings\<close>

lemma der_nonempty: "der t c \<noteq> []"
  by (simp add: der_def der_tag_def)

lemma get_asn1_shorter: "CBS_get_asn1 t cbs = (Some c, r) \<Longrightarrow> length r < length cbs"
  by (auto dest!: get_asn1_only simp: der_nonempty)

text \<open>The loop that concatenates the chunks.\<close>

function add_chunks :: "u32 \<Rightarrow> cbs \<Rightarrow> unit bact" where
  "add_chunks inner_tag child s =
     (if length child > 0 then
        (case CBS_get_asn1 inner_tag child of
           (None, _) \<Rightarrow> (None, s)
         | (Some chunk, child') \<Rightarrow> and_then (CBB_add_bytes 0 chunk) (\<lambda>_. add_chunks inner_tag child') s)
      else ret () s)"
  by pat_completeness auto
termination
  by (relation "measure (\<lambda>(t, child, s). length child)") (auto dest: get_asn1_shorter [OF sym])

declare add_chunks.simps [simp del]

definition CBS_get_asn1_implicit_string ::
    "(nat \<Rightarrow> unit option \<times> cbb) \<Rightarrow> u32 \<Rightarrow> u32 \<Rightarrow> (cbs \<times> bool) cact" where
  "CBS_get_asn1_implicit_string init outer_tag inner_tag inp =
     (if CBS_peek_asn1_tag inp outer_tag then
        and_then (CBS_get_asn1 outer_tag) (\<lambda>out. ret (out, False)) inp
      else
        (case init (length inp) of
           (None, _) \<Rightarrow> (None, inp)
         | (Some _, s) \<Rightarrow>
             and_then (CBS_get_asn1 (outer_tag OR CBS_ASN1_CONSTRUCTED)) (\<lambda>child inp'.
               case and_then (add_chunks inner_tag child) (\<lambda>_. CBB_finish True 0) s of
                 (None, _) \<Rightarrow> (None, inp')
               | (Some data, _) \<Rightarrow> (Some (data, True), inp')) inp))"

end
