(* ===== verification/BerFacts.thy ===== *)
theory BerFacts
  imports Ber
begin

text \<open>
  The conversion of \<open>Ber\<close> ends: its fuel suffices.
\<close>

section \<open>The fuel\<close>

lemma on_in_facts: "on_in f (i, s) = (r, (i', s')) \<Longrightarrow> f i = (r, i') \<and> s' = s"
  by (auto simp: on_in_def split: prod.splits)

lemma on_out_facts: "on_out f (i, s) = (r, (i', s')) \<Longrightarrow> f s = (r, s') \<and> i' = i"
  by (auto simp: on_out_def split: prod.splits)

text \<open>Actions that never lengthen the window.\<close>

definition shrinks :: "(cbs \<times> cbb) \<Rightarrow> (cbs \<times> cbb) \<Rightarrow> bool" where
  "shrinks a b \<longleftrightarrow> length (fst b) \<le> length (fst a)"

lemma shrinks_refl: "reflp shrinks" and shrinks_trans: "transp shrinks"
  by (auto simp: reflp_def transp_def shrinks_def)

lemma keeps_on_out: "keeps shrinks (on_out f)"
  by (rule keepsI) (auto simp: shrinks_def on_out_def split: prod.splits)

lemma keeps_on_contents: "keeps shrinks (on_contents c f)"
  by (rule keepsI) (auto simp: shrinks_def on_contents_def split: prod.splits)

lemma keeps_cfail: "keeps shrinks fail"
  by (rule keepsI) (auto simp: shrinks_def)

lemma get_ber_none: "CBS_get_any_ber_asn1_element cbs = (None, r) \<Longrightarrow> r = cbs"
  by (auto simp: CBS_get_any_ber_asn1_element_def cbs_get_any_asn1_element_def Let_def CBS_get_bytes_def cbs_get_def and_then_def
      split: option.splits prod.splits if_splits)

lemma keeps_on_in: "keeps shrinks (on_in CBS_get_any_ber_asn1_element)"
proof (rule keepsI)
  fix s :: "cbs \<times> cbb"
  obtain i t where s: "s = (i, t)" by fastforce
  obtain r i' where g: "CBS_get_any_ber_asn1_element i = (r, i')" by fastforce
  have "length i' \<le> length i"
    using g by (cases r) (auto dest: get_ber_none ber_shorter(1))
  then show "shrinks s (snd (on_in CBS_get_any_ber_asn1_element s))"
    by (simp add: s g on_in_def shrinks_def)
qed

lemmas keeps_shrinks = keeps_on_out keeps_on_contents keeps_cfail keeps_on_in keeps_ret [OF shrinks_refl]

lemma convert_shrinks: "keeps shrinks (convert_loop fail fuel out st eoc depth)"
proof (induction fuel arbitrary: out st eoc depth)
  case 0
  show ?case by (rule keepsI) (auto simp: shrinks_def)
next
  case (Suc fuel)
  have conv: "keeps shrinks (if depth + 1 > kMaxDepth then fail else convert_loop fail fuel o' st' eoc' (depth + 1))" for o' st' eoc'
    by (simp add: Suc keeps_cfail)
  note [intro!] = keeps_and_then [OF shrinks_trans] keeps_shrinks conv Suc
  show ?case
  proof (rule keepsI)
    fix s
    show "shrinks s (snd (convert_loop fail (Suc fuel) out st eoc depth s))"
    proof (cases "length (fst s) > 0")
      case False
      then show ?thesis by (simp add: convert_loop.simps(2) shrinks_def)
    next
      case True
      show ?thesis
        unfolding convert_loop.simps(2) if_P [OF True]
        by (rule keepsD [OF _ prod.collapse [symmetric]])
          (auto simp: Let_def simp del: ret_simp fail_simp split: prod.split option.split)
    qed
  qed
qed

lemma on_contents_cong: "f (c, snd is) = g (c, snd is) \<Longrightarrow> on_contents c f is = on_contents c g is"
  by (cases "is") (simp add: on_contents_def)

lemma convert_fuel:
  "length (fst is) < fuel \<Longrightarrow> length (fst is) < fuel' \<Longrightarrow>
   convert_loop z fuel out st eoc depth is = convert_loop fail fuel' out st eoc depth is"
proof (induction fuel arbitrary: fuel' out st eoc depth "is")
  case 0
  then show ?case by simp
next
  case (Suc f)
  then obtain f' where f': "fuel' = Suc f'" by (cases fuel') auto
  show ?case
  proof (cases "length (fst is) > 0")
    case False
    then show ?thesis by (simp add: f' convert_loop.simps(2))
  next
    case True
    let ?conv = "\<lambda>z f oc st' e. if depth + 1 > kMaxDepth then fail else convert_loop z f oc st' e (depth + 1)"
    have IH: "convert_loop z f o1 st1 e1 d1 u = convert_loop fail f' o1 st1 e1 d1 u" if "length (fst u) < length (fst is)" for o1 st1 e1 d1 u
      using Suc.IH [of u f'] Suc.prems that f' by (simp del: fail_simp)
    have IHc: "?conv z f o1 st1 e1 u = ?conv fail f' o1 st1 e1 u" if "length (fst u) < length (fst is)" for o1 st1 e1 u
      using IH [OF that] by (simp del: fail_simp)
    have le: "length (fst t) \<le> length (fst u)" if "m u = (x, t)" "keeps shrinks m" for m :: "(cbs \<times> cbb, 'b) act" and u t x
      using keepsD [OF that(2,1)] by (simp add: shrinks_def)
    have rest: "and_then (on_out g) (\<lambda>_. convert_loop z f out st eoc depth) u = and_then (on_out g) (\<lambda>_. convert_loop fail f' out st eoc depth) u"
      if "length (fst u) < length (fst is)" for g :: "unit bact" and u
      using that le [of "on_out g" u, OF _ keeps_on_out] by (intro and_then_cong refl IH) fastforce
    show ?thesis
      unfolding f' convert_loop.simps(2) if_P [OF True]
    proof (rule and_then_cong [OF refl refl], goal_cases)
      case (1 x t)
      obtain contents tag n where x: "x = (contents, tag, n)" by (cases x) auto
      have t: "length (fst t) < length (fst is)"
        using 1 x ber_shorter(1) by (cases "is"; cases t) (auto dest!: on_in_facts)
      have skip: "length c < length (fst is)" if "CBS_skip n contents = (y, c)" for y c
        using 1 x that ber_shorter(2) by (cases "is"; cases t) (auto dest!: on_in_facts)
      show ?case
      proof (cases "is_eoc n contents")
        case True
        then show ?thesis by (simp add: x)
      next
        case False
        show ?thesis
          unfolding x prod.case if_not_P [OF False]
        proof (rule and_then_cong [OF refl refl], goal_cases)
          case (1 y u)
          have "length (fst u) \<le> length (fst t)"
            by (rule le [where u = t and t = u], rule 1)
              (auto simp: Let_def intro!: keeps_and_then [OF shrinks_trans] keeps_shrinks simp del: ret_simp fail_simp)
          then have u: "length (fst u) < length (fst is)" using t by simp
          have K: "keeps shrinks (?conv fail f2 o1 st1 e1)" for f2 o1 st1 e1
            by (simp add: convert_shrinks keeps_cfail)
          obtain oc cst where y: "y = (oc, cst)" by fastforce
          show ?case
          proof (cases "indefinite contents n")
            case True
            show ?thesis
              unfolding y prod.case Let_def if_P [OF True]
              by (rule and_then_cong, rule refl, rule IHc [OF u], rule rest)
                (rule order_le_less_trans [OF le u], assumption, rule K)
          next
            case no: False
            obtain r c where sk: "CBS_skip n contents = (r, c)" by fastforce
            show ?thesis
            proof (cases r)
              case None
              then show ?thesis unfolding y prod.case Let_def if_not_P [OF no] sk by simp
            next
              case (Some w)
              have inner: "(if tag AND CBS_ASN1_CONSTRUCTED \<noteq> 0 then on_contents c (?conv z f oc cst False) else on_out (CBB_add_bytes oc c)) u
                = (if tag AND CBS_ASN1_CONSTRUCTED \<noteq> 0 then on_contents c (?conv fail f' oc cst False) else on_out (CBB_add_bytes oc c)) u"
              proof (cases "tag AND CBS_ASN1_CONSTRUCTED = 0")
                case con: False
                have "on_contents c (?conv z f oc cst False) u = on_contents c (?conv fail f' oc cst False) u"
                  by (rule on_contents_cong, rule IHc) (simp add: skip [OF sk])
                with con show ?thesis by (simp only: if_True if_False simp_thms)
              qed simp
              have KI: "keeps shrinks (if tag AND CBS_ASN1_CONSTRUCTED \<noteq> 0 then on_contents c (?conv fail f' oc cst False) else on_out (CBB_add_bytes oc c))"
                by (simp add: keeps_on_out keeps_on_contents)
              show ?thesis
                unfolding y prod.case Let_def if_not_P [OF no] sk Some option.case
                by (rule and_then_cong, rule refl, rule inner, rule rest) (rule order_le_less_trans [OF le u], assumption, rule KI)
            qed
          qed
        qed
      qed
    qed
  qed
qed

text \<open>C30: the loops of \<open>cbs_convert_ber\<close> end. Its model goes round its loop and calls itself at most
  \<open>fuel\<close> times deep and does \<open>z\<close> when the fuel is used up; with any fuel above the number of bytes in the
  window the outcome is that of \<open>cbs_convert_ber\<close> whatever \<open>z\<close> is, so the fuel is never used up. Every
  round and every recursive call takes at least a header off the window, also across the recursion
  that consumes an indefinite-length element from the same window.\<close>

theorem cbs_convert_ber_terminates:
  assumes "length inp < fuel" "depth \<le> kMaxDepth"
  shows "convert_loop z fuel out st eoc depth (inp, s) = cbs_convert_ber out st eoc depth (inp, s)"
  using assms by (auto simp: cbs_convert_ber_def simp del: fail_simp intro: convert_fuel)

text \<open>With four bytes and five rounds, an action that would make up a success is not reached.\<close>

theorem cbs_convert_ber_terminates_witness:
  "convert_loop (\<lambda>is. (Some (), is)) 5 0 0 False 0 ([0x30, 0x80, 0, 0], CBB_zero) =
     cbs_convert_ber 0 0 False 0 ([0x30, 0x80, 0, 0], CBB_zero) \<and>
   convert_loop (\<lambda>is. (None, is)) 5 0 0 False 0 ([0x30, 0x80, 0, 0], CBB_zero) =
     cbs_convert_ber 0 0 False 0 ([0x30, 0x80, 0, 0], CBB_zero)"
  by (intro conjI cbs_convert_ber_terminates) (simp_all add: kMaxDepth_def)

end
