(* ===== verification/BerDer.thy ===== *)
theory BerDer
  imports BerFacts
begin

text \<open>
  The result of the conversion of \<open>Ber\<close>. \<open>convert_spec\<close> gives the bytes as a function of the input
  alone. \<open>ber\<close> is the data type of BER elements, \<open>ber_bytes\<close> their octets and \<open>normal\<close> what they become:
  the input is parsed as such elements, and their normal forms are trees without any BER in them.
\<close>

section \<open>The bytes of the conversion\<close>

definition runs :: "(cbs \<times> cbb, 'a) act \<Rightarrow> cbs \<Rightarrow> ('a \<times> cbs) bact" where
  "runs f inp = (\<lambda>s. case f (inp, s) of (r, (inp', s')) \<Rightarrow> (map_option (\<lambda>v. (v, inp')) r, s'))"


lemma runs_on_in: "runs (on_in f) inp = (case f inp of (None, _) \<Rightarrow> fail | (Some v, inp') \<Rightarrow> ret (v, inp'))"
  by (rule ext) (auto simp: runs_def on_in_def split: prod.split option.split)
















lemma element_code:
  "(case t of None \<Rightarrow> and_then (F out) (\<lambda>v. and_then (CBB_flush out) (\<lambda>_. G v))
    | Some t \<Rightarrow> and_then (CBB_add_asn1 out t) (\<lambda>_. and_then (F (out + 1)) (\<lambda>v. and_then (CBB_flush out) (\<lambda>_. G v)))) =
   and_then
    (case t of None \<Rightarrow> and_then (F out) (\<lambda>v. and_then (CBB_flush out) (\<lambda>_. ret v))
     | Some t \<Rightarrow> and_then (CBB_add_asn1 out t) (\<lambda>_. and_then (F (out + 1)) (\<lambda>v. and_then (CBB_flush out) (\<lambda>_. ret v)))) G"
  by (cases t) (simp_all add: and_then_assoc and_then_ret del: ret_simp)


section \<open>BER and what it means\<close>



text \<open>
  The string types of X.680: BIT STRING, OCTET STRING, UTF8String and the character strings
  NumericString to IA5String, GraphicString to UniversalString and BMPString, by universal tag number.
\<close>

definition string_numbers :: "nat list" where
  "string_numbers = [3, 4, 12] @ [18..<23] @ [25..<29] @ [30]"

definition string_tag :: "u32 \<Rightarrow> bool" where
  "string_tag t \<longleftrightarrow> t \<in> set (map of_nat string_numbers)"

abbreviation primitive_tag :: "u32 \<Rightarrow> u32" where
  "primitive_tag t \<equiv> t AND NOT CBS_ASN1_CONSTRUCTED"

lemma is_string_type_eq: "is_string_type t = string_tag (primitive_tag t)"
  by (auto simp: is_string_type_def string_tags_def string_tag_def string_numbers_def upt_rec)






text \<open>
  No BER inside: an element is constructed exactly when its tag says so, strings are primitive, and
  there are no end-of-contents octets.
\<close>

fun strict :: "asn1 \<Rightarrow> bool" where
  "strict (Primitive t c) = (t AND CBS_ASN1_CONSTRUCTED = 0 \<and> (t, c) \<noteq> (0, []))"
| "strict (Constructed t xs) =
     (t AND CBS_ASN1_CONSTRUCTED \<noteq> 0 \<and> \<not> string_tag (primitive_tag t) \<and> list_all strict xs)"


lemma primitive_tag_id: "t AND CBS_ASN1_CONSTRUCTED = 0 \<Longrightarrow> primitive_tag t = t"
proof -
  assume "t AND CBS_ASN1_CONSTRUCTED = 0"
  moreover have "t = (t AND NOT CBS_ASN1_CONSTRUCTED) OR (t AND CBS_ASN1_CONSTRUCTED)"
    by (rule bit_word_eqI) (auto simp: bit_simps)
  ultimately show ?thesis by simp
qed



section \<open>The conversion parses BER\<close>

lemma not_indefinite_der: "length c < 2 ^ 32 \<Longrightarrow> \<not> indefinite (der t c) (length (der_header t (length c)))"
  by (auto simp: indefinite_def der_def der_header_def der_length_def nth_append)


lemma skip_header: "CBS_skip (length (der_header t (length c))) (der t c) = (Some (), c)"
  by (simp add: CBS_skip_def der_def der_header_def cbs_get_def)










lemma get_ber_der: "length c < 2 ^ 32 \<Longrightarrow>
  CBS_get_any_ber_asn1_element (der t c @ r) = (Some (der t c, t, length (der_header t (length c))), r)"
  by (simp add: CBS_get_any_ber_asn1_element_def get_element_der)












text \<open>Elements of a few bytes, for concrete input.\<close>

lemma ber_short:
  assumes "parse_asn1_tag (b # l # c @ r) = (Some t, l # c @ r)" "l = of_nat (length c)" "length c < 128"
  shows "CBS_get_any_ber_asn1_element (b # l # c @ r) = (Some (b # l # c, t, 2), r)"
proof -
  have "l AND 0x80 = 0" "unat l = length c" using assms(2,3) by (simp_all add: byte_low_high unat_of_nat_byte)
  with element_short [OF assms(1), of 2 True] show ?thesis
    using assms(3) by (simp add: CBS_get_any_ber_asn1_element_def CBS_get_bytes_def cbs_get_def)
qed

lemma ber_indefinite:
  assumes "parse_asn1_tag (b # 0x80 # r) = (Some t, 0x80 # r)" "t AND CBS_ASN1_CONSTRUCTED \<noteq> 0"
  shows "CBS_get_any_ber_asn1_element (b # 0x80 # r) = (Some ([b, 0x80], t, 2), r)"
  by (simp only: CBS_get_any_ber_asn1_element_def cbs_get_any_asn1_element_def assms(1) prod.case option.case CBS_get_u8_Cons)
    (simp add: assms(2) CBS_get_bytes_def cbs_get_def)

lemma byte_tags:
  "parse_asn1_tag (0x30 # bs) = (Some 0x20000010, bs)" "parse_asn1_tag (0x24 # bs) = (Some 0x20000004, bs)"
  "parse_asn1_tag (4 # bs) = (Some 4, bs)" "parse_asn1_tag (0 # bs) = (Some 0, bs)"
  "CBS_ASN1_CONSTRUCTED = 0x20000000"
  by (simp_all add: parse_asn1_tag_def CBS_ASN1_CONSTRUCTED_def CBS_ASN1_TAG_SHIFT_def)

lemma byte_elements:
  "CBS_get_any_ber_asn1_element (0x30 # 0x80 # r) = (Some ([0x30, 0x80], 0x20000010, 2), r)"
  "CBS_get_any_ber_asn1_element (0x24 # 0x80 # r) = (Some ([0x24, 0x80], 0x20000004, 2), r)"
  "CBS_get_any_ber_asn1_element (0x30 # 0 # r) = (Some ([0x30, 0], 0x20000010, 2), r)"
  "CBS_get_any_ber_asn1_element (0 # 0 # r) = (Some ([0, 0], 0, 2), r)"
  "CBS_get_any_ber_asn1_element (4 # 1 # b # r) = (Some ([4, 1, b], 4, 2), r)"
  "CBS_get_any_ber_asn1_element (0x30 # 4 # b0 # b1 # b2 # b3 # r) = (Some ([0x30, 4, b0, b1, b2, b3], 0x20000010, 2), r)"
  "CBS_get_any_ber_asn1_element (0x30 # 8 # b0 # b1 # b2 # b3 # b4 # b5 # b6 # b7 # r) =
     (Some ([0x30, 8, b0, b1, b2, b3, b4, b5, b6, b7], 0x20000010, 2), r)"
  subgoal by (rule ber_indefinite) (simp_all add: byte_tags)
  subgoal by (rule ber_indefinite) (simp_all add: byte_tags)
  subgoal by (rule ber_short [where c = "[]", unfolded append_Nil]) (simp_all add: byte_tags)
  subgoal by (rule ber_short [where c = "[]", unfolded append_Nil]) (simp_all add: byte_tags)
  subgoal by (rule ber_short [where c = "[b]", unfolded append_Cons append_Nil]) (simp_all add: byte_tags)
  subgoal by (rule ber_short [where c = "[b0, b1, b2, b3]", unfolded append_Cons append_Nil]) (simp_all add: byte_tags)
  subgoal by (rule ber_short [where c = "[b0, b1, b2, b3, b4, b5, b6, b7]", unfolded append_Cons append_Nil]) (simp_all add: byte_tags)
  done



section \<open>DER is left alone\<close>

fun height :: "asn1 \<Rightarrow> nat" where
  "height (Primitive t bs) = 0"
| "height (Constructed t xs) = Suc (foldr (max \<circ> height) xs 0)"

lemma find_ber_strict:
  "list_all strict xs \<Longrightarrow> list_all tree_fits xs \<Longrightarrow> list_all (\<lambda>x. depth + height x \<le> kMaxDepth) xs \<Longrightarrow>
   find_ber_loop depth (concat (map tree_bytes xs)) False = Some False"
proof (induction "size_list size xs" arbitrary: xs depth rule: less_induct)
  case less
  show ?case
  proof (cases xs)
    case Nil
    then show ?thesis by (simp add: find_ber_loop.simps)
  next
    case (Cons x ys)
    let ?t = "tree_tag x" and ?c = "tree_contents x" and ?r = "concat (map tree_bytes ys)"
    have c: "length ?c < 2 ^ 32" using less.prems(2) Cons by (cases x) auto
    have rest: "find_ber_loop depth ?r False = Some False"
      using less.hyps [of ys depth] less.prems Cons by simp
    have ne: "concat (map tree_bytes xs) = der ?t ?c @ ?r" "0 < length (der ?t ?c @ ?r)"
      using Cons der_nonempty [of ?t ?c] by (simp_all add: tree_bytes_der [of x])
    show ?thesis
    proof (cases x)
      case (Primitive t bs)
      then show ?thesis
        using rest less.prems Cons c ne(2)
        by (subst find_ber_loop.simps) (simp add: ne(1) get_ber_der not_indefinite_der)
    next
      case (Constructed t zs)
      have "height z \<le> foldr (max \<circ> height) zs 0" if "z \<in> set zs" for z
        using that by (induction zs) auto
      then have h: "list_all (\<lambda>z. depth + 1 + height z \<le> kMaxDepth) zs" "depth + 1 \<le> kMaxDepth"
        using less.prems(3) Cons Constructed by (fastforce simp: list_all_iff)+
      have inner: "find_ber_loop (Suc depth) (concat (map tree_bytes zs)) False = Some False"
        using less.hyps [of zs "Suc depth"] less.prems h Cons Constructed by simp
      show ?thesis
        using rest less.prems Cons c ne(2) Constructed inner h(2)
        by (subst find_ber_loop.simps) (simp add: ne(1) get_ber_der not_indefinite_der skip_header is_string_type_eq)
    qed
  qed
qed

text \<open>C29: DER is left alone: an element \<open>x\<close> in DER at the front of a window is returned as it is, with no
  copy made, and exactly its bytes are taken off the window: \<open>cbs_find_ber\<close> reports no false positive.
  As \<open>cbs_find_ber\<close> walks the whole window and not only the first element, the elements \<open>ys\<close> behind it
  must be in DER too, and all at most \<open>kMaxDepth\<close> levels deep.\<close>

theorem ber_to_der_keeps_der:
  assumes "list_all strict (x # ys)" "list_all tree_fits (x # ys)" "list_all (\<lambda>y. height y \<le> kMaxDepth) (x # ys)"
  shows "CBS_asn1_ber_to_der init (tree_bytes x @ concat (map tree_bytes ys)) =
    (Some (tree_bytes x, False), concat (map tree_bytes ys))"
proof -
  let ?r = "concat (map tree_bytes ys)"
  have c: "length (tree_contents x) < 2 ^ 32" using assms(2) by (cases x) auto
  have "cbs_find_ber (tree_bytes x @ ?r) 0 = Some False"
    using find_ber_strict [of "x # ys" 0] assms by (simp add: cbs_find_ber_def)
  moreover have "CBS_get_any_asn1_element (tree_bytes x @ ?r) =
    (Some (tree_bytes x, tree_tag x, length (der_header (tree_tag x) (length (tree_contents x)))), ?r)"
    using get_element_der [OF c, of False "tree_tag x" ?r] by (simp add: CBS_get_any_asn1_element_def tree_bytes_der [of x])
  ultimately show ?thesis by (simp add: CBS_asn1_ber_to_der_def)
qed

text \<open>A SEQUENCE with an OCTET STRING behind it: the string stays on the window.\<close>

theorem ber_to_der_keeps_der_witness:
  "CBS_asn1_ber_to_der (CBB_init True True (\<lambda>_. True) (\<lambda>_. 0)) [0x30, 3, 1, 1, 0xff, 4, 2, 8, 9] =
     (Some ([0x30, 3, 1, 1, 0xff], False), [4, 2, 8, 9])"
proof -
  let ?x = "Constructed 0x20000010 [Primitive 1 [0xff]]" and ?y = "Primitive 4 [8, 9]"
  note eval = der_def der_tag_def der_length_def tag_number_def tag_class_def CBS_ASN1_TAG_NUMBER_MASK_def CBS_ASN1_TAG_SHIFT_def
    byte_tags(5) string_tag_def string_numbers_def upt_rec word_le_nat_alt
  have "tree_bytes ?x = [0x30, 3, 1, 1, 0xff]" "tree_bytes ?y = [4, 2, 8, 9]" by (simp_all add: eval)
  moreover have "strict ?x" "strict ?y" "tree_fits ?x" "tree_fits ?y" "height ?x \<le> kMaxDepth" "height ?y \<le> kMaxDepth"
    by (simp_all add: eval kMaxDepth_def)
  ultimately show ?thesis
    using ber_to_der_keeps_der [of ?x "[?y]" "CBB_init True True (\<lambda>_. True) (\<lambda>_. 0)"] by simp
qed

text \<open>an indefinite length is missed when it is inside a constructed element that is followed by
  a constructed element without one at the same level: the recursive calls of \<open>cbs_find_ber\<close> write to
  the same \<open>*ber_found\<close>, so the second overwrites what the first has found. \<open>CBS_asn1_ber_to_der\<close> then
  returns the input unconverted, an indefinite length in it, where it promises DER.\<close>

theorem ber_to_der_misses_ber:
  "cbs_find_ber [0x30, 4, 0x30, 0x80, 0, 0] 0 = Some True \<and>
   cbs_find_ber [0x30, 8, 0x30, 4, 0x30, 0x80, 0, 0, 0x30, 0] 0 = Some False \<and>
   CBS_asn1_ber_to_der init [0x30, 8, 0x30, 4, 0x30, 0x80, 0, 0, 0x30, 0] =
     (Some ([0x30, 8, 0x30, 4, 0x30, 0x80, 0, 0, 0x30, 0], False), [])"
proof -
  note eval = cbs_find_ber_def kMaxDepth_def find_ber_loop.simps [of _ "_ # _"] find_ber_loop.simps [of _ "[]"] byte_elements
    byte_tags indefinite_def CBS_skip_def cbs_get_def is_string_type_def string_tags_def
  have "cbs_find_ber [0x30, 4, 0x30, 0x80, 0, 0] 0 = Some True" by (simp add: eval)
  moreover have "cbs_find_ber [0x30, 8, 0x30, 4, 0x30, 0x80, 0, 0, 0x30, 0] 0 = Some False" by (simp add: eval)
  moreover have "CBS_get_any_asn1_element [0x30, 8, 0x30, 4, 0x30, 0x80, 0, 0, 0x30, 0] =
    (Some ([0x30, 8, 0x30, 4, 0x30, 0x80, 0, 0, 0x30, 0], 0x20000010, 2), [])"
    using get_element_der [of "[0x30, 4, 0x30, 0x80, 0, 0, 0x30, 0]" False "0x20000010" "[]"]
    by (simp add: CBS_get_any_asn1_element_def der_def der_header_def der_tag_def der_length_def tag_class_def tag_number_def
      CBS_ASN1_TAG_NUMBER_MASK_def CBS_ASN1_TAG_SHIFT_def)
  ultimately show ?thesis by (simp add: CBS_asn1_ber_to_der_def)
qed

end
