(* ===== verification/ConstTime.thy ===== *)
theory ConstTime
  imports Prelude
begin

text \<open>
  The constant-time functions of BoringSSL (\<open>crypto/internal.h\<close>): comparisons that return a mask of
  ones or zeros and selections by such a mask, without branches; \<open>constant_time_correct\<close> states them as
  the branching expressions they replace.
\<close>

section \<open>The code\<close>

type_synonym crypto_word_t = u64

definition CONSTTIME_TRUE_W :: crypto_word_t where "CONSTTIME_TRUE_W = NOT 0"
definition CONSTTIME_FALSE_W :: crypto_word_t where "CONSTTIME_FALSE_W = 0"
definition CONSTTIME_TRUE_8 :: byte where "CONSTTIME_TRUE_8 = 0xff"
definition CONSTTIME_FALSE_8 :: byte where "CONSTTIME_FALSE_8 = 0"

definition value_barrier_w :: "crypto_word_t \<Rightarrow> crypto_word_t" where
  "value_barrier_w a = a"

definition constant_time_msb_w :: "crypto_word_t \<Rightarrow> crypto_word_t" where
  "constant_time_msb_w a = 0 - drop_bit (8 * 8 - 1) a"

definition constant_time_lt_w :: "crypto_word_t \<Rightarrow> crypto_word_t \<Rightarrow> crypto_word_t" where
  "constant_time_lt_w a b = constant_time_msb_w (a XOR ((a XOR b) OR ((a - b) XOR a)))"

definition constant_time_lt_8 :: "crypto_word_t \<Rightarrow> crypto_word_t \<Rightarrow> byte" where
  "constant_time_lt_8 a b = ucast (constant_time_lt_w a b)"

definition constant_time_ge_w :: "crypto_word_t \<Rightarrow> crypto_word_t \<Rightarrow> crypto_word_t" where
  "constant_time_ge_w a b = NOT (constant_time_lt_w a b)"

definition constant_time_ge_8 :: "crypto_word_t \<Rightarrow> crypto_word_t \<Rightarrow> byte" where
  "constant_time_ge_8 a b = ucast (constant_time_ge_w a b)"

definition constant_time_is_zero_w :: "crypto_word_t \<Rightarrow> crypto_word_t" where
  "constant_time_is_zero_w a = constant_time_msb_w (NOT a AND (a - 1))"

definition constant_time_is_zero_8 :: "crypto_word_t \<Rightarrow> byte" where
  "constant_time_is_zero_8 a = ucast (constant_time_is_zero_w a)"

definition constant_time_eq_w :: "crypto_word_t \<Rightarrow> crypto_word_t \<Rightarrow> crypto_word_t" where
  "constant_time_eq_w a b = constant_time_is_zero_w (a XOR b)"

definition constant_time_eq_8 :: "crypto_word_t \<Rightarrow> crypto_word_t \<Rightarrow> byte" where
  "constant_time_eq_8 a b = ucast (constant_time_eq_w a b)"

text \<open>An \<open>int\<close> is a 32-bit word; its conversion to \<open>crypto_word_t\<close> extends the sign.\<close>

definition constant_time_eq_int :: "u32 \<Rightarrow> u32 \<Rightarrow> crypto_word_t" where
  "constant_time_eq_int a b = constant_time_eq_w (scast a) (scast b)"

definition constant_time_eq_int_8 :: "u32 \<Rightarrow> u32 \<Rightarrow> byte" where
  "constant_time_eq_int_8 a b = constant_time_eq_8 (scast a) (scast b)"

definition constant_time_select_w :: "crypto_word_t \<Rightarrow> crypto_word_t \<Rightarrow> crypto_word_t \<Rightarrow> crypto_word_t" where
  "constant_time_select_w m a b = (value_barrier_w m AND a) OR (value_barrier_w (NOT m) AND b)"

definition constant_time_select_8 :: "byte \<Rightarrow> byte \<Rightarrow> byte \<Rightarrow> byte" where
  "constant_time_select_8 m a b = ucast (constant_time_select_w (ucast m) (ucast a) (ucast b))"

definition constant_time_select_int :: "crypto_word_t \<Rightarrow> u32 \<Rightarrow> u32 \<Rightarrow> u32" where
  "constant_time_select_int m a b = ucast (constant_time_select_w m (scast a) (scast b))"

section \<open>What they compute\<close>

named_theorems ct_simps \<open>the constant-time functions as branching expressions\<close>

text \<open>The masks, by the condition they stand for.\<close>

definition mask_w :: "bool \<Rightarrow> crypto_word_t" where
  "mask_w c = (if c then CONSTTIME_TRUE_W else CONSTTIME_FALSE_W)"

definition mask_8 :: "bool \<Rightarrow> byte" where
  "mask_8 c = (if c then CONSTTIME_TRUE_8 else CONSTTIME_FALSE_8)"

lemma ones_8: "(0xff :: byte) = - 1"
  by (simp add: word_eq_iff_unsigned)

lemma mask_8_w: "ucast (mask_w c) = mask_8 c"
  by (rule bit_word_eqI) (simp add: bit_simps ones_8 mask_w_def mask_8_def CONSTTIME_TRUE_W_def CONSTTIME_FALSE_W_def CONSTTIME_TRUE_8_def
    CONSTTIME_FALSE_8_def)

lemma bit_top: "bit (a :: u64) 63 \<longleftrightarrow> 2 ^ 63 \<le> unat a"
proof -
  have "bit a 63 \<longleftrightarrow> bit (unat a) 63" by (simp add: bit_simps)
  then have "bit a 63 \<longleftrightarrow> odd (unat a div 2 ^ 63)" by (simp only: bit_iff_odd [of "unat a"])
  moreover have "unat a < 2 * 2 ^ 63" using unsigned_less [of a] by simp
  then have "unat a div 2 ^ 63 < 2" by (simp add: div_less_iff_less_mult)
  then have "odd (unat a div 2 ^ 63) \<longleftrightarrow> unat a div 2 ^ 63 \<noteq> 0"
    by (cases "unat a div 2 ^ 63 = 1") auto
  ultimately show ?thesis by (simp add: div_eq_0_iff not_less)
qed

lemma msb_w [ct_simps]: "constant_time_msb_w a = mask_w (bit a 63)"
proof (cases "bit a 63")
  case True
  then have "drop_bit 63 a = 1" by (intro bit_word_eqI) (auto simp: bit_simps dest: bit_imp_le_length)
  with True show ?thesis by (simp add: constant_time_msb_w_def mask_w_def CONSTTIME_TRUE_W_def)
next
  case False
  then have "drop_bit 63 a = 0"
    by (simp add: drop_bit_0_iff bit_top)
  with False show ?thesis by (simp add: constant_time_msb_w_def mask_w_def CONSTTIME_FALSE_W_def)
qed

lemma less_top: "a < b \<longleftrightarrow> (if bit a 63 = bit b 63 then bit (a - b) 63 else bit b 63)" for a b :: u64
proof -
  have lt: "unat a < 2 ^ 64" "unat b < 2 ^ 64" using unsigned_less [of a] unsigned_less [of b] by simp_all
  have sub: "unat (a - b) = (if b \<le> a then unat a - unat b else unat a + 2 ^ 64 - unat b)"
    by (simp add: unat_sub_if_size word_size word_le_nat_alt)
  show ?thesis
    unfolding bit_top word_less_nat_alt sub using lt by (auto simp: word_le_nat_alt)
qed

lemma lt_w [ct_simps]: "constant_time_lt_w a b = mask_w (a < b)"
  by (auto simp: constant_time_lt_w_def msb_w bit_simps less_top)

lemma zero_top: "bit (NOT a AND (a - 1)) 63 \<longleftrightarrow> a = 0" for a :: u64
proof (cases "a = 0")
  case False
  then have "unat (a - 1) = unat a - 1" by (simp add: unat_minus_one)
  moreover have "bit (NOT a AND (a - 1)) 63 \<longleftrightarrow> \<not> bit a 63 \<and> bit (a - 1) 63" by (simp add: bit_simps)
  ultimately show ?thesis using False by (auto simp: bit_top)
qed simp

lemma is_zero_w [ct_simps]: "constant_time_is_zero_w a = mask_w (a = 0)"
  by (simp add: constant_time_is_zero_w_def msb_w zero_top)

lemma eq_w [ct_simps]: "constant_time_eq_w a b = mask_w (a = b)"
  by (auto simp: constant_time_eq_w_def is_zero_w bit_eq_iff bit_simps)

lemma eq_8 [ct_simps]: "constant_time_eq_8 a b = mask_8 (a = b)"
  by (simp add: constant_time_eq_8_def eq_w mask_8_w)

lemma lt_8 [ct_simps]: "constant_time_lt_8 a b = mask_8 (a < b)"
  by (simp add: constant_time_lt_8_def lt_w mask_8_w)

lemma select_w [ct_simps]: "constant_time_select_w (mask_w c) a b = (if c then a else b)"
  by (simp add: constant_time_select_w_def value_barrier_w_def mask_w_def CONSTTIME_TRUE_W_def CONSTTIME_FALSE_W_def)

lemma select_8 [ct_simps]: "constant_time_select_8 (mask_8 c) a b = (if c then a else b)"
proof -
  have "constant_time_select_8 (mask_8 c) a b = (mask_8 c AND a) OR (NOT (mask_8 c) AND b)"
    unfolding constant_time_select_8_def constant_time_select_w_def value_barrier_w_def
    by (rule bit_word_eqI) (auto simp: bit_simps)
  also have "\<dots> = (if c then a else b)"
    by (simp add: mask_8_def CONSTTIME_TRUE_8_def CONSTTIME_FALSE_8_def ones_8)
  finally show ?thesis .
qed

lemma scast_inj: "scast (a :: u32) = (scast b :: u64) \<longleftrightarrow> a = b"
proof
  assume eq: "scast a = (scast b :: u64)"
  have "bit a n = bit b n" if "n < 32" for n
    using eq [THEN arg_cong, of "\<lambda>x. bit x n"] that by (auto simp: bit_simps)
  then show "a = b" by (intro bit_word_eqI) auto
qed simp

text \<open>C35:
  The constant-time functions compute the branching expressions that their comments give: the
  comparisons of unsigned words and of ints are the mask of the comparison, in all widths, and a selection
  by such a mask takes the first argument if the condition holds and the second if not.
\<close>

theorem constant_time_correct:
  "constant_time_lt_w a b = mask_w (a < b) \<and> constant_time_ge_w a b = mask_w (a \<ge> b) \<and>
   constant_time_eq_w a b = mask_w (a = b) \<and> constant_time_is_zero_w a = mask_w (a = 0) \<and>
   constant_time_lt_8 a b = mask_8 (a < b) \<and> constant_time_ge_8 a b = mask_8 (a \<ge> b) \<and>
   constant_time_eq_8 a b = mask_8 (a = b) \<and> constant_time_is_zero_8 a = mask_8 (a = 0) \<and>
   constant_time_eq_int i j = mask_w (i = j) \<and> constant_time_eq_int_8 i j = mask_8 (i = j) \<and>
   constant_time_select_w (mask_w c) a b = (if c then a else b) \<and>
   constant_time_select_8 (mask_8 c) x y = (if c then x else y) \<and>
   constant_time_select_int (mask_w c) i j = (if c then i else j)"
proof -
  have "constant_time_ge_w a b = mask_w (a \<ge> b)"
    by (auto simp: constant_time_ge_w_def lt_w mask_w_def CONSTTIME_TRUE_W_def CONSTTIME_FALSE_W_def not_less)
  moreover have "ucast (scast i :: u64) = i" for i :: u32 by (rule bit_word_eqI) (auto simp: bit_simps)
  ultimately show ?thesis
    by (simp add: ct_simps mask_8_w constant_time_ge_8_def constant_time_is_zero_8_def constant_time_eq_int_def
      constant_time_eq_int_8_def constant_time_select_int_def scast_inj)
qed

end
