(* ===== verification/Chunks.thy ===== *)
theory Chunks
  imports Prelude
begin

text \<open>
  Streams processed in pieces: the interface \<open>chunked\<close> of an operation that takes the next piece of the
  input, keeps a state and delivers output. Its law is a specification that works on the pieces
  put together, so how the input is cut up does not matter (\<open>steps_concat\<close>). Also writing at an
  index of a fixed array.
\<close>

definition patch :: "nat \<Rightarrow> 'a list \<Rightarrow> 'a list \<Rightarrow> 'a list" where
  "patch i xs ys = take i ys @ xs @ drop (i + length xs) ys"

lemma length_patch [simp]: "i + length xs \<le> length ys \<Longrightarrow> length (patch i xs ys) = length ys"
  by (simp add: patch_def)

lemma take_patch: "i + length xs \<le> length ys \<Longrightarrow> take (i + length xs) (patch i xs ys) = take i ys @ xs"
  by (simp add: patch_def)

lemma take_patch_0: "length xs \<le> length ys \<Longrightarrow> take (length xs) (patch 0 xs ys) = xs"
  by (simp add: patch_def)

lemma patch_full: "i \<le> length ys \<Longrightarrow> length ys \<le> i + length xs \<Longrightarrow> patch i xs ys = take i ys @ xs"
  by (simp add: patch_def)

locale chunked =
  fixes step :: "'x list \<Rightarrow> 's \<Rightarrow> ('y list \<times> 's) option"
    and abs :: "'s \<Rightarrow> 'a"
    and inv :: "'s \<Rightarrow> bool"
    and fits :: "'x list \<Rightarrow> bool"
    and spec :: "'x list \<Rightarrow> 'a \<Rightarrow> ('y list \<times> 'a) option"
  assumes step_spec: "inv s \<Longrightarrow> fits xs \<Longrightarrow>
      map_option (\<lambda>(out, s'). (out, abs s')) (step xs s) = spec xs (abs s)"
    and step_inv: "inv s \<Longrightarrow> fits xs \<Longrightarrow> step xs s = Some (out, s') \<Longrightarrow> inv s'"
    and spec_nil: "inv s \<Longrightarrow> spec [] (abs s) = Some ([], abs s)"
    and spec_append: "inv s \<Longrightarrow> spec (xs @ ys) (abs s) =
      Option.bind (spec xs (abs s)) (\<lambda>(o1, a1). map_option (\<lambda>(o2, a2). (o1 @ o2, a2)) (spec ys a1))"
begin

primrec steps :: "'x list list \<Rightarrow> 's \<Rightarrow> ('y list \<times> 's) option" where
  "steps [] s = Some ([], s)"
| "steps (xs # xss) s =
     Option.bind (step xs s) (\<lambda>(o1, s1). map_option (\<lambda>(o2, s2). (o1 @ o2, s2)) (steps xss s1))"

lemma steps_concat:
  "inv s \<Longrightarrow> \<forall>xs \<in> set xss. fits xs \<Longrightarrow>
   map_option (\<lambda>(out, s'). (out, abs s')) (steps xss s) = spec (concat xss) (abs s)"
proof (induction xss arbitrary: s)
  case Nil
  then show ?case by (simp add: spec_nil)
next
  case (Cons xs xss)
  note spec = step_spec [OF Cons.prems(1), of xs] and app = spec_append [OF Cons.prems(1), of xs "concat xss"]
  show ?case
  proof (cases "step xs s")
    case None
    with spec Cons.prems have "spec xs (abs s) = None" by simp
    with None app show ?thesis by simp
  next
    case (Some r)
    obtain o1 s1 where r: "r = (o1, s1)" by fastforce
    with Some spec Cons.prems have s: "spec xs (abs s) = Some (o1, abs s1)" by simp
    have "inv s1" using step_inv [OF Cons.prems(1) _ Some [unfolded r]] Cons.prems(2) by simp
    from Cons.IH [OF this] Cons.prems(2)
    have "map_option (\<lambda>(out, s'). (out, abs s')) (steps xss s1) = spec (concat xss) (abs s1)" by simp
    then show ?thesis
      by (cases "steps xss s1") (auto simp: Some r app s dest!: sym [of _ "spec _ _"])
  qed
qed

lemma steps_inv:
  "inv s \<Longrightarrow> \<forall>xs \<in> set xss. fits xs \<Longrightarrow> steps xss s = Some (out, s') \<Longrightarrow> inv s'"
proof (induction xss arbitrary: s out)
  case (Cons xs xss)
  then obtain o1 s1 o2 where "step xs s = Some (o1, s1)" "steps xss s1 = Some (o2, s')"
    by (auto simp: bind_eq_Some_conv)
  with Cons show ?case by (meson list.set_intros step_inv)
qed simp

text \<open>Two ways of cutting up the same input.\<close>

lemma steps_cut:
  assumes "inv s" "\<forall>xs \<in> set xss \<union> set yss. fits xs" "concat xss = concat yss"
  shows "map_option (\<lambda>(out, s'). (out, abs s')) (steps xss s) = map_option (\<lambda>(out, s'). (out, abs s')) (steps yss s)"
  using assms by (simp add: steps_concat)

end

end
