(* ===== verification/Base64.thy ===== *)
theory Base64
  imports ConstTime Chunks
begin

text \<open>
  Base64 of BoringSSL (\<open>crypto/base64/base64.c\<close>): encoding and decoding of a block, and the streaming
  versions, which break the text into lines of 64 characters and skip white space. Pointers that
  move along an input are the rest of the list; what is written through an output pointer is the
  list of the bytes from that pointer on.
\<close>

section \<open>The code\<close>

definition constant_time_lt_args_8 :: "byte \<Rightarrow> byte \<Rightarrow> byte" where
  "constant_time_lt_args_8 a b = (let aw = ucast a; bw = ucast b in ucast (constant_time_msb_w (aw - bw)))"

definition constant_time_in_range_8 :: "byte \<Rightarrow> byte \<Rightarrow> byte \<Rightarrow> byte" where
  "constant_time_in_range_8 a0 lo hi = (let a = a0 - lo in constant_time_lt_args_8 a (hi - lo + 1))"

definition conv_bin2ascii :: "byte \<Rightarrow> byte" where
  "conv_bin2ascii a0 =
     (let a = a0 AND 0x3f;
          r = constant_time_select_8 (constant_time_eq_8 (ucast a) 62) 43 47;
          r = constant_time_select_8 (constant_time_lt_args_8 a 62) (a - 52 + 48) r;
          r = constant_time_select_8 (constant_time_lt_args_8 a 52) (a - 26 + 97) r;
          r = constant_time_select_8 (constant_time_lt_args_8 a 26) (a + 65) r
      in r)"

definition EVP_EncodedLength :: "nat \<Rightarrow> nat option" where
  "EVP_EncodedLength len0 =
     (if size_add len0 2 < len0 then None
      else
        let len = size_add len0 2 div 3 in
        if size_mul len 4 div 4 \<noteq> len then None
        else
          let len = size_mul len 4 in
          if size_add len 1 < len then None else Some (size_add len 1))"

record evp_encode_ctx =
  data_used :: nat
  ectx_data :: "byte list"
  eof_seen :: bool
  error_encountered :: bool

definition EVP_EncodeInit :: "evp_encode_ctx \<Rightarrow> evp_encode_ctx" where
  "EVP_EncodeInit ctx =
     \<lparr>data_used = 0, ectx_data = replicate 48 0, eof_seen = False, error_encountered = False\<rparr>"

text \<open>The loop of \<open>EVP_EncodeBlock\<close>: what it writes and what it adds to \<open>ret\<close>.\<close>

fun encode_block_loop :: "byte list \<Rightarrow> nat \<Rightarrow> byte list \<times> nat" where
  "encode_block_loop [] r = ([], r)"
| "encode_block_loop (a # b # c # src) r =
     (let l = push_bit 16 (ucast a) OR push_bit 8 (ucast b) OR ucast c :: u32;
          (dst, r') = encode_block_loop src (size_add r 4)
      in (conv_bin2ascii (ucast (drop_bit 18 l)) # conv_bin2ascii (ucast (drop_bit 12 l)) #
          conv_bin2ascii (ucast (drop_bit 6 l)) # conv_bin2ascii (ucast l) # dst, r'))"
| "encode_block_loop (a # src) r =
     (let l = push_bit 16 (ucast a) :: u32;
          l = (case src of [] \<Rightarrow> l | b # _ \<Rightarrow> l OR push_bit 8 (ucast b))
      in ([conv_bin2ascii (ucast (drop_bit 18 l)), conv_bin2ascii (ucast (drop_bit 12 l)),
           if src = [] then 61 else conv_bin2ascii (ucast (drop_bit 6 l)), 61], size_add r 4))"

definition EVP_EncodeBlock :: "byte list \<Rightarrow> byte list \<times> nat" where
  "EVP_EncodeBlock src = (case encode_block_loop src 0 of (dst, r) \<Rightarrow> (dst @ [0], r))"

text \<open>The loop over the full lines, on what is at \<open>out\<close> so far; \<open>None\<close> when \<open>total\<close> would wrap.\<close>

function encode_update_loop :: "byte list \<Rightarrow> byte list \<Rightarrow> nat \<Rightarrow> byte list \<times> (byte list \<times> nat) option" where
  "encode_update_loop inp out tot =
     (if length inp \<ge> 48 then
        (case EVP_EncodeBlock (take 48 inp) of
           (dst, encoded) \<Rightarrow>
             let out' = take tot out @ take encoded dst @ [10, 0] in
             if size_add (size_add tot encoded) 1 < tot then (out', None)
             else encode_update_loop (drop 48 inp) out' (size_add tot (encoded + 1)))
      else (out, Some (inp, tot)))"
  by pat_completeness auto
termination
  by (relation "measure (\<lambda>(inp, out, tot). length inp)") auto

declare encode_update_loop.simps [simp del]

text \<open>What is at \<open>out\<close>, \<open>*out_len\<close>, and the context.\<close>

definition EVP_EncodeUpdate :: "evp_encode_ctx \<Rightarrow> byte list \<Rightarrow> byte list \<times> int \<times> evp_encode_ctx" where
  "EVP_EncodeUpdate ctx inp =
     (if length inp = 0 then ([], 0, ctx)
      else if 48 - data_used ctx > length inp
        then ([], 0, ctx\<lparr>ectx_data := patch (data_used ctx) inp (ectx_data ctx),
                         data_used := data_used ctx + length inp\<rparr>)
      else
        let (out, tot, inp1, ctx1) =
          (if data_used ctx \<noteq> 0 then
             let todo = 48 - data_used ctx;
                 d = patch (data_used ctx) (take todo inp) (ectx_data ctx);
                 (dst, encoded) = EVP_EncodeBlock d
             in (take encoded dst @ [10, 0], encoded + 1, drop todo inp, ctx\<lparr>ectx_data := d, data_used := 0\<rparr>)
           else ([], 0, inp, ctx)) in
        case encode_update_loop inp1 out tot of
          (out', None) \<Rightarrow> (out', 0, ctx1)
        | (out', Some (inp2, tot')) \<Rightarrow>
            (out', if tot' > INT_MAX then 0 else int tot',
             ctx1\<lparr>ectx_data := (if length inp2 \<noteq> 0 then patch 0 inp2 (ectx_data ctx1) else ectx_data ctx1),
                  data_used := length inp2\<rparr>))"

definition EVP_EncodeFinal :: "evp_encode_ctx \<Rightarrow> byte list \<times> int \<times> evp_encode_ctx" where
  "EVP_EncodeFinal ctx =
     (if data_used ctx = 0 then ([], 0, ctx)
      else
        (case EVP_EncodeBlock (take (data_used ctx) (ectx_data ctx)) of
           (dst, encoded) \<Rightarrow> (take encoded dst @ [10, 0], int (encoded + 1), ctx\<lparr>data_used := 0\<rparr>)))"

definition EVP_DecodedLength :: "nat \<Rightarrow> nat option" where
  "EVP_DecodedLength len = (if len mod 4 \<noteq> 0 then None else Some (len div 4 * 3))"

definition EVP_DecodeInit :: "evp_encode_ctx \<Rightarrow> evp_encode_ctx" where
  "EVP_DecodeInit ctx =
     \<lparr>data_used = 0, ectx_data = replicate 48 0, eof_seen = False, error_encountered = False\<rparr>"

definition base64_ascii_to_bin :: "byte \<Rightarrow> byte" where
  "base64_ascii_to_bin a =
     (let is_upper = constant_time_in_range_8 a 65 90;
          is_lower = constant_time_in_range_8 a 97 122;
          is_digit = constant_time_in_range_8 a 48 57;
          is_plus = constant_time_eq_8 (ucast a) 43;
          is_slash = constant_time_eq_8 (ucast a) 47;
          is_equals = constant_time_eq_8 (ucast a) 61;
          r = 0xff;
          r = constant_time_select_8 is_upper (a - 65) r;
          r = constant_time_select_8 is_lower (a - 97 + 26) r;
          r = constant_time_select_8 is_digit (a - 48 + 52) r;
          r = constant_time_select_8 is_plus 62 r;
          r = constant_time_select_8 is_slash 63 r;
          r = constant_time_select_8 is_equals 0 r
      in r)"

definition padding_pattern :: "byte list \<Rightarrow> nat" where
  "padding_pattern inp =
     of_bool (inp ! 0 = 61) * 8 + of_bool (inp ! 1 = 61) * 4 + of_bool (inp ! 2 = 61) * 2 + of_bool (inp ! 3 = 61)"

text \<open>The bytes written to \<open>out\<close>; how many is \<open>*out_num_bytes\<close>.\<close>

definition base64_decode_quad :: "byte list \<Rightarrow> byte list option" where
  "base64_decode_quad inp =
     (let a = base64_ascii_to_bin (inp ! 0);
          b = base64_ascii_to_bin (inp ! 1);
          c = base64_ascii_to_bin (inp ! 2);
          d = base64_ascii_to_bin (inp ! 3)
      in if a = 0xff \<or> b = 0xff \<or> c = 0xff \<or> d = 0xff then None
         else
           let v = push_bit 18 (ucast a) OR push_bit 12 (ucast b) OR push_bit 6 (ucast c) OR ucast d :: u32 in
           (if padding_pattern inp = 0 then Some [ucast (drop_bit 16 v), ucast (drop_bit 8 v), ucast v]
            else if padding_pattern inp = 1 then Some [ucast (drop_bit 16 v), ucast (drop_bit 8 v)]
            else if padding_pattern inp = 3 then Some [ucast (drop_bit 16 v)]
            else None))"

definition is_blank :: "byte \<Rightarrow> bool" where
  "is_blank c = (c = 32 \<or> c = 9 \<or> c = 13 \<or> c = 10)"

text \<open>The loop of \<open>EVP_DecodeUpdate\<close>: whether it got to the end, what it wrote, and the context.\<close>

primrec decode_update_loop :: "byte list \<Rightarrow> evp_encode_ctx \<Rightarrow> bool \<times> byte list \<times> evp_encode_ctx" where
  "decode_update_loop [] ctx = (True, [], ctx)"
| "decode_update_loop (c # inp) ctx =
     (if is_blank c then decode_update_loop inp ctx
      else if eof_seen ctx then (False, [], ctx\<lparr>error_encountered := True\<rparr>)
      else
        let ctx1 = ctx\<lparr>ectx_data := (ectx_data ctx)[data_used ctx := c], data_used := data_used ctx + 1\<rparr> in
        if data_used ctx1 = 4 then
          (case base64_decode_quad (ectx_data ctx1) of
             None \<Rightarrow> (False, [], ctx1\<lparr>error_encountered := True\<rparr>)
           | Some bytes \<Rightarrow>
               let ctx2 = ctx1\<lparr>data_used := 0, eof_seen := (if length bytes < 3 then True else eof_seen ctx1)\<rparr> in
               (case decode_update_loop inp ctx2 of (ok, out, ctx3) \<Rightarrow> (ok, bytes @ out, ctx3)))
        else decode_update_loop inp ctx1)"

text \<open>The result, \<open>*out_len\<close>, what is at \<open>out\<close>, and the context.\<close>

definition EVP_DecodeUpdate ::
    "evp_encode_ctx \<Rightarrow> byte list \<Rightarrow> int \<times> int \<times> byte list \<times> evp_encode_ctx" where
  "EVP_DecodeUpdate ctx inp =
     (if error_encountered ctx then (-1, 0, [], ctx)
      else
        (case decode_update_loop inp ctx of
           (False, out, ctx1) \<Rightarrow> (-1, 0, out, ctx1)
         | (True, out, ctx1) \<Rightarrow>
             if length out > INT_MAX then (-1, 0, out, ctx1\<lparr>error_encountered := True\<rparr>)
             else (if eof_seen ctx1 then 0 else 1, int (length out), out, ctx1)))"

definition EVP_DecodeFinal :: "evp_encode_ctx \<Rightarrow> int \<times> int" where
  "EVP_DecodeFinal ctx = (if error_encountered ctx \<or> data_used ctx \<noteq> 0 then (-1, 0) else (1, 0))"

text \<open>The loop of \<open>EVP_DecodeBase64\<close>, on the rest of the input; it is at the last quad when four bytes are left.\<close>

fun decode_base64_loop :: "byte list \<Rightarrow> byte list option" where
  "decode_base64_loop inp =
     (if inp = [] then Some []
      else
        (case base64_decode_quad inp of
           None \<Rightarrow> None
         | Some bytes \<Rightarrow>
             if length bytes \<noteq> 3 \<and> length inp \<noteq> 4 then None
             else (case decode_base64_loop (drop 4 inp) of None \<Rightarrow> None | Some out \<Rightarrow> Some (bytes @ out))))"

declare decode_base64_loop.simps [simp del]

text \<open>\<open>None\<close> is the result 0, with \<open>*out_len = 0\<close>.\<close>

definition EVP_DecodeBase64 :: "nat \<Rightarrow> byte list \<Rightarrow> byte list option" where
  "EVP_DecodeBase64 max_out inp =
     (if length inp mod 4 \<noteq> 0 then None
      else
        (case EVP_DecodedLength (length inp) of
           None \<Rightarrow> None
         | Some max_len \<Rightarrow> if max_out < max_len then None else decode_base64_loop inp))"

text \<open>What is at \<open>dst\<close> when the result is its length; \<open>None\<close> is the result -1.\<close>

definition EVP_DecodeBlock :: "byte list \<Rightarrow> byte list option" where
  "EVP_DecodeBlock src =
     (let src1 = dropWhile (\<lambda>c. c = 32 \<or> c = 9) src;
          src2 = rev (dropWhile is_blank (rev src1))
      in case EVP_DecodedLength (length src2) of
           None \<Rightarrow> None
         | Some dst_len \<Rightarrow>
             if dst_len > INT_MAX then None
             else
               (case EVP_DecodeBase64 dst_len src2 of
                  None \<Rightarrow> None
                | Some dst \<Rightarrow> Some (dst @ replicate ((3 - length dst mod 3) mod 3) 0)))"

section \<open>The alphabet\<close>

lemma lt_args_8 [ct_simps]: "constant_time_lt_args_8 a b = mask_8 (a < b)"
proof -
  have "\<not> bit (ucast x :: u64) 63" for x :: byte by (simp add: bit_simps) (auto dest: bit_imp_le_length)
  then have "(ucast a :: u64) < ucast b \<longleftrightarrow> bit (ucast a - ucast b :: u64) 63" by (simp add: less_top)
  moreover have "(ucast a :: u64) < ucast b \<longleftrightarrow> a < b" by (simp add: word_less_nat_alt unat_ucast_up)
  ultimately show ?thesis by (simp add: constant_time_lt_args_8_def msb_w mask_8_w Let_def)
qed

lemma in_range_8 [ct_simps]:
  assumes "lo \<le> hi" "hi < 0xff"
  shows "constant_time_in_range_8 a lo hi = mask_8 (lo \<le> a \<and> a \<le> hi)"
proof -
  have "unat (hi - lo + 1) = unat hi - unat lo + 1"
    using assms by (simp add: unat_word_ariths unat_sub word_le_nat_alt word_less_nat_alt)
  moreover have "unat (a - lo) = (if lo \<le> a then unat a - unat lo else unat a + 256 - unat lo)"
    by (simp add: unat_sub_if_size word_size word_le_nat_alt)
  ultimately have "a - lo < hi - lo + 1 \<longleftrightarrow> lo \<le> a \<and> a \<le> hi"
    using assms unsigned_less [of hi] unsigned_less [of a] by (auto simp: word_less_nat_alt word_le_nat_alt)
  then show ?thesis by (simp add: constant_time_in_range_8_def lt_args_8 Let_def)
qed

lemma byte_eq: "w < 256 \<Longrightarrow> ucast x = w \<longleftrightarrow> x = ucast w" for x :: byte and w :: u64
proof -
  assume "w < 256"
  then have "unat (ucast w :: byte) = unat w" by (simp add: word_less_nat_alt unsigned_ucast_eq take_bit_eq_mod)
  then show ?thesis by (auto simp: word_unat_eq_iff unat_ucast_up)
qed

lemma conv_bin2ascii_eq:
  "conv_bin2ascii a =
     (let s = take_bit 6 a in
      if s < 26 then s + 65 else if s < 52 then s - 26 + 97 else if s < 62 then s - 52 + 48
      else if s = 62 then 43 else 47)"
proof -
  have "a AND 0x3f = take_bit 6 a" by (simp add: take_bit_eq_mask mask_numeral)
  then show ?thesis by (simp add: conv_bin2ascii_def ct_simps byte_eq Let_def)
qed


lemma base64_ascii_to_bin_eq:
  "base64_ascii_to_bin c =
     (if c = 61 then 0 else if c = 47 then 63 else if c = 43 then 62
      else if 48 \<le> c \<and> c \<le> 57 then c - 48 + 52 else if 97 \<le> c \<and> c \<le> 122 then c - 97 + 26
      else if 65 \<le> c \<and> c \<le> 90 then c - 65 else 0xff)"
  by (simp add: base64_ascii_to_bin_def ct_simps byte_eq Let_def)

lemma byte_add: "unat (a + b) = (if unat a + unat b < 256 then unat a + unat b else unat a + unat b - 256)" for a b :: byte
proof -
  have sum: "unat (a + b) = (unat a + unat b) mod 256" by (simp add: unat_word_ariths)
  show ?thesis
  proof (cases "unat a + unat b < 256")
    case False
    then have "(unat a + unat b) mod 256 = (unat a + unat b - 256) mod 256" by (intro le_mod_geq) simp
    moreover have "unat x < 256" for x :: byte using unsigned_less [of x] by simp
    from this [of a] this [of b] have "(unat a + unat b - 256) mod 256 = unat a + unat b - 256" by (intro mod_less) simp
    ultimately show ?thesis using False sum by simp
  qed (simp add: sum)
qed

lemma byte_sub: "unat (a - b) = (if unat b \<le> unat a then unat a - unat b else unat a + 256 - unat b)" for a b :: byte
  unfolding unat_sub_if_size word_size by simp

lemmas byte_arith = byte_add byte_sub word_le_nat_alt word_less_nat_alt word_unat_eq_iff

lemma sextet_lt: "unat (take_bit 6 (a :: byte)) < 64"
  by (simp add: take_bit_eq_mod unat_mod)

lemma sextet_id: "take_bit 6 (a :: byte) = a \<longleftrightarrow> unat a < 64"
  unfolding word_unat_eq_iff take_bit_eq_mod unat_mod using mod_less_divisor [of 64 "unat a"] by auto

text \<open>The five ranges of the alphabet.\<close>

lemma sextet_cases:
  assumes "unat (s :: byte) < 64"
  obtains "unat s < 26" | "26 \<le> unat s" "unat s < 52" | "52 \<le> unat s" "unat s < 62" | "unat s = 62" | "unat s = 63"
  using assms by linarith

lemma bin_conv: "base64_ascii_to_bin (conv_bin2ascii a) = take_bit 6 a"
  using sextet_lt [of a]
  by (rule sextet_cases) (simp_all add: conv_bin2ascii_eq Let_def base64_ascii_to_bin_eq byte_arith, arith)

lemma conv_range: "conv_bin2ascii a \<noteq> 61 \<and> \<not> is_blank (conv_bin2ascii a)"
  using sextet_lt [of a]
  by (rule sextet_cases) (simp_all add: conv_bin2ascii_eq Let_def is_blank_def byte_arith, arith)

text \<open>The characters that are not refused.\<close>

lemma bin_cases:
  assumes "base64_ascii_to_bin c \<noteq> 0xff"
  obtains "c = 61" | "c = 47" | "c = 43" | "48 \<le> unat c" "unat c \<le> 57" | "97 \<le> unat c" "unat c \<le> 122"
    | "65 \<le> unat c" "unat c \<le> 90"
  using assms by (auto simp: base64_ascii_to_bin_eq word_le_nat_alt split: if_splits)

lemma bin_range:
  assumes "base64_ascii_to_bin c \<noteq> 0xff"
  shows "unat (base64_ascii_to_bin c) < 64"
  using assms by (rule bin_cases) (simp_all add: base64_ascii_to_bin_eq byte_arith)

lemma conv_bin:
  assumes "base64_ascii_to_bin c \<noteq> 0xff" "c \<noteq> 61"
  shows "conv_bin2ascii (base64_ascii_to_bin c) = c"
proof -
  have id: "take_bit 6 (base64_ascii_to_bin c) = base64_ascii_to_bin c"
    using bin_range [OF assms(1)] by (simp add: sextet_id)
  show ?thesis
    using assms(1) unfolding conv_bin2ascii_eq Let_def id
    by (rule bin_cases) (use assms(2) in \<open>simp_all add: base64_ascii_to_bin_eq byte_arith\<close>, arith)
qed

section \<open>Blocks\<close>

text \<open>The text of a block, without the NUL.\<close>

fun base64 :: "byte list \<Rightarrow> byte list" where
  "base64 [] = []"
| "base64 (a # b # c # src) = take 4 (fst (encode_block_loop [a, b, c] 0)) @ base64 src"
| "base64 [a] = fst (encode_block_loop [a] 0)"
| "base64 [a, b] = fst (encode_block_loop [a, b] 0)"

lemma base64_length: "length (base64 src) = (length src + 2) div 3 * 4"
proof (induction src rule: base64.induct)
  case (2 a b c src)
  have "(length (a # b # c # src) + 2) div 3 = (length src + 2) div 3 + 1" by simp
  with 2 show ?case by (simp add: Let_def)
qed (auto simp: Let_def)

lemma encode_block_loop_eq:
  "r + length (base64 src) < 2 ^ 64 \<Longrightarrow> encode_block_loop src r = (base64 src, r + length (base64 src))"
  by (induction src r rule: encode_block_loop.induct) (auto simp: Let_def size_add_small)

lemma EVP_EncodeBlock_eq:
  "length (base64 src) < 2 ^ 64 \<Longrightarrow> EVP_EncodeBlock src = (base64 src @ [0], length (base64 src))"
  by (simp add: EVP_EncodeBlock_def encode_block_loop_eq)

lemma base64_take: "length src \<le> 48 \<Longrightarrow> EVP_EncodeBlock src = (base64 src @ [0], length (base64 src))"
  by (rule EVP_EncodeBlock_eq) (simp add: base64_length)

lemma base64_chars: "\<forall>c \<in> set (base64 src). \<not> is_blank c"
proof -
  have [simp]: "\<not> is_blank 61" "\<not> is_blank (conv_bin2ascii x)" for x
    by (simp add: is_blank_def) (simp add: conv_range)
  show ?thesis by (induction src rule: base64.induct) (auto simp: Let_def)
qed

text \<open>A quad without padding, from the sextets of \<open>l\<close>, and its bytes.\<close>

lemma sextets:
  fixes l :: u32
  shows "push_bit 18 (ucast (take_bit 6 (ucast (drop_bit 18 l) :: byte))) OR
    push_bit 12 (ucast (take_bit 6 (ucast (drop_bit 12 l) :: byte))) OR
    push_bit 6 (ucast (take_bit 6 (ucast (drop_bit 6 l) :: byte))) OR ucast (take_bit 6 (ucast l :: byte)) =
    take_bit 24 l" (is "?v = _")
proof (rule bit_word_eqI)
  fix n assume "n < LENGTH(32)"
  then consider "n < 6" | "6 \<le> n" "n < 12" | "12 \<le> n" "n < 18" | "18 \<le> n" "n < 24" | "24 \<le> n" "n < 32" by fastforce
  then show "bit ?v n = bit (take_bit 24 l) n" by cases (auto simp: bit_simps)
qed

lemma sextet_ok [simp]: "take_bit 6 (x :: byte) \<noteq> 0xff"
  using sextet_lt [of x] by (auto simp: word_unat_eq_iff)

lemma low_bytes:
  fixes l :: u32
  shows "ucast (drop_bit 16 (take_bit 24 l)) = (ucast (drop_bit 16 l) :: byte)"
    "ucast (drop_bit 8 (take_bit 24 l)) = (ucast (drop_bit 8 l) :: byte)" "ucast (take_bit 24 l) = (ucast l :: byte)"
  by (rule bit_word_eqI; simp add: bit_simps)+

lemma bin_equals: "base64_ascii_to_bin 61 = 0"
  by (simp add: base64_ascii_to_bin_eq)

lemmas quad_simps = base64_decode_quad_def padding_pattern_def bin_conv conv_range bin_equals low_bytes

lemma quad_full:
  "base64_decode_quad (conv_bin2ascii (ucast (drop_bit 18 l)) # conv_bin2ascii (ucast (drop_bit 12 l)) #
     conv_bin2ascii (ucast (drop_bit 6 l)) # conv_bin2ascii (ucast l) # rest) =
   Some [ucast (drop_bit 16 l), ucast (drop_bit 8 l), ucast l]" for l :: u32
  by (simp add: quad_simps sextets)

lemma quad_pad1:
  "take_bit 6 (ucast l :: byte) = 0 \<Longrightarrow>
   base64_decode_quad (conv_bin2ascii (ucast (drop_bit 18 l)) # conv_bin2ascii (ucast (drop_bit 12 l)) #
     conv_bin2ascii (ucast (drop_bit 6 l)) # 61 # rest) = Some [ucast (drop_bit 16 l), ucast (drop_bit 8 l)]" for l :: u32
  using sextets [of l] by (simp add: quad_simps)

lemma quad_pad2:
  "take_bit 6 (ucast l :: byte) = 0 \<Longrightarrow> take_bit 6 (ucast (drop_bit 6 l) :: byte) = 0 \<Longrightarrow>
   base64_decode_quad (conv_bin2ascii (ucast (drop_bit 18 l)) # conv_bin2ascii (ucast (drop_bit 12 l)) # 61 # 61 # rest) =
   Some [ucast (drop_bit 16 l)]" for l :: u32
  using sextets [of l] by (simp add: quad_simps)

definition group :: "byte \<Rightarrow> byte \<Rightarrow> byte \<Rightarrow> u32" where
  "group a b c = push_bit 16 (ucast a) OR push_bit 8 (ucast b) OR ucast c"

lemma group_bytes:
  "ucast (drop_bit 16 (group a b c)) = a" "ucast (drop_bit 8 (group a b c)) = b" "ucast (group a b c) = c"
  "take_bit 6 (ucast (drop_bit 6 (group a 0 0)) :: byte) = 0"
  unfolding group_def by (rule bit_word_eqI; auto simp: bit_simps dest: bit_imp_le_length)+

lemma base64_shape:
  "base64 (a # b # c # src) =
    conv_bin2ascii (ucast (drop_bit 18 (group a b c))) # conv_bin2ascii (ucast (drop_bit 12 (group a b c))) #
    conv_bin2ascii (ucast (drop_bit 6 (group a b c))) # conv_bin2ascii (ucast (group a b c)) # base64 src"
  "base64 [a, b] =
    [conv_bin2ascii (ucast (drop_bit 18 (group a b 0))), conv_bin2ascii (ucast (drop_bit 12 (group a b 0))),
     conv_bin2ascii (ucast (drop_bit 6 (group a b 0))), 61]"
  "base64 [a] =
    [conv_bin2ascii (ucast (drop_bit 18 (group a 0 0))), conv_bin2ascii (ucast (drop_bit 12 (group a 0 0))), 61, 61]"
  by (simp_all add: Let_def group_def)

text \<open>How the text is made of quads, and what each of them decodes to.\<close>

lemma take_4: "take 4 (w # x # y # z # r) = [w, x, y, z]"
  by simp

lemma base64_quads:
  "base64 (a # b # c # src) = take 4 (base64 (a # b # c # src)) @ base64 src"
  "base64_decode_quad (take 4 (base64 (a # b # c # src)) @ rest) = Some [a, b, c]"
  "base64_decode_quad (base64 [a, b] @ rest) = Some [a, b]"
  "base64_decode_quad (base64 [a] @ rest) = Some [a]"
  by (simp_all only: base64_shape append.simps take_4 quad_full)
    (simp_all add: quad_pad1 quad_pad2 group_bytes)

lemma quad_length:
  "length (take 4 (base64 (a # b # c # src))) = 4" "length (base64 [a, b]) = 4" "length (base64 [a]) = 4"
  by (simp_all only: length_take base64_length) simp_all

text \<open>Only the last two lemmas are used of the text of a group from here on.\<close>

declare base64.simps(2-) [simp del]

lemma decode_last:
  assumes "length q = 4" "base64_decode_quad q = Some bytes"
  shows "decode_base64_loop q = Some bytes"
  using assms by (subst decode_base64_loop.simps) (auto simp: decode_base64_loop.simps [of "[]"])

lemma decode_base64: "decode_base64_loop (base64 src) = Some src"
proof (induction src rule: base64.induct)
  case (2 a b c src)
  let ?q = "take 4 (base64 (a # b # c # src))"
  have "decode_base64_loop (?q @ base64 src) = Some (a # b # c # src)"
    using 2 quad_length(1) [of a b c src] base64_quads(2) [of a b c src]
    by (subst decode_base64_loop.simps) auto
  then show ?case by (metis base64_quads(1))
next
  case (3 v)
  show ?case using base64_quads(4) [of v "[]"] by (intro decode_last quad_length) simp
next
  case (4 v w)
  show ?case using base64_quads(3) [of v w "[]"] by (intro decode_last quad_length) simp
qed (simp add: decode_base64_loop.simps)

section \<open>Round trip of a block\<close>

lemma base64_bound: "length src < 2 ^ 63 \<Longrightarrow> length (base64 src) + 1 < 2 ^ 64"
  by (simp add: base64_length)

lemma EVP_EncodedLength_eq:
  assumes "length src < 2 ^ 63"
  shows "EVP_EncodedLength (length src) = Some (length (base64 src) + 1)"
proof -
  let ?n = "(length src + 2) div 3"
  have "?n * 4 + 1 < 2 ^ 64" using base64_bound [OF assms] by (simp add: base64_length)
  then have "size_add (length src) 2 = length src + 2" "size_mul ?n 4 = ?n * 4" "size_add (?n * 4) 1 = ?n * 4 + 1"
    using assms by (simp_all add: size_simps)
  then show ?thesis by (simp add: EVP_EncodedLength_def base64_length Let_def)
qed

text \<open>C36:
  Encoding a block and decoding the text gives the block back: \<open>EVP_EncodeBlock\<close> writes as many
  characters as its result says and a NUL, which is the number that \<open>EVP_EncodedLength\<close> announces, and
  \<open>EVP_DecodeBase64\<close> with room for the number of bytes that \<open>EVP_DecodedLength\<close> announces decodes them.
\<close>

theorem EVP_block_roundtrip:
  assumes "length src < 2 ^ 63" "EVP_EncodeBlock src = (out, n)" "EVP_DecodedLength n = Some m" "m \<le> max_out"
  shows "EVP_EncodedLength (length src) = Some (n + 1) \<and> length out = n + 1 \<and> out ! n = 0 \<and>
    EVP_DecodeBase64 max_out (take n out) = Some src"
proof -
  have b: "EVP_EncodeBlock src = (base64 src @ [0], length (base64 src))"
    using base64_bound [OF assms(1)] by (intro EVP_EncodeBlock_eq) simp
  have "length (base64 src) mod 4 = 0" by (simp add: base64_length)
  then show ?thesis
    using assms EVP_EncodedLength_eq [OF assms(1)] decode_base64 [of src]
    by (auto simp: b EVP_DecodeBase64_def EVP_DecodedLength_def)
qed

lemma base64_Man: "base64 [77, 97, 110] = [84, 87, 70, 117]" "base64 [77] = [84, 81, 61, 61]"
  by (simp_all add: base64_shape group_def conv_bin2ascii_eq)

theorem EVP_block_roundtrip_witness:
  "EVP_DecodeBase64 3 [84, 81, 61, 61] = Some [77]"
  using EVP_block_roundtrip [of "[77]" "[84, 81, 61, 61, 0]" 4 3 3]
  by (simp add: EVP_EncodeBlock_eq base64_Man EVP_DecodedLength_def)

text \<open>
  \<open>EVP_DecodeBlock\<close> decodes a base64 text with spaces and tabs before it and white space after it, and
  fills the result with zero bytes up to a multiple of three.
\<close>

theorem EVP_DecodeBlock_text:
  assumes "\<forall>c \<in> set before. c = 32 \<or> c = 9" "\<forall>c \<in> set after. is_blank c" "length src \<le> INT_MAX - 2"
  shows "EVP_DecodeBlock (before @ base64 src @ after) = Some (src @ replicate ((3 - length src mod 3) mod 3) 0)"
proof (cases "src = []")
  case True
  have "dropWhile (\<lambda>c. c = 32 \<or> c = 9) (before @ after) = dropWhile (\<lambda>c. c = 32 \<or> c = 9) after"
    using assms(1) by (simp add: dropWhile_append2)
  moreover have "\<forall>c \<in> set (rev (dropWhile (\<lambda>c. c = 32 \<or> c = 9) after)). is_blank c"
    using assms(2) by (auto dest: set_dropWhileD)
  ultimately have "dropWhile is_blank (rev (dropWhile (\<lambda>c. c = 32 \<or> c = 9) (before @ base64 src @ after))) = []"
    using True by simp
  then show ?thesis
    unfolding EVP_DecodeBlock_def Let_def
    by (simp only:) (simp add: True EVP_DecodedLength_def EVP_DecodeBase64_def decode_base64_loop.simps)
next
  case False
  then have len: "length (base64 src) \<noteq> 0" by (cases src) (simp_all add: base64_length)
  then obtain c cs where first: "base64 src = c # cs" by (cases "base64 src") auto
  from len obtain ds d where last_char: "base64 src = ds @ [d]" by (cases "base64 src" rule: rev_cases) auto
  have "\<not> is_blank c" "\<not> is_blank d"
    using base64_chars [of src] by (simp add: first) (use base64_chars [of src] in \<open>simp add: last_char\<close>)
  then have "c \<noteq> 32 \<and> c \<noteq> 9" "\<not> is_blank d" by (auto simp: is_blank_def)
  then have "dropWhile (\<lambda>c. c = 32 \<or> c = 9) (before @ base64 src @ after) = base64 src @ after"
    using assms(1) by (simp add: dropWhile_append2 first)
  moreover have "dropWhile is_blank (rev after @ d # rev ds) = d # rev ds"
    using assms(2) \<open>\<not> is_blank d\<close> by (subst dropWhile_append2) auto
  then have "dropWhile is_blank (rev (base64 src @ after)) = rev (base64 src)" by (simp add: last_char)
  moreover have "EVP_DecodedLength (length (base64 src)) = Some ((length src + 2) div 3 * 3)"
    by (simp add: EVP_DecodedLength_def base64_length)
  moreover have "(length src + 2) div 3 * 3 \<le> INT_MAX" "length (base64 src) mod 4 = 0"
    using assms(3) by (simp_all add: INT_MAX_def base64_length)
  ultimately show ?thesis by (simp add: EVP_DecodeBlock_def EVP_DecodeBase64_def decode_base64)
qed

theorem EVP_DecodeBlock_text_witness: "EVP_DecodeBlock [32, 84, 81, 61, 61, 10] = Some [77, 0, 0]"
  using EVP_DecodeBlock_text [of "[32]" "[10]" "[77]"]
  by (simp add: base64_Man is_blank_def INT_MAX_def numeral_2_eq_2)

end
