(* ===== verification/Base64Stream.thy ===== *)
theory Base64Stream
  imports Base64
begin

text \<open>
  What the streaming functions of \<open>base64.c\<close> compute, whatever pieces the input comes in: the encoder
  writes lines of 64 characters, the decoder reads quads across pieces and white space. Both are
  instances of the interface \<open>chunked\<close>; a piece is at most a gigabyte, so that lengths fit an \<open>int\<close>.
\<close>

definition piece :: "byte list \<Rightarrow> bool" where
  "piece xs \<longleftrightarrow> length xs \<le> 2 ^ 30"

section \<open>The encoder\<close>

text \<open>The full lines of an input, and the bytes that do not fill a line.\<close>

function full_lines :: "byte list \<Rightarrow> byte list \<times> byte list" where
  "full_lines ys =
     (if length ys \<ge> 48
      then (case full_lines (drop 48 ys) of (out, rest) \<Rightarrow> (base64 (take 48 ys) @ [10] @ out, rest))
      else ([], ys))"
  by pat_completeness auto
termination by (relation "measure length") auto

declare full_lines.simps [simp del]

lemma full_lines_short: "length ys < 48 \<Longrightarrow> full_lines ys = ([], ys)"
  by (simp add: full_lines.simps)

lemma full_lines_line:
  "length ys = 48 \<Longrightarrow> full_lines (ys @ zs) = (base64 ys @ [10] @ fst (full_lines zs), snd (full_lines zs))"
  by (subst full_lines.simps) (simp split: prod.splits)

lemma full_lines_append:
  "full_lines (ys @ zs) =
    (fst (full_lines ys) @ fst (full_lines (snd (full_lines ys) @ zs)), snd (full_lines (snd (full_lines ys) @ zs)))"
proof (induction ys rule: full_lines.induct)
  case (1 ys)
  show ?case
  proof (cases "length ys \<ge> 48")
    case True
    have ys: "ys = take 48 ys @ drop 48 ys" by simp
    have "length (take 48 ys) = 48" using True by simp
    note l = full_lines_line [OF this]
    have "full_lines (ys @ zs) = full_lines (take 48 ys @ drop 48 ys @ zs)"
      by (simp only: append.assoc [symmetric] append_take_drop_id)
    also have "\<dots> = (base64 (take 48 ys) @ [10] @ fst (full_lines (drop 48 ys @ zs)), snd (full_lines (drop 48 ys @ zs)))"
      by (rule l)
    finally show ?thesis using 1 [OF True] l [of "drop 48 ys"] by simp
  qed (simp add: full_lines_short)
qed

lemma full_lines_line':
  "length ys \<ge> 48 \<Longrightarrow> full_lines ys =
    (base64 (take 48 ys) @ [10] @ fst (full_lines (drop 48 ys)), snd (full_lines (drop 48 ys)))"
  using full_lines_line [of "take 48 ys" "drop 48 ys"] by simp

lemma full_lines_length:
  "length (fst (full_lines ys)) = length ys div 48 * 65 \<and> length (snd (full_lines ys)) = length ys mod 48"
proof (induction ys rule: full_lines.induct)
  case (1 ys)
  show ?case
  proof (cases "length ys \<ge> 48")
    case True
    have "length (base64 (take 48 ys)) = 64" using True by (simp add: base64_length)
    moreover have "length ys div 48 = length (drop 48 ys) div 48 + 1" "length ys mod 48 = length (drop 48 ys) mod 48"
      using True by (simp_all add: le_div_geq le_mod_geq)
    ultimately show ?thesis
      unfolding full_lines_line' [OF True] using "1.IH" [OF True] by (simp del: length_drop)
  qed (simp add: full_lines_short)
qed

lemma encode_update_loop_eq:
  "tot \<le> length out \<Longrightarrow> tot + length inp div 48 * 65 < 2 ^ 64 \<Longrightarrow>
   \<exists>out'. encode_update_loop inp out tot = (out', Some (snd (full_lines inp), tot + length inp div 48 * 65)) \<and>
     take (tot + length inp div 48 * 65) out' = take tot out @ fst (full_lines inp) \<and>
     tot + length inp div 48 * 65 \<le> length out'"
proof (induction "length inp" arbitrary: inp out tot rule: less_induct)
  case less
  show ?case
  proof (cases "length inp \<ge> 48")
    case True
    let ?t = "take 48 inp"
    let ?out = "take tot out @ base64 ?t @ [10, 0]"
    have len: "length (base64 ?t) = 64" using True by (simp add: base64_length)
    have blk: "EVP_EncodeBlock ?t = (base64 ?t @ [0], 64)" using base64_take [of ?t] len by simp
    have d: "length inp div 48 = length (drop 48 inp) div 48 + 1" using True by (simp add: le_div_geq)
    then have t: "size_add (size_add tot 64) 1 = tot + 65" "size_add tot (64 + 1) = tot + 65"
      using less.prems(2) by (simp_all add: size_add_small)
    have bound: "tot + 65 \<le> length ?out" "tot + 65 + length (drop 48 inp) div 48 * 65 < 2 ^ 64"
      using less.prems d len by simp_all
    have "encode_update_loop inp out tot = encode_update_loop (drop 48 inp) ?out (tot + 65)"
      using True t len by (subst encode_update_loop.simps) (simp add: blk)
    moreover have "take (tot + 65) ?out = take tot out @ base64 ?t @ [10]"
      using less.prems(1) len by simp
    moreover have "tot + length inp div 48 * 65 = tot + 65 + length (drop 48 inp) div 48 * 65" using d by simp
    moreover have "length (drop 48 inp) < length inp" using True by simp
    note less.hyps [OF this bound]
    ultimately show ?thesis by (auto simp: full_lines_line' [OF True] add.assoc simp del: length_drop)
  next
    case False
    then show ?thesis
      using less.prems(1) by (intro exI [of _ out]) (simp add: encode_update_loop.simps [of inp] full_lines_short)
  qed
qed

text \<open>One call of the encoder, with \<open>*out_len\<close> bytes of what it wrote.\<close>

definition encode_step :: "byte list \<Rightarrow> evp_encode_ctx \<Rightarrow> (byte list \<times> evp_encode_ctx) option" where
  "encode_step xs ctx = (case EVP_EncodeUpdate ctx xs of (out, n, ctx') \<Rightarrow> Some (take (nat n) out, ctx'))"

definition pending :: "evp_encode_ctx \<Rightarrow> byte list" where
  "pending ctx = take (data_used ctx) (ectx_data ctx)"

definition encoding :: "evp_encode_ctx \<Rightarrow> bool" where
  "encoding ctx \<longleftrightarrow> data_used ctx < 48 \<and> length (ectx_data ctx) = 48"

lemma pending_length: "encoding ctx \<Longrightarrow> length (pending ctx) = data_used ctx"
  by (simp add: encoding_def pending_def)

lemma encode_step_eq:
  assumes "encoding ctx" "piece xs"
  obtains ctx' where "encode_step xs ctx = Some (fst (full_lines (pending ctx @ xs)), ctx')"
    "pending ctx' = snd (full_lines (pending ctx @ xs))" "encoding ctx'"
proof -
  let ?u = "data_used ctx" and ?d = "ectx_data ctx"
  have u: "?u < 48" "length ?d = 48" using assms(1) by (auto simp: encoding_def)
  consider (empty) "xs = []" | (short) "xs \<noteq> []" "length xs < 48 - ?u" | (full) "xs \<noteq> []" "48 - ?u \<le> length xs" by linarith
  then show thesis
  proof cases
    case empty
    have "full_lines (pending ctx) = ([], pending ctx)" using u by (simp add: full_lines_short pending_length assms)
    with empty assms(1) show ?thesis by (intro that [of ctx]) (auto simp: encode_step_def EVP_EncodeUpdate_def)
  next
    case short
    let ?c = "ctx\<lparr>ectx_data := patch ?u xs ?d, data_used := ?u + length xs\<rparr>"
    have "full_lines (pending ctx @ xs) = ([], pending ctx @ xs)"
      using u short by (simp add: full_lines_short pending_length assms)
    moreover have "pending ?c = pending ctx @ xs"
      using take_patch [of ?u xs ?d] short u by (simp add: pending_def)
    moreover have "encode_step xs ctx = Some ([], ?c)"
      using short by (auto simp: encode_step_def EVP_EncodeUpdate_def)
    ultimately show ?thesis using short u by (intro that [of ?c]) (simp_all add: encoding_def)
  next
    case full
    let ?todo = "48 - ?u"
    let ?p = "if ?u \<noteq> 0 then patch ?u (take ?todo xs) ?d else ?d"
    let ?out = "if ?u \<noteq> 0 then base64 ?p @ [10, 0] else []" and ?tot = "if ?u \<noteq> 0 then 65 else 0"
    let ?inp = "if ?u \<noteq> 0 then drop ?todo xs else xs"
    let ?ctx1 = "ctx\<lparr>ectx_data := ?p, data_used := 0\<rparr>"
    have p: "?u \<noteq> 0 \<Longrightarrow> ?p = pending ctx @ take ?todo xs"
      using full u by (simp add: patch_full pending_def)
    have len: "length ?p = 48" using u full by (simp add: encoding_def)
    have b: "length (base64 ?p) = 64" unfolding base64_length len by simp
    have blk: "EVP_EncodeBlock ?p = (base64 ?p @ [0], 64)" using base64_take [of ?p] len b by simp
    have bound: "?tot \<le> length ?out" "?tot + length ?inp div 48 * 65 \<le> INT_MAX"
      using b assms(2) by (auto simp: piece_def INT_MAX_def)
    obtain out' where l: "encode_update_loop ?inp ?out ?tot = (out', Some (snd (full_lines ?inp), ?tot + length ?inp div 48 * 65))"
      "take (?tot + length ?inp div 48 * 65) out' = take ?tot ?out @ fst (full_lines ?inp)"
      using encode_update_loop_eq [OF bound(1), of ?inp] bound(2) by (auto simp: INT_MAX_def)
    have all: "full_lines (pending ctx @ xs) = (take ?tot ?out @ fst (full_lines ?inp), snd (full_lines ?inp))"
    proof (cases "?u = 0")
      case True
      then show ?thesis by (simp add: pending_def)
    next
      case False
      have "pending ctx @ xs = ?p @ ?inp" using p [OF False] False by simp
      then show ?thesis using full_lines_line [OF len, of ?inp] False b by simp
    qed
    let ?rest = "snd (full_lines ?inp)"
    let ?c = "?ctx1\<lparr>ectx_data := (if length ?rest \<noteq> 0 then patch 0 ?rest ?p else ?p), data_used := length ?rest\<rparr>"
    have "EVP_EncodeUpdate ctx xs = (out', int (?tot + length ?inp div 48 * 65), ?c)"
    proof (cases "?u = 0")
      case True
      then show ?thesis
        using l(1) bound(2) full by (auto simp: EVP_EncodeUpdate_def Let_def)
    next
      case False
      then show ?thesis
        using l(1) bound(2) full blk b by (auto simp: EVP_EncodeUpdate_def Let_def)
    qed
    then have "encode_step xs ctx = Some (fst (full_lines (pending ctx @ xs)), ?c)"
      by (simp only: encode_step_def prod.case nat_int l(2) all fst_conv)
    moreover have "length ?rest < 48" by (simp add: full_lines_length)
    then have "pending ?c = ?rest" "encoding ?c" using len by (simp_all add: pending_def encoding_def take_patch_0)
    ultimately show ?thesis by (intro that [of ?c]) (simp_all add: all)
  qed
qed

interpretation encoder: chunked encode_step pending encoding piece "\<lambda>xs p. Some (full_lines (p @ xs))"
proof
  fix ctx xs ys
  assume ctx: "encoding ctx"
  show "Some (full_lines (pending ctx @ [])) = Some ([], pending ctx)"
    using ctx pending_length [OF ctx] by (simp add: full_lines_short encoding_def)
  show "Some (full_lines (pending ctx @ xs @ ys)) = Option.bind (Some (full_lines (pending ctx @ xs)))
      (\<lambda>(o1, a1). map_option (\<lambda>(o2, a2). (o1 @ o2, a2)) (Some (full_lines (a1 @ ys))))"
    using full_lines_append [of "pending ctx @ xs" ys] by (auto split: prod.splits)
  assume "piece xs"
  with ctx obtain ctx' where step: "encode_step xs ctx = Some (fst (full_lines (pending ctx @ xs)), ctx')"
    "pending ctx' = snd (full_lines (pending ctx @ xs))" "encoding ctx'"
    by (rule encode_step_eq)
  show "map_option (\<lambda>(out, s'). (out, pending s')) (encode_step xs ctx) = Some (full_lines (pending ctx @ xs))"
    using step by simp
  show "encoding s'" if "encode_step xs ctx = Some (out, s')" for out s' using step that by simp
qed

text \<open>A client's whole run: the pieces of the input and the final call.\<close>

primrec encode_pieces :: "byte list list \<Rightarrow> evp_encode_ctx \<Rightarrow> byte list \<times> evp_encode_ctx" where
  "encode_pieces [] ctx = ([], ctx)"
| "encode_pieces (xs # xss) ctx =
     (case EVP_EncodeUpdate ctx xs of
        (out, n, ctx1) \<Rightarrow> (case encode_pieces xss ctx1 of (out', ctx2) \<Rightarrow> (take (nat n) out @ out', ctx2)))"

definition EVP_encode :: "byte list list \<Rightarrow> evp_encode_ctx \<Rightarrow> byte list" where
  "EVP_encode xss ctx =
     (case encode_pieces xss (EVP_EncodeInit ctx) of
        (out, ctx1) \<Rightarrow> (case EVP_EncodeFinal ctx1 of (out', n, ctx2) \<Rightarrow> out @ take (nat n) out'))"

lemma encode_pieces_steps: "Some (encode_pieces xss ctx) = encoder.steps xss ctx"
proof (induction xss arbitrary: ctx)
  case (Cons xs xss)
  obtain out n ctx1 where u: "EVP_EncodeUpdate ctx xs = (out, n, ctx1)" by (metis prod_cases3)
  then have "encode_step xs ctx = Some (take (nat n) out, ctx1)" by (simp add: encode_step_def)
  with u show ?case using Cons.IH [of ctx1, symmetric] by (simp split: prod.splits)
qed simp

text \<open>The text of an input: lines of 64 characters, the last one with what is left over.\<close>

definition text_of :: "byte list \<Rightarrow> byte list" where
  "text_of d = fst (full_lines d) @ (let rest = snd (full_lines d) in if rest = [] then [] else base64 rest @ [10])"

text \<open>C37:
  The streaming encoder does not depend on how its input is cut into pieces: initialising a context,
  feeding it any pieces and finishing writes the base64 text of all the bytes in lines of 64 characters,
  each ended by a newline, with the padded rest on the last line.
\<close>

theorem EVP_encode_lines:
  assumes "\<forall>xs \<in> set xss. length xs \<le> 2 ^ 30"
  shows "EVP_encode xss ctx = text_of (concat xss)"
proof -
  let ?i = "EVP_EncodeInit ctx"
  have i: "encoding ?i" "pending ?i = []" by (simp_all add: EVP_EncodeInit_def encoding_def pending_def)
  obtain out c where p: "encode_pieces xss ?i = (out, c)" by fastforce
  then have s: "encoder.steps xss ?i = Some (out, c)" using encode_pieces_steps [of xss ?i] by simp
  have fits: "\<forall>xs \<in> set xss. piece xs" using assms by (simp add: piece_def)
  have f: "full_lines (concat xss) = (out, pending c)"
    using encoder.steps_concat [OF i(1) fits] by (simp add: s i(2))
  have c: "encoding c" by (rule encoder.steps_inv [OF i(1) fits s])
  have "length (pending c) \<le> 48" "pending c = [] \<longleftrightarrow> data_used c = 0"
    using c pending_length [OF c] by (auto simp: encoding_def)
  then show ?thesis
    using base64_take [of "pending c"]
    by (auto simp: EVP_encode_def p EVP_EncodeFinal_def text_of_def f Let_def nat_add_distrib pending_def [symmetric])
qed

theorem EVP_encode_lines_witness:
  "EVP_encode [[77, 97], [110]] (EVP_EncodeInit \<lparr>data_used = 0, ectx_data = [], eof_seen = False, error_encountered = False\<rparr>) =
    [84, 87, 70, 117, 10]"
  using EVP_encode_lines [of "[[77, 97], [110]]"] by (simp add: text_of_def full_lines_short base64_Man)

section \<open>The decoder\<close>

text \<open>The decoder on its abstract state: the characters of the quad being read, and whether padding was seen.\<close>

primrec decode_spec :: "byte list \<Rightarrow> byte list \<times> bool \<Rightarrow> (byte list \<times> byte list \<times> bool) option" where
  "decode_spec [] s = Some ([], s)"
| "decode_spec (c # cs) s =
     (if is_blank c then decode_spec cs s
      else if snd s then None
      else if length (fst s) = 3 then
        (case base64_decode_quad (fst s @ [c]) of
           None \<Rightarrow> None
         | Some bytes \<Rightarrow> map_option (\<lambda>(out, s'). (bytes @ out, s')) (decode_spec cs ([], length bytes < 3)))
      else decode_spec cs (fst s @ [c], False))"

lemma decode_spec_append:
  "decode_spec (xs @ ys) s =
    Option.bind (decode_spec xs s) (\<lambda>(o1, a1). map_option (\<lambda>(o2, a2). (o1 @ o2, a2)) (decode_spec ys a1))"
proof (induction xs arbitrary: s)
  case Nil
  then show ?case by (cases "decode_spec ys s") auto
next
  case (Cons c xs)
  have step: "Option.bind (map_option (\<lambda>(out, s'). (bs @ out, s')) m) (\<lambda>(o1, a1). map_option (\<lambda>(o2, a2). (o1 @ o2, a2)) (f a1)) =
      map_option (\<lambda>(out, s'). (bs @ out, s')) (Option.bind m (\<lambda>(o1, a1). map_option (\<lambda>(o2, a2). (o1 @ o2, a2)) (f a1)))"
    for bs :: "byte list" and m :: "(byte list \<times> byte list \<times> bool) option" and f :: "byte list \<times> bool \<Rightarrow> (byte list \<times> byte list \<times> bool) option"
    by (cases m; cases "f (snd (the m))") auto
  show ?case by (auto simp: Cons.IH step split: option.splits)
qed

definition reading :: "evp_encode_ctx \<Rightarrow> bool" where
  "reading ctx \<longleftrightarrow> data_used ctx < 4 \<and> length (ectx_data ctx) = 48 \<and> \<not> error_encountered ctx"

definition quad_state :: "evp_encode_ctx \<Rightarrow> byte list \<times> bool" where
  "quad_state ctx = (pending ctx, eof_seen ctx)"

definition decode_step :: "byte list \<Rightarrow> evp_encode_ctx \<Rightarrow> (byte list \<times> evp_encode_ctx) option" where
  "decode_step xs ctx =
     (case EVP_DecodeUpdate ctx xs of (r, n, out, ctx') \<Rightarrow> if r < 0 then None else Some (take (nat n) out, ctx'))"

lemma quad_prefix: "length q = 4 \<Longrightarrow> base64_decode_quad (q @ rest) = base64_decode_quad q"
  by (simp add: base64_decode_quad_def padding_pattern_def nth_append Let_def)

lemma quad_bytes: "base64_decode_quad q = Some bytes \<Longrightarrow> length bytes \<le> 3"
  by (auto simp: base64_decode_quad_def Let_def split: if_splits)

lemma decode_update_loop_eq:
  "reading ctx \<Longrightarrow>
   (case decode_update_loop xs ctx of
      (True, out, ctx') \<Rightarrow> decode_spec xs (quad_state ctx) = Some (out, quad_state ctx') \<and> reading ctx' \<and>
        length out \<le> length xs + data_used ctx
    | (False, _) \<Rightarrow> decode_spec xs (quad_state ctx) = None)"
proof (induction xs arbitrary: ctx)
  case (Cons c xs)
  let ?u = "data_used ctx" and ?d = "(ectx_data ctx)[data_used ctx := c]"
  let ?ctx1 = "ctx\<lparr>ectx_data := ?d, data_used := ?u + 1\<rparr>"
  have u: "?u < 4" "length (ectx_data ctx) = 48" "\<not> error_encountered ctx" using Cons.prems by (auto simp: reading_def)
  have q: "length (pending ctx) = ?u" "take (Suc ?u) ?d = pending ctx @ [c]"
    using u by (simp_all add: pending_def take_Suc_conv_app_nth)
  consider (blank) "is_blank c" | (eof) "\<not> is_blank c" "eof_seen ctx"
    | (more) "\<not> is_blank c" "\<not> eof_seen ctx" "?u \<noteq> 3" | (quad) "\<not> is_blank c" "\<not> eof_seen ctx" "?u = 3"
    by blast
  then show ?case
  proof cases
    case blank
    then show ?thesis using Cons.IH [OF Cons.prems] by (auto split: prod.splits bool.splits)
  next
    case eof
    then show ?thesis by (simp add: quad_state_def)
  next
    case more
    then have "reading ?ctx1" "quad_state ?ctx1 = (pending ctx @ [c], False)"
      using u q(2) by (simp_all add: reading_def quad_state_def pending_def)
    with more Cons.IH [of ?ctx1] q(1) show ?thesis by (auto simp: quad_state_def split: prod.splits bool.splits)
  next
    case quad
    have t: "take 4 ?d = pending ctx @ [c]" using q(2) quad by simp
    have "base64_decode_quad ?d = base64_decode_quad (take 4 ?d @ drop 4 ?d)" by (simp only: append_take_drop_id)
    also have "\<dots> = base64_decode_quad (take 4 ?d)" using u by (intro quad_prefix) simp
    also note t
    finally have "base64_decode_quad ?d = base64_decode_quad (pending ctx @ [c])" .
    note quad_eq = this
    show ?thesis
    proof (cases "base64_decode_quad (pending ctx @ [c])")
      case None
      with quad quad_eq q(1) show ?thesis by (simp add: quad_state_def Let_def)
    next
      case (Some bytes)
      let ?ctx2 = "?ctx1\<lparr>data_used := 0, eof_seen := length bytes < 3\<rparr>"
      have state: "reading ?ctx2" "quad_state ?ctx2 = ([], length bytes < 3)"
        using u quad by (simp_all add: reading_def quad_state_def pending_def)
      obtain ok out c2 where l: "decode_update_loop xs ?ctx2 = (ok, out, c2)" by (metis prod_cases3)
      have "decode_update_loop (c # xs) ctx = (ok, bytes @ out, c2)"
        using quad quad_eq Some l by (cases "length bytes < 3") (simp_all add: Let_def)
      moreover have "decode_spec (c # xs) (quad_state ctx) =
          map_option (\<lambda>(out, s'). (bytes @ out, s')) (decode_spec xs ([], length bytes < 3))"
        using quad q(1) Some by (simp add: quad_state_def)
      ultimately show ?thesis
        using Cons.IH [OF state(1)] state(2) quad_bytes [OF Some] quad(3) l by (cases ok) simp_all
    qed
  qed
qed simp


lemma decode_step_eq:
  assumes "reading ctx" "piece xs"
  shows "map_option (\<lambda>(out, ctx'). (out, quad_state ctx')) (decode_step xs ctx) = decode_spec xs (quad_state ctx)"
    and "decode_step xs ctx = Some (out, ctx') \<Longrightarrow> reading ctx'"
proof -
  obtain ok o1 c1 where l: "decode_update_loop xs ctx = (ok, o1, c1)" by (metis prod_cases3)
  have e: "\<not> error_encountered ctx" "data_used ctx < 4" "length xs \<le> 2 ^ 30"
    using assms by (auto simp: reading_def piece_def)
  have step: "decode_step xs ctx = (if ok then Some (o1, c1) else None)" if "ok \<Longrightarrow> length o1 \<le> length xs + data_used ctx"
    using l e that by (auto simp: decode_step_def EVP_DecodeUpdate_def INT_MAX_def split: bool.splits)
  show "map_option (\<lambda>(out, ctx'). (out, quad_state ctx')) (decode_step xs ctx) = decode_spec xs (quad_state ctx)"
    and "decode_step xs ctx = Some (out, ctx') \<Longrightarrow> reading ctx'"
    using decode_update_loop_eq [OF assms(1), of xs] step by (auto simp: l split: bool.splits if_splits)
qed

interpretation decoder: chunked decode_step quad_state reading piece decode_spec
  by unfold_locales (auto simp: decode_step_eq decode_spec_append)

primrec decode_pieces :: "byte list list \<Rightarrow> evp_encode_ctx \<Rightarrow> (byte list \<times> evp_encode_ctx) option" where
  "decode_pieces [] ctx = Some ([], ctx)"
| "decode_pieces (xs # xss) ctx =
     (case EVP_DecodeUpdate ctx xs of
        (r, n, out, ctx1) \<Rightarrow>
          if r < 0 then None
          else (case decode_pieces xss ctx1 of None \<Rightarrow> None | Some (out', ctx2) \<Rightarrow> Some (take (nat n) out @ out', ctx2)))"

definition EVP_decode :: "byte list list \<Rightarrow> evp_encode_ctx \<Rightarrow> byte list option" where
  "EVP_decode xss ctx =
     (case decode_pieces xss (EVP_DecodeInit ctx) of
        None \<Rightarrow> None
      | Some (out, ctx1) \<Rightarrow> if fst (EVP_DecodeFinal ctx1) = 1 then Some out else None)"

lemma decode_pieces_steps: "decode_pieces xss ctx = decoder.steps xss ctx"
proof (induction xss arbitrary: ctx)
  case (Cons xs xss)
  obtain r n out ctx1 where u: "EVP_DecodeUpdate ctx xs = (r, n, out, ctx1)" by (metis prod_cases4)
  then have "decode_step xs ctx = (if r < 0 then None else Some (take (nat n) out, ctx1))" by (simp add: decode_step_def)
  with u show ?case using Cons.IH [of ctx1] by (simp split: option.splits)
qed simp

section \<open>Decoding what was encoded\<close>

lemma decode_spec_quad:
  assumes "length q = 4" "\<forall>c \<in> set q. \<not> is_blank c" "base64_decode_quad q = Some bytes"
  shows "decode_spec (q @ cs) ([], False) =
    map_option (\<lambda>(out, s). (bytes @ out, s)) (decode_spec cs ([], length bytes < 3))"
proof -
  obtain w x y z where q: "q = [w, x, y, z]"
    using assms(1) by (auto simp: length_Suc_conv numeral_eq_Suc)
  with assms show ?thesis by simp
qed

lemma decode_spec_base64:
  "decode_spec (base64 d @ 10 # cs) ([], False) =
    map_option (\<lambda>(out, s). (d @ out, s)) (decode_spec cs ([], length d mod 3 \<noteq> 0))"
proof (induction d rule: base64.induct)
  case 1
  show ?case by (simp add: is_blank_def option.map_ident)
next
  case (2 a b c src)
  let ?q = "take 4 (base64 (a # b # c # src))"
  have "set ?q \<subseteq> set (base64 (a # b # c # src))" by (rule set_take_subset)
  then have "\<forall>c \<in> set ?q. \<not> is_blank c" using base64_chars by blast
  moreover have "base64_decode_quad ?q = Some [a, b, c]" using base64_quads(2) [of a b c src "[]"] by simp
  ultimately have "decode_spec (?q @ base64 src @ 10 # cs) ([], False) =
      map_option (\<lambda>(out, s). ([a, b, c] @ out, s)) (decode_spec (base64 src @ 10 # cs) ([], False))"
    using decode_spec_quad [OF quad_length(1)] by simp
  also have "?q @ base64 src @ 10 # cs = base64 (a # b # c # src) @ 10 # cs" by (metis base64_quads(1) append.assoc)
  finally show ?case
    using 2 by (simp add: option.map_comp comp_def case_prod_unfold)
next
  case (3 v)
  show ?case
    using decode_spec_quad [OF quad_length(3) [of v], of "[v]" "10 # cs"] base64_quads(4) [of v "[]"] base64_chars [of "[v]"]
    by (simp add: is_blank_def)
next
  case (4 v w)
  show ?case
    using decode_spec_quad [OF quad_length(2) [of v w], of "[v, w]" "10 # cs"] base64_quads(3) [of v w "[]"]
      base64_chars [of "[v, w]"]
    by (simp add: is_blank_def)
qed

lemma text_of_line: "length d \<ge> 48 \<Longrightarrow> text_of d = base64 (take 48 d) @ 10 # text_of (drop 48 d)"
  by (simp add: text_of_def full_lines_line' Let_def)

lemma text_of_short: "length d < 48 \<Longrightarrow> text_of d = (if d = [] then [] else base64 d @ [10])"
  by (simp add: text_of_def full_lines_short Let_def)

lemma decode_text_of: "\<exists>e. decode_spec (text_of d) ([], False) = Some (d, [], e)"
proof (induction d rule: full_lines.induct)
  case (1 d)
  show ?case
  proof (cases "length d \<ge> 48")
    case True
    have "length (take 48 d) mod 3 = 0" using True by simp
    with 1 [OF True] show ?thesis by (auto simp: text_of_line [OF True] decode_spec_base64)
  next
    case False
    then show ?thesis by (cases "d = []") (auto simp: text_of_short decode_spec_base64)
  qed
qed

text \<open>C11:
  What the streaming encoder writes, cut into pieces in any way, is decoded by the streaming decoder to
  the bytes that were encoded, and the final call of the decoder accepts.
\<close>

theorem EVP_stream_roundtrip:
  assumes "\<forall>xs \<in> set xss \<union> set yss. length xs \<le> 2 ^ 30" "concat yss = EVP_encode xss ctx"
  shows "EVP_decode yss ctx' = Some (concat xss)"
proof -
  let ?i = "EVP_DecodeInit ctx'"
  have i: "reading ?i" "quad_state ?i = ([], False)"
    by (simp_all add: EVP_DecodeInit_def reading_def quad_state_def pending_def)
  have fits: "\<forall>xs \<in> set yss. piece xs" using assms(1) by (simp add: piece_def)
  have "concat yss = text_of (concat xss)"
    using assms EVP_encode_lines by (metis UnI1)
  then obtain e where "decode_spec (concat yss) (quad_state ?i) = Some (concat xss, [], e)"
    using decode_text_of i(2) by metis
  with decoder.steps_concat [OF i(1) fits]
  obtain c where s: "decoder.steps yss ?i = Some (concat xss, c)" "quad_state c = ([], e)" by auto
  have "reading c" by (rule decoder.steps_inv [OF i(1) fits s(1)])
  then have "\<not> error_encountered c" "data_used c = 0"
    using s(2) pending_def [of c] by (auto simp: reading_def quad_state_def)
  then show ?thesis by (simp add: EVP_decode_def decode_pieces_steps s(1) EVP_DecodeFinal_def)
qed

theorem EVP_stream_roundtrip_witness:
  "EVP_decode [[84, 87, 70], [], [117, 10]] (EVP_DecodeInit \<lparr>data_used = 0, ectx_data = [], eof_seen = False, error_encountered = False\<rparr>) =
    Some [77, 97, 110]"
proof -
  have "EVP_encode [[77, 97], [110]] ctx = [84, 87, 70, 117, 10]" for ctx
    by (simp add: EVP_encode_def EVP_EncodeInit_def EVP_EncodeUpdate_def EVP_EncodeFinal_def patch_def
      EVP_EncodeBlock_eq base64_Man)
  then show ?thesis
    using EVP_stream_roundtrip [of "[[77, 97], [110]]" "[[84, 87, 70], [], [117, 10]]"] by simp
qed

end
