(* ===== verification/Stack.thy ===== *)
theory Stack
  imports SetOf Chunks
begin

text \<open>
  The stack of pointers of BoringSSL (\<open>crypto/stack/stack.c\<close>): a growing array with an optional
  comparison function, insertion and deletion at an index, sorting and searching.

  A \<open>void *\<close> is an optional address. A comparison function is a number, which \<open>C\<close> maps to the
  function itself, since the code compares and stores such pointers. \<open>ok\<close> says whether an
  allocation succeeds and \<open>junk\<close> what fresh memory holds.
\<close>

section \<open>The code\<close>

type_synonym 'a void_ptr = "'a option"
type_synonym 'a cmp_table = "nat \<Rightarrow> 'a void_ptr \<Rightarrow> 'a void_ptr \<Rightarrow> int"

record 'a stack =
  num :: nat
  data :: "'a void_ptr list"
  sorted :: bool
  num_alloc :: nat
  comp :: "nat option"

definition kMinSize :: nat where "kMinSize = 4"

definition sk_new :: "bool \<Rightarrow> bool \<Rightarrow> nat option \<Rightarrow> 'a stack option" where
  "sk_new ok1 ok2 c =
     (if \<not> ok1 then None
      else if \<not> ok2 then None
      else Some \<lparr>num = 0, data = replicate kMinSize None, sorted = False, num_alloc = kMinSize, comp = c\<rparr>)"

definition sk_new_null :: "bool \<Rightarrow> bool \<Rightarrow> 'a stack option" where
  "sk_new_null ok1 ok2 = sk_new ok1 ok2 None"

definition sk_num :: "'a stack option \<Rightarrow> nat" where
  "sk_num sk = (case sk of None \<Rightarrow> 0 | Some s \<Rightarrow> num s)"

definition sk_zero :: "'a stack option \<Rightarrow> 'a stack option" where
  "sk_zero sk =
     (case sk of
        None \<Rightarrow> None
      | Some s \<Rightarrow>
          if num s = 0 then Some s
          else Some (s\<lparr>data := patch 0 (replicate (num s) None) (data s), num := 0, sorted := False\<rparr>))"

definition sk_value :: "'a stack option \<Rightarrow> nat \<Rightarrow> 'a void_ptr" where
  "sk_value sk i = (case sk of None \<Rightarrow> None | Some s \<Rightarrow> if i \<ge> num s then None else data s ! i)"

definition sk_set :: "'a stack option \<Rightarrow> nat \<Rightarrow> 'a void_ptr \<Rightarrow> 'a void_ptr \<times> 'a stack option" where
  "sk_set sk i v =
     (case sk of
        None \<Rightarrow> (None, None)
      | Some s \<Rightarrow> if i \<ge> num s then (None, Some s) else (v, Some (s\<lparr>data := (data s)[i := v]\<rparr>)))"

text \<open>The elements that \<open>sk_pop_free_ex\<close> passes to the free function, in order; the stack is gone.\<close>

definition sk_pop_free_ex :: "'a stack option \<Rightarrow> 'a list" where
  "sk_pop_free_ex sk = (case sk of None \<Rightarrow> [] | Some s \<Rightarrow> List.map_filter (\<lambda>x. x) (take (num s) (data s)))"

definition sk_pop_free :: "'a stack option \<Rightarrow> 'a list" where
  "sk_pop_free sk = sk_pop_free_ex sk"

text \<open>The size that \<open>sk_insert\<close> asks for when the array is full: doubled, or one more when that overflows.\<close>

definition grown_alloc :: "nat \<Rightarrow> nat option" where
  "grown_alloc n =
     (let new_alloc = size_mul n 2; alloc_size = size_mul new_alloc 8;
          (new_alloc, alloc_size) =
            (if new_alloc < n \<or> alloc_size div 8 \<noteq> new_alloc
             then (size_add n 1, size_mul (size_add n 1) 8) else (new_alloc, alloc_size))
      in if new_alloc < n \<or> alloc_size div 8 \<noteq> new_alloc then None else Some new_alloc)"

definition sk_insert ::
    "bool \<Rightarrow> (nat \<Rightarrow> 'a void_ptr) \<Rightarrow> 'a stack option \<Rightarrow> 'a void_ptr \<Rightarrow> nat \<Rightarrow> nat \<times> 'a stack option" where
  "sk_insert ok junk sk p i =
     (case sk of
        None \<Rightarrow> (0, None)
      | Some s \<Rightarrow>
          (case (if num_alloc s \<le> size_add (num s) 1
                 then (case grown_alloc (num_alloc s) of
                         None \<Rightarrow> None
                       | Some n \<Rightarrow>
                           if \<not> ok then None
                           else Some (s\<lparr>data := data s @ map junk [length (data s)..<n], num_alloc := n\<rparr>))
                 else Some s) of
             None \<Rightarrow> (0, Some s)
           | Some s1 \<Rightarrow>
               let d = (if i \<ge> num s1 then (data s1)[num s1 := p]
                        else (patch (i + 1) (take (num s1 - i) (drop i (data s1))) (data s1))[i := p])
               in (size_add (num s1) 1, Some (s1\<lparr>data := d, num := size_add (num s1) 1, sorted := False\<rparr>))))"

definition sk_delete :: "'a stack option \<Rightarrow> nat \<Rightarrow> 'a void_ptr \<times> 'a stack option" where
  "sk_delete sk i =
     (case sk of
        None \<Rightarrow> (None, None)
      | Some s \<Rightarrow>
          if i \<ge> num s then (None, Some s)
          else
            let r = data s ! i;
                d = (if i \<noteq> num s - 1 then patch i (take (num s - i - 1) (drop (i + 1) (data s))) (data s) else data s)
            in (r, Some (s\<lparr>data := d, num := num s - 1\<rparr>)))"

text \<open>The loops that look for the first element with a property.\<close>

fun first_index :: "('b \<Rightarrow> bool) \<Rightarrow> 'b list \<Rightarrow> nat option" where
  "first_index P [] = None"
| "first_index P (x # xs) = (if P x then Some 0 else map_option Suc (first_index P xs))"

definition sk_delete_ptr :: "'a stack option \<Rightarrow> 'a void_ptr \<Rightarrow> 'a void_ptr \<times> 'a stack option" where
  "sk_delete_ptr sk p =
     (case sk of
        None \<Rightarrow> (None, None)
      | Some s \<Rightarrow>
          (case first_index (\<lambda>x. x = p) (take (num s) (data s)) of None \<Rightarrow> (None, Some s) | Some i \<Rightarrow> sk_delete (Some s) i))"

definition sk_is_sorted :: "'a stack option \<Rightarrow> bool" where
  "sk_is_sorted sk = (case sk of None \<Rightarrow> True | Some s \<Rightarrow> sorted s)"

text \<open>The binary search of \<open>sk_find\<close>; \<open>f\<close> compares the key with an element.\<close>

function find_loop :: "('b \<Rightarrow> int) \<Rightarrow> 'b list \<Rightarrow> nat \<Rightarrow> nat \<Rightarrow> nat option" where
  "find_loop f d lo hi =
     (if lo < hi then
        let mid = lo + (hi - lo - 1) div 2; r = f (d ! mid) in
        if r > 0 then find_loop f d (mid + 1) hi
        else if r < 0 then find_loop f d lo mid
        else if hi - lo = 1 then Some mid
        else find_loop f d lo (mid + 1)
      else None)"
  by pat_completeness auto
termination
  by (relation "measure (\<lambda>(f, d, lo, hi). hi - lo)") (auto simp: Let_def)

declare find_loop.simps [simp del]

definition sk_find :: "'a cmp_table \<Rightarrow> 'a stack option \<Rightarrow> 'a void_ptr \<Rightarrow> nat option" where
  "sk_find C sk p =
     (case sk of
        None \<Rightarrow> None
      | Some s \<Rightarrow>
          (case comp s of
             None \<Rightarrow> first_index (\<lambda>x. x = p) (take (num s) (data s))
           | Some c \<Rightarrow>
               if p = None then None
               else if \<not> sk_is_sorted sk then first_index (\<lambda>x. C c p x = 0) (take (num s) (data s))
               else find_loop (C c p) (data s) 0 (num s)))"

definition sk_shift :: "'a stack option \<Rightarrow> 'a void_ptr \<times> 'a stack option" where
  "sk_shift sk =
     (case sk of None \<Rightarrow> (None, None) | Some s \<Rightarrow> if num s = 0 then (None, Some s) else sk_delete sk 0)"

definition sk_push ::
    "bool \<Rightarrow> (nat \<Rightarrow> 'a void_ptr) \<Rightarrow> 'a stack option \<Rightarrow> 'a void_ptr \<Rightarrow> nat \<times> 'a stack option" where
  "sk_push ok junk sk p = sk_insert ok junk sk p (sk_num sk)"

definition sk_pop :: "'a stack option \<Rightarrow> 'a void_ptr \<times> 'a stack option" where
  "sk_pop sk =
     (case sk of None \<Rightarrow> (None, None) | Some s \<Rightarrow> if num s = 0 then (None, Some s) else sk_delete sk (num s - 1))"

text \<open>\<open>ok1\<close> and \<open>ok2\<close> are the allocations of \<open>sk_new\<close>, \<open>ok3\<close> the reallocation.\<close>

definition sk_dup :: "bool \<Rightarrow> bool \<Rightarrow> bool \<Rightarrow> (nat \<Rightarrow> 'a void_ptr) \<Rightarrow> 'a stack option \<Rightarrow> 'a stack option" where
  "sk_dup ok1 ok2 ok3 junk sk =
     (case sk of
        None \<Rightarrow> None
      | Some s \<Rightarrow>
          (case sk_new ok1 ok2 (comp s) of
             None \<Rightarrow> None
           | Some r \<Rightarrow>
               if \<not> ok3 then None
               else
                 let d = take (num_alloc s) (data r @ map junk [length (data r)..<num_alloc s]) in
                 Some \<lparr>num = num s, data = patch 0 (take (num s) (data s)) d, sorted = sorted s,
                       num_alloc = num_alloc s, comp = comp s\<rparr>))"

text \<open>\<open>srt\<close> stands for the \<open>qsort\<close> of the C library.\<close>

definition sk_sort ::
    "(('a void_ptr \<Rightarrow> 'a void_ptr \<Rightarrow> int) \<Rightarrow> 'a void_ptr list \<Rightarrow> 'a void_ptr list) \<Rightarrow> 'a cmp_table \<Rightarrow>
     'a stack option \<Rightarrow> 'a stack option" where
  "sk_sort srt C sk =
     (case sk of
        None \<Rightarrow> None
      | Some s \<Rightarrow>
          (case comp s of
             None \<Rightarrow> Some s
           | Some c \<Rightarrow>
               if sorted s then Some s
               else
                 let d = (if num s \<ge> 2 then patch 0 (srt (C c) (take (num s) (data s))) (data s) else data s)
                 in Some (s\<lparr>data := d, sorted := True\<rparr>)))"

text \<open>The stack is not tested for \<open>NULL\<close>.\<close>

definition sk_set_cmp_func :: "'a stack \<Rightarrow> nat option \<Rightarrow> nat option \<times> 'a stack" where
  "sk_set_cmp_func s c = (comp s, s\<lparr>sorted := (if comp s \<noteq> c then False else sorted s), comp := c\<rparr>)"

text \<open>
  The loop of \<open>sk_deep_copy\<close> over the elements from index \<open>i\<close> on; \<open>copy i x\<close> is what the
  copy function returns for \<open>x\<close>, the element at \<open>i\<close>. \<open>Inl\<close> lists the copies that are freed when a call fails.
\<close>

fun deep_copy_loop :: "(nat \<Rightarrow> 'a \<Rightarrow> 'a void_ptr) \<Rightarrow> nat \<Rightarrow> 'a void_ptr list \<Rightarrow> 'a void_ptr list \<Rightarrow>
    'a list + 'a void_ptr list" where
  "deep_copy_loop copy i made [] = Inr made"
| "deep_copy_loop copy i made (None # xs) = deep_copy_loop copy (Suc i) (made @ [None]) xs"
| "deep_copy_loop copy i made (Some x # xs) =
     (case copy i x of
        None \<Rightarrow> Inl (List.map_filter (\<lambda>x. x) made)
      | Some y \<Rightarrow> deep_copy_loop copy (Suc i) (made @ [Some y]) xs)"

text \<open>The new stack, and what is passed to the free function.\<close>

definition sk_deep_copy ::
    "bool \<Rightarrow> bool \<Rightarrow> bool \<Rightarrow> (nat \<Rightarrow> 'a void_ptr) \<Rightarrow> (nat \<Rightarrow> 'a \<Rightarrow> 'a void_ptr) \<Rightarrow> 'a stack option \<Rightarrow>
     'a stack option \<times> 'a list" where
  "sk_deep_copy ok1 ok2 ok3 junk copy sk =
     (case sk_dup ok1 ok2 ok3 junk sk of
        None \<Rightarrow> (None, [])
      | Some r \<Rightarrow>
          (case deep_copy_loop copy 0 [] (take (num r) (data r)) of
             Inl freed \<Rightarrow> (None, freed)
           | Inr d \<Rightarrow> (Some (r\<lparr>data := patch 0 d (data r)\<rparr>), [])))"


section \<open>The list that a stack stands for\<close>

definition elems :: "'a stack \<Rightarrow> 'a void_ptr list" where
  "elems s = take (num s) (data s)"

definition in_order :: "'a cmp_table \<Rightarrow> nat option \<Rightarrow> 'a void_ptr list \<Rightarrow> bool" where
  "in_order C c xs = (case c of None \<Rightarrow> False | Some c \<Rightarrow> sorted_wrt (\<lambda>a b. C c a b \<le> 0) xs)"

text \<open>The array has room for one more element than it holds, and what is marked as sorted is in order.\<close>

definition stack_ok :: "'a cmp_table \<Rightarrow> 'a stack \<Rightarrow> bool" where
  "stack_ok C s \<longleftrightarrow> num s < num_alloc s \<and> length (data s) = num_alloc s \<and> num_alloc s < 2 ^ 61 \<and>
     (sorted s \<longrightarrow> in_order C (comp s) (elems s))"

lemma stack_okD:
  assumes "stack_ok C s"
  shows "length (elems s) = num s" "num s < length (data s)" "num s + 1 < 2 ^ 61"
  using assms by (auto simp: stack_ok_def elems_def)

lemma elems_nth: "i < num s \<Longrightarrow> elems s ! i = data s ! i"
  by (simp add: elems_def)

lemma grown_alloc:
  assumes "grown_alloc n = Some m" "0 < n" "n < 2 ^ 61"
  shows "n < m \<and> m < 2 ^ 61"
proof -
  have small: "m < 2 ^ 61" if "size_mul m 8 div 8 = m"
  proof -
    have "size_mul m 8 < 2 ^ 64" by (simp add: size_mul_def)
    then have "size_mul m 8 div 8 < 2 ^ 61" by (simp add: less_mult_imp_div_less)
    with that show ?thesis by simp
  qed
  have "size_mul n 2 = n * 2" "size_add n 1 = n + 1" using assms(3) by (simp_all add: size_simps)
  with assms small show ?thesis by (auto simp: grown_alloc_def Let_def split: if_splits)
qed

lemma grown_alloc_Some: "n < 2 ^ 60 \<Longrightarrow> grown_alloc n = Some (n * 2)"
  by (simp add: grown_alloc_def size_simps Let_def)

text \<open>What inserting and deleting do to the array.\<close>

lemma insert_array:
  assumes "n < length d" "i < n"
  shows "take (Suc n) ((patch (Suc i) (take (n - i) (drop i d)) d)[i := p]) =
    take i (take n d) @ p # drop i (take n d)"
  using assms by (simp add: patch_def list_update_append take_drop Suc_diff_le take_Suc_conv_app_nth)

lemma delete_array:
  assumes "n \<le> length d" "i < n"
  shows "take (n - 1) (if i \<noteq> n - 1 then patch i (take (n - i - 1) (drop (Suc i) d)) d else d) =
    take i (take n d) @ drop (Suc i) (take n d)"
  using assms by (auto simp: patch_def take_drop min_def)

text \<open>Inserting, when there is room or memory for it.\<close>

lemma sk_insert_eq:
  assumes "stack_ok C s"
  shows "sk_insert ok junk (Some s) p i = (0, Some s) \<or>
    (\<exists>d m. sk_insert ok junk (Some s) p i =
        (num s + 1, Some (s\<lparr>num_alloc := m, data := d, num := num s + 1, sorted := False\<rparr>)) \<and>
      take (num s + 1) d = take i (elems s) @ p # drop i (elems s) \<and> length d = m \<and> num s + 1 < m \<and> m < 2 ^ 61)"
proof -
  let ?room = "if num_alloc s \<le> size_add (num s) 1
      then (case grown_alloc (num_alloc s) of
              None \<Rightarrow> None
            | Some n \<Rightarrow>
                if \<not> ok then None
                else Some (s\<lparr>data := data s @ map junk [length (data s)..<n], num_alloc := n\<rparr>))
      else Some s"
  have s: "num s < num_alloc s" "length (data s) = num_alloc s" "num_alloc s < 2 ^ 61" "size_add (num s) 1 = num s + 1"
    using assms by (auto simp: stack_ok_def size_simps)
  show ?thesis
  proof (cases ?room)
    case None
    then have "sk_insert ok junk (Some s) p i = (0, Some s)" unfolding sk_insert_def option.case by simp
    then show ?thesis ..
  next
    case (Some s1)
    then obtain d m where s1: "s1 = s\<lparr>data := d, num_alloc := m\<rparr>" and d: "length d = m" "take (num s) d = elems s" "num s + 1 < m" "m < 2 ^ 61"
      using s grown_alloc [of "num_alloc s"]
      by (cases "num_alloc s \<le> num s + 1") (force simp: elems_def split: option.splits if_splits)+
    let ?d = "if i \<ge> num s then d[num s := p] else (patch (i + 1) (take (num s - i) (drop i d)) d)[i := p]"
    have e: "sk_insert ok junk (Some s) p i = (num s + 1, Some (s\<lparr>num_alloc := m, data := ?d, num := num s + 1, sorted := False\<rparr>))"
      unfolding sk_insert_def option.case Some using s(4) by (simp add: s1 Let_def)
    have "take (num s + 1) ?d = take i (elems s) @ p # drop i (elems s)"
    proof (cases "i \<ge> num s")
      case True
      with d show ?thesis by (simp add: take_Suc_conv_app_nth stack_okD(1) [OF assms])
    next
      case False
      then show ?thesis using insert_array [of "num s" d i p] d(1,3) unfolding d(2) by simp
    qed
    moreover have "length ?d = m" using d by (simp add: patch_def)
    ultimately show ?thesis using e d by blast
  qed
qed


lemma sk_insert_cases:
  assumes "stack_ok C s" "sk_insert ok junk (Some s) p i = (n, Some s')"
  obtains (failed) "n = 0" "s' = s"
  | (inserted) "n = num s + 1" "elems s' = take i (elems s) @ p # drop i (elems s)" "stack_ok C s'"
      "comp s' = comp s" "\<not> sorted s'"
  using sk_insert_eq [OF assms(1), of ok junk p i] assms(2)
  by (auto simp: elems_def stack_ok_def)

lemma sk_insert_grows:
  assumes "stack_ok C s" "ok" "num_alloc s < 2 ^ 60" "sk_insert ok junk (Some s) p i = (n, Some s')"
  shows "n = num s + 1"
proof -
  have "size_add (num s) 1 = num s + 1" using assms(1) by (simp add: stack_ok_def size_simps)
  then show ?thesis
    using assms grown_alloc_Some [of "num_alloc s"] by (auto simp: sk_insert_def Let_def split: if_splits)
qed

lemma sk_delete_Some: "i < num s \<Longrightarrow> \<exists>r s'. sk_delete (Some s) i = (r, Some s')"
  by (simp add: sk_delete_def Let_def)

lemma sk_delete_eq:
  assumes "stack_ok C s" "i < num s" "sk_delete (Some s) i = (r, Some s')"
  shows "r = elems s ! i" "elems s' = take i (elems s) @ drop (Suc i) (elems s)" "stack_ok C s'" "comp s' = comp s"
    "sorted s' = sorted s"
proof -
  let ?d = "if i \<noteq> num s - 1 then patch i (take (num s - i - 1) (drop (Suc i) (data s))) (data s) else data s"
  have s': "s' = s\<lparr>data := ?d, num := num s - 1\<rparr>" "r = data s ! i"
    using assms(2,3) by (auto simp: sk_delete_def Let_def)
  show "r = elems s ! i" using s'(2) assms(2) by (simp add: elems_nth)
  have d: "take (num s - 1) ?d = take i (elems s) @ drop (Suc i) (elems s)"
    unfolding elems_def using assms(1,2) by (intro delete_array) (auto simp: stack_ok_def)
  then show e: "elems s' = take i (elems s) @ drop (Suc i) (elems s)" by (simp add: s' elems_def)
  have "in_order C c (take i xs @ drop (Suc i) xs)" if "in_order C c xs" for c xs
  proof (cases c)
    case (Some c)
    have "sorted_wrt (\<lambda>a b. C c a b \<le> 0) (take i xs @ drop i xs)" using that Some by (simp add: in_order_def)
    then show ?thesis using Some
      by (cases "drop i xs") (auto simp: in_order_def sorted_wrt_append drop_Suc drop_tl)
  qed (use that in \<open>simp add: in_order_def\<close>)
  then show "stack_ok C s'"
    unfolding stack_ok_def e using assms(1,2) by (auto simp: s'(1) stack_ok_def patch_def)
qed (use assms(2,3) in \<open>auto simp: sk_delete_def Let_def\<close>)

section \<open>Searching\<close>

lemma first_index_Some:
  "first_index P xs = Some i \<longleftrightarrow> i < length xs \<and> P (xs ! i) \<and> (\<forall>j < i. \<not> P (xs ! j))"
proof (induction xs arbitrary: i)
  case (Cons x xs)
  show ?case
    by (cases i) (auto simp: Cons.IH less_Suc_eq_0_disj nth_Cons split: nat.splits)
qed simp

lemma first_index_None: "first_index P xs = None \<longleftrightarrow> (\<forall>x \<in> set xs. \<not> P x)"
  by (induction xs) auto

context comparison
begin

text \<open>
  The invariant of the binary search: what is below \<open>lo\<close> is before the key, and either all from \<open>hi\<close> on
  is after the key or the last candidate is equal to it.
\<close>

lemma find_loop_first:
  assumes "ordered (take n d)" "n \<le> length d"
  shows "lo \<le> hi \<Longrightarrow> hi \<le> n \<Longrightarrow> \<forall>i < lo. 0 < cmp k (d ! i) \<Longrightarrow>
    (\<forall>i. hi \<le> i \<and> i < n \<longrightarrow> cmp k (d ! i) < 0) \<or> (lo < hi \<and> cmp k (d ! (hi - 1)) = 0) \<Longrightarrow>
    find_loop (cmp k) d lo hi = first_index (\<lambda>x. cmp k x = 0) (take n d)"
proof (induction "hi - lo" arbitrary: lo hi rule: less_induct)
  case less
  let ?xs = "take n d"
  have len: "length ?xs = n" using assms(2) by simp
  have above: "0 < cmp k (d ! i)" if "i \<le> j" "j < n" "0 < cmp k (d ! j)" for i j
    using ordered_above [OF assms(1) that(1), of k] that len by simp
  have below: "cmp k (d ! j) < 0" if "i \<le> j" "j < n" "cmp k (d ! i) < 0" for i j
    using ordered_below [OF assms(1) that(1), of k] that len by simp
  show ?case
  proof (cases "lo < hi")
    case False
    then have "cmp k (d ! i) \<noteq> 0" if "i < n" for i
      using less.prems that by (metis linorder_not_less less_irrefl order_antisym)
    then have "first_index (\<lambda>x. cmp k x = 0) ?xs = None"
      unfolding first_index_None using len by (auto simp: in_set_conv_nth)
    with False show ?thesis by (subst find_loop.simps) simp
  next
    case True
    define mid where "mid = lo + (hi - lo - 1) div 2"
    have mid: "lo \<le> mid" "mid < hi" "mid < n" using True less.prems(2) by (auto simp: mid_def)
    have step: "find_loop (cmp k) d lo hi =
        (if cmp k (d ! mid) > 0 then find_loop (cmp k) d (mid + 1) hi
         else if cmp k (d ! mid) < 0 then find_loop (cmp k) d lo mid
         else if hi - lo = 1 then Some mid else find_loop (cmp k) d lo (mid + 1))"
      unfolding mid_def by (subst find_loop.simps) (simp only: True if_True Let_def)
    consider "0 < cmp k (d ! mid)" | "cmp k (d ! mid) < 0" | "cmp k (d ! mid) = 0" "hi - lo = 1"
      | "cmp k (d ! mid) = 0" "hi - lo \<noteq> 1"
      by linarith
    then show ?thesis
    proof cases
      case 1
      have "mid \<noteq> hi - 1" if "cmp k (d ! (hi - 1)) = 0" using 1 that by auto
      then have "find_loop (cmp k) d (mid + 1) hi = first_index (\<lambda>x. cmp k x = 0) ?xs"
        using less.prems(2,4) mid above [OF _ mid(3) 1] by (intro less.hyps) auto
      with 1 step show ?thesis by simp
    next
      case 2
      then have "find_loop (cmp k) d lo mid = first_index (\<lambda>x. cmp k x = 0) ?xs"
        using less.prems(3) mid below [OF _ _ 2] by (intro less.hyps) auto
      with 2 step show ?thesis by simp
    next
      case 3
      then have "mid = lo" using mid by simp
      with 3 step less.prems(3) len mid(3) show ?thesis
        by (auto simp: first_index_Some intro!: sym [OF iffD2 [OF first_index_Some]])
    next
      case 4
      then have "mid + 1 < hi" using True unfolding mid_def by presburger
      with 4 have "find_loop (cmp k) d lo (mid + 1) = first_index (\<lambda>x. cmp k x = 0) ?xs"
        using less.prems(3) mid by (intro less.hyps) auto
      with 4 step show ?thesis by simp
    qed
  qed
qed

end

text \<open>C21:
  \<open>sk_find\<close> returns the index of the first element that is equal to the one looked for, by the comparison
  function of the stack or else by address, whether it scans the stack or, when the stack is marked as
  sorted, searches it by bisection, and fails if there is none.
\<close>

theorem sk_find_first:
  assumes "stack_ok C s" "\<forall>c. comp s = Some c \<longrightarrow> comparison (C c) \<and> p \<noteq> None"
  shows "sk_find C (Some s) p =
    first_index (case comp s of None \<Rightarrow> (\<lambda>x. x = p) | Some c \<Rightarrow> (\<lambda>x. C c p x = 0)) (elems s)"
proof (cases "comp s")
  case None
  then show ?thesis by (simp add: sk_find_def elems_def)
next
  case (Some c)
  have "find_loop (C c p) (data s) 0 (num s) = first_index (\<lambda>x. C c p x = 0) (take (num s) (data s))" if "sorted s"
    using assms that Some
    by (intro comparison.find_loop_first) (auto simp: stack_ok_def in_order_def elems_def)
  with Some assms(2) show ?thesis by (auto simp: sk_find_def sk_is_sorted_def elems_def)
qed

section \<open>The states of a stack\<close>

text \<open>What is relied on of the library's \<open>qsort\<close>, and of a copy function for stacks that are sorted.\<close>

definition qsort_ok :: "(('b \<Rightarrow> 'b \<Rightarrow> int) \<Rightarrow> 'b list \<Rightarrow> 'b list) \<Rightarrow> ('b \<Rightarrow> 'b \<Rightarrow> int) \<Rightarrow> bool" where
  "qsort_ok srt cmp \<longleftrightarrow> (\<forall>xs. mset (srt cmp xs) = mset xs \<and> sorted_wrt (\<lambda>a b. cmp a b \<le> 0) (srt cmp xs))"

definition copies_equal :: "'a cmp_table \<Rightarrow> (nat \<Rightarrow> 'a \<Rightarrow> 'a void_ptr) \<Rightarrow> bool" where
  "copies_equal C copy \<longleftrightarrow> (\<forall>c i x y z. copy i x = Some y \<longrightarrow> C c (Some y) z = C c (Some x) z \<and> C c z (Some y) = C c z (Some x))"

text \<open>A stack made and changed by the operations; \<open>sk_set\<close> is left out.\<close>

inductive reachable :: "'a cmp_table \<Rightarrow> (('a void_ptr \<Rightarrow> 'a void_ptr \<Rightarrow> int) \<Rightarrow> 'a void_ptr list \<Rightarrow> 'a void_ptr list) \<Rightarrow> 'a stack \<Rightarrow> bool"
  for C srt where
  new: "sk_new ok1 ok2 c = Some s \<Longrightarrow> reachable C srt s"
| dup: "reachable C srt s \<Longrightarrow> sk_dup ok1 ok2 ok3 junk (Some s) = Some s' \<Longrightarrow> reachable C srt s'"
| deep_copy: "reachable C srt s \<Longrightarrow> copies_equal C copy \<Longrightarrow> sk_deep_copy ok1 ok2 ok3 junk copy (Some s) = (Some s', freed) \<Longrightarrow>
    reachable C srt s'"
| insert: "reachable C srt s \<Longrightarrow> sk_insert ok junk (Some s) p i = (n, Some s') \<Longrightarrow> reachable C srt s'"
| push: "reachable C srt s \<Longrightarrow> sk_push ok junk (Some s) p = (n, Some s') \<Longrightarrow> reachable C srt s'"
| delete: "reachable C srt s \<Longrightarrow> sk_delete (Some s) i = (r, Some s') \<Longrightarrow> reachable C srt s'"
| delete_ptr: "reachable C srt s \<Longrightarrow> sk_delete_ptr (Some s) p = (r, Some s') \<Longrightarrow> reachable C srt s'"
| shift: "reachable C srt s \<Longrightarrow> sk_shift (Some s) = (r, Some s') \<Longrightarrow> reachable C srt s'"
| pop: "reachable C srt s \<Longrightarrow> sk_pop (Some s) = (r, Some s') \<Longrightarrow> reachable C srt s'"
| zero: "reachable C srt s \<Longrightarrow> sk_zero (Some s) = Some s' \<Longrightarrow> reachable C srt s'"
| sort: "reachable C srt s \<Longrightarrow> sk_sort srt C (Some s) = Some s' \<Longrightarrow> reachable C srt s'"
| set_cmp_func: "reachable C srt s \<Longrightarrow> sk_set_cmp_func s c = (old, s') \<Longrightarrow> reachable C srt s'"

lemma sk_insert_ok: "stack_ok C s \<Longrightarrow> sk_insert ok junk (Some s) p i = (n, Some s') \<Longrightarrow> stack_ok C s'"
  by (metis sk_insert_cases)

lemma sk_delete_ok: "stack_ok C s \<Longrightarrow> sk_delete (Some s) i = (r, Some s') \<Longrightarrow> stack_ok C s'"
  using sk_delete_eq(3) [of C s i r s'] by (cases "i < num s") (auto simp: sk_delete_def)

lemma sk_dup_eq:
  assumes "stack_ok C s" "sk_dup ok1 ok2 ok3 junk (Some s) = Some s'"
  shows "elems s' = elems s" "num s' = num s" "comp s' = comp s" "sorted s' = sorted s" "stack_ok C s'"
proof -
  let ?d = "take (num_alloc s) (replicate kMinSize None @ map junk [kMinSize..<num_alloc s])"
  have s': "s' = \<lparr>num = num s, data = patch 0 (take (num s) (data s)) ?d, sorted = sorted s,
      num_alloc = num_alloc s, comp = comp s\<rparr>"
    using assms(2) by (auto simp: sk_dup_def sk_new_def Let_def split: if_splits)
  have len: "length ?d = num_alloc s" by (simp add: min_def)
  then have "take (num s) (patch 0 (take (num s) (data s)) ?d) = take (num s) (data s)"
    using take_patch_0 [of "take (num s) (data s)" ?d] stack_okD(2) [OF assms(1)] assms(1) by (simp add: stack_ok_def)
  then show e: "elems s' = elems s" by (simp add: s' elems_def)
  show "num s' = num s" "comp s' = comp s" "sorted s' = sorted s" by (simp_all add: s')
  show "stack_ok C s'"
    unfolding stack_ok_def e using assms(1) len by (simp add: s' stack_ok_def)
qed

lemma sk_sort_eq:
  assumes "stack_ok C s" "\<forall>c. qsort_ok srt (C c)" "sk_sort srt C (Some s) = Some s'"
  shows "mset (elems s') = mset (elems s)" "stack_ok C s'" "comp s \<noteq> None \<Longrightarrow> sorted s'"
proof -
  have "mset (elems s') = mset (elems s) \<and> stack_ok C s' \<and> (comp s \<noteq> None \<longrightarrow> sorted s')"
  proof (cases "comp s = None \<or> sorted s")
    case True
    then have "s' = s" using assms(3) by (auto simp: sk_sort_def split: option.splits)
    with True assms(1) show ?thesis by auto
  next
    case False
    then obtain c where c: "comp s = Some c" by auto
    let ?d = "if num s \<ge> 2 then patch 0 (srt (C c) (elems s)) (data s) else data s"
    have s': "s' = s\<lparr>data := ?d, sorted := True\<rparr>" using assms(3) False c by (auto simp: sk_sort_def elems_def)
    have srt: "mset (srt (C c) (elems s)) = mset (elems s)" "sorted_wrt (\<lambda>a b. C c a b \<le> 0) (srt (C c) (elems s))"
      using assms(2) by (auto simp: qsort_ok_def)
    then have len: "length (srt (C c) (elems s)) = num s" by (metis size_mset stack_okD(1) [OF assms(1)])
    then have "elems s' = (if num s \<ge> 2 then srt (C c) (elems s) else elems s)"
      using take_patch_0 [of "srt (C c) (elems s)" "data s"] stack_okD(2) [OF assms(1)] by (simp add: elems_def s')
    moreover have "sorted_wrt P xs" if "\<not> length xs \<ge> 2" for P and xs :: "'a void_ptr list"
      using that by (cases xs rule: remdups_adj.cases) auto
    ultimately have e: "mset (elems s') = mset (elems s)" "in_order C (Some c) (elems s')"
      using srt stack_okD(1) [OF assms(1)] by (auto simp: in_order_def)
    have "length ?d = length (data s)" using len stack_okD(2) [OF assms(1)] by simp
    then have "stack_ok C s'" using assms(1) e(2) by (auto simp: stack_ok_def s' c)
    with e(1) show ?thesis by (simp add: s')
  qed
  then show "mset (elems s') = mset (elems s)" "stack_ok C s'" "comp s \<noteq> None \<Longrightarrow> sorted s'" by auto
qed

text \<open>The copies of the elements from index \<open>i\<close> on; \<open>None\<close> for a null pointer or a copy that failed.\<close>

definition copied :: "(nat \<Rightarrow> 'a \<Rightarrow> 'a void_ptr) \<Rightarrow> nat \<Rightarrow> 'a void_ptr list \<Rightarrow> 'a void_ptr list" where
  "copied copy i xs = map (\<lambda>(j, x). case x of None \<Rightarrow> None | Some x \<Rightarrow> copy j x) (enumerate i xs)"

lemma copied_Cons: "copied copy i (x # xs) = (case x of None \<Rightarrow> None | Some x \<Rightarrow> copy i x) # copied copy (Suc i) xs"
  by (simp add: copied_def)

lemma copied_length [simp]: "length (copied copy i xs) = length xs"
  by (simp add: copied_def)

lemma copied_Nil [simp]: "copied copy i [] = []"
  by (simp add: copied_def)

lemma deep_copy_loop_eq:
  "(\<exists>k < length xs. xs ! k \<noteq> None \<and> copied copy i xs ! k = None \<and> (\<forall>j < k. copied copy i xs ! j = None \<longrightarrow> xs ! j = None) \<and>
      deep_copy_loop copy i made xs = Inl (List.map_filter (\<lambda>x. x) (made @ take k (copied copy i xs)))) \<or>
   ((\<forall>j < length xs. copied copy i xs ! j = None \<longrightarrow> xs ! j = None) \<and>
      deep_copy_loop copy i made xs = Inr (made @ copied copy i xs))"
proof (induction xs arbitrary: i made)
  case (Cons x xs)
  show ?case
  proof (cases x)
    case None
    with Cons.IH [of "Suc i" "made @ [None]"] show ?thesis by (simp add: copied_Cons Ex_less_Suc2 All_less_Suc2)
  next
    case (Some a)
    show ?thesis
    proof (cases "copy i a")
      case None
      with Some show ?thesis by (intro disjI1 exI [of _ 0]) (simp add: copied_Cons)
    next
      case (Some b)
      with \<open>x = Some a\<close> Cons.IH [of "Suc i" "made @ [Some b]"] show ?thesis
        by (simp add: copied_Cons Ex_less_Suc2 All_less_Suc2)
    qed
  qed
qed simp

lemma sk_deep_copy_eq:
  assumes "stack_ok C s" "sk_deep_copy ok1 ok2 ok3 junk copy (Some s) = (Some s', freed)"
  shows "elems s' = copied copy 0 (elems s)" "freed = []" "comp s' = comp s" "sorted s' = sorted s" "num s' = num s"
    "length (data s') = num_alloc s'" "num_alloc s' < 2 ^ 61" "num s' < num_alloc s'"
    "\<forall>j < num s. copied copy 0 (elems s) ! j = None \<longrightarrow> elems s ! j = None"
proof -
  obtain r where r: "sk_dup ok1 ok2 ok3 junk (Some s) = Some r"
    using assms(2) by (auto simp: sk_deep_copy_def split: option.splits)
  note dup = sk_dup_eq [OF assms(1) r]
  have e: "take (num r) (data r) = elems s" using dup(1) by (simp add: elems_def)
  obtain d where d: "deep_copy_loop copy 0 [] (elems s) = Inr d" "s' = r\<lparr>data := patch 0 d (data r)\<rparr>" "freed = []"
    using assms(2) by (auto simp: sk_deep_copy_def r e split: sum.splits)
  have c: "d = copied copy 0 (elems s)" "\<forall>j < num s. copied copy 0 (elems s) ! j = None \<longrightarrow> elems s ! j = None"
    using deep_copy_loop_eq [of "elems s" copy 0 "[]"] d(1) stack_okD(1) [OF assms(1)] by auto
  have len: "length d = num s" "num s \<le> length (data r)"
    using c(1) stack_okD [OF assms(1)] stack_okD [OF dup(5)] dup(2) by simp_all
  then show "elems s' = copied copy 0 (elems s)"
    using take_patch_0 [of d "data r"] c(1) dup(2) by (simp add: elems_def d(2))
  show "\<forall>j < num s. copied copy 0 (elems s) ! j = None \<longrightarrow> elems s ! j = None" by (rule c(2))
  show "length (data s') = num_alloc s'" "num_alloc s' < 2 ^ 61" "num s' < num_alloc s'"
    using dup(5) len by (auto simp: d(2) stack_ok_def)
  show "freed = []" "comp s' = comp s" "sorted s' = sorted s" "num s' = num s" by (simp_all add: d dup)
qed


lemma in_order_copied:
  assumes "copies_equal C copy" "in_order C c xs" "\<forall>j < length xs. copied copy 0 xs ! j = None \<longrightarrow> xs ! j = None"
  shows "in_order C c (copied copy 0 xs)"
proof -
  have eq: "C k (copied copy 0 xs ! i) z = C k (xs ! i) z \<and> C k z (copied copy 0 xs ! i) = C k z (xs ! i)"
    if "i < length xs" for i k z
  proof (cases "xs ! i")
    case None
    with that show ?thesis by (simp add: copied_def nth_enumerate_eq)
  next
    case (Some a)
    with assms(3) that have "copied copy 0 xs ! i \<noteq> None" by auto
    with Some that obtain b where "copy i a = Some b" "copied copy 0 xs ! i = Some b"
      by (auto simp: copied_def nth_enumerate_eq)
    with assms(1) Some show ?thesis unfolding copies_equal_def by metis
  qed
  show ?thesis
    using assms(2) by (auto simp: in_order_def sorted_wrt_iff_nth_less eq split: option.splits)
qed

text \<open>C38:
  In every stack that the operations other than \<open>sk_set\<close> make and change, the array has room for another
  element, and a stack that is marked as sorted has a comparison function and its elements are in order,
  so that searching it by bisection is right. The library's \<open>qsort\<close> is assumed to sort, and the copy
  functions of deep copies to keep how elements compare.
\<close>

theorem stack_reachable_ok:
  assumes "reachable C srt s" "\<forall>c. qsort_ok srt (C c)"
  shows "stack_ok C s"
  using assms(1)
proof induction
  case (new ok1 ok2 c s)
  then show ?case by (auto simp: sk_new_def stack_ok_def kMinSize_def split: if_splits)
next
  case (dup s ok1 ok2 ok3 junk s')
  then show ?case by (blast intro: sk_dup_eq)
next
  case (deep_copy s copy ok1 ok2 ok3 junk s' freed)
  note eq = sk_deep_copy_eq [OF deep_copy.IH deep_copy.hyps(3)]
  have "length (elems s) = num s" using deep_copy.IH by (rule stack_okD)
  with deep_copy.IH eq(9) in_order_copied [OF deep_copy.hyps(2), of "comp s" "elems s"] show ?case
    using eq(3-8) by (auto simp: stack_ok_def eq(1))
next
  case (insert s ok junk p i n s')
  then show ?case by (blast intro: sk_insert_ok)
next
  case (push s ok junk p n s')
  then show ?case by (auto simp: sk_push_def intro: sk_insert_ok)
next
  case (delete s i r s')
  then show ?case by (blast intro: sk_delete_ok)
next
  case (delete_ptr s p r s')
  then show ?case by (auto simp: sk_delete_ptr_def intro: sk_delete_ok split: option.splits)
next
  case (shift s r s')
  then show ?case by (auto simp: sk_shift_def intro: sk_delete_ok split: if_splits)
next
  case (pop s r s')
  then show ?case by (auto simp: sk_pop_def intro: sk_delete_ok split: if_splits)
next
  case (zero s s')
  then show ?case by (auto simp: sk_zero_def stack_ok_def split: if_splits)
next
  case (sort s s')
  then show ?case using sk_sort_eq(2) assms(2) by blast
next
  case (set_cmp_func s c old s')
  then show ?case by (cases "comp s = c") (auto simp: sk_set_cmp_func_def stack_ok_def elems_def)
qed


text \<open>
  Inserting an element puts it before the element at the index, or at the end when the index is not
  smaller than the length, and keeps the others in their order; the result is the new length, or 0 with the
  stack unchanged when the memory is not there. Deleting the index where it was put gives the old
  elements back.
\<close>

theorem sk_insert_delete:
  assumes "stack_ok C s" "sk_insert ok junk (Some s) p i = (n, sk)"
  shows "(n = 0 \<and> sk = Some s \<and> (ok \<longrightarrow> 2 ^ 60 \<le> num_alloc s)) \<or>
    (\<exists>s'. sk = Some s' \<and> n = length (elems s') \<and> elems s' = take i (elems s) @ p # drop i (elems s) \<and>
      (\<exists>s''. sk_delete sk (min i (num s)) = (p, Some s'') \<and> elems s'' = elems s))"
proof -
  have "sk \<noteq> None" using sk_insert_eq [OF assms(1), of ok junk p i] assms(2) by auto
  then obtain s' where sk: "sk = Some s'" by auto
  have len: "length (elems s) = num s" using assms(1) by (rule stack_okD)
  from assms(1) assms(2) [unfolded sk] show ?thesis
  proof (cases rule: sk_insert_cases)
    case failed
    then show ?thesis using sk_insert_grows [OF assms(1), of ok junk p i n s'] assms(2) sk by fastforce
  next
    case inserted
    have l: "length (elems s') = num s + 1" by (simp add: inserted(2) len)
    then have j: "min i (num s) < num s'" using stack_okD(1) [OF inserted(3)] by simp
    obtain r s'' where d: "sk_delete (Some s') (min i (num s)) = (r, Some s'')"
      using sk_delete_Some [OF j] by auto
    note eq = sk_delete_eq [OF inserted(3) j d]
    have "r = p" using eq(1) len by (cases "i \<le> num s") (simp_all add: inserted(2) nth_append min_def)
    moreover have "elems s'' = elems s"
      using eq(2) len by (cases "i \<le> num s") (simp_all add: inserted(2) min_def)
    ultimately show ?thesis using d l inserted(1,2) sk by simp
  qed
qed

text \<open>C39:
  A deep copy is all or nothing: either the new stack holds the copy of every element, with null pointers
  where the old one has them, or a copy has failed, no stack is returned, and the free function is
  called with exactly the copies made before.
\<close>

theorem sk_deep_copy_all_or_nothing:
  assumes "stack_ok C s" "sk_deep_copy True True True junk copy (Some s) = (r, freed)"
  shows "(\<exists>s'. r = Some s' \<and> elems s' = copied copy 0 (elems s) \<and> freed = [] \<and>
      (\<forall>j < num s. elems s' ! j = None \<longleftrightarrow> elems s ! j = None)) \<or>
    (\<exists>k < num s. r = None \<and> elems s ! k \<noteq> None \<and> copied copy 0 (elems s) ! k = None \<and>
      freed = List.map_filter (\<lambda>x. x) (take k (copied copy 0 (elems s))))"
proof (cases r)
  case None
  obtain d where dup: "sk_dup True True True junk (Some s) = Some d" by (simp add: sk_dup_def sk_new_def)
  have e: "take (num d) (data d) = elems s" using sk_dup_eq(1) [OF assms(1) dup] by (simp add: elems_def)
  have "deep_copy_loop copy 0 [] (elems s) = Inl freed"
    using assms(2) None by (auto simp: sk_deep_copy_def dup e split: sum.splits)
  then show ?thesis
    using deep_copy_loop_eq [of "elems s" copy 0 "[]"] None stack_okD(1) [OF assms(1)] by auto
next
  case (Some s')
  note eq = sk_deep_copy_eq [OF assms(1) assms(2) [unfolded Some]]
  have "copied copy 0 (elems s) ! j = None" if "elems s ! j = None" "j < num s" for j
    using that stack_okD(1) [OF assms(1)] by (simp add: copied_def nth_enumerate_eq)
  with eq Some show ?thesis by auto
qed

section \<open>Examples\<close>

text \<open>Numbers, compared by their values.\<close>

definition by_value :: "nat cmp_table" where
  "by_value c x y = int (the x) - int (the y)"

definition three :: "nat stack" where
  "three = \<lparr>num = 3, data = [Some 3, Some 1, Some 2, None], sorted = False, num_alloc = 4, comp = Some 0\<rparr>"

lemma by_value_comparison: "comparison (by_value c)"
  by unfold_locales (auto simp: by_value_def)

lemma qsort_ok_qsort: "comparison cmp \<Longrightarrow> qsort_ok qsort cmp"
  by (simp add: qsort_ok_def qsort_mset comparison.qsort_sorted)

definition three_in_order :: "nat stack" where
  "three_in_order = \<lparr>num = 3, data = [Some 1, Some 2, Some 3, None], sorted = True, num_alloc = 4, comp = Some 0\<rparr>"

lemma three_sorted: "sk_sort qsort by_value (Some three) = Some three_in_order"
  by (simp add: sk_sort_def three_def three_in_order_def qsort_def by_value_def patch_def)

lemma three_reachable: "reachable by_value qsort three_in_order"
proof -
  define st :: "nat option list \<Rightarrow> nat \<Rightarrow> nat stack" where
    "st d n = \<lparr>num = n, data = d, sorted = False, num_alloc = 4, comp = Some 0\<rparr>" for d n
  have push: "sk_push True (\<lambda>_. None) (Some (st d n)) p = (n + 1, Some (st (d[n := p]) (n + 1)))"
    if "length d = 4" "n < 3" for d n p
    using that by (simp add: sk_push_def sk_num_def sk_insert_def st_def size_simps Let_def)
  have "reachable by_value qsort (st [None, None, None, None] 0)"
    by (rule new [of True True "Some 0"]) (simp add: sk_new_def st_def kMinSize_def numeral_eq_Suc)
  then have "reachable by_value qsort (st [Some 3, None, None, None] 1)"
    by (rule reachable.push [where p = "Some 3"]) (subst push; simp)
  then have "reachable by_value qsort (st [Some 3, Some 1, None, None] 2)"
    by (rule reachable.push [where p = "Some 1"]) (subst push; simp add: numeral_2_eq_2)
  then have "reachable by_value qsort (st [Some 3, Some 1, Some 2, None] 3)"
    by (rule reachable.push [where p = "Some 2"]) (subst push; simp add: numeral_2_eq_2 numeral_3_eq_3)
  then have "reachable by_value qsort three" by (simp add: st_def three_def)
  then show ?thesis by (rule reachable.sort) (rule three_sorted)
qed

lemma three_ok: "stack_ok by_value three_in_order"
  by (simp add: three_in_order_def stack_ok_def in_order_def elems_def by_value_def)

theorem stack_reachable_ok_witness: "stack_ok by_value three_in_order"
  using stack_reachable_ok [OF three_reachable] by (simp add: qsort_ok_qsort by_value_comparison)

theorem sk_find_first_witness:
  "sk_find by_value (sk_sort qsort by_value (Some three)) (Some 2) = Some 1"
proof -
  have "sk_find by_value (Some three_in_order) (Some 2) =
      first_index (\<lambda>x. by_value 0 (Some 2) x = 0) [Some 1, Some 2, Some 3]"
    using sk_find_first [OF three_ok, of "Some 2"]
    by (simp add: three_in_order_def by_value_comparison elems_def)
  then show ?thesis unfolding three_sorted by (simp add: by_value_def)
qed

theorem sk_insert_delete_witness:
  "\<exists>s'. sk_insert True (\<lambda>_. None) (Some three_in_order) (Some 7) 1 = (4, Some s') \<and>
    elems s' = [Some 1, Some 7, Some 2, Some 3]"
proof -
  obtain n sk where i: "sk_insert True (\<lambda>_. None) (Some three_in_order) (Some 7) 1 = (n, sk)" by fastforce
  have e: "elems three_in_order = [Some 1, Some 2, Some 3]" "num_alloc three_in_order = 4"
    by (simp_all add: three_in_order_def elems_def)
  show ?thesis using sk_insert_delete [OF three_ok i] i by (auto simp: e)
qed

text \<open>Copying numbers fails for the second of them.\<close>

theorem sk_deep_copy_all_or_nothing_witness:
  "\<exists>r. sk_deep_copy True True True (\<lambda>_. None) (\<lambda>i x. if i = 1 then None else Some (x + 10)) (Some three_in_order) = (r, [11])"
proof -
  let ?copy = "\<lambda>i x. if i = (1 :: nat) then None else Some (x + 10 :: nat)"
  obtain r freed where d: "sk_deep_copy True True True (\<lambda>_. None) ?copy (Some three_in_order) = (r, freed)" by fastforce
  have e: "elems three_in_order = [Some 1, Some 2, Some 3]" "num three_in_order = 3"
    by (simp_all add: three_in_order_def elems_def)
  have c: "copied ?copy 0 [Some 1, Some 2, Some 3] = [Some 11, None, Some 13]" by (simp add: copied_def)
  consider s' where "elems s' = [Some 11, None, Some (13 :: nat)]" "\<forall>j < 3. elems s' ! j = None \<longleftrightarrow> [Some 1, Some 2, Some (3 :: nat)] ! j = None"
    | k where "k < 3" "[Some 11, None, Some (13 :: nat)] ! k = None" "freed = List.map_filter (\<lambda>x. x) (take k [Some 11, None, Some 13])"
    using sk_deep_copy_all_or_nothing [OF three_ok d] unfolding e c by blast
  then have "freed = [11]"
  proof cases
    case 1
    from 1(2) have "elems s' ! 1 = None \<longleftrightarrow> [Some 1, Some 2, Some (3 :: nat)] ! 1 = None" by simp
    then show ?thesis by (simp add: 1(1))
  next
    case 2
    from 2(1) have "k = 0 \<or> k = 1 \<or> k = 2" by arith
    then show ?thesis using 2(2,3) by (auto simp: map_filter_def)
  qed
  with d show ?thesis by blast
qed

text \<open>
  \<open>sk_set\<close> keeps the mark of a sorted stack, so a sorted stack in which an element was replaced is still
  searched by bisection, and \<open>sk_find\<close> misses the element that was just stored at its beginning.
\<close>

theorem sk_set_misses_element:
  "let sk = snd (sk_set (sk_sort qsort by_value (Some three)) 0 (Some 5)) in
    sk_value sk 0 = Some 5 \<and> sk_is_sorted sk \<and> sk_find by_value sk (Some 5) = None"
  unfolding three_sorted
  by (simp add: three_in_order_def sk_set_def sk_value_def sk_is_sorted_def sk_find_def by_value_def
    find_loop.simps)

end
