(* ===== verification/LHash.thy ===== *)
theory LHash
  imports Prelude "HOL-Library.Multiset"
begin

text \<open>
  The hash table of BoringSSL (\<open>crypto/lhash/lhash.c\<close>): chained items on the heap, with a table that
  doubles and halves. The items live in a store from addresses to items; a pointer to a pointer,
  which the code uses to unlink an item, is the place where the pointer is stored (\<open>link\<close>). A loop
  along a chain that does not end has the value \<open>None\<close>; in LHashFacts the loops are shown to end.
\<close>

section \<open>Data\<close>

record 'd lhash_item =
  idata :: 'd
  inext :: "nat option"
  ihash :: u32

record 'd lhash =
  heap :: "nat \<Rightarrow> 'd lhash_item option"
  num_items :: nat
  buckets :: "nat option list"
  num_buckets :: nat
  callback_depth :: nat
  lcomp :: "'d \<Rightarrow> 'd \<Rightarrow> int"
  hash :: "'d \<Rightarrow> u32"

definition kMinNumBuckets :: nat where "kMinNumBuckets = 16"
definition kMaxAverageChainLength :: nat where "kMaxAverageChainLength = 2"
definition kMinAverageChainLength :: nat where "kMinAverageChainLength = 1"
definition UINT_MAX :: nat where "UINT_MAX = 2 ^ 32 - 1"

text \<open>The places where a pointer to an item is stored.\<close>

datatype link = Bucket nat | Next nat

abbreviation item :: "'d lhash \<Rightarrow> nat \<Rightarrow> 'd lhash_item" where
  "item lh a \<equiv> the (heap lh a)"

primrec read_link :: "'d lhash \<Rightarrow> link \<Rightarrow> nat option" where
  "read_link lh (Bucket i) = buckets lh ! i"
| "read_link lh (Next a) = inext (item lh a)"

primrec write_link :: "link \<Rightarrow> nat option \<Rightarrow> 'd lhash \<Rightarrow> 'd lhash" where
  "write_link (Bucket i) p lh = lh\<lparr>buckets := (buckets lh)[i := p]\<rparr>"
| "write_link (Next a) p lh = lh\<lparr>heap := (heap lh)(a \<mapsto> (item lh a)\<lparr>inext := p\<rparr>)\<rparr>"

section \<open>The code\<close>

definition lh_new :: "bool \<Rightarrow> bool \<Rightarrow> ('d \<Rightarrow> u32) \<Rightarrow> ('d \<Rightarrow> 'd \<Rightarrow> int) \<Rightarrow> 'd lhash option" where
  "lh_new ok1 ok2 h c =
     (if \<not> ok1 then None
      else if \<not> ok2 then None
      else Some \<lparr>heap = Map.empty, num_items = 0, buckets = replicate kMinNumBuckets None,
                 num_buckets = kMinNumBuckets, callback_depth = 0, lcomp = c, hash = h\<rparr>)"

text \<open>The addresses of the items that are freed along one chain, and by \<open>lh_free\<close>, in order.\<close>

partial_function (option) free_loop :: "'d lhash \<Rightarrow> nat option \<Rightarrow> nat list option" where
  "free_loop lh n =
     (case n of
        None \<Rightarrow> Some []
      | Some a \<Rightarrow>
          (case heap lh a of
             None \<Rightarrow> None
           | Some it \<Rightarrow> Option.bind (free_loop lh (inext it)) (\<lambda>as. Some (a # as))))"

primrec free_buckets :: "'d lhash \<Rightarrow> nat option list \<Rightarrow> nat list option" where
  "free_buckets lh [] = Some []"
| "free_buckets lh (b # bs) =
     Option.bind (free_loop lh b) (\<lambda>as. Option.bind (free_buckets lh bs) (\<lambda>bs'. Some (as @ bs')))"

definition lh_free :: "'d lhash option \<Rightarrow> nat list option" where
  "lh_free lh = (case lh of None \<Rightarrow> Some [] | Some lh \<Rightarrow> free_buckets lh (buckets lh))"

definition lh_num_items :: "'d lhash \<Rightarrow> nat" where
  "lh_num_items lh = num_items lh"

text \<open>The loop of both functions below: from a place on, the first place whose item has the property.\<close>

partial_function (option) next_ptr_loop :: "('d \<Rightarrow> bool) \<Rightarrow> 'd lhash \<Rightarrow> link \<Rightarrow> link option" where
  "next_ptr_loop found lh r =
     (case read_link lh r of
        None \<Rightarrow> Some r
      | Some cur \<Rightarrow> if found (idata (item lh cur)) then Some r else next_ptr_loop found lh (Next cur))"

definition get_next_ptr_and_hash :: "'d lhash \<Rightarrow> 'd \<Rightarrow> (link \<times> u32) option" where
  "get_next_ptr_and_hash lh d =
     (let h = hash lh d in
      Option.bind (next_ptr_loop (\<lambda>x. lcomp lh x d = 0) lh (Bucket (unat h mod num_buckets lh))) (\<lambda>r. Some (r, h)))"

definition get_next_ptr_by_key :: "'d lhash \<Rightarrow> u32 \<Rightarrow> ('d \<Rightarrow> int) \<Rightarrow> link option" where
  "get_next_ptr_by_key lh key_hash cmp_key =
     next_ptr_loop (\<lambda>x. cmp_key x = 0) lh (Bucket (unat key_hash mod num_buckets lh))"

definition lh_retrieve :: "'d lhash \<Rightarrow> 'd \<Rightarrow> 'd option option" where
  "lh_retrieve lh d =
     Option.bind (get_next_ptr_and_hash lh d) (\<lambda>(r, _). Some (map_option (\<lambda>a. idata (item lh a)) (read_link lh r)))"

definition lh_retrieve_key :: "'d lhash \<Rightarrow> u32 \<Rightarrow> ('d \<Rightarrow> int) \<Rightarrow> 'd option option" where
  "lh_retrieve_key lh key_hash cmp_key =
     Option.bind (get_next_ptr_by_key lh key_hash cmp_key)
       (\<lambda>r. Some (map_option (\<lambda>a. idata (item lh a)) (read_link lh r)))"

text \<open>The loops of \<open>lh_rebucket\<close>, on the new array and the items.\<close>

partial_function (option) move_loop ::
    "nat \<Rightarrow> nat option \<Rightarrow> nat option list \<times> (nat \<Rightarrow> 'd lhash_item option) \<Rightarrow>
     (nat option list \<times> (nat \<Rightarrow> 'd lhash_item option)) option" where
  "move_loop n cur st =
     (case cur of
        None \<Rightarrow> Some st
      | Some a \<Rightarrow>
          (case snd st a of
             None \<Rightarrow> None
           | Some it \<Rightarrow>
               let b = unat (ihash it) mod n
               in move_loop n (inext it) ((fst st)[b := Some a], (snd st)(a \<mapsto> it\<lparr>inext := fst st ! b\<rparr>))))"

primrec rebucket_loop ::
    "nat \<Rightarrow> nat option list \<Rightarrow> nat option list \<times> (nat \<Rightarrow> 'd lhash_item option) \<Rightarrow>
     (nat option list \<times> (nat \<Rightarrow> 'd lhash_item option)) option" where
  "rebucket_loop n [] st = Some st"
| "rebucket_loop n (b # bs) st = Option.bind (move_loop n b st) (rebucket_loop n bs)"

text \<open>\<open>ok\<close> says whether the allocation of the new array succeeds.\<close>

definition lh_rebucket :: "bool \<Rightarrow> nat \<Rightarrow> 'd lhash \<Rightarrow> 'd lhash option" where
  "lh_rebucket ok new_num_buckets lh =
     (let alloc_size = size_mul 8 new_num_buckets in
      if alloc_size div 8 \<noteq> new_num_buckets then Some lh
      else if \<not> ok then Some lh
      else
        Option.bind (rebucket_loop new_num_buckets (buckets lh) (replicate new_num_buckets None, heap lh))
          (\<lambda>(new_buckets, h). Some (lh\<lparr>heap := h, num_buckets := new_num_buckets, buckets := new_buckets\<rparr>)))"

definition lh_maybe_resize :: "bool \<Rightarrow> 'd lhash \<Rightarrow> 'd lhash option" where
  "lh_maybe_resize ok lh =
     (if callback_depth lh > 0 then Some lh
      else
        let avg_chain_length = num_items lh div num_buckets lh in
        if avg_chain_length > kMaxAverageChainLength then
          let new_num_buckets = size_mul (num_buckets lh) 2 in
          if new_num_buckets > num_buckets lh then lh_rebucket ok new_num_buckets lh else Some lh
        else if avg_chain_length < kMinAverageChainLength \<and> num_buckets lh > kMinNumBuckets then
          let new_num_buckets = num_buckets lh div 2;
              new_num_buckets = (if new_num_buckets < kMinNumBuckets then kMinNumBuckets else new_num_buckets)
          in lh_rebucket ok new_num_buckets lh
        else Some lh)"

text \<open>
  \<open>addr\<close> is the address of the new item, \<open>None\<close> when it cannot be allocated. The result of the function,
  \<open>*old_data\<close>, and the table.
\<close>

definition lh_insert :: "bool \<Rightarrow> nat option \<Rightarrow> 'd \<Rightarrow> 'd lhash \<Rightarrow> (bool \<times> 'd option \<times> 'd lhash) option" where
  "lh_insert ok addr d lh =
     Option.bind (get_next_ptr_and_hash lh d) (\<lambda>(next_ptr, h).
       case read_link lh next_ptr of
         Some a \<Rightarrow>
           Some (True, Some (idata (item lh a)), lh\<lparr>heap := (heap lh)(a \<mapsto> (item lh a)\<lparr>idata := d\<rparr>)\<rparr>)
       | None \<Rightarrow>
           (case addr of
              None \<Rightarrow> Some (False, None, lh)
            | Some a \<Rightarrow>
                let lh1 = lh\<lparr>heap := (heap lh)(a \<mapsto> \<lparr>idata = d, inext = None, ihash = h\<rparr>)\<rparr>;
                    lh2 = write_link next_ptr (Some a) lh1;
                    lh3 = lh2\<lparr>num_items := size_add (num_items lh2) 1\<rparr>
                in Option.bind (lh_maybe_resize ok lh3) (\<lambda>lh4. Some (True, None, lh4))))"

definition lh_delete :: "bool \<Rightarrow> 'd \<Rightarrow> 'd lhash \<Rightarrow> ('d option \<times> 'd lhash) option" where
  "lh_delete ok d lh =
     Option.bind (get_next_ptr_and_hash lh d) (\<lambda>(next_ptr, _).
       case read_link lh next_ptr of
         None \<Rightarrow> Some (None, lh)
       | Some a \<Rightarrow>
           let r = idata (item lh a);
               lh1 = write_link next_ptr (inext (item lh a)) lh;
               lh2 = lh1\<lparr>heap := (heap lh1)(a := None)\<rparr>;
               lh3 = lh2\<lparr>num_items := size_sub (num_items lh2) 1\<rparr>
           in Option.bind (lh_maybe_resize ok lh3) (\<lambda>lh4. Some (Some r, lh4)))"

text \<open>
  The loops of \<open>lh_doall_arg\<close>. The callback works on the table and the client's data \<open>'s\<close>; an item that it
  freed while it was next in the chain is read after it was freed (\<open>None\<close>).
\<close>

partial_function (option) doall_loop ::
    "('d \<Rightarrow> 'd lhash \<times> 's \<Rightarrow> ('d lhash \<times> 's) option) \<Rightarrow> nat option \<Rightarrow> 'd lhash \<times> 's \<Rightarrow> ('d lhash \<times> 's) option" where
  "doall_loop func cur st =
     (case cur of
        None \<Rightarrow> Some st
      | Some a \<Rightarrow>
          (case heap (fst st) a of
             None \<Rightarrow> None
           | Some it \<Rightarrow> Option.bind (func (idata it) st) (doall_loop func (inext it))))"

partial_function (option) doall_buckets ::
    "('d \<Rightarrow> 'd lhash \<times> 's \<Rightarrow> ('d lhash \<times> 's) option) \<Rightarrow> nat \<Rightarrow> 'd lhash \<times> 's \<Rightarrow> ('d lhash \<times> 's) option" where
  "doall_buckets func i st =
     (if i < num_buckets (fst st)
      then Option.bind (doall_loop func (buckets (fst st) ! i) st) (doall_buckets func (i + 1))
      else Some st)"

definition lh_doall_arg ::
    "bool \<Rightarrow> ('d \<Rightarrow> 'd lhash \<times> 's \<Rightarrow> ('d lhash \<times> 's) option) \<Rightarrow> 'd lhash option \<times> 's \<Rightarrow> ('d lhash option \<times> 's) option" where
  "lh_doall_arg ok func st =
     (case fst st of
        None \<Rightarrow> Some st
      | Some lh \<Rightarrow>
          let lh1 = (if callback_depth lh < UINT_MAX then lh\<lparr>callback_depth := callback_depth lh + 1\<rparr> else lh) in
          Option.bind (doall_buckets func 0 (lh1, snd st)) (\<lambda>(lh2, s).
            let lh3 = (if callback_depth lh2 < UINT_MAX then lh2\<lparr>callback_depth := callback_depth lh2 - 1\<rparr> else lh2) in
            Option.bind (lh_maybe_resize ok lh3) (\<lambda>lh4. Some (Some lh4, s))))"

text \<open>The FNV-1a hash of \<open>crypto/mem.c\<close>, and the hash of a string up to its NUL.\<close>

definition OPENSSL_hash32 :: "byte list \<Rightarrow> u32" where
  "OPENSSL_hash32 inp = foldl (\<lambda>h b. (h XOR ucast b) * 16777619) 2166136261 inp"

definition lh_strhash :: "byte list option \<Rightarrow> u32" where
  "lh_strhash c = (case c of None \<Rightarrow> 0 | Some s \<Rightarrow> OPENSSL_hash32 (takeWhile (\<lambda>b. b \<noteq> 0) s))"

end
