(* ===== verification/LHashFacts.thy ===== *)
theory LHashFacts
  imports LHash
begin

text \<open>
  What the hash table of \<open>lhash.c\<close> is: the chains of its buckets are disjoint lists on the heap that hold
  every item once, in the bucket of its hash. Every operation keeps this, and on it a table is a map
  from objects, taken up to the comparison function, to stored objects.
\<close>

section \<open>Chains on the heap\<close>

type_synonym 'd items = "nat \<Rightarrow> 'd lhash_item option"

primrec segment :: "'d items \<Rightarrow> nat option \<Rightarrow> nat list \<Rightarrow> nat option \<Rightarrow> bool" where
  "segment H p [] q \<longleftrightarrow> p = q"
| "segment H p (a # as) q \<longleftrightarrow> p = Some a \<and> (\<exists>it. H a = Some it \<and> segment H (inext it) as q)"

abbreviation chain :: "'d items \<Rightarrow> nat option \<Rightarrow> nat list \<Rightarrow> bool" where
  "chain H p as \<equiv> segment H p as None"

lemma segment_append: "segment H p (as @ bs) q \<longleftrightarrow> (\<exists>r. segment H p as r \<and> segment H r bs q)"
  by (induction as arbitrary: p) auto

lemma segment_dom: "segment H p as q \<Longrightarrow> set as \<subseteq> dom H"
  by (induction as arbitrary: p) auto

lemma segment_cong: "segment H p as q \<Longrightarrow> (\<And>a. a \<in> set as \<Longrightarrow> H' a = H a) \<Longrightarrow> segment H' p as q"
proof (induction as arbitrary: p)
  case (Cons a as)
  then obtain it where "p = Some a" "H a = Some it" "segment H (inext it) as q" by auto
  moreover have "segment H' (inext it) as q" using Cons calculation(3) by simp
  ultimately show ?case using Cons.prems(2) [of a] by auto
qed simp

lemma segment_upd [simp]: "a \<notin> set as \<Longrightarrow> segment (H(a := x)) p as q = segment H p as q"
  using segment_cong [of H p as q "H(a := x)"] segment_cong [of "H(a := x)" p as q H] by (metis fun_upd_apply)

text \<open>Changing the fields of an item other than its successor.\<close>

lemma segment_data:
  assumes "H a = Some it" "inext it' = inext it"
  shows "segment (H(a \<mapsto> it')) p as q = segment H p as q"
  using assms by (induction as arbitrary: p) auto

lemma chain_unique: "chain H p as \<Longrightarrow> chain H p bs \<Longrightarrow> as = bs"
proof (induction as arbitrary: p bs)
  case Nil
  then show ?case by (cases bs) auto
next
  case (Cons a as)
  then show ?case by (cases bs) auto
qed

text \<open>The place after the items \<open>pre\<close> of a chain that starts at a place.\<close>

definition after :: "link \<Rightarrow> nat list \<Rightarrow> link" where
  "after r pre = (if pre = [] then r else Next (last pre))"

lemma after_simps [simp]: "after r [] = r" "after r (a # as) = after (Next a) as"
  by (auto simp: after_def)

lemma read_after:
  "segment (heap lh) (read_link lh r) as q \<Longrightarrow> read_link lh (after r as) = q"
proof (induction as arbitrary: r)
  case (Cons a as)
  then obtain it where "heap lh a = Some it" "segment (heap lh) (inext it) as q" by auto
  with Cons.IH [of "Next a"] show ?case by simp
qed simp

lemma next_ptr_loop_eq:
  "chain (heap lh) (read_link lh r) as \<Longrightarrow>
   next_ptr_loop found lh r = Some (after r (takeWhile (\<lambda>a. \<not> found (idata (item lh a))) as))"
proof (induction as arbitrary: r)
  case Nil
  then show ?case by (subst next_ptr_loop.simps) simp
next
  case (Cons a as)
  then obtain it where it: "heap lh a = Some it" "chain (heap lh) (inext it) as" "read_link lh r = Some a" by auto
  then have "next_ptr_loop found lh (Next a) = Some (after (Next a) (takeWhile (\<lambda>a. \<not> found (idata (item lh a))) as))"
    by (intro Cons.IH) simp
  then show ?case by (subst next_ptr_loop.simps) (simp add: it)
qed

lemma chain_split:
  assumes "chain (heap lh) (read_link lh r) as"
  obtains "as = takeWhile P as" "read_link lh (after r (takeWhile P as)) = None"
  | a post where "as = takeWhile P as @ a # post" "\<not> P a" "read_link lh (after r (takeWhile P as)) = Some a"
      "chain (heap lh) (inext (item lh a)) post" "heap lh a \<noteq> None"
proof (cases "dropWhile P as")
  case Nil
  then have "takeWhile P as = as" by simp
  with that(1) read_after [OF assms] show ?thesis by simp
next
  case (Cons a post)
  have as: "as = takeWhile P as @ a # post" by (metis Cons takeWhile_dropWhile_id)
  then obtain q where "segment (heap lh) (read_link lh r) (takeWhile P as) q" "chain (heap lh) q (a # post)"
    using assms by (metis segment_append)
  with that(2) [OF as] read_after [OF this(1)] Cons show ?thesis by (auto dest: dropWhile_eq_Cons_conv [THEN iffD1])
qed

section \<open>The invariant\<close>

text \<open>\<open>cs\<close> holds the chains of the buckets.\<close>

definition table :: "'d items \<Rightarrow> nat option list \<Rightarrow> nat \<Rightarrow> nat list list \<Rightarrow> bool" where
  "table H bs n cs \<longleftrightarrow> length bs = n \<and> length cs = n \<and> (\<forall>i < n. chain H (bs ! i) (cs ! i)) \<and>
     distinct (concat cs) \<and> (\<forall>i < n. \<forall>a \<in> set (cs ! i). unat (ihash (the (H a))) mod n = i)"

text \<open>Addresses of items are below \<open>2 ^ 61\<close>: an item takes more than eight bytes of the address space.\<close>

definition address_limit :: nat where
  "address_limit = 2 ^ 61"

definition lh_ok :: "'d lhash \<Rightarrow> nat list list \<Rightarrow> bool" where
  "lh_ok lh cs \<longleftrightarrow> table (heap lh) (buckets lh) (num_buckets lh) cs \<and> set (concat cs) = dom (heap lh) \<and>
     dom (heap lh) \<subseteq> {..<address_limit} \<and>
     num_items lh = length (concat cs) \<and> kMinNumBuckets \<le> num_buckets lh \<and> num_buckets lh < 2 ^ 61 \<and>
     (\<forall>a it. heap lh a = Some it \<longrightarrow> ihash it = hash lh (idata it)) \<and>
     (\<forall>a b x y. heap lh a = Some x \<longrightarrow> heap lh b = Some y \<longrightarrow> lcomp lh (idata x) (idata y) = 0 \<longrightarrow> a = b)"

lemma others_nth:
  assumes "i < length xs"
  shows "set (take i xs) \<union> set (drop (Suc i) xs) = {xs ! j | j. j < length xs \<and> j \<noteq> i}"
proof -
  have "set (take i xs) = nth xs ` {0..<i}" using assms by (simp add: nth_image)
  then have "set (take i xs) = {xs ! j | j. j < i}" by auto
  moreover have "set (drop (Suc i) xs) = {xs ! j | j. j < length xs \<and> i < j}"
  proof (intro subset_antisym subsetI)
    fix x assume "x \<in> {xs ! j | j. j < length xs \<and> i < j}"
    then obtain j where "j < length xs" "i < j" "x = xs ! j" by auto
    then have "j - Suc i < length (drop (Suc i) xs)" "drop (Suc i) xs ! (j - Suc i) = x" by auto
    then show "x \<in> set (drop (Suc i) xs)" by (metis nth_mem)
  qed (auto simp: set_conv_nth)
  ultimately show ?thesis using assms by (auto simp: nat_neq_iff)
qed

lemma lh_okD:
  assumes "lh_ok lh cs"
  shows "table (heap lh) (buckets lh) (num_buckets lh) cs" "set (concat cs) = dom (heap lh)" "0 < num_buckets lh"
    "heap lh a = Some x \<Longrightarrow> ihash x = hash lh (idata x)"
    "heap lh a = Some x \<Longrightarrow> heap lh b = Some y \<Longrightarrow> lcomp lh (idata x) (idata y) = 0 \<Longrightarrow> a = b"
  using assms unfolding lh_ok_def kMinNumBuckets_def by (blast | simp)+

lemma table_distinct:
  assumes "table H bs n cs" "i < n"
  shows "distinct (cs ! i)" "\<And>j. j < n \<Longrightarrow> j \<noteq> i \<Longrightarrow> set (cs ! i) \<inter> set (cs ! j) = {}"
proof -
  have len: "length cs = n" and d: "distinct (concat cs)" using assms(1) by (auto simp: table_def)
  have cs: "cs = take i cs @ (cs ! i) # drop (Suc i) cs" using assms(2) len by (simp add: id_take_nth_drop)
  have "distinct (concat (take i cs @ (cs ! i) # drop (Suc i) cs))" using d cs by simp
  then have own: "distinct (cs ! i)" "set (cs ! i) \<inter> set (concat (take i cs)) = {}" "set (cs ! i) \<inter> set (concat (drop (Suc i) cs)) = {}"
    by auto
  show "distinct (cs ! i)" by (rule own)
  show "set (cs ! i) \<inter> set (cs ! j) = {}" if "j < n" "j \<noteq> i" for j
  proof -
    have "cs ! j \<in> set (take i cs) \<union> set (drop (Suc i) cs)" using others_nth [of i cs] that assms(2) len by auto
    then show ?thesis using own(2,3) by auto
  qed
qed

lemma table_dom: "table H bs n cs \<Longrightarrow> set (concat cs) \<subseteq> dom H"
proof -
  assume t: "table H bs n cs"
  have "set xs \<subseteq> dom H" if xs: "xs \<in> set cs" for xs
  proof -
    obtain i where "i < length cs" "xs = cs ! i" using xs by (auto simp: in_set_conv_nth)
    with t show ?thesis by (auto simp: table_def dest: segment_dom)
  qed
  then show ?thesis by auto
qed

text \<open>Replacing one chain by another with the items \<open>new\<close> instead of \<open>old\<close>.\<close>

lemma concat_update:
  assumes "i < length cs" "mset c' + old = mset (cs ! i) + new"
  shows "mset (concat (cs[i := c'])) + old = mset (concat cs) + new"
proof -
  have cs: "cs = take i cs @ (cs ! i) # drop (Suc i) cs" using assms(1) by (simp add: id_take_nth_drop)
  have "mset (concat (cs[i := c'])) = mset (concat (take i cs)) + mset c' + mset (concat (drop (Suc i) cs))"
    using assms(1) by (simp add: upd_conv_take_nth_drop)
  moreover have "mset (concat cs) = mset (concat (take i cs)) + mset (cs ! i) + mset (concat (drop (Suc i) cs))"
    by (subst cs) simp
  ultimately show ?thesis using assms(2) by (simp add: ac_simps)
qed

section \<open>Writing a link\<close>

lemma write_link_other:
  "hash (write_link r p lh) = hash lh" "lcomp (write_link r p lh) = lcomp lh"
  "num_items (write_link r p lh) = num_items lh" "num_buckets (write_link r p lh) = num_buckets lh"
  "callback_depth (write_link r p lh) = callback_depth lh" "length (buckets (write_link r p lh)) = length (buckets lh)"
  by (cases r; simp)+

lemma write_after_frame:
  "b \<notin> set pre \<Longrightarrow> heap (write_link (after (Bucket i) pre) p lh) b = heap lh b"
  "j \<noteq> i \<Longrightarrow> buckets (write_link (after (Bucket i) pre) p lh) ! j = buckets lh ! j"
  by (auto simp: after_def dest: last_in_set)

lemma write_after_fields:
  assumes "set pre \<subseteq> dom (heap lh)"
  shows "heap (write_link (after (Bucket i) pre) p lh) b =
    map_option (\<lambda>it. if pre \<noteq> [] \<and> b = last pre then it\<lparr>inext := p\<rparr> else it) (heap lh b)"
proof (cases "pre = []")
  case False
  with assms have "last pre \<in> dom (heap lh)" by (meson in_mono last_in_set)
  with False show ?thesis by (cases "heap lh b") (auto simp: after_def)
qed (cases "heap lh b"; simp)

lemma write_after_segment:
  "segment (heap lh) (read_link lh r) pre q \<Longrightarrow> distinct pre \<Longrightarrow>
   (case r of Bucket i \<Rightarrow> i < length (buckets lh) | Next b \<Rightarrow> b \<notin> set pre \<and> heap lh b \<noteq> None) \<Longrightarrow>
   segment (heap (write_link (after r pre) p lh)) (read_link (write_link (after r pre) p lh) r) pre p"
proof (induction pre arbitrary: r)
  case Nil
  then show ?case by (cases r) auto
next
  case (Cons a pre)
  let ?w = "write_link (after (Next a) pre) p lh"
  from Cons.prems(1) obtain it where it: "read_link lh r = Some a" "heap lh a = Some it" "segment (heap lh) (inext it) pre q"
    by auto
  have "segment (heap ?w) (read_link ?w (Next a)) pre p"
    using Cons.prems(2) it by (intro Cons.IH) auto
  moreover have "read_link ?w r = read_link lh r"
    using Cons.prems(3) by (cases r) (auto simp: after_def)
  moreover have "heap ?w a \<noteq> None" using it(2) by (auto simp: after_def)
  ultimately show ?case using it(1) by auto
qed


text \<open>Replacing what follows \<open>pre\<close> in the chain of bucket \<open>i\<close> by a chain that starts at \<open>p\<close>.\<close>

lemma table_write:
  assumes "table (heap lh) (buckets lh) n cs" "i < n" "cs ! i = pre @ mid"
    and "chain (heap lh) p post" "distinct (pre @ post)" "set post \<inter> set (concat cs) \<subseteq> set mid"
    and "\<forall>a \<in> set post. unat (ihash (item lh a)) mod n = i"
  shows "table (heap (write_link (after (Bucket i) pre) p lh)) (buckets (write_link (after (Bucket i) pre) p lh)) n
    (cs[i := pre @ post])"
proof -
  let ?w = "write_link (after (Bucket i) pre) p lh" and ?cs = "cs[i := pre @ post]"
  have t: "length (buckets lh) = n" "length cs = n" "\<And>j. j < n \<Longrightarrow> chain (heap lh) (buckets lh ! j) (cs ! j)" "distinct (concat cs)"
    "\<And>j a. j < n \<Longrightarrow> a \<in> set (cs ! j) \<Longrightarrow> unat (ihash (item lh a)) mod n = j"
    using assms(1) by (auto simp: table_def)
  have pre: "set pre \<subseteq> set (cs ! i)" using assms(3) by simp
  have others: "set (cs ! j) \<inter> set (pre @ post) = {}" if "j < n" "j \<noteq> i" for j
  proof -
    have "set (cs ! i) \<inter> set (cs ! j) = {}" by (rule table_distinct(2) [OF assms(1,2) that])
    moreover have "cs ! j \<in> set cs" using that(1) t(2) by simp
    then have "set (cs ! j) \<subseteq> set (concat cs)" by auto
    ultimately show ?thesis using assms(3,6) by auto
  qed
  obtain q where q: "segment (heap lh) (buckets lh ! i) pre q"
    using t(3) [OF assms(2)] assms(3) by (auto simp: segment_append)
  have dom: "set pre \<subseteq> dom (heap lh)" by (rule segment_dom [OF q])
  have seg: "segment (heap ?w) (buckets ?w ! i) pre p"
    using write_after_segment [of lh "Bucket i" pre q p] q assms(2,5) t(1) by simp
  have "chain (heap ?w) p post"
    using assms(4) by (rule segment_cong) (use assms(5) in \<open>auto intro!: write_after_frame\<close>)
  with seg have own: "chain (heap ?w) (buckets ?w ! i) (pre @ post)" by (auto simp: segment_append)
  have chains: "chain (heap ?w) (buckets ?w ! j) (?cs ! j)" if "j < n" for j
  proof (cases "j = i")
    case False
    have "chain (heap ?w) (buckets lh ! j) (cs ! j)"
      using t(3) [OF that] by (rule segment_cong) (use others [OF that False] in \<open>auto intro!: write_after_frame\<close>)
    with False show ?thesis by (simp add: write_after_frame)
  qed (use own that t(2) in simp)
  have "distinct (concat ?cs)"
  proof -
    have cs: "concat ?cs = concat (take i cs) @ (pre @ post) @ concat (drop (Suc i) cs)"
      using assms(2) t(2) by (simp add: upd_conv_take_nth_drop)
    have "concat cs = concat (take i cs) @ (cs ! i) @ concat (drop (Suc i) cs)"
      using id_take_nth_drop [of i cs] assms(2) t(2) by (metis concat.simps(2) concat_append)
    then have "distinct (concat (take i cs) @ (cs ! i) @ concat (drop (Suc i) cs))" using t(4) by simp
    moreover have "set (pre @ post) \<inter> set xs = {}" if "xs \<in> set (take i cs) \<union> set (drop (Suc i) cs)" for xs
      using that others_nth [of i cs] others assms(2) t(2) by auto
    then have "set (pre @ post) \<inter> (set (concat (take i cs)) \<union> set (concat (drop (Suc i) cs))) = {}" by fastforce
    ultimately show ?thesis using assms(5) unfolding cs by auto
  qed
  moreover have "unat (ihash (item ?w a)) mod n = j" if "j < n" "a \<in> set (?cs ! j)" for j a
  proof -
    have "ihash (item ?w a) = ihash (item lh a)" if "heap lh a \<noteq> None"
      using write_after_fields [OF dom, of i p a] that by auto
    moreover have "heap lh a \<noteq> None" "unat (ihash (item lh a)) mod n = j"
      using that t(2,5) assms(2,7) segment_dom [OF assms(4)] pre segment_dom [OF t(3) [OF that(1)]] dom
      by (auto simp: nth_list_update split: if_splits)
    ultimately show ?thesis by simp
  qed
  ultimately show ?thesis using chains t(1,2) by (simp add: table_def write_link_other)
qed

lemma concat_nth: "i < length cs \<Longrightarrow> a \<in> set (cs ! i) \<Longrightarrow> a \<in> set (concat cs)"
  by (metis UN_I nth_mem set_concat)

lemma table_cong:
  assumes "table H bs n cs" "\<And>a. a \<in> set (concat cs) \<Longrightarrow> H' a = H a"
  shows "table H' bs n cs"
proof -
  have "a \<in> set (concat cs)" if "i < n" "a \<in> set (cs ! i)" for i a
    using assms(1) that by (auto simp: table_def intro: concat_nth simp del: set_concat)
  then show ?thesis
    using assms by (auto simp: table_def intro: segment_cong)
qed

section \<open>Resizing\<close>

text \<open>The same items, with the same data and hashes.\<close>

definition same_items :: "'d items \<Rightarrow> 'd items \<Rightarrow> bool" where
  "same_items H H' \<longleftrightarrow>
     (\<forall>a. map_option (\<lambda>it. (idata it, ihash it)) (H' a) = map_option (\<lambda>it. (idata it, ihash it)) (H a))"

lemma same_items_refl [simp]: "same_items H H"
  by (simp add: same_items_def)

lemma same_items_sym: "same_items H H' \<Longrightarrow> same_items H' H"
  by (simp add: same_items_def)

lemma same_items_trans: "same_items H H' \<Longrightarrow> same_items H' H'' \<Longrightarrow> same_items H H''"
  by (simp add: same_items_def)

lemma same_items_next: "H a = Some it \<Longrightarrow> same_items H (H(a \<mapsto> it\<lparr>inext := p\<rparr>))"
  by (simp add: same_items_def)

lemma same_items_dom: "same_items H H' \<Longrightarrow> dom H' = dom H"
proof -
  assume s: "same_items H H'"
  have "H' a = None \<longleftrightarrow> H a = None" for a
    using s [unfolded same_items_def, rule_format, of a] by (cases "H a"; cases "H' a") simp_all
  then show ?thesis by (auto simp: dom_def)
qed

lemma same_itemsE:
  assumes "same_items H H'" "H' a = Some it'"
  obtains it where "H a = Some it" "idata it = idata it'" "ihash it = ihash it'"
proof -
  have "map_option (\<lambda>it. (idata it, ihash it)) (H a) = map_option (\<lambda>it. (idata it, ihash it)) (H' a)"
    using assms(1) by (simp add: same_items_def)
  with assms(2) that show thesis by auto
qed

text \<open>Putting an item in front of its chain.\<close>

lemma table_push:
  assumes "table H nb n cs" "0 < n" "H a = Some it" "a \<notin> set (concat cs)"
  defines "b \<equiv> unat (ihash it) mod n"
  shows "table (H(a \<mapsto> it\<lparr>inext := nb ! b\<rparr>)) (nb[b := Some a]) n (cs[b := a # cs ! b])"
proof -
  let ?H = "H(a \<mapsto> it\<lparr>inext := nb ! b\<rparr>)"
  let ?lh = "\<lparr>heap = ?H, num_items = 0, buckets = nb, num_buckets = n, callback_depth = 0, lcomp = (\<lambda>_ _. 0), hash = (\<lambda>_. 0)\<rparr>"
  have t: "table ?H nb n cs" using assms(1) by (rule table_cong) (use assms(4) in auto)
  have b: "b < n" using assms(2) by (simp add: b_def)
  have cs: "cs ! b \<in> set cs" using b assms(1) by (simp add: table_def)
  have "table (heap (write_link (after (Bucket b) []) (Some a) ?lh)) (buckets (write_link (after (Bucket b) []) (Some a) ?lh)) n
      (cs[b := [] @ a # cs ! b])"
  proof (rule table_write [where mid = "cs ! b"])
    show "chain (heap ?lh) (Some a) (a # cs ! b)" using t b by (simp add: table_def)
    show "distinct ([] @ a # cs ! b)" using table_distinct(1) [OF t b] assms(4) cs by auto
    show "set (a # cs ! b) \<inter> set (concat cs) \<subseteq> set (cs ! b)" using assms(4) by auto
    show "\<forall>x \<in> set (a # cs ! b). unat (ihash (item ?lh x)) mod n = b"
      using t b by (auto simp: table_def b_def)
  qed (use t b in simp_all)
  then show ?thesis by simp
qed

lemma move_loop_eq:
  assumes "chain H cur as" "distinct as" "set as \<inter> set (concat cs) = {}" "table H nb n cs" "0 < n"
  shows "\<exists>nb' H' cs'. move_loop n cur (nb, H) = Some (nb', H') \<and> table H' nb' n cs' \<and>
    mset (concat cs') = mset (concat cs) + mset as \<and> same_items H H' \<and> (\<forall>b. b \<notin> set as \<longrightarrow> H' b = H b)"
  using assms
proof (induction as arbitrary: cur nb H cs)
  case Nil
  then show ?case by (subst move_loop.simps) auto
next
  case (Cons a as)
  from Cons.prems(1) obtain it where it: "cur = Some a" "H a = Some it" "chain H (inext it) as" by auto
  let ?b = "unat (ihash it) mod n"
  let ?H = "H(a \<mapsto> it\<lparr>inext := nb ! ?b\<rparr>)" and ?nb = "nb[?b := Some a]" and ?cs = "cs[?b := a # cs ! ?b]"
  have a: "a \<notin> set as" "a \<notin> set (concat cs)" using Cons.prems by auto
  have b: "?b < length cs" using Cons.prems(4,5) by (simp add: table_def)
  have m: "mset (concat ?cs) = mset (concat cs) + {#a#}"
    using concat_update [OF b, of "a # cs ! ?b" "{#}" "{#a#}"] by simp
  then have "set (concat ?cs) = insert a (set (concat cs))" by (metis set_mset_mset set_mset_add_mset_insert add_mset_add_single)
  then have disj: "set as \<inter> set (concat ?cs) = {}" using Cons.prems(2,3) by auto
  have c: "chain ?H (inext it) as" using it(3) a(1) by simp
  have t: "table ?H ?nb n ?cs" by (rule table_push [OF Cons.prems(4,5) it(2) a(2)])
  have d: "distinct as" using Cons.prems(2) by simp
  obtain nb' H' cs' where r: "move_loop n (inext it) (?nb, ?H) = Some (nb', H')" "table H' nb' n cs'"
    "mset (concat cs') = mset (concat ?cs) + mset as" "same_items ?H H'" "\<forall>b. b \<notin> set as \<longrightarrow> H' b = ?H b"
    using Cons.IH [OF c d disj t Cons.prems(5)] by blast
  have "move_loop n cur (nb, H) = Some (nb', H')"
    using r(1) by (subst move_loop.simps) (simp add: it Let_def)
  moreover have "same_items H H'" using same_items_next [of H a it] it(2) r(4) by (blast intro: same_items_trans)
  ultimately show ?case using r(2,3,5) m by auto
qed

lemma rebucket_loop_eq:
  assumes "distinct (concat rs)" "list_all2 (chain H) bs rs" "set (concat rs) \<inter> set (concat cs) = {}" "table H nb n cs" "0 < n"
  shows "\<exists>nb' H' cs'. rebucket_loop n bs (nb, H) = Some (nb', H') \<and> table H' nb' n cs' \<and>
    mset (concat cs') = mset (concat cs) + mset (concat rs) \<and> same_items H H'"
  using assms
proof (induction rs arbitrary: bs nb H cs)
  case Nil
  then show ?case by auto
next
  case (Cons r rs)
  then obtain b bs' where bs: "bs = b # bs'" "chain H b r" "list_all2 (chain H) bs' rs" by (auto simp: list_all2_Cons2)
  have d: "distinct r" "set r \<inter> set (concat cs) = {}" "distinct (concat rs)" "set r \<inter> set (concat rs) = {}"
    "set (concat rs) \<inter> set (concat cs) = {}"
    using Cons.prems(1,3) by auto
  obtain nb1 H1 cs1 where m: "move_loop n b (nb, H) = Some (nb1, H1)" "table H1 nb1 n cs1"
    "mset (concat cs1) = mset (concat cs) + mset r" "same_items H H1" "\<forall>x. x \<notin> set r \<longrightarrow> H1 x = H x"
    using move_loop_eq [OF bs(2) d(1,2) Cons.prems(4,5)] by blast
  have "set (concat cs1) = set (concat cs) \<union> set r" using m(3) by (metis set_mset_mset set_mset_union)
  then have d1: "set (concat rs) \<inter> set (concat cs1) = {}" using d(4,5) by auto
  have "chain H1 p as" if "chain H p as" "as \<in> set rs" for p as
    using that(1) by (rule segment_cong) (use that(2) d(4) m(5) in auto)
  then have "list_all2 (chain H1) bs' rs"
    using bs(3) by (auto simp: list_all2_conv_all_nth)
  from Cons.IH [OF d(3) this d1 m(2) Cons.prems(5)] obtain nb' H' cs' where
    "rebucket_loop n bs' (nb1, H1) = Some (nb', H')" "table H' nb' n cs'"
    "mset (concat cs') = mset (concat cs1) + mset (concat rs)" "same_items H1 H'" by blast
  with m bs(1) same_items_trans [OF m(4)] show ?case by auto
qed

lemma table_empty: "table H (replicate n None) n (replicate n [])"
  by (simp add: table_def)

text \<open>What resizing keeps: everything but the buckets and the links of the items.\<close>

definition resized :: "'d lhash \<Rightarrow> 'd lhash \<Rightarrow> bool" where
  "resized lh lh' \<longleftrightarrow> same_items (heap lh) (heap lh') \<and> num_items lh' = num_items lh \<and> hash lh' = hash lh \<and>
     lcomp lh' = lcomp lh \<and> callback_depth lh' = callback_depth lh"

lemma lh_rebucket_eq:
  assumes "lh_ok lh cs" "kMinNumBuckets \<le> m"
  obtains lh' cs' where "lh_rebucket ok m lh = Some lh'" "lh_ok lh' cs'" "resized lh lh'"
    "ok \<Longrightarrow> m < 2 ^ 61 \<Longrightarrow> num_buckets lh' = m" "num_buckets lh' \<in> {num_buckets lh, m}"
proof (cases "size_mul 8 m div 8 = m \<and> ok")
  case False
  have "m < 2 ^ 61 \<Longrightarrow> size_mul 8 m div 8 = m" by (simp add: size_simps)
  with False show thesis
    by (intro that [of lh cs]) (auto simp: lh_rebucket_def resized_def assms(1) Let_def)
next
  case True
  have "size_mul 8 m < 2 ^ 64" by (simp add: size_mul_def)
  then have "size_mul 8 m div 8 < 2 ^ 61" by (simp add: less_mult_imp_div_less)
  with True have m: "m < 2 ^ 61" by simp
  have t: "table (heap lh) (buckets lh) (num_buckets lh) cs" using assms(1) by (simp add: lh_ok_def)
  then have "list_all2 (chain (heap lh)) (buckets lh) cs" "distinct (concat cs)"
    by (simp_all add: table_def list_all2_conv_all_nth)
  moreover have "0 < m" using assms(2) by (simp add: kMinNumBuckets_def)
  ultimately obtain nb H cs' where r: "rebucket_loop m (buckets lh) (replicate m None, heap lh) = Some (nb, H)"
    "table H nb m cs'" "mset (concat cs') = mset (concat cs)" "same_items (heap lh) H"
    using rebucket_loop_eq [of cs "heap lh" "buckets lh" "replicate m []" "replicate m None" m] table_empty [of "heap lh" m]
    by auto
  let ?lh = "lh\<lparr>heap := H, num_buckets := m, buckets := nb\<rparr>"
  have "set (concat cs') = set (concat cs)" "length (concat cs') = length (concat cs)"
    using r(3) by (metis set_mset_mset) (metis r(3) size_mset)
  moreover have "dom H = dom (heap lh)" by (rule same_items_dom [OF r(4)])
  moreover have "ihash it = hash lh (idata it)" if "H a = Some it" for a it
    using same_itemsE [OF r(4) that] assms(1) by (metis lh_ok_def)
  moreover have "a = b" if "H a = Some x" "H b = Some y" "lcomp lh (idata x) (idata y) = 0" for a b x y
    using same_itemsE [OF r(4) that(1)] same_itemsE [OF r(4) that(2)] that(3) assms(1) by (metis lh_ok_def)
  ultimately have "lh_ok ?lh cs'"
    using assms r(2) m by (simp add: lh_ok_def)
  moreover have "lh_rebucket ok m lh = Some ?lh" using True r(1) by (simp add: lh_rebucket_def Let_def)
  ultimately show thesis
    by (intro that [of ?lh cs']) (simp_all add: resized_def r(4))
qed

text \<open>
  The load: on average a chain is not longer than \<open>kMaxAverageChainLength\<close>, rounded down. A table that has
  just got an item can be over it, and resizing brings it back when there is memory.
\<close>

definition loaded :: "'d lhash \<Rightarrow> bool" where
  "loaded lh \<longleftrightarrow> num_items lh div num_buckets lh \<le> kMaxAverageChainLength"

lemma item_count:
  assumes "lh_ok lh cs"
  shows "num_items lh = card (dom (heap lh))" "num_items lh \<le> address_limit"
proof -
  have "distinct (concat cs)" "set (concat cs) = dom (heap lh)" "dom (heap lh) \<subseteq> {..<address_limit}" "num_items lh = length (concat cs)"
    using assms by (auto simp: lh_ok_def table_def)
  then show "num_items lh = card (dom (heap lh))" by (metis distinct_card)
  then show "num_items lh \<le> address_limit"
    using \<open>dom (heap lh) \<subseteq> {..<address_limit}\<close> card_mono [of "{..<address_limit}" "dom (heap lh)"] by simp
qed

lemma lh_maybe_resize_eq:
  assumes "lh_ok lh cs"
  obtains lh' cs' where "lh_maybe_resize ok lh = Some lh'" "lh_ok lh' cs'" "resized lh lh'"
    "ok \<Longrightarrow> callback_depth lh = 0 \<Longrightarrow> num_items lh div num_buckets lh \<le> kMaxAverageChainLength + 1 \<Longrightarrow> loaded lh'"
proof -
  let ?n = "num_buckets lh" and ?avg = "num_items lh div num_buckets lh"
  let ?half = "if ?n div 2 < kMinNumBuckets then kMinNumBuckets else ?n div 2"
  have n: "kMinNumBuckets \<le> ?n" "?n < 2 ^ 61" "0 < ?n" using assms by (auto simp: lh_ok_def kMinNumBuckets_def)
  have mul: "size_mul ?n 2 = ?n * 2" using n(2) by (simp add: size_simps)
  note goal = that
  consider (same) "lh_maybe_resize ok lh = Some lh" "callback_depth lh = 0 \<longrightarrow> loaded lh"
    | (grow) "lh_maybe_resize ok lh = lh_rebucket ok (?n * 2) lh" "?avg > kMaxAverageChainLength"
    | (shrink) "lh_maybe_resize ok lh = lh_rebucket ok ?half lh" "num_items lh < ?n"
  proof (cases "callback_depth lh > 0")
    case True
    then show thesis by (intro same) (simp_all add: lh_maybe_resize_def)
  next
    case False
    note def = lh_maybe_resize_def [of ok lh, unfolded Let_def mul]
    consider "?avg > kMaxAverageChainLength" | "?avg \<le> kMaxAverageChainLength" "?avg < kMinAverageChainLength" "?n > kMinNumBuckets"
      | "?avg \<le> kMaxAverageChainLength" "\<not> (?avg < kMinAverageChainLength \<and> ?n > kMinNumBuckets)" by linarith
    then show thesis
    proof cases
      case 1
      with False n(3) show thesis by (intro grow) (simp_all add: def)
    next
      case 2
      have "num_items lh < ?n" using 2(2) n(3) by (simp add: kMinAverageChainLength_def div_eq_0_iff)
      with 2 False show thesis by (intro shrink) (simp_all add: def)
    next
      case 3
      with False show thesis by (intro same) (auto simp: def loaded_def)
    qed
  qed
  then show thesis
  proof cases
    case same
    then show ?thesis using assms by (intro goal [of lh cs]) (auto simp: resized_def)
  next
    case grow
    have m: "kMinNumBuckets \<le> ?n * 2" using n(1) by simp
    obtain lh' cs' where r: "lh_rebucket ok (?n * 2) lh = Some lh'" "lh_ok lh' cs'" "resized lh lh'"
      "ok \<Longrightarrow> ?n * 2 < 2 ^ 61 \<Longrightarrow> num_buckets lh' = ?n * 2"
      by (rule lh_rebucket_eq [OF assms m, of ok]) blast
    have "?n * 3 \<le> ?n * ?avg" using grow(2) by (simp add: kMaxAverageChainLength_def)
    also have "\<dots> \<le> 2 ^ 61" using item_count(2) [OF assms] by (metis address_limit_def le_trans times_div_less_eq_dividend)
    finally have "?n * 2 < 2 ^ 61" using n(3) by linarith
    moreover have "num_items lh div (?n * 2) \<le> kMaxAverageChainLength" if "?avg \<le> kMaxAverageChainLength + 1"
      using div_mult2_eq [of "num_items lh" ?n 2] that by (simp add: kMaxAverageChainLength_def)
    ultimately show ?thesis using r grow by (intro goal [of lh' cs']) (auto simp: loaded_def resized_def)
  next
    case shrink
    have m: "kMinNumBuckets \<le> ?half" by simp
    obtain lh' cs' where r: "lh_rebucket ok ?half lh = Some lh'" "lh_ok lh' cs'" "resized lh lh'"
      "ok \<Longrightarrow> ?half < 2 ^ 61 \<Longrightarrow> num_buckets lh' = ?half"
      by (rule lh_rebucket_eq [OF assms m, of ok]) blast
    have "?n div 2 < 2 ^ 61" by (rule le_less_trans [OF div_le_dividend n(2)])
    then have "?half < 2 ^ 61" by (simp add: kMinNumBuckets_def)
    moreover have "num_items lh \<le> ?half * 2" using shrink(2) by auto
    then have "num_items lh div ?half \<le> ?half * 2 div ?half" by (rule div_le_mono)
    then have "num_items lh div ?half \<le> 2" by (simp add: kMinNumBuckets_def split: if_splits)
    ultimately show ?thesis using r shrink(1)
      by (intro goal [of lh' cs']) (auto simp: loaded_def resized_def kMaxAverageChainLength_def)
  qed
qed


section \<open>The operations on the stored objects\<close>

text \<open>The comparison is an equality of objects that the hash respects.\<close>

definition equality :: "('d \<Rightarrow> 'd \<Rightarrow> int) \<Rightarrow> ('d \<Rightarrow> u32) \<Rightarrow> bool" where
  "equality c h \<longleftrightarrow> (\<forall>x. c x x = 0) \<and> (\<forall>x y. c x y = 0 \<longrightarrow> c y x = 0 \<and> h x = h y) \<and>
     (\<forall>x y z. c x y = 0 \<longrightarrow> c y z = 0 \<longrightarrow> c x z = 0)"

lemma equalityD:
  assumes "equality c h"
  shows "c x x = 0" "c x y = 0 \<Longrightarrow> c y x = 0" "c x y = 0 \<Longrightarrow> h x = h y" "c x y = 0 \<Longrightarrow> c y z = 0 \<Longrightarrow> c x z = 0"
  using assms unfolding equality_def by blast+

definition stored :: "'d lhash \<Rightarrow> 'd set" where
  "stored lh = {idata it | a it. heap lh a = Some it}"

lemma stored_same: "same_items (heap lh) (heap lh') \<Longrightarrow> stored lh' = stored lh"
proof -
  assume "same_items (heap lh) (heap lh')"
  then have s: "map_option idata (heap lh' a) = map_option idata (heap lh a)" for a
    unfolding same_items_def by (cases "heap lh a"; cases "heap lh' a") (auto dest: spec [of _ a])
  have "stored lh = {d. \<exists>a. map_option idata (heap lh a) = Some d}" for lh :: "'a lhash"
    by (auto simp: stored_def)
  then show ?thesis by (simp only: s)
qed

lemma stored_resized: "resized lh lh' \<Longrightarrow> stored lh' = stored lh"
  by (simp add: resized_def stored_same)

lemma chain_in_bucket:
  assumes "lh_ok lh cs" "heap lh a = Some it"
  shows "a \<in> set (cs ! (unat (hash lh (idata it)) mod num_buckets lh))"
proof -
  have "a \<in> set (concat cs)" using assms by (auto simp: lh_ok_def)
  then obtain i where i: "i < length cs" "a \<in> set (cs ! i)" by (auto simp: in_set_conv_nth [of _ cs])
  moreover have "unat (ihash (item lh a)) mod num_buckets lh = i"
    using lh_okD(1) [OF assms(1)] i by (simp add: table_def)
  then have "unat (ihash it) mod num_buckets lh = i" by (simp add: assms(2))
  moreover have "ihash it = hash lh (idata it)" by (rule lh_okD(4) [OF assms])
  ultimately show ?thesis by simp
qed

lemma get_next_ptr_cases:
  assumes "lh_ok lh cs" "equality (lcomp lh) (hash lh)"
  obtains i pre where "get_next_ptr_and_hash lh d = Some (after (Bucket i) pre, hash lh d)"
    "i = unat (hash lh d) mod num_buckets lh" "i < num_buckets lh" "pre = cs ! i"
    "read_link lh (after (Bucket i) pre) = None" "\<forall>x \<in> stored lh. lcomp lh x d \<noteq> 0"
  | i pre a it post where "get_next_ptr_and_hash lh d = Some (after (Bucket i) pre, hash lh d)"
    "i < num_buckets lh" "cs ! i = pre @ a # post" "read_link lh (after (Bucket i) pre) = Some a"
    "heap lh a = Some it" "lcomp lh (idata it) d = 0" "chain (heap lh) (inext it) post"
proof -
  define i where "i = unat (hash lh d) mod num_buckets lh"
  let ?P = "\<lambda>a. lcomp lh (idata (item lh a)) d \<noteq> 0"
  let ?pre = "takeWhile ?P (cs ! i)"
  note t = lh_okD(1) [OF assms(1)] and n = lh_okD(3) [OF assms(1)]
  have i: "i < num_buckets lh" using n by (simp add: i_def)
  then have c: "chain (heap lh) (read_link lh (Bucket i)) (cs ! i)" using t by (simp add: table_def)
  have g: "get_next_ptr_and_hash lh d = Some (after (Bucket i) ?pre, hash lh d)"
    using next_ptr_loop_eq [OF c, of "\<lambda>x. lcomp lh x d = 0"] by (simp add: get_next_ptr_and_hash_def i_def Let_def)
  from c show thesis
  proof (rule chain_split [where P = ?P])
    assume all: "cs ! i = ?pre" "read_link lh (after (Bucket i) ?pre) = None"
    have "lcomp lh x d \<noteq> 0" if x: "x \<in> stored lh" for x
    proof
      assume eq: "lcomp lh x d = 0"
      obtain a it where it: "heap lh a = Some it" "x = idata it" using x by (auto simp: stored_def)
      have "hash lh x = hash lh d" using assms(2) eq unfolding equality_def by blast
      then have "a \<in> set (cs ! i)" using chain_in_bucket [OF assms(1) it(1)] it(2) by (simp add: i_def)
      then have "a \<in> set ?pre" by (subst all(1) [symmetric])
      then have "?P a" by (auto dest: set_takeWhileD)
      then show False using it eq by simp
    qed
    then show thesis by (intro that(1) [OF g i_def i all(1) [symmetric] all(2)]) blast
  next
    fix a post
    assume some: "cs ! i = ?pre @ a # post" "\<not> ?P a" "read_link lh (after (Bucket i) ?pre) = Some a"
      "chain (heap lh) (inext (item lh a)) post" "heap lh a \<noteq> None"
    then obtain it where it: "heap lh a = Some it" by blast
    show thesis by (rule that(2) [OF g i some(1,3) it]) (use some(2,4) it in simp_all)
  qed
qed

text \<open>The stored object equal to a given one.\<close>

definition found :: "('d \<Rightarrow> 'd \<Rightarrow> int) \<Rightarrow> 'd set \<Rightarrow> 'd \<Rightarrow> 'd option \<Rightarrow> bool" where
  "found c S d r = (case r of None \<Rightarrow> (\<forall>x \<in> S. c x d \<noteq> 0) | Some x \<Rightarrow> x \<in> S \<and> c x d = 0)"

lemma lh_retrieve_eq:
  assumes "lh_ok lh cs" "equality (lcomp lh) (hash lh)"
  shows "\<exists>r. lh_retrieve lh d = Some r \<and> found (lcomp lh) (stored lh) d r"
  using assms
proof (cases rule: get_next_ptr_cases [where d = d])
  case (2 i pre a it post)
  then show ?thesis by (auto simp: lh_retrieve_def found_def stored_def)
qed (auto simp: lh_retrieve_def found_def)

lemma stored_unique:
  assumes "lh_ok lh cs" "equality (lcomp lh) (hash lh)" "x \<in> stored lh" "y \<in> stored lh" "lcomp lh x d = 0" "lcomp lh y d = 0"
  shows "x = y"
proof -
  have "lcomp lh x y = 0" using assms(2,5,6) unfolding equality_def by metis
  with assms(3,4) lh_okD(5) [OF assms(1)] show ?thesis by (force simp: stored_def)
qed

lemma write_after_same_items:
  assumes "set pre \<subseteq> dom (heap lh)"
  shows "same_items (heap lh) (heap (write_link (after (Bucket i) pre) p lh))"
  unfolding same_items_def write_after_fields [OF assms] by (auto simp: option.map_comp comp_def intro!: option.map_cong)

lemma stored_without:
  assumes "lh_ok lh cs" "equality (lcomp lh) (hash lh)" "heap lh a = Some it" "lcomp lh (idata it) d = 0"
  shows "{x \<in> stored lh. lcomp lh x d \<noteq> 0} = {idata y | b y. heap lh b = Some y \<and> b \<noteq> a}"
proof -
  have "lcomp lh (idata y) d = 0 \<longleftrightarrow> b = a" if "heap lh b = Some y" for b y
  proof
    assume "lcomp lh (idata y) d = 0"
    then have "lcomp lh (idata y) (idata it) = 0" using assms(2,4) unfolding equality_def by blast
    then show "b = a" by (rule lh_okD(5) [OF assms(1) that assms(3)])
  qed (use that assms(3,4) in simp)
  then show ?thesis by (auto simp: stored_def)
qed

text \<open>Replacing the object of an item by an equal one.\<close>

lemma replace_ok:
  assumes "lh_ok lh cs" "equality (lcomp lh) (hash lh)" "heap lh a = Some it" "lcomp lh (idata it) d = 0"
  defines "lh' \<equiv> lh\<lparr>heap := (heap lh)(a \<mapsto> it\<lparr>idata := d\<rparr>)\<rparr>"
  shows "lh_ok lh' cs" "stored lh' = insert d {x \<in> stored lh. lcomp lh x d \<noteq> 0}"
proof -
  have ihash: "ihash (item lh' b) = ihash (item lh b)" for b using assms(3) by (simp add: lh'_def)
  have "segment (heap lh') = segment (heap lh)"
    using segment_data [of "heap lh" a it "it\<lparr>idata := d\<rparr>"] assms(3) by (auto simp: lh'_def fun_eq_iff)
  then have "table (heap lh') (buckets lh') (num_buckets lh') cs"
    using lh_okD(1) [OF assms(1)] ihash unfolding table_def by (simp add: lh'_def)
  moreover have "dom (heap lh') = dom (heap lh)" using assms(3) by (auto simp: lh'_def)
  moreover have "ihash x = hash lh (idata x)" if "heap lh' b = Some x" for b x
  proof (cases "b = a")
    case True
    have "hash lh (idata it) = hash lh d" using assms(2,4) unfolding equality_def by blast
    with True that lh_okD(4) [OF assms(1,3)] show ?thesis by (auto simp: lh'_def)
  qed (use that lh_okD(4) [OF assms(1)] in \<open>auto simp: lh'_def\<close>)
  moreover have "b = c" if "heap lh' b = Some x" "heap lh' c = Some y" "lcomp lh (idata x) (idata y) = 0" for b c x y
  proof -
    have like: "\<exists>x'. heap lh b = Some x' \<and> lcomp lh (idata x') (idata x) = 0 \<and> lcomp lh (idata x) (idata x') = 0"
      if x: "heap lh' b = Some x" for b x
    proof (cases "b = a")
      case True
      then have "idata x = d" using x by (auto simp: lh'_def)
      moreover have "lcomp lh d (idata it) = 0" using assms(2,4) unfolding equality_def by blast
      ultimately show ?thesis using True assms(3,4) by auto
    next
      case False
      then have "heap lh b = Some x" using x by (simp add: lh'_def)
      moreover have "lcomp lh (idata x) (idata x) = 0" using assms(2) unfolding equality_def by blast
      ultimately show ?thesis by blast
    qed
    from like [OF that(1)] obtain x' where x': "heap lh b = Some x'" "lcomp lh (idata x') (idata x) = 0" by blast
    from like [OF that(2)] obtain y' where y': "heap lh c = Some y'" "lcomp lh (idata y) (idata y') = 0" by blast
    have "lcomp lh (idata x') (idata y') = 0" 
      by (rule equalityD(4) [OF assms(2) x'(2) equalityD(4) [OF assms(2) that(3) y'(2)]])
    then show ?thesis by (rule lh_okD(5) [OF assms(1) x'(1) y'(1)])
  qed
  moreover have "num_items lh' = num_items lh" "num_buckets lh' = num_buckets lh" "hash lh' = hash lh" "lcomp lh' = lcomp lh"
    by (simp_all add: lh'_def)
  ultimately show "lh_ok lh' cs" using assms(1) unfolding lh_ok_def by simp
  show "stored lh' = insert d {x \<in> stored lh. lcomp lh x d \<noteq> 0}"
    unfolding stored_without [OF assms(1-4)] by (auto simp: stored_def lh'_def)
qed

text \<open>Appending a new item to its chain, and unlinking one.\<close>

lemma append_ok:
  assumes "lh_ok lh cs" "equality (lcomp lh) (hash lh)" "\<forall>x \<in> stored lh. lcomp lh x d \<noteq> 0"
    and "heap lh a = None" "a < address_limit" "i = unat (hash lh d) mod num_buckets lh" "i < num_buckets lh"
  defines "lh1 \<equiv> lh\<lparr>heap := (heap lh)(a \<mapsto> \<lparr>idata = d, inext = None, ihash = hash lh d\<rparr>)\<rparr>"
  defines "lh2 \<equiv> write_link (after (Bucket i) (cs ! i)) (Some a) lh1"
  defines "lh3 \<equiv> lh2\<lparr>num_items := size_add (num_items lh2) 1\<rparr>"
  shows "lh_ok lh3 (cs[i := cs ! i @ [a]])" "stored lh3 = insert d (stored lh)"
proof -
  let ?it = "\<lparr>idata = d, inext = None, ihash = hash lh d\<rparr>" and ?cs = "cs[i := cs ! i @ [a]]"
  note t = lh_okD(1) [OF assms(1)]
  have len: "length cs = num_buckets lh" using t by (simp add: table_def)
  have fresh: "a \<notin> set (concat cs)" using lh_okD(2) [OF assms(1)] assms(4) by auto
  then have fresh_i: "a \<notin> set (cs ! i)" using concat_nth [of i cs a] assms(7) len by auto
  have t1: "table (heap lh1) (buckets lh1) (num_buckets lh) cs"
  proof -
    have "heap lh1 b = heap lh b" if "b \<in> set (concat cs)" for b using that fresh by (auto simp: lh1_def)
    from table_cong [OF t, of "heap lh1", OF this] show ?thesis by (simp add: lh1_def)
  qed
  have "distinct (cs ! i @ [a])" using table_distinct(1) [OF t assms(7)] fresh_i by simp
  then have t2: "table (heap lh2) (buckets lh2) (num_buckets lh) ?cs"
    unfolding lh2_def using assms(6,7) fresh
    by (intro table_write [where mid = "[]" and n = "num_buckets lh"] t1) (auto simp: lh1_def)
  have pre: "set (cs ! i) \<subseteq> dom (heap lh1)"
    using lh_okD(2) [OF assms(1)] concat_nth [of i cs] assms(7) len by (auto simp: lh1_def)
  have items: "same_items (heap lh1) (heap lh3)"
    using write_after_same_items [OF pre] by (simp add: lh3_def lh2_def)
  have dom: "dom (heap lh3) = insert a (dom (heap lh))"
    using same_items_dom [OF items] by (auto simp: lh1_def)
  have m: "mset (concat ?cs) + {#} = mset (concat cs) + {#a#}"
    using assms(7) len by (intro concat_update) auto
  then have "set (concat ?cs) = insert a (set (concat cs))" "length (concat ?cs) = Suc (length (concat cs))"
    by (metis add.right_neutral set_mset_add_mset_insert set_mset_mset union_mset_add_mset_right)
      (metis m add.right_neutral size_add_mset size_mset union_mset_add_mset_right)
  moreover have "num_items lh3 = Suc (num_items lh)"
    using item_count(2) [OF assms(1)]
    by (simp add: lh3_def lh2_def lh1_def write_link_other size_simps address_limit_def)
  moreover have old: "\<exists>z. (if b = a then z = ?it else heap lh b = Some z) \<and> idata z = idata x \<and> ihash z = ihash x"
    if x: "heap lh3 b = Some x" for b x
  proof -
    obtain z where "heap lh1 b = Some z" "idata z = idata x" "ihash z = ihash x" by (rule same_itemsE [OF items x])
    then show ?thesis by (cases "b = a") (auto simp: lh1_def)
  qed
  moreover have "ihash x = hash lh (idata x)" if "heap lh3 b = Some x" for b x
    using old [OF that] lh_okD(4) [OF assms(1)] by (auto split: if_splits)
  moreover have "b = c" if "heap lh3 b = Some x" "heap lh3 c = Some y" "lcomp lh (idata x) (idata y) = 0" for b c x y
  proof -
    have new: "lcomp lh (idata z) d \<noteq> 0" "lcomp lh d (idata z) \<noteq> 0" if "heap lh e = Some z" for e z
      using that assms(2,3) unfolding stored_def equality_def by blast+
    show ?thesis
    proof (cases "b = a"; cases "c = a")
      assume "b = a" "c \<noteq> a"
      then have "lcomp lh d (idata y) = 0" "\<exists>z. heap lh c = Some z \<and> idata z = idata y"
        using old [OF that(1)] old [OF that(2)] that(3) by auto
      with new(2) show ?thesis by metis
    next
      assume "b \<noteq> a" "c = a"
      then have "lcomp lh (idata x) d = 0" "\<exists>z. heap lh b = Some z \<and> idata z = idata x"
        using old [OF that(1)] old [OF that(2)] that(3) by auto
      with new(1) show ?thesis by metis
    next
      assume "b \<noteq> a" "c \<noteq> a"
      then have "\<exists>x'. heap lh b = Some x' \<and> idata x' = idata x" "\<exists>y'. heap lh c = Some y' \<and> idata y' = idata y"
        using old [OF that(1)] old [OF that(2)] by auto
      with that(3) show ?thesis using lh_okD(5) [OF assms(1)] by metis
    qed simp
  qed
  ultimately show "lh_ok lh3 ?cs"
    using assms(1,5) t2 dom by (auto simp: lh_ok_def lh3_def lh2_def lh1_def write_link_other)
  show "stored lh3 = insert d (stored lh)"
  proof -
    have "idata z = d \<or> idata z \<in> stored lh" if "heap lh1 b = Some z" for b z
      using that by (cases "b = a") (auto simp: stored_def lh1_def)
    moreover have "heap lh1 a = Some ?it" by (simp add: lh1_def)
    then have "d \<in> stored lh1" unfolding stored_def by force
    moreover have "idata z \<in> stored lh1" if "heap lh b = Some z" for b z
      using that assms(4) by (cases "b = a") (auto simp: stored_def lh1_def)
    ultimately have "stored lh1 = insert d (stored lh)" by (auto simp: stored_def [of lh1] stored_def [of lh])
    with stored_same [OF items] show ?thesis by simp
  qed
qed

lemma unlink_ok:
  assumes "lh_ok lh cs" "equality (lcomp lh) (hash lh)" "heap lh a = Some it" "lcomp lh (idata it) d = 0"
    and "i < num_buckets lh" "cs ! i = pre @ a # post" "chain (heap lh) (inext it) post"
  defines "lh1 \<equiv> write_link (after (Bucket i) pre) (inext it) lh"
  defines "lh2 \<equiv> lh1\<lparr>heap := (heap lh1)(a := None)\<rparr>"
  defines "lh3 \<equiv> lh2\<lparr>num_items := size_sub (num_items lh2) 1\<rparr>"
  shows "lh_ok lh3 (cs[i := pre @ post])" "stored lh3 = {x \<in> stored lh. lcomp lh x d \<noteq> 0}"
proof -
  let ?cs = "cs[i := pre @ post]"
  note t = lh_okD(1) [OF assms(1)]
  have len: "length cs = num_buckets lh" using t by (simp add: table_def)
  have d: "distinct (pre @ a # post)" using table_distinct(1) [OF t assms(5)] assms(6) by simp
  have in_i: "set (pre @ a # post) \<subseteq> set (concat cs)"
    using concat_nth [of i cs] assms(5,6) len by auto
  have "\<forall>b \<in> set post. unat (ihash (item lh b)) mod num_buckets lh = i"
    using t assms(5,6) by (auto simp: table_def)
  then have t1: "table (heap lh1) (buckets lh1) (num_buckets lh) ?cs"
    unfolding lh1_def using d by (intro table_write [OF t assms(5,6,7)]) auto
  have pre: "set pre \<subseteq> dom (heap lh)" using lh_okD(2) [OF assms(1)] in_i by auto
  have items: "same_items (heap lh) (heap lh1)"
    using write_after_same_items [OF pre] by (simp add: lh1_def)
  have m: "mset (concat ?cs) + {#a#} = mset (concat cs) + {#}"
    using assms(5,6) len by (intro concat_update) auto
  then have m': "mset (concat cs) = add_mset a (mset (concat ?cs))" by simp
  have "distinct (concat cs)" "distinct (concat ?cs)" using t t1 by (simp_all add: table_def)
  then have out: "a \<notin> set (concat ?cs)"
  proof -
    have "count (mset (concat cs)) a \<le> 1" using \<open>distinct (concat cs)\<close> distinct_count_atmost_1 [of "concat cs"] by (metis le_numeral_extra(4) zero_le)
    then have "count (mset (concat ?cs)) a = 0" unfolding m' by simp
    then show ?thesis by (simp only: count_mset_0_iff) simp
  qed
  have s: "set (concat cs) = insert a (set (concat ?cs))" "length (concat cs) = Suc (length (concat ?cs))"
    using m' by (metis set_mset_add_mset_insert set_mset_mset) (metis m' size_add_mset size_mset)
  have t2: "table (heap lh2) (buckets lh2) (num_buckets lh) ?cs"
  proof -
    have "heap lh2 b = heap lh1 b" if "b \<in> set (concat ?cs)" for b using that out by (auto simp: lh2_def)
    from table_cong [OF t1, of "heap lh2", OF this] show ?thesis by (simp add: lh2_def)
  qed
  have dom: "dom (heap lh3) = dom (heap lh) - {a}"
    using same_items_dom [OF items] by (auto simp: lh3_def lh2_def)
  have old: "b \<noteq> a \<and> (\<exists>z. heap lh b = Some z \<and> idata z = idata x \<and> ihash z = ihash x)"
    if x: "heap lh3 b = Some x" for b x
  proof -
    have "b \<noteq> a" "heap lh1 b = Some x" using x by (auto simp: lh3_def lh2_def split: if_splits)
    moreover obtain z where "heap lh b = Some z" "idata z = idata x" "ihash z = ihash x"
      by (rule same_itemsE [OF items calculation(2)])
    ultimately show ?thesis by blast
  qed
  have hashes: "ihash x = hash lh (idata x)" if "heap lh3 b = Some x" for b x
    using old [OF that] lh_okD(4) [OF assms(1)] by auto
  have unique: "b = c" if "heap lh3 b = Some x" "heap lh3 c = Some y" "lcomp lh (idata x) (idata y) = 0" for b c x y
    using old [OF that(1)] old [OF that(2)] that(3) lh_okD(5) [OF assms(1)] by metis
  have n: "num_items lh = Suc (length (concat ?cs))" using assms(1) s(2) unfolding lh_ok_def by metis
  have "num_items lh3 = size_sub (num_items lh) 1" by (simp add: lh3_def lh2_def lh1_def write_link_other)
  moreover have "size_sub (num_items lh) 1 = num_items lh - 1"
  proof (rule size_sub_small)
    show "1 \<le> num_items lh" unfolding n by simp
    show "num_items lh < 2 ^ 64" using item_count(2) [OF assms(1)] unfolding address_limit_def by simp
  qed
  ultimately have "num_items lh3 = num_items lh - 1" by simp
  then have "num_items lh3 = length (concat ?cs)" unfolding n by simp
  moreover have "set (concat ?cs) = dom (heap lh3)" using dom lh_okD(2) [OF assms(1)] s(1) out
    by (metis Diff_insert_absorb)
  moreover have "dom (heap lh3) \<subseteq> {..<address_limit}" "kMinNumBuckets \<le> num_buckets lh" "num_buckets lh < 2 ^ 61"
    using assms(1) dom by (auto simp: lh_ok_def)
  moreover have "num_buckets lh3 = num_buckets lh" "buckets lh3 = buckets lh2" "heap lh3 = heap lh2" "hash lh3 = hash lh" "lcomp lh3 = lcomp lh"
    by (simp_all add: lh3_def lh2_def lh1_def write_link_other)
  ultimately show "lh_ok lh3 ?cs"
    using t2 hashes unique unfolding lh_ok_def by simp
  show "stored lh3 = {x \<in> stored lh. lcomp lh x d \<noteq> 0}"
    unfolding stored_without [OF assms(1-4)]
  proof (intro subset_antisym subsetI)
    fix x assume "x \<in> stored lh3"
    then obtain b z where z: "heap lh3 b = Some z" "x = idata z" by (auto simp: stored_def)
    from old [OF z(1)] obtain y where "b \<noteq> a" "heap lh b = Some y" "idata y = x" using z(2) by auto
    then show "x \<in> {idata y | b y. heap lh b = Some y \<and> b \<noteq> a}" by blast
  next
    fix x assume "x \<in> {idata y | b y. heap lh b = Some y \<and> b \<noteq> a}"
    then obtain b y where y: "heap lh b = Some y" "b \<noteq> a" "x = idata y" by blast
    obtain z where "heap lh1 b = Some z" "idata z = idata y"
      by (rule same_itemsE [OF same_items_sym [OF items] y(1)])
    then have "heap lh3 b = Some z" "x = idata z" using y by (simp_all add: lh3_def lh2_def)
    then show "x \<in> stored lh3" unfolding stored_def by blast
  qed
qed

end
