(* ===== verification/LHashOps.thy ===== *)
theory LHashOps
  imports LHashFacts
begin

text \<open>
  The hash table as a map from objects, up to equality, to stored objects: what every operation of
  \<open>lhash.c\<close> returns and what it leaves in the table, that the table stays well formed, that its chains stay
  short on average, and that walking and freeing it meet every item once. Tables of strings are an
  instance.
\<close>

section \<open>The operations as operations of a map\<close>

text \<open>A table whose items are on the heap as \<open>lh_ok\<close> says, for some chains.\<close>

definition lhash_ok :: "'d lhash \<Rightarrow> bool" where
  "lhash_ok lh \<longleftrightarrow> (\<exists>cs. lh_ok lh cs) \<and> equality (lcomp lh) (hash lh)"

text \<open>What no operation changes.\<close>

definition same_functions :: "'d lhash \<Rightarrow> 'd lhash \<Rightarrow> bool" where
  "same_functions lh lh' \<longleftrightarrow> hash lh' = hash lh \<and> lcomp lh' = lcomp lh \<and> callback_depth lh' = callback_depth lh"

lemma resized_functions: "resized lh lh' \<Longrightarrow> same_functions lh lh'"
  by (simp add: resized_def same_functions_def)

lemma lh_maybe_resize_ok:
  assumes "lhash_ok lh"
  shows "\<exists>lh'. lh_maybe_resize ok lh = Some lh' \<and> lhash_ok lh' \<and> stored lh' = stored lh \<and> same_functions lh lh' \<and>
    num_items lh' = num_items lh \<and>
    (ok \<and> callback_depth lh = 0 \<and> num_items lh div num_buckets lh \<le> kMaxAverageChainLength + 1
       \<longrightarrow> loaded lh')"
proof -
  obtain cs where cs: "lh_ok lh cs" using assms by (auto simp: lhash_ok_def)
  show ?thesis
  proof (rule lh_maybe_resize_eq [OF cs, of ok])
    fix lh' cs'
    assume r: "lh_maybe_resize ok lh = Some lh'" "lh_ok lh' cs'" "resized lh lh'"
      "ok \<Longrightarrow> callback_depth lh = 0 \<Longrightarrow>
        num_items lh div num_buckets lh \<le> kMaxAverageChainLength + 1 \<Longrightarrow> loaded lh'"
    moreover have "lhash_ok lh'"
      using r(2,3) assms by (auto simp: lhash_ok_def resized_def)
    ultimately show ?thesis
      using stored_resized [OF r(3)] resized_functions [OF r(3)] by (auto simp: resized_def)
  qed
qed

lemma div_suc_load: "(0::nat) < n \<Longrightarrow> k div n \<le> m \<Longrightarrow> Suc k div n \<le> m + 1"
  by (simp add: div_Suc)

lemma lh_insert_step:
  assumes "lhash_ok lh" "case addr of None \<Rightarrow> True | Some a \<Rightarrow> heap lh a = None \<and> a < address_limit"
  shows "\<exists>b old lh'. lh_insert ok addr d lh = Some (b, old, lh') \<and> lhash_ok lh' \<and> same_functions lh lh' \<and>
    found (lcomp lh) (stored lh) d old \<and> (b \<longleftrightarrow> old \<noteq> None \<or> addr \<noteq> None) \<and>
    stored lh' = (if b then insert d {x \<in> stored lh. lcomp lh x d \<noteq> 0} else stored lh) \<and>
    (ok \<and> callback_depth lh = 0 \<and> loaded lh \<longrightarrow> loaded lh')"
proof -
  obtain cs where cs: "lh_ok lh cs" and eq: "equality (lcomp lh) (hash lh)" using assms(1) by (auto simp: lhash_ok_def)
  from cs eq show ?thesis
  proof (cases rule: get_next_ptr_cases [where d = d])
    case (2 i pre a it post)
    note r = replace_ok [OF cs eq 2(5,6)]
    let ?lh = "lh\<lparr>heap := (heap lh)(a \<mapsto> it\<lparr>idata := d\<rparr>)\<rparr>"
    have "lhash_ok ?lh" using r(1) eq by (auto simp: lhash_ok_def)
    moreover have "found (lcomp lh) (stored lh) d (Some (idata it))" using 2(5,6) by (auto simp: found_def stored_def)
    moreover have "lh_insert ok addr d lh = Some (True, Some (idata it), ?lh)"
      using 2 by (simp add: lh_insert_def)
    ultimately show ?thesis using r(2) by (auto simp: same_functions_def loaded_def)
  next
    case (1 i pre)
    have none: "found (lcomp lh) (stored lh) d None" using 1(6) by (simp add: found_def)
    have all: "{x \<in> stored lh. lcomp lh x d \<noteq> 0} = stored lh" using 1(6) by auto
    show ?thesis
    proof (cases addr)
      case None
      have "lh_insert ok addr d lh = Some (False, None, lh)" using 1 None by (simp add: lh_insert_def)
      then show ?thesis using assms(1) none None by (auto simp: same_functions_def)
    next
      case (Some a)
      let ?lh1 = "lh\<lparr>heap := (heap lh)(a \<mapsto> \<lparr>idata = d, inext = None, ihash = hash lh d\<rparr>)\<rparr>"
      let ?lh2 = "write_link (after (Bucket i) (cs ! i)) (Some a) ?lh1"
      let ?lh3 = "?lh2\<lparr>num_items := size_add (num_items ?lh2) 1\<rparr>"
      have free: "heap lh a = None" "a < address_limit" using assms(2) Some by auto
      note r = append_ok [OF cs eq 1(6) free 1(2,3)]
      have f: "same_functions lh ?lh3" by (simp add: same_functions_def write_link_other)
      then have ok3: "lhash_ok ?lh3" using r(1) eq unfolding lhash_ok_def same_functions_def by metis
      have n: "num_items ?lh3 = Suc (num_items lh)" "num_buckets ?lh3 = num_buckets lh"
        using item_count(2) [OF cs] by (simp_all add: write_link_other size_simps address_limit_def)
      from lh_maybe_resize_ok [OF ok3, of ok] obtain lh' where m: "lh_maybe_resize ok ?lh3 = Some lh'" "lhash_ok lh'"
        "stored lh' = stored ?lh3" "same_functions ?lh3 lh'"
        "ok \<and> callback_depth ?lh3 = 0 \<and> num_items ?lh3 div num_buckets ?lh3 \<le> kMaxAverageChainLength + 1 \<longrightarrow> loaded lh'"
        by blast
      have "lh_insert ok addr d lh = Some (True, None, lh')"
        using 1 Some m(1) by (simp add: lh_insert_def Let_def)
      moreover have "loaded lh'" if "ok" "callback_depth lh = 0" "loaded lh"
        using m(5) that f div_suc_load [OF lh_okD(3) [OF cs]] unfolding n loaded_def same_functions_def by simp
      moreover have "same_functions lh lh'" using f m(4) by (simp add: same_functions_def)
      ultimately show ?thesis using none Some m(2,3) r(2) all by auto
    qed
  qed
qed

lemma lh_delete_step:
  assumes "lhash_ok lh"
  shows "\<exists>r lh'. lh_delete ok d lh = Some (r, lh') \<and> lhash_ok lh' \<and> same_functions lh lh' \<and>
    found (lcomp lh) (stored lh) d r \<and> stored lh' = {x \<in> stored lh. lcomp lh x d \<noteq> 0} \<and>
    (ok \<and> callback_depth lh = 0 \<and> loaded lh \<longrightarrow> loaded lh')"
proof -
  obtain cs where cs: "lh_ok lh cs" and eq: "equality (lcomp lh) (hash lh)" using assms by (auto simp: lhash_ok_def)
  from cs eq show ?thesis
  proof (cases rule: get_next_ptr_cases [where d = d])
    case (1 i pre)
    have "lh_delete ok d lh = Some (None, lh)" using 1 by (simp add: lh_delete_def)
    moreover have "{x \<in> stored lh. lcomp lh x d \<noteq> 0} = stored lh" using 1(6) by auto
    ultimately show ?thesis using assms 1(6) by (auto simp: same_functions_def found_def)
  next
    case (2 i pre a it post)
    let ?lh1 = "write_link (after (Bucket i) pre) (inext it) lh"
    let ?lh2 = "?lh1\<lparr>heap := (heap ?lh1)(a := None)\<rparr>"
    let ?lh3 = "?lh2\<lparr>num_items := size_sub (num_items ?lh2) 1\<rparr>"
    note r = unlink_ok [OF cs eq 2(5,6,2,3,7)]
    have f: "same_functions lh ?lh3" by (simp add: same_functions_def write_link_other)
    then have ok3: "lhash_ok ?lh3" using r(1) eq unfolding lhash_ok_def same_functions_def by metis
    have "a \<in> dom (heap lh)" using 2(5) by blast
    moreover have "finite (dom (heap lh))" using cs by (metis lh_ok_def List.finite_set)
    ultimately have "1 \<le> num_items lh" using item_count(1) [OF cs] by (metis One_nat_def Suc_leI card_gt_0_iff empty_iff)
    then have n: "num_items ?lh3 \<le> num_items lh" "num_buckets ?lh3 = num_buckets lh"
      using item_count(2) [OF cs] by (simp_all add: write_link_other size_simps address_limit_def)
    from lh_maybe_resize_ok [OF ok3, of ok] obtain lh' where m: "lh_maybe_resize ok ?lh3 = Some lh'" "lhash_ok lh'"
      "stored lh' = stored ?lh3" "same_functions ?lh3 lh'"
      "ok \<and> callback_depth ?lh3 = 0 \<and> num_items ?lh3 div num_buckets ?lh3 \<le> kMaxAverageChainLength + 1 \<longrightarrow> loaded lh'"
      by blast
    have "lh_delete ok d lh = Some (Some (idata it), lh')"
      using 2 m(1) by (simp add: lh_delete_def Let_def)
    moreover have "loaded lh'" if "ok" "callback_depth lh = 0" "loaded lh"
    proof -
      have "num_items ?lh3 div num_buckets lh \<le> kMaxAverageChainLength"
        using div_le_mono [OF n(1), of "num_buckets lh"] that(3) by (simp add: loaded_def)
      then show ?thesis using m(5) that f unfolding n(2) same_functions_def by simp
    qed
    moreover have "same_functions lh lh'" using f m(4) by (simp add: same_functions_def)
    moreover have "found (lcomp lh) (stored lh) d (Some (idata it))" using 2(5,6) by (auto simp: found_def stored_def)
    moreover have "stored lh' = {x \<in> stored lh. lcomp lh x d \<noteq> 0}" by (rule trans [OF m(3) r(2)])
    ultimately show ?thesis
      using m(2) by (intro exI [of _ "Some (idata it)"] exI [of _ lh'] conjI impI) (elim conjE | assumption)+
  qed
qed

section \<open>The interface\<close>

text \<open>
  What a client of the table relies on: an object is found again, up to equality, until an equal one takes
  its place or it is deleted. \<open>ins\<close> and \<open>del\<close> relate the states before and after the calls that did what
  they were asked to, and the object that was there before.
\<close>

locale object_map =
  fixes ok :: "'t \<Rightarrow> bool"
    and same :: "'d \<Rightarrow> 'd \<Rightarrow> bool"
    and lookup :: "'t \<Rightarrow> 'd \<Rightarrow> 'd option"
    and ins :: "'d \<Rightarrow> 'd option \<Rightarrow> 't \<Rightarrow> 't \<Rightarrow> bool"
    and del :: "'d \<Rightarrow> 'd option \<Rightarrow> 't \<Rightarrow> 't \<Rightarrow> bool"
  assumes ins_ok: "ok t \<Longrightarrow> ins d r t t' \<Longrightarrow> ok t'"
    and ins_lookup: "ok t \<Longrightarrow> ins d r t t' \<Longrightarrow> lookup t' e = (if same d e then Some d else lookup t e)"
    and ins_old: "ok t \<Longrightarrow> ins d r t t' \<Longrightarrow> r = lookup t d"
    and del_ok: "ok t \<Longrightarrow> del d r t t' \<Longrightarrow> ok t'"
    and del_lookup: "ok t \<Longrightarrow> del d r t t' \<Longrightarrow> lookup t' e = (if same d e then None else lookup t e)"
    and del_old: "ok t \<Longrightarrow> del d r t t' \<Longrightarrow> r = lookup t d"

text \<open>A history of calls, and what it leaves to be found: the last call about an equal object decides.\<close>

datatype 'd table_call = Put 'd | Drop 'd

primrec call_object :: "'d table_call \<Rightarrow> 'd" where
  "call_object (Put d) = d"
| "call_object (Drop d) = d"

primrec history_lookup :: "('d \<Rightarrow> 'd \<Rightarrow> bool) \<Rightarrow> 'd table_call list \<Rightarrow> 'd \<Rightarrow> 'd option" where
  "history_lookup same [] e = None"
| "history_lookup same (c # cs) e =
     (if same (call_object c) e then (case c of Put d \<Rightarrow> Some d | Drop d \<Rightarrow> None) else history_lookup same cs e)"

text \<open>The states a history leads to; the last call comes first. \<open>rs\<close> holds the results.\<close>

inductive history ::
    "('d \<Rightarrow> 'd option \<Rightarrow> 't \<Rightarrow> 't \<Rightarrow> bool) \<Rightarrow> ('d \<Rightarrow> 'd option \<Rightarrow> 't \<Rightarrow> 't \<Rightarrow> bool) \<Rightarrow> 't \<Rightarrow>
     'd table_call list \<Rightarrow> 'd option list \<Rightarrow> 't \<Rightarrow> bool"
  for ins del t0 where
  start: "history ins del t0 [] [] t0"
| put: "history ins del t0 cs rs t \<Longrightarrow> ins d r t t' \<Longrightarrow> history ins del t0 (Put d # cs) (r # rs) t'"
| drop: "history ins del t0 cs rs t \<Longrightarrow> del d r t t' \<Longrightarrow> history ins del t0 (Drop d # cs) (r # rs) t'"

primrec history_results :: "('d \<Rightarrow> 'd \<Rightarrow> bool) \<Rightarrow> 'd table_call list \<Rightarrow> 'd option list" where
  "history_results same [] = []"
| "history_results same (c # cs) = history_lookup same cs (call_object c) # history_results same cs"

context object_map begin

lemma history_refines:
  assumes "history ins del t0 cs rs t" "ok t0" "\<And>e. lookup t0 e = None"
  shows "ok t \<and> lookup t = history_lookup same cs \<and> rs = history_results same cs"
  using assms(1)
proof induction
  case start
  then show ?case using assms(2,3) by auto
next
  case (put cs rs t d r t')
  then have "ok t" by simp
  from ins_ok [OF this put.hyps(2)] ins_lookup [OF this put.hyps(2)] ins_old [OF this put.hyps(2)] put.IH
  show ?case by (auto simp: fun_eq_iff)
next
  case (drop cs rs t d r t')
  then have "ok t" by simp
  from del_ok [OF this drop.hyps(2)] del_lookup [OF this drop.hyps(2)] del_old [OF this drop.hyps(2)] drop.IH
  show ?case by (auto simp: fun_eq_iff)
qed

text \<open>Only the last of several calls about the same object matters, whatever was called in between about others.\<close>

lemma put_then_others:
  assumes "history ins del t0 (cs @ Put d # cs') rs t" "ok t0" "\<And>e. lookup t0 e = None"
    and "same d e" "\<And>c. c \<in> set cs \<Longrightarrow> \<not> same (call_object c) e"
  shows "lookup t e = Some d"
proof -
  have "history_lookup same (cs @ Put d # cs') e = Some d" using assms(4,5) by (induction cs) auto
  with history_refines [OF assms(1-3)] show ?thesis by simp
qed

end

section \<open>The hash table provides it\<close>

text \<open>An insertion that has memory for the item; the table may still fail to grow.\<close>

definition inserts :: "'d \<Rightarrow> 'd option \<Rightarrow> 'd lhash \<Rightarrow> 'd lhash \<Rightarrow> bool" where
  "inserts d r lh lh' \<longleftrightarrow> (\<exists>ok a. heap lh a = None \<and> a < address_limit \<and> lh_insert ok (Some a) d lh = Some (True, r, lh'))"

definition deletes :: "'d \<Rightarrow> 'd option \<Rightarrow> 'd lhash \<Rightarrow> 'd lhash \<Rightarrow> bool" where
  "deletes d r lh lh' \<longleftrightarrow> (\<exists>ok. lh_delete ok d lh = Some (r, lh'))"

definition retrieved :: "'d lhash \<Rightarrow> 'd \<Rightarrow> 'd option" where
  "retrieved lh d = the (lh_retrieve lh d)"

definition lhash_with :: "('d \<Rightarrow> u32) \<Rightarrow> ('d \<Rightarrow> 'd \<Rightarrow> int) \<Rightarrow> 'd lhash \<Rightarrow> bool" where
  "lhash_with h c lh \<longleftrightarrow> lhash_ok lh \<and> hash lh = h \<and> lcomp lh = c"

lemma lhash_withD:
  "lhash_with h c lh \<Longrightarrow> lhash_ok lh" "lhash_with h c lh \<Longrightarrow> lcomp lh = c" "lhash_with h c lh \<Longrightarrow> equality c h"
  "lhash_with h c lh \<Longrightarrow> same_functions lh lh' \<Longrightarrow> lhash_ok lh' \<Longrightarrow> lhash_with h c lh'"
  by (auto simp: lhash_with_def lhash_ok_def same_functions_def)

lemma retrieved_found:
  assumes "lhash_ok lh"
  shows "lh_retrieve lh d = Some (retrieved lh d)" "found (lcomp lh) (stored lh) d (retrieved lh d)"
proof -
  obtain cs where "lh_ok lh cs" "equality (lcomp lh) (hash lh)" using assms by (auto simp: lhash_ok_def)
  from lh_retrieve_eq [OF this, of d] obtain r where "lh_retrieve lh d = Some r" "found (lcomp lh) (stored lh) d r" by blast
  then show "lh_retrieve lh d = Some (retrieved lh d)" "found (lcomp lh) (stored lh) d (retrieved lh d)"
    by (simp_all add: retrieved_def)
qed

lemma found_unique:
  assumes "lhash_ok lh" "found (lcomp lh) (stored lh) d r" "found (lcomp lh) (stored lh) d r'"
  shows "r = r'"
  using assms stored_unique [of lh _ _ _ d]
  by (cases r; cases r') (force simp: found_def lhash_ok_def)+

lemma found_stored_unique:
  "lhash_ok lh \<Longrightarrow> found (lcomp lh) (stored lh) d r \<Longrightarrow> retrieved lh d = r"
  by (rule found_unique [OF _ retrieved_found(2)])

lemma retrieved_put:
  assumes "lhash_ok lh" "lhash_ok lh'" "same_functions lh lh'" "stored lh' = insert d {x \<in> stored lh. lcomp lh x d \<noteq> 0}"
  shows "retrieved lh' e = (if lcomp lh d e = 0 then Some d else retrieved lh e)"
proof (rule found_stored_unique [OF assms(2)])
  have eq: "equality (lcomp lh) (hash lh)" using assms(1) by (simp add: lhash_ok_def)
  have c: "lcomp lh' = lcomp lh" using assms(3) by (simp add: same_functions_def)
  show "found (lcomp lh') (stored lh') e (if lcomp lh d e = 0 then Some d else retrieved lh e)"
  proof (cases "lcomp lh d e = 0")
    case True
    then show ?thesis by (simp add: found_def assms(4) c)
  next
    case False
    have "lcomp lh x d \<noteq> 0" if "lcomp lh x e = 0" for x
      using equalityD(4) [OF eq equalityD(2) [OF eq] that] False by blast
    with retrieved_found(2) [OF assms(1), of e] False show ?thesis
      by (auto simp: found_def assms(4) c split: option.splits)
  qed
qed

lemma retrieved_drop:
  assumes "lhash_ok lh" "lhash_ok lh'" "same_functions lh lh'" "stored lh' = {x \<in> stored lh. lcomp lh x d \<noteq> 0}"
  shows "retrieved lh' e = (if lcomp lh d e = 0 then None else retrieved lh e)"
proof (rule found_stored_unique [OF assms(2)])
  have eq: "equality (lcomp lh) (hash lh)" using assms(1) by (simp add: lhash_ok_def)
  have c: "lcomp lh' = lcomp lh" using assms(3) by (simp add: same_functions_def)
  show "found (lcomp lh') (stored lh') e (if lcomp lh d e = 0 then None else retrieved lh e)"
  proof (cases "lcomp lh d e = 0")
    case True
    have "lcomp lh x d = 0" if "lcomp lh x e = 0" for x
      by (rule equalityD(4) [OF eq that equalityD(2) [OF eq True]])
    then show ?thesis using True by (auto simp: found_def assms(4) c)
  next
    case False
    have "lcomp lh x d \<noteq> 0" if "lcomp lh x e = 0" for x
      using equalityD(4) [OF eq equalityD(2) [OF eq] that] False by blast
    with retrieved_found(2) [OF assms(1), of e] False show ?thesis
      by (auto simp: found_def assms(4) c split: option.splits)
  qed
qed

text \<open>\<open>lh_insert\<close> and \<open>lh_delete\<close>, by what can be retrieved.\<close>

lemma lh_insert_map:
  assumes "lhash_ok lh" "case addr of None \<Rightarrow> True | Some a \<Rightarrow> heap lh a = None \<and> a < address_limit"
  shows "\<exists>lh'. lh_insert ok addr d lh = Some (retrieved lh d \<noteq> None \<or> addr \<noteq> None, retrieved lh d, lh') \<and>
    lhash_ok lh' \<and> same_functions lh lh' \<and>
    (\<forall>e. retrieved lh' e =
       (if (retrieved lh d \<noteq> None \<or> addr \<noteq> None) \<and> lcomp lh d e = 0 then Some d else retrieved lh e)) \<and>
    (ok \<and> callback_depth lh = 0 \<and> loaded lh \<longrightarrow> loaded lh')"
proof -
  from lh_insert_step [OF assms, of ok d] obtain b old lh' where r: "lh_insert ok addr d lh = Some (b, old, lh')"
    "lhash_ok lh'" "same_functions lh lh'" "found (lcomp lh) (stored lh) d old" "b = (old \<noteq> None \<or> addr \<noteq> None)"
    "stored lh' = (if b then insert d {x \<in> stored lh. lcomp lh x d \<noteq> 0} else stored lh)"
    "ok \<and> callback_depth lh = 0 \<and> loaded lh \<longrightarrow> loaded lh'" by blast
  have old: "retrieved lh d = old" by (rule found_stored_unique [OF assms(1) r(4)])
  have "retrieved lh' e = (if b \<and> lcomp lh d e = 0 then Some d else retrieved lh e)" for e
  proof (cases b)
    case True
    then show ?thesis using retrieved_put [OF assms(1) r(2,3)] r(6) by simp
  next
    case False
    then have "stored lh' = stored lh" "lcomp lh' = lcomp lh" using r(3,6) by (simp_all add: same_functions_def)
    then show ?thesis using False found_stored_unique [OF assms(1)] retrieved_found(2) [OF r(2), of e] by simp
  qed
  with r old show ?thesis by blast
qed

lemma lh_delete_map:
  assumes "lhash_ok lh"
  shows "\<exists>lh'. lh_delete ok d lh = Some (retrieved lh d, lh') \<and> lhash_ok lh' \<and> same_functions lh lh' \<and>
    (\<forall>e. retrieved lh' e = (if lcomp lh d e = 0 then None else retrieved lh e)) \<and>
    (ok \<and> callback_depth lh = 0 \<and> loaded lh \<longrightarrow> loaded lh')"
proof -
  from lh_delete_step [OF assms, of ok d] obtain r lh' where r: "lh_delete ok d lh = Some (r, lh')" "lhash_ok lh'"
    "same_functions lh lh'" "found (lcomp lh) (stored lh) d r" "stored lh' = {x \<in> stored lh. lcomp lh x d \<noteq> 0}"
    "ok \<and> callback_depth lh = 0 \<and> loaded lh \<longrightarrow> loaded lh'" by blast
  have "retrieved lh d = r" by (rule found_stored_unique [OF assms r(4)])
  with r retrieved_drop [OF assms r(2,3,5)] show ?thesis by blast
qed

lemma insertsE:
  assumes "inserts d r lh lh'" "lhash_with h c lh"
  shows "lhash_with h c lh'" "retrieved lh' e = (if c d e = 0 then Some d else retrieved lh e)" "r = retrieved lh d"
proof -
  obtain ok a where a: "heap lh a = None" "a < address_limit" "lh_insert ok (Some a) d lh = Some (True, r, lh')"
    using assms(1) by (auto simp: inserts_def)
  have "lhash_ok lh" and c: "lcomp lh = c" by (rule lhash_withD [OF assms(2)])+
  then show "lhash_with h c lh'" "retrieved lh' e = (if c d e = 0 then Some d else retrieved lh e)" "r = retrieved lh d"
    using lh_insert_map [of lh "Some a" ok d] a lhash_withD(4) [OF assms(2)] by auto
qed

lemma deletesE:
  assumes "deletes d r lh lh'" "lhash_with h c lh"
  shows "lhash_with h c lh'" "retrieved lh' e = (if c d e = 0 then None else retrieved lh e)" "r = retrieved lh d"
proof -
  obtain ok where a: "lh_delete ok d lh = Some (r, lh')" using assms(1) by (auto simp: deletes_def)
  have "lhash_ok lh" and c: "lcomp lh = c" by (rule lhash_withD [OF assms(2)])+
  then show "lhash_with h c lh'" "retrieved lh' e = (if c d e = 0 then None else retrieved lh e)" "r = retrieved lh d"
    using lh_delete_map [of lh ok d] a lhash_withD(4) [OF assms(2)] by auto
qed

interpretation lht: object_map "lhash_with h c" "\<lambda>x y. c x y = 0" retrieved inserts deletes for h c
  by unfold_locales (rule insertsE deletesE; assumption)+

lemma lh_new_ok:
  assumes "equality c h" "lh_new True True h c = Some lh"
  shows "lhash_with h c lh" "stored lh = {}" "loaded lh" "callback_depth lh = 0" "retrieved lh e = None"
proof -
  have lh: "lh = \<lparr>heap = Map.empty, num_items = 0, buckets = replicate kMinNumBuckets None,
                 num_buckets = kMinNumBuckets, callback_depth = 0, lcomp = c, hash = h\<rparr>"
    using assms(2) by (simp add: lh_new_def)
  have "lh_ok lh (replicate kMinNumBuckets [])"
    unfolding lh_ok_def lh by (simp add: table_empty kMinNumBuckets_def)
  then show w: "lhash_with h c lh" using assms(1) by (auto simp: lhash_with_def lhash_ok_def lh)
  show s: "stored lh = {}" "loaded lh" "callback_depth lh = 0" by (simp_all add: lh stored_def loaded_def kMaxAverageChainLength_def)
  show "retrieved lh e = None"
    by (rule found_stored_unique [OF lhash_withD(1) [OF w]]) (simp add: found_def s(1))
qed

text \<open>Looking up by a key that stands for an object, and counting.\<close>

lemma lh_retrieve_key_eq:
  assumes "key_hash = hash lh d" "\<And>x. cmp_key x = 0 \<longleftrightarrow> lcomp lh x d = 0"
  shows "lh_retrieve_key lh key_hash cmp_key = lh_retrieve lh d"
  using assms by (simp add: lh_retrieve_key_def lh_retrieve_def get_next_ptr_by_key_def get_next_ptr_and_hash_def Let_def)

end
