(* ===== verification/LHashProps.thy ===== *)
theory LHashProps
  imports LHashOps
begin

text \<open>
  The properties of the hash table of \<open>lhash.c\<close>: what it answers after any history of calls, its load,
  and the functions that go through all of it.
\<close>

section \<open>Going through the table\<close>

lemma free_loop_eq: "chain (heap lh) p as \<Longrightarrow> free_loop lh p = Some as"
  by (induction as arbitrary: p) (auto simp: free_loop.simps)

lemma free_buckets_eq: "list_all2 (chain (heap lh)) bs cs \<Longrightarrow> free_buckets lh bs = Some (concat cs)"
proof (induction bs arbitrary: cs)
  case (Cons b bs)
  then obtain c cs' where "cs = c # cs'" "chain (heap lh) b c" "list_all2 (chain (heap lh)) bs cs'"
    by (auto simp: list_all2_Cons1)
  with Cons.IH show ?case by (simp add: free_loop_eq)
qed simp

lemma table_chains: "table H bs n cs \<Longrightarrow> list_all2 (chain H) bs cs"
  by (auto simp: table_def list_all2_conv_all_nth)

lemma free_all:
  assumes "lhash_ok lh"
  shows "\<exists>as. lh_free (Some lh) = Some as \<and> distinct as \<and> set as = dom (heap lh)"
proof -
  obtain cs where cs: "lh_ok lh cs" using assms by (auto simp: lhash_ok_def)
  have "lh_free (Some lh) = Some (concat cs)"
    using free_buckets_eq [OF table_chains [OF lh_okD(1) [OF cs]]] by (simp add: lh_free_def)
  moreover have "distinct (concat cs)" using lh_okD(1) [OF cs] by (simp add: table_def)
  ultimately show ?thesis using lh_okD(2) [OF cs] by blast
qed

lemma lh_ok_depth [simp]: "lh_ok (lh\<lparr>callback_depth := k\<rparr>) cs = lh_ok lh cs"
  by (simp add: lh_ok_def)

lemma lhash_ok_depth [simp]: "lhash_ok (lh\<lparr>callback_depth := k\<rparr>) = lhash_ok lh"
  by (simp add: lhash_ok_def)

lemma stored_depth [simp]: "stored (lh\<lparr>callback_depth := k\<rparr>) = stored lh"
  by (simp add: stored_def)

abbreviation data_at :: "'d lhash \<Rightarrow> nat \<Rightarrow> 'd" where
  "data_at lh a \<equiv> idata (item lh a)"

lemma stored_list:
  assumes "lh_ok lh cs" "equality (lcomp lh) (hash lh)"
  shows "distinct (map (data_at lh) (concat cs))" "set (map (data_at lh) (concat cs)) = stored lh"
proof -
  have d: "set (concat cs) = dom (heap lh)" by (rule lh_okD(2) [OF assms(1)])
  have "distinct (concat cs)" using lh_okD(1) [OF assms(1)] by (simp add: table_def)
  moreover have "inj_on (data_at lh) (set (concat cs))"
    unfolding d
  proof (rule inj_onI)
    fix a b assume "a \<in> dom (heap lh)" "b \<in> dom (heap lh)" and eq: "data_at lh a = data_at lh b"
    then obtain x y where "heap lh a = Some x" "heap lh b = Some y" by auto
    moreover have "lcomp lh (idata x) (idata y) = 0" using eq equalityD(1) [OF assms(2)] by (simp add: calculation)
    ultimately show "a = b" by (rule lh_okD(5) [OF assms(1)])
  qed
  ultimately show "distinct (map (data_at lh) (concat cs))" by (simp only: distinct_map simp_thms)
  show "set (map (data_at lh) (concat cs)) = stored lh"
    unfolding set_map d by (force simp: stored_def image_iff)
qed

text \<open>A callback that leaves the table alone.\<close>

definition visit :: "('d \<Rightarrow> 's \<Rightarrow> 's) \<Rightarrow> 'd \<Rightarrow> 'd lhash \<times> 's \<Rightarrow> ('d lhash \<times> 's) option" where
  "visit f d st = Some (fst st, f d (snd st))"

lemma visit_pair [simp]: "visit f d (lh, s) = Some (lh, f d s)"
  by (simp add: visit_def)

lemma doall_loop_visit:
  "chain (heap lh) p as \<Longrightarrow> doall_loop (visit f) p (lh, s) = Some (lh, fold f (map (data_at lh) as) s)"
proof (induction as arbitrary: p s)
  case Nil
  then show ?case by (simp add: doall_loop.simps)
next
  case (Cons a as)
  then obtain it where "p = Some a" "heap lh a = Some it" "chain (heap lh) (inext it) as" by auto
  with Cons.IH show ?case by (subst doall_loop.simps) simp
qed

lemma doall_buckets_visit:
  assumes "table (heap lh) (buckets lh) (num_buckets lh) cs"
  shows "i \<le> num_buckets lh \<Longrightarrow>
    doall_buckets (visit f) i (lh, s) = Some (lh, fold f (map (data_at lh) (concat (drop i cs))) s)"
proof (induction "num_buckets lh - i" arbitrary: i s)
  case 0
  then show ?case using assms by (simp add: doall_buckets.simps table_def)
next
  case (Suc k)
  then have i: "i < num_buckets lh" by simp
  then have c: "chain (heap lh) (buckets lh ! i) (cs ! i)" and cs: "drop i cs = cs ! i # drop (Suc i) cs"
    using assms by (simp_all add: table_def Cons_nth_drop_Suc)
  from i Suc.hyps(1)[of "Suc i"] Suc.hyps(2) show ?case
    by (subst doall_buckets.simps) (simp add: doall_loop_visit [OF c] cs)
qed

text \<open>A callback that deletes the object it gets, as a client does that releases all objects of a table.\<close>

definition delete_visited :: "bool \<Rightarrow> 'd \<Rightarrow> 'd lhash \<times> 'd list \<Rightarrow> ('d lhash \<times> 'd list) option" where
  "delete_visited ok d st = Option.bind (lh_delete ok d (fst st)) (\<lambda>(_, lh). Some (lh, snd st @ [d]))"

lemma delete_first:
  assumes "lh_ok lh cs" "equality (lcomp lh) (hash lh)" "0 < callback_depth lh"
    and "i < num_buckets lh" "cs ! i = a # post" "heap lh a = Some it"
  obtains lh' where "lh_delete ok (idata it) lh = Some (Some (idata it), lh')" "lh_ok lh' (cs[i := post])"
    "same_functions lh lh'" "num_buckets lh' = num_buckets lh" "heap lh' = (heap lh)(a := None)" "buckets lh' ! i = inext it"
proof -
  note t = lh_okD(1) [OF assms(1)]
  have refl: "lcomp lh (idata it) (idata it) = 0" by (rule equalityD(1) [OF assms(2)])
  have chain: "chain (heap lh) (inext it) post"
    using t assms(4-6) by (auto simp: table_def dest!: spec [of _ i])
  let ?lh1 = "write_link (after (Bucket i) []) (inext it) lh"
  let ?lh2 = "?lh1\<lparr>heap := (heap ?lh1)(a := None)\<rparr>"
  let ?lh3 = "?lh2\<lparr>num_items := size_sub (num_items ?lh2) 1\<rparr>"
  have c: "cs ! i = [] @ a # post" using assms(5) by simp
  have ok3: "lh_ok ?lh3 (cs[i := post])"
    using unlink_ok(1) [OF assms(1,2,6) refl assms(4) c chain] by simp
  have "lh_delete ok (idata it) lh = Some (Some (idata it), ?lh3)"
  proof (rule get_next_ptr_cases [OF assms(1,2), where d = "idata it"])
    assume "\<forall>x \<in> stored lh. lcomp lh x (idata it) \<noteq> 0"
    then have False using refl assms(6) by (auto simp: stored_def)
    then show ?thesis ..
  next
    fix i' pre a' it' post'
    assume g: "get_next_ptr_and_hash lh (idata it) = Some (after (Bucket i') pre, hash lh (idata it))"
      "i' < num_buckets lh" "cs ! i' = pre @ a' # post'" "read_link lh (after (Bucket i') pre) = Some a'"
      "heap lh a' = Some it'" "lcomp lh (idata it') (idata it) = 0"
    have a: "a' = a" by (rule lh_okD(5) [OF assms(1) g(5) assms(6) g(6)])
    have i: "i' = i"
      using table_distinct(2) [OF t g(2), of i] assms(4,5) g(3) a by auto
    then have "pre = []" using table_distinct(1) [OF t assms(4)] assms(5) g(3) a by (cases pre) auto
    with g a i show ?thesis
      using assms(3,6) by (simp add: lh_delete_def lh_maybe_resize_def Let_def)
  qed
  then show thesis
    by (rule that [OF _ ok3]) (use t assms(4) in \<open>simp_all add: same_functions_def table_def\<close>)
qed

lemma doall_loop_delete:
  "lh_ok lh cs \<Longrightarrow> equality (lcomp lh) (hash lh) \<Longrightarrow> 0 < callback_depth lh \<Longrightarrow> i < num_buckets lh \<Longrightarrow> cs ! i = as \<Longrightarrow>
   \<exists>lh'. doall_loop (delete_visited ok) (buckets lh ! i) (lh, s) = Some (lh', s @ map (data_at lh) as) \<and>
     lh_ok lh' (cs[i := []]) \<and> same_functions lh lh' \<and> num_buckets lh' = num_buckets lh \<and>
     (\<forall>b. b \<notin> set as \<longrightarrow> heap lh' b = heap lh b)"
proof (induction as arbitrary: lh cs s)
  case Nil
  have "cs[i := []] = cs" using Nil(5) by (metis list_update_id)
  moreover have "buckets lh ! i = None" using lh_okD(1) [OF Nil(1)] Nil(4,5) by (metis table_def segment.simps(1))
  ultimately show ?case using Nil by (simp add: doall_loop.simps same_functions_def)
next
  case (Cons a as)
  note t = lh_okD(1) [OF Cons.prems(1)]
  have "chain (heap lh) (buckets lh ! i) (a # as)" using t Cons.prems(4,5) by (metis table_def)
  then obtain it where it: "buckets lh ! i = Some a" "heap lh a = Some it" by auto
  obtain lh1 where d: "lh_delete ok (idata it) lh = Some (Some (idata it), lh1)" "lh_ok lh1 (cs[i := as])"
    "same_functions lh lh1" "num_buckets lh1 = num_buckets lh" "heap lh1 = (heap lh)(a := None)" "buckets lh1 ! i = inext it"
    by (rule delete_first [OF Cons.prems(1-5) it(2), of ok])
  have len: "i < length cs" using t Cons.prems(4) by (simp add: table_def)
  have "a \<notin> set as" using table_distinct(1) [OF t Cons.prems(4)] Cons.prems(5) by simp
  then have same: "map (data_at lh1) as = map (data_at lh) as" by (auto simp: d(5))
  from Cons.IH [of lh1 "cs[i := as]" "s @ [idata it]"] obtain lh' where r:
    "doall_loop (delete_visited ok) (buckets lh1 ! i) (lh1, s @ [idata it]) = Some (lh', (s @ [idata it]) @ map (data_at lh1) as)"
    "lh_ok lh' (cs[i := []])" "same_functions lh1 lh'" "num_buckets lh' = num_buckets lh1"
    "\<forall>b. b \<notin> set as \<longrightarrow> heap lh' b = heap lh1 b"
    using d Cons.prems(2-4) len unfolding same_functions_def by auto
  have "doall_loop (delete_visited ok) (buckets lh ! i) (lh, s) = Some (lh', s @ map (data_at lh) (a # as))"
    using r(1) by (subst doall_loop.simps) (simp add: it delete_visited_def d(1,6) same)
  then show ?case using r(2-5) d(3-5) by (auto simp: same_functions_def)
qed

lemma doall_buckets_delete:
  "lh_ok lh cs \<Longrightarrow> equality (lcomp lh) (hash lh) \<Longrightarrow> 0 < callback_depth lh \<Longrightarrow> i \<le> num_buckets lh \<Longrightarrow>
   \<forall>j < i. cs ! j = [] \<Longrightarrow>
   \<exists>lh' cs'. doall_buckets (delete_visited ok) i (lh, s) = Some (lh', s @ map (data_at lh) (concat (drop i cs))) \<and>
     lh_ok lh' cs' \<and> concat cs' = [] \<and> same_functions lh lh'"
proof (induction "num_buckets lh - i" arbitrary: i lh cs s)
  case 0
  then have i: "i = num_buckets lh" "length cs = i" using lh_okD(1) [of lh cs] by (auto simp: table_def)
  then have "concat cs = []" using 0(6) by (auto simp: in_set_conv_nth)
  then show ?case using 0 i by (auto simp: doall_buckets.simps same_functions_def)
next
  case (Suc k)
  then have i: "i < num_buckets lh" by simp
  have t: "table (heap lh) (buckets lh) (num_buckets lh) cs" by (rule lh_okD(1) [OF Suc.prems(1)])
  then have len: "length cs = num_buckets lh" by (simp add: table_def)
  then have cs: "drop i cs = cs ! i # drop (Suc i) cs" using i by (simp add: Cons_nth_drop_Suc)
  obtain lh1 where d: "doall_loop (delete_visited ok) (buckets lh ! i) (lh, s) = Some (lh1, s @ map (data_at lh) (cs ! i))"
    "lh_ok lh1 (cs[i := []])" "same_functions lh lh1" "num_buckets lh1 = num_buckets lh"
    "\<forall>b. b \<notin> set (cs ! i) \<longrightarrow> heap lh1 b = heap lh b"
    using doall_loop_delete [OF Suc.prems(1-3) i refl, of ok s] by blast
  have "b \<notin> set (cs ! i)" if "b \<in> set (concat (drop (Suc i) cs))" for b
  proof -
    have "distinct (concat (drop i cs))"
      using t append_take_drop_id [of i cs] by (metis concat_append distinct_append table_def)
    then show ?thesis using that unfolding cs by auto
  qed
  then have same: "map (data_at lh1) (concat (drop (Suc i) cs)) = map (data_at lh) (concat (drop (Suc i) cs))"
    using d(5) by (intro map_cong) auto
  have f: "equality (lcomp lh1) (hash lh1)" "0 < callback_depth lh1"
    using d(3) Suc.prems(2,3) by (simp_all add: same_functions_def)
  have "\<exists>lh' cs'. doall_buckets (delete_visited ok) (Suc i) (lh1, s @ map (data_at lh) (cs ! i)) =
      Some (lh', (s @ map (data_at lh) (cs ! i)) @ map (data_at lh1) (concat (drop (Suc i) (cs[i := []])))) \<and>
     lh_ok lh' cs' \<and> concat cs' = [] \<and> same_functions lh1 lh'"
    by (rule Suc.hyps(1) [OF _ d(2) f]) (use Suc.hyps(2) Suc.prems(5) i len d(4) in \<open>auto simp: nth_list_update less_Suc_eq\<close>)
  then obtain lh' cs' where r: "doall_buckets (delete_visited ok) (Suc i) (lh1, s @ map (data_at lh) (cs ! i)) =
      Some (lh', (s @ map (data_at lh) (cs ! i)) @ map (data_at lh1) (concat (drop (Suc i) cs)))"
     "lh_ok lh' cs'" "concat cs' = []" "same_functions lh1 lh'" by auto
  have "doall_buckets (delete_visited ok) i (lh, s) = Some (lh', s @ map (data_at lh) (concat (drop i cs)))"
    using r(1) i by (subst doall_buckets.simps) (simp add: d(1) cs same del: map_concat)
  then show ?case using r(2-4) d(3) by (auto simp: same_functions_def)
qed

section \<open>Reachable tables\<close>

text \<open>
  The tables that calls lead to. \<open>always\<close> says that memory for resizing was there whenever it was asked for;
  insertions may fail for want of an item.
\<close>

inductive lhash_reachable :: "bool \<Rightarrow> ('d \<Rightarrow> u32) \<Rightarrow> ('d \<Rightarrow> 'd \<Rightarrow> int) \<Rightarrow> 'd lhash \<Rightarrow> bool"
  for always h c where
  new: "lh_new True True h c = Some lh \<Longrightarrow> lhash_reachable always h c lh"
| insert: "lhash_reachable always h c lh \<Longrightarrow> case addr of None \<Rightarrow> True | Some a \<Rightarrow> heap lh a = None \<and> a < address_limit \<Longrightarrow>
    always \<longrightarrow> ok \<Longrightarrow> lh_insert ok addr d lh = Some (b, old, lh') \<Longrightarrow> lhash_reachable always h c lh'"
| delete: "lhash_reachable always h c lh \<Longrightarrow> always \<longrightarrow> ok \<Longrightarrow> lh_delete ok d lh = Some (r, lh') \<Longrightarrow>
    lhash_reachable always h c lh'"

section \<open>Tables of strings\<close>

text \<open>
  \<open>strcmp\<close> of the C library, which \<open>conf.c\<close> and \<open>obj.c\<close> give to their tables of strings together with
  \<open>lh_strhash\<close>: a string ends at its first NUL.
\<close>

fun strcmp :: "byte list \<Rightarrow> byte list \<Rightarrow> int" where
  "strcmp (a # as) (b # bs) = (if a \<noteq> b then uint a - uint b else if a = 0 then 0 else strcmp as bs)"
| "strcmp [] (b # bs) = - uint b"
| "strcmp (a # as) [] = uint a"
| "strcmp [] [] = 0"

lemma strcmp_zero: "strcmp a b = 0 \<longleftrightarrow> takeWhile (\<lambda>x. x \<noteq> 0) a = takeWhile (\<lambda>x. x \<noteq> 0) b"
  by (induction a b rule: strcmp.induct) (auto simp: uint_0_iff dest: word_uint_eqI)

text \<open>The table of strings, as a table of pointers to strings, all of them present.\<close>

abbreviation string_hash :: "byte list \<Rightarrow> u32" where
  "string_hash s \<equiv> lh_strhash (Some s)"

lemma string_table: "equality strcmp string_hash"
  unfolding equality_def strcmp_zero by (simp add: lh_strhash_def)

lemma distinct_one: "distinct xs \<Longrightarrow> set xs = {x} \<Longrightarrow> xs = [x]"
  by (cases xs; cases "tl xs") auto

text \<open>A table with one string, for the examples below.\<close>

lemma one_string:
  obtains lh0 lh where "lh_new True True string_hash strcmp = Some lh0" "lhash_ok lh0"
    "inserts [97] None lh0 lh" "lhash_with string_hash strcmp lh" "lhash_reachable True string_hash strcmp lh" "stored lh = {[97]}"
proof -
  obtain lh0 where new: "lh_new True True string_hash strcmp = Some lh0" by (simp add: lh_new_def)
  note n = lh_new_ok [OF string_table new]
  have free: "case Some 0 of None \<Rightarrow> True | Some a \<Rightarrow> heap lh0 a = None \<and> a < address_limit"
    using new by (auto simp: lh_new_def address_limit_def)
  obtain lh where r: "lh_insert True (Some 0) [97] lh0 = Some (True, None, lh)" "lhash_ok lh" "stored lh = {[97]}"
    using lh_insert_step [OF lhash_withD(1) [OF n(1)] free, of True "[97]"] n(2)
    by (auto simp: found_def split: option.splits)
  have "inserts [97] None lh0 lh" using free r(1) by (auto simp: inserts_def)
  moreover from this have "lhash_with string_hash strcmp lh" by (rule insertsE [OF _ n(1)])
  moreover have "lhash_reachable True string_hash strcmp lh"
    by (rule lhash_reachable.insert [OF lhash_reachable.new [OF new] free _ r(1)]) simp
  ultimately show thesis using that new r(3) lhash_withD(1) [OF n(1)] by blast
qed

section \<open>Properties\<close>

text \<open>C8:
  After any history of successful insertions and of deletions, starting with a new table, a lookup finds an
  object exactly if the last call about an equal object was an insertion, and then the object of that
  call; and every call returned the object that a lookup would have found before it. This holds whatever
  the addresses of the items are, and whichever of the attempts to resize the table got no memory.
\<close>

theorem lhash_history:
  assumes "equality c h" "lh_new True True h c = Some lh0" "history inserts deletes lh0 cs rs lh"
  shows "lh_retrieve lh e = Some (history_lookup (\<lambda>x y. c x y = 0) cs e) \<and> rs = history_results (\<lambda>x y. c x y = 0) cs"
proof -
  note new = lh_new_ok [OF assms(1,2)]
  have "lhash_with h c lh \<and> retrieved lh = history_lookup (\<lambda>x y. c x y = 0) cs \<and> rs = history_results (\<lambda>x y. c x y = 0) cs"
    by (rule lht.history_refines [OF assms(3) new(1,5)])
  then show ?thesis using retrieved_found(1) [OF lhash_withD(1), of h c lh e] by simp
qed

theorem lhash_history_witness:
  "\<exists>lh0 lh. lh_new True True string_hash strcmp = Some lh0 \<and> history inserts deletes lh0 [Put [97]] [None] lh \<and>
    lh_retrieve lh [97, 0, 5] = Some (Some [97]) \<and> lh_retrieve lh [98] = Some None"
proof (rule one_string)
  fix lh0 lh
  assume new: "lh_new True True string_hash strcmp = Some lh0" and ins: "inserts [97] None lh0 lh"
  have h: "history inserts deletes lh0 [Put [97]] [None] lh" 
    by (rule history.put [of inserts deletes, OF history.start ins])
  have "lh_retrieve lh [97, 0, 5] = Some (Some [97])" "lh_retrieve lh [98] = Some None"
    using lhash_history [OF string_table new h] by simp_all
  with new h show ?thesis by blast
qed

text \<open>
  What an insertion does, on every branch: it returns the equal object that was stored, if there was one,
  and then needs no memory; otherwise it fails exactly if the item cannot be allocated. Afterwards the
  table is well formed, and a lookup finds the new object for everything equal to it, and what it found
  before for everything else; if the insertion failed nothing has changed.
\<close>

theorem lh_insert_correct:
  assumes "lhash_ok lh" "case addr of None \<Rightarrow> True | Some a \<Rightarrow> heap lh a = None \<and> a < address_limit"
  shows "\<exists>old lh'. lh_retrieve lh d = Some old \<and>
    lh_insert ok addr d lh = Some (old \<noteq> None \<or> addr \<noteq> None, old, lh') \<and> lhash_ok lh' \<and>
    (\<forall>e. lh_retrieve lh' e =
       (if (old \<noteq> None \<or> addr \<noteq> None) \<and> lcomp lh d e = 0 then Some (Some d) else lh_retrieve lh e))"
proof -
  from lh_insert_map [OF assms, of ok d] obtain lh' where
    r: "lh_insert ok addr d lh = Some (retrieved lh d \<noteq> None \<or> addr \<noteq> None, retrieved lh d, lh')" "lhash_ok lh'"
    "\<forall>e. retrieved lh' e =
       (if (retrieved lh d \<noteq> None \<or> addr \<noteq> None) \<and> lcomp lh d e = 0 then Some d else retrieved lh e)" by blast
  show ?thesis
    unfolding retrieved_found(1) [OF assms(1)]
    by (rule exI [of _ "retrieved lh d"], rule exI [of _ lh'])
      (use r in \<open>simp add: retrieved_found(1) [OF r(2)]\<close>)
qed

theorem lh_insert_correct_witness:
  "\<exists>lh0 lh. lh_new True True string_hash strcmp = Some lh0 \<and>
    lh_insert True (Some 5) [97] lh0 = Some (True, None, lh) \<and> lh_retrieve lh [97, 0, 5] = Some (Some [97])"
proof (rule one_string)
  fix lh0 assume new: "lh_new True True string_hash strcmp = Some lh0" and ok: "lhash_ok lh0"
  have free: "case Some 5 of None \<Rightarrow> True | Some a \<Rightarrow> heap lh0 a = None \<and> a < address_limit" and c: "lcomp lh0 = strcmp"
    using new by (auto simp: lh_new_def address_limit_def)
  have "lh_retrieve lh0 [97] = Some None"
    using retrieved_found(1) [OF ok] lh_new_ok(5) [OF string_table new] by simp
  with lh_insert_correct [OF ok free, of "[97]" True] new c show ?thesis by auto
qed

text \<open>
  What a deletion does: it returns the object equal to the given one, if there is one, and afterwards
  nothing equal to it is found, while everything else is found as before. The table stays well formed.
\<close>

theorem lh_delete_correct:
  assumes "lhash_ok lh"
  shows "\<exists>r lh'. lh_retrieve lh d = Some r \<and> lh_delete ok d lh = Some (r, lh') \<and> lhash_ok lh' \<and>
    (\<forall>e. lh_retrieve lh' e = (if lcomp lh d e = 0 then Some None else lh_retrieve lh e))"
proof -
  from lh_delete_map [OF assms, of ok d] obtain lh' where
    r: "lh_delete ok d lh = Some (retrieved lh d, lh')" "lhash_ok lh'"
    "\<forall>e. retrieved lh' e = (if lcomp lh d e = 0 then None else retrieved lh e)" by blast
  show ?thesis
    unfolding retrieved_found(1) [OF assms]
    by (rule exI [of _ "retrieved lh d"], rule exI [of _ lh'])
      (use r in \<open>simp add: retrieved_found(1) [OF r(2)]\<close>)
qed

theorem lh_delete_correct_witness:
  "\<exists>lh lh'. stored lh = {[97 :: byte]} \<and> lh_delete True [97, 0] lh = Some (Some [97], lh') \<and> lh_retrieve lh' [97] = Some None"
proof (rule one_string)
  fix lh0 lh assume w: "lhash_with string_hash strcmp lh" and s: "stored lh = {[97]}"
  have ok: "lhash_ok lh" "lcomp lh = strcmp" by (rule lhash_withD [OF w])+
  have "lh_retrieve lh [97, 0] = Some (Some [97])"
    using retrieved_found [OF ok(1), of "[97, 0]"] ok(2) s by (auto simp: found_def split: option.splits)
  with lh_delete_correct [OF ok(1), of "[97, 0]" True] ok(2) s show ?thesis by auto
qed

text \<open>C17:
  In every table that calls lead to, the chains of the buckets are disjoint lists on the heap that hold
  each item once, in the bucket of its hash, and \<open>lh_num_items\<close> counts the stored objects. If memory for resizing was
  always there, a chain has on average at most two items, rounded down, so the table never lags behind.
\<close>

theorem lhash_invariant:
  assumes "equality c h" "lhash_reachable always h c lh"
  shows "(\<exists>cs. lh_ok lh cs) \<and> lh_num_items lh = card (stored lh) \<and> (always \<longrightarrow> num_items lh div num_buckets lh \<le> kMaxAverageChainLength)"
proof -
  have "lhash_with h c lh \<and> callback_depth lh = 0 \<and> (always \<longrightarrow> loaded lh)"
    using assms(2)
  proof induction
    case (new lh)
    then show ?case using lh_new_ok [OF assms(1)] by blast
  next
    case (insert lh addr ok d b old lh')
    then have w: "lhash_with h c lh" by blast
    from lh_insert_map [OF lhash_withD(1) [OF w] insert.hyps(2), of ok d] obtain lh2 where
      r: "lh_insert ok addr d lh = Some (retrieved lh d \<noteq> None \<or> addr \<noteq> None, retrieved lh d, lh2)" "lhash_ok lh2"
        "same_functions lh lh2" "ok \<and> callback_depth lh = 0 \<and> loaded lh \<longrightarrow> loaded lh2" by blast
    have "lh2 = lh'" using r(1) insert.hyps(4) by simp
    with r(4) insert.hyps(3) insert.IH lhash_withD(4) [OF w r(3,2)] r(3) show ?case by (simp add: same_functions_def)
  next
    case (delete lh ok d r lh')
    then have w: "lhash_with h c lh" by blast
    from lh_delete_map [OF lhash_withD(1) [OF w], of ok d] obtain lh2 where
      r: "lh_delete ok d lh = Some (retrieved lh d, lh2)" "lhash_ok lh2"
        "same_functions lh lh2" "ok \<and> callback_depth lh = 0 \<and> loaded lh \<longrightarrow> loaded lh2" by blast
    have "lh2 = lh'" using r(1) delete.hyps(3) by simp
    with r(4) delete.hyps(2) delete.IH lhash_withD(4) [OF w r(3,2)] r(3) show ?case by (simp add: same_functions_def)
  qed
  then have w: "lhash_with h c lh" and l: "always \<longrightarrow> loaded lh" by blast+
  then obtain cs where cs: "lh_ok lh cs" by (auto simp: lhash_with_def lhash_ok_def)
  have "equality (lcomp lh) (hash lh)" using w unfolding lhash_with_def lhash_ok_def by blast
  note l' = stored_list [OF cs this]
  have "lh_num_items lh = card (stored lh)"
    using distinct_card [OF l'(1)] cs unfolding l'(2) lh_num_items_def lh_ok_def by (simp only: length_map)
  with cs l show ?thesis by (auto simp: loaded_def)
qed

theorem lhash_invariant_witness:
  "\<exists>lh. lhash_reachable True string_hash strcmp lh \<and> stored lh = {[97]} \<and> num_items lh div num_buckets lh \<le> 2"
proof (rule one_string)
  fix lh assume "lhash_reachable True string_hash strcmp lh" "stored lh = {[97]}"
  with lhash_invariant [OF string_table this(1)] show ?thesis unfolding kMaxAverageChainLength_def by blast
qed

text \<open>
  Freeing a table frees each of its items exactly once, and never reads an item after it was freed: the
  successor is read before.
\<close>

theorem lh_free_once:
  assumes "lhash_ok lh"
  shows "\<exists>as. lh_free (Some lh) = Some as \<and> distinct as \<and> set as = dom (heap lh)"
  by (rule free_all [OF assms])

theorem lh_free_once_witness:
  "\<exists>lh as. stored lh = {[97 :: byte]} \<and> lh_free (Some lh) = Some as \<and> set as = dom (heap lh) \<and> distinct as"
proof (rule one_string)
  fix lh assume w: "lhash_with string_hash strcmp lh" and s: "stored lh = {[97]}"
  from lh_free_once [OF lhash_withD(1) [OF w]] s show ?thesis by blast
qed

text \<open>
  Going through a table calls the callback with every stored object exactly once. If the callback leaves
  the table alone, the same objects are stored afterwards.
\<close>

theorem lh_doall_visits_all:
  assumes "lhash_ok lh"
  shows "\<exists>ds lh'. distinct ds \<and> set ds = stored lh \<and>
    lh_doall_arg ok (visit f) (Some lh, s) = Some (Some lh', fold f ds s) \<and> lhash_ok lh' \<and> stored lh' = stored lh"
proof -
  obtain cs where cs: "lh_ok lh cs" and eq: "equality (lcomp lh) (hash lh)" using assms by (auto simp: lhash_ok_def)
  let ?lh1 = "if callback_depth lh < UINT_MAX then lh\<lparr>callback_depth := callback_depth lh + 1\<rparr> else lh"
  let ?lh3 = "if callback_depth ?lh1 < UINT_MAX then ?lh1\<lparr>callback_depth := callback_depth ?lh1 - 1\<rparr> else ?lh1"
  have 1: "lh_ok ?lh1 cs" "lhash_ok ?lh1" "stored ?lh1 = stored lh" "map (data_at ?lh1) (concat cs) = map (data_at lh) (concat cs)"
    using cs assms by simp_all
  have "doall_buckets (visit f) 0 (?lh1, s) = Some (?lh1, fold f (map (data_at ?lh1) (concat (drop 0 cs))) s)"
    by (rule doall_buckets_visit [OF lh_okD(1) [OF 1(1)]]) simp
  then have visited: "doall_buckets (visit f) 0 (?lh1, s) = Some (?lh1, fold f (map (data_at lh) (concat cs)) s)"
    using 1(4) by (simp only: drop_0)
  have 3: "lhash_ok ?lh3" "stored ?lh3 = stored lh" using assms by simp_all
  from lh_maybe_resize_ok [OF 3(1), of ok] obtain lh' where r: "lh_maybe_resize ok ?lh3 = Some lh'" "lhash_ok lh'" "stored lh' = stored ?lh3"
    by blast
  have "lh_doall_arg ok (visit f) (Some lh, s) = Some (Some lh', fold f (map (data_at lh) (concat cs)) s)"
    using visited r(1) by (simp add: lh_doall_arg_def Let_def del: map_concat)
  then show ?thesis
    using stored_list [OF cs eq] r(2) trans [OF r(3) 3(2)]
    by (intro exI [of _ "map (data_at lh) (concat cs)"] exI [of _ lh'] conjI) assumption+
qed

theorem lh_doall_visits_all_witness:
  "\<exists>lh lh'. stored lh = {[97 :: byte]} \<and> lh_doall_arg True (visit (#)) (Some lh, []) = Some (Some lh', [[97]])"
proof (rule one_string)
  fix lh assume w: "lhash_with string_hash strcmp lh" and s: "stored lh = {[97]}"
  obtain ds lh' where ds: "distinct ds" "set ds = {[97]}"
    "lh_doall_arg True (visit (#)) (Some lh, []) = Some (Some lh', fold (#) ds [])"
    using lh_doall_visits_all [OF lhash_withD(1) [OF w], of True "(#)" "[]"] s by auto
  from distinct_one [OF ds(1,2)] ds(3) s show ?thesis by auto
qed

text \<open>C40:
  The callback may delete the object it was called with: then every object is visited and deleted once, no
  freed item is read, the table does not change its buckets on the way, and it is empty afterwards.
\<close>

theorem lh_doall_delete_empties:
  assumes "lhash_ok lh"
  shows "\<exists>ds lh'. distinct ds \<and> set ds = stored lh \<and>
    lh_doall_arg ok (delete_visited ok') (Some lh, []) = Some (Some lh', ds) \<and> lhash_ok lh' \<and> stored lh' = {}"
proof -
  obtain cs where cs: "lh_ok lh cs" and eq: "equality (lcomp lh) (hash lh)" using assms by (auto simp: lhash_ok_def)
  let ?lh1 = "if callback_depth lh < UINT_MAX then lh\<lparr>callback_depth := callback_depth lh + 1\<rparr> else lh"
  have 1: "lh_ok ?lh1 cs" "equality (lcomp ?lh1) (hash ?lh1)" "0 < callback_depth ?lh1"
    "map (data_at ?lh1) (concat cs) = map (data_at lh) (concat cs)"
    using cs eq by (simp_all add: UINT_MAX_def)
  from doall_buckets_delete [OF 1(1-3), of 0 ok' "[]"] obtain lh2 cs2 where
    b: "doall_buckets (delete_visited ok') 0 (?lh1, []) = Some (lh2, map (data_at lh) (concat cs))"
    "lh_ok lh2 cs2" "concat cs2 = []" "same_functions ?lh1 lh2"
    using 1(4) by (simp del: map_concat) blast
  let ?lh3 = "if callback_depth lh2 < UINT_MAX then lh2\<lparr>callback_depth := callback_depth lh2 - 1\<rparr> else lh2"
  have "stored lh2 = {}" using lh_okD(2) [OF b(2)] b(3) by (auto simp: stored_def)
  moreover have "lhash_ok lh2" using b(2,4) 1(2) unfolding lhash_ok_def same_functions_def by metis
  ultimately have 3: "lhash_ok ?lh3" "stored ?lh3 = {}" by simp_all
  from lh_maybe_resize_ok [OF 3(1), of ok] obtain lh' where r: "lh_maybe_resize ok ?lh3 = Some lh'" "lhash_ok lh'" "stored lh' = stored ?lh3"
    by blast
  have "lh_doall_arg ok (delete_visited ok') (Some lh, []) = Some (Some lh', map (data_at lh) (concat cs))"
    using b(1) r(1) by (simp add: lh_doall_arg_def Let_def del: map_concat)
  then show ?thesis
    using stored_list [OF cs eq] r(2) trans [OF r(3) 3(2)]
    by (intro exI [of _ "map (data_at lh) (concat cs)"] exI [of _ lh'] conjI) assumption+
qed

theorem lh_doall_delete_empties_witness:
  "\<exists>lh lh'. stored lh = {[97 :: byte]} \<and>
    lh_doall_arg True (delete_visited True) (Some lh, []) = Some (Some lh', [[97]]) \<and> stored lh' = {}"
proof (rule one_string)
  fix lh assume w: "lhash_with string_hash strcmp lh" and s: "stored lh = {[97]}"
  obtain ds lh' where ds: "distinct ds" "set ds = {[97]}"
    "lh_doall_arg True (delete_visited True) (Some lh, []) = Some (Some lh', ds)" "stored lh' = {}"
    using lh_doall_delete_empties [OF lhash_withD(1) [OF w], of True True] s by auto
  from distinct_one [OF ds(1,2)] ds(3,4) s show ?thesis by auto
qed

end
