(* ===== verification/Pool.thy ===== *)
theory Pool
  imports LHashProps Bio
begin

text \<open>
  Reference-counted byte buffers and the pools that share them (\<open>crypto/pool/pool.c\<close>). A pool is a hash table
  of buffers that threads use at the same time: \<open>CRYPTO_BUFFER_new\<close> looks for a buffer under a read lock, makes
  one of its own without a lock, and puts it into the table under a write lock. The sections under a lock
  are the steps of the model, so that every interleaving of threads is a sequence of steps.
\<close>

section \<open>Data\<close>

text \<open>
  Memory is a store of buffers. \<open>in_pool\<close> says whether the pointer to the pool is set; there is one pool.
  The objects of the hash table are pointers to buffers, each with the bytes it leads to: the bytes of a
  buffer never change once it has been handed out, and the table looks at nothing else.
\<close>

record crypto_buffer =
  in_pool :: bool
  bdata :: "byte list"
  brefs :: u32

type_synonym buffer_ptr = "nat \<times> byte list"

record buffer_pool =
  bufs :: "buffer_ptr lhash"
  store :: "nat \<Rightarrow> crypto_buffer option"

abbreviation the_buffer :: "buffer_pool \<Rightarrow> nat \<Rightarrow> crypto_buffer" where
  "the_buffer P a \<equiv> the (store P a)"

definition upd_buffer :: "nat \<Rightarrow> (crypto_buffer \<Rightarrow> crypto_buffer) \<Rightarrow> buffer_pool \<Rightarrow> buffer_pool" where
  "upd_buffer a f P = P\<lparr>store := (store P)(a \<mapsto> f (the_buffer P a))\<rparr>"

section \<open>The code\<close>

definition CRYPTO_BUFFER_hash :: "buffer_ptr \<Rightarrow> u32" where
  "CRYPTO_BUFFER_hash buf = OPENSSL_hash32 (snd buf)"

definition CRYPTO_BUFFER_cmp :: "buffer_ptr \<Rightarrow> buffer_ptr \<Rightarrow> int" where
  "CRYPTO_BUFFER_cmp a b = (if length (snd a) \<noteq> length (snd b) then 1 else memcmp (snd a) (snd b))"

definition CRYPTO_BUFFER_POOL_new ::
    "bool \<Rightarrow> bool \<Rightarrow> bool \<Rightarrow> (nat \<Rightarrow> crypto_buffer option) \<Rightarrow> buffer_pool option" where
  "CRYPTO_BUFFER_POOL_new ok ok1 ok2 st =
     (if \<not> ok then None
      else map_option (\<lambda>lh. \<lparr>bufs = lh, store = st\<rparr>) (lh_new ok1 ok2 CRYPTO_BUFFER_hash CRYPTO_BUFFER_cmp))"

text \<open>The addresses of the items freed; \<open>None\<close> also when the assertion fails.\<close>

definition CRYPTO_BUFFER_POOL_free :: "buffer_pool option \<Rightarrow> nat list option" where
  "CRYPTO_BUFFER_POOL_free pool =
     (case pool of
        None \<Rightarrow> Some []
      | Some P \<Rightarrow> if lh_num_items (bufs P) \<noteq> 0 then None else lh_free (Some (bufs P)))"

definition CRYPTO_BUFFER_up_ref :: "nat \<Rightarrow> buffer_pool \<Rightarrow> buffer_pool" where
  "CRYPTO_BUFFER_up_ref a = upd_buffer a (\<lambda>b. b\<lparr>brefs := CRYPTO_refcount_inc (brefs b)\<rparr>)"

text \<open>
  The three parts of \<open>CRYPTO_BUFFER_new\<close>. The first, under the read lock, looks for a buffer with the bytes, by
  means of a temporary whose address does not matter.
\<close>

definition new_lookup :: "byte list \<Rightarrow> buffer_pool \<Rightarrow> (nat option \<times> buffer_pool) option" where
  "new_lookup d P =
     Option.bind (lh_retrieve (bufs P) (0, d)) (\<lambda>duplicate.
       case duplicate of
         None \<Rightarrow> Some (None, P)
       | Some (a, _) \<Rightarrow> Some (Some a, CRYPTO_BUFFER_up_ref a P))"

text \<open>The second allocates: \<open>a\<close> is the address of the structure, \<open>dup\<close> says whether there is memory for the bytes.\<close>

definition new_alloc :: "nat option \<Rightarrow> bool \<Rightarrow> bool \<Rightarrow> byte list \<Rightarrow> buffer_pool \<Rightarrow> nat option \<times> buffer_pool" where
  "new_alloc addr dup pooled d P =
     (case addr of
        None \<Rightarrow> (None, P)
      | Some a \<Rightarrow>
          if length d \<noteq> 0 \<and> \<not> dup then (None, P)
          else (Some a, P\<lparr>store := (store P)(a \<mapsto> \<lparr>in_pool = pooled, bdata = d, brefs = 1\<rparr>)\<rparr>))"

text \<open>
  The third, under the write lock, looks again and inserts; afterwards it frees its own buffer if that did
  not go into the table. \<open>None\<close> is a failed assertion.
\<close>

definition new_insert :: "bool \<Rightarrow> nat option \<Rightarrow> nat \<Rightarrow> buffer_pool \<Rightarrow> (nat option \<times> buffer_pool) option" where
  "new_insert ok slot a P =
     (let buf = (a, bdata (the_buffer P a)) in
      Option.bind (lh_retrieve (bufs P) buf) (\<lambda>duplicate.
        case duplicate of
          None \<Rightarrow>
            Option.bind (lh_insert ok slot buf (bufs P)) (\<lambda>(inserted, old, lh).
              if old \<noteq> None then None
              else
                let P1 = P\<lparr>bufs := lh\<rparr> in
                if \<not> inserted then Some (None, P1\<lparr>store := (store P1)(a := None)\<rparr>) else Some (Some a, P1))
        | Some (b, _) \<Rightarrow>
            let P1 = CRYPTO_BUFFER_up_ref b P
            in Some (Some b, P1\<lparr>store := (store P1)(a := None)\<rparr>)))"

text \<open>All of \<open>CRYPTO_BUFFER_new\<close>, when no other thread comes between.\<close>

definition CRYPTO_BUFFER_new ::
    "nat option \<Rightarrow> bool \<Rightarrow> bool \<Rightarrow> nat option \<Rightarrow> byte list \<Rightarrow> bool \<Rightarrow> buffer_pool \<Rightarrow> (nat option \<times> buffer_pool) option" where
  "CRYPTO_BUFFER_new addr dup ok slot d pooled P =
     Option.bind (if pooled then new_lookup d P else Some (None, P)) (\<lambda>(duplicate, P1).
       if duplicate \<noteq> None then Some (duplicate, P1)
       else
         case new_alloc addr dup pooled d P1 of
           (None, P2) \<Rightarrow> Some (None, P2)
         | (Some a, P2) \<Rightarrow> if \<not> pooled then Some (Some a, P2) else new_insert ok slot a P2)"

text \<open>
  \<open>CRYPTO_BUFFER_alloc\<close>; the caller writes all the bytes before it gives the buffer to any other function,
  so they are an argument here.
\<close>

definition CRYPTO_BUFFER_alloc :: "nat option \<Rightarrow> bool \<Rightarrow> byte list \<Rightarrow> buffer_pool \<Rightarrow> nat option \<times> buffer_pool" where
  "CRYPTO_BUFFER_alloc addr dup d P = new_alloc addr dup False d P"

definition CRYPTO_BUFFER_new_from_CBS ::
    "nat option \<Rightarrow> bool \<Rightarrow> bool \<Rightarrow> nat option \<Rightarrow> byte list \<Rightarrow> bool \<Rightarrow> buffer_pool \<Rightarrow> (nat option \<times> buffer_pool) option" where
  "CRYPTO_BUFFER_new_from_CBS addr dup ok slot cbs pooled P = CRYPTO_BUFFER_new addr dup ok slot cbs pooled P"

text \<open>\<open>CRYPTO_BUFFER_free\<close>: \<open>None\<close> is a failed assertion, or the abort on a count of zero.\<close>

definition CRYPTO_BUFFER_free :: "bool \<Rightarrow> nat option \<Rightarrow> buffer_pool \<Rightarrow> buffer_pool option" where
  "CRYPTO_BUFFER_free ok buf P =
     (case buf of
        None \<Rightarrow> Some P
      | Some a \<Rightarrow>
          Option.bind (CRYPTO_refcount_dec_and_test_zero (brefs (the_buffer P a))) (\<lambda>(zero, count).
            let P1 = upd_buffer a (\<lambda>b. b\<lparr>brefs := count\<rparr>) P in
            if \<not> zero then Some P1
            else if \<not> in_pool (the_buffer P a) then Some (P1\<lparr>store := (store P1)(a := None)\<rparr>)
            else
              Option.bind (lh_delete ok (a, bdata (the_buffer P1 a)) (bufs P1)) (\<lambda>(result, lh).
                case result of
                  None \<Rightarrow> None
                | Some (b, _) \<Rightarrow>
                    if b \<noteq> a then None else Some (P1\<lparr>bufs := lh, store := (store P1)(a := None)\<rparr>))))"

definition CRYPTO_BUFFER_data :: "nat \<Rightarrow> buffer_pool \<Rightarrow> byte list" where
  "CRYPTO_BUFFER_data a P = bdata (the_buffer P a)"

definition CRYPTO_BUFFER_len :: "nat \<Rightarrow> buffer_pool \<Rightarrow> nat" where
  "CRYPTO_BUFFER_len a P = length (bdata (the_buffer P a))"

definition CRYPTO_BUFFER_init_CBS :: "nat \<Rightarrow> buffer_pool \<Rightarrow> byte list" where
  "CRYPTO_BUFFER_init_CBS a P = CRYPTO_BUFFER_data a P"

section \<open>Threads\<close>

text \<open>
  The references that callers hold, and the threads that are inside \<open>CRYPTO_BUFFER_new\<close>, between the two
  locks, each with its own buffer. A caller only raises or drops references that it holds. Addresses that
  the allocator gives are not in use.
\<close>

record session =
  mem_pool :: buffer_pool
  holders :: "nat multiset"
  waiting :: "nat \<Rightarrow> nat option"

definition free_item :: "nat option \<Rightarrow> buffer_pool \<Rightarrow> bool" where
  "free_item addr P \<longleftrightarrow> (case addr of None \<Rightarrow> True | Some a \<Rightarrow> heap (bufs P) a = None \<and> a < address_limit)"

text \<open>A finished call: \<open>None\<close> is NULL, \<open>Some a\<close> a reference for the caller.\<close>

definition returns :: "nat option \<Rightarrow> buffer_pool \<Rightarrow> session \<Rightarrow> session" where
  "returns r P S = S\<lparr>mem_pool := P, holders := holders S + (case r of None \<Rightarrow> {#} | Some a \<Rightarrow> {#a#})\<rparr>"

inductive pool_step :: "session \<Rightarrow> session \<Rightarrow> bool" where
  lookup_hit:
    "new_lookup d (mem_pool S) = Some (Some a, P) \<Longrightarrow> pool_step S (returns (Some a) P S)"
| lookup_miss:
    "new_lookup d (mem_pool S) = Some (None, P) \<Longrightarrow> (case addr of None \<Rightarrow> True | Some a \<Rightarrow> store P a = None) \<Longrightarrow>
     waiting S t = None \<Longrightarrow> new_alloc addr dup True d P = (r, P') \<Longrightarrow>
     pool_step S (S\<lparr>mem_pool := P', waiting := (waiting S)(t := r)\<rparr>)"
| insert:
    "waiting S t = Some a \<Longrightarrow> free_item slot (mem_pool S) \<Longrightarrow> new_insert ok slot a (mem_pool S) = Some (r, P) \<Longrightarrow>
     pool_step S ((returns r P S)\<lparr>waiting := (waiting S)(t := None)\<rparr>)"
| alloc:
    "(case addr of None \<Rightarrow> True | Some a \<Rightarrow> store (mem_pool S) a = None) \<Longrightarrow>
     CRYPTO_BUFFER_alloc addr dup d (mem_pool S) = (r, P) \<Longrightarrow> pool_step S (returns r P S)"
| up_ref:
    "a \<in># holders S \<Longrightarrow> pool_step S (returns (Some a) (CRYPTO_BUFFER_up_ref a (mem_pool S)) S)"
| free:
    "a \<in># holders S \<Longrightarrow> CRYPTO_BUFFER_free ok (Some a) (mem_pool S) = Some P \<Longrightarrow>
     pool_step S (S\<lparr>mem_pool := P, holders := holders S - {#a#}\<rparr>)"

inductive pool_reachable :: "session \<Rightarrow> bool" where
  start: "CRYPTO_BUFFER_POOL_new True True True Map.empty = Some P \<Longrightarrow>
    pool_reachable \<lparr>mem_pool = P, holders = {#}, waiting = Map.empty\<rparr>"
| step: "pool_reachable S \<Longrightarrow> pool_step S S' \<Longrightarrow> pool_reachable S'"

section \<open>The invariant\<close>

abbreviation owned :: "session \<Rightarrow> nat set" where
  "owned S \<equiv> ran (waiting S)"

definition counted :: "crypto_buffer \<Rightarrow> nat \<Rightarrow> bool" where
  "counted b n \<longleftrightarrow> brefs b \<noteq> 0 \<and> (brefs b < CRYPTO_REFCOUNT_MAX \<longrightarrow> unat (brefs b) = n)"

text \<open>
  The table holds exactly the buffers of the pool that are not yet owned by one thread alone; counts are
  right, unless they have reached the maximum, where they stay; what a caller holds is there.
\<close>

definition pool_inv :: "session \<Rightarrow> bool" where
  "pool_inv S \<longleftrightarrow> (let P = mem_pool S in
     lhash_with CRYPTO_BUFFER_hash CRYPTO_BUFFER_cmp (bufs P) \<and>
     stored (bufs P) = {(a, bdata b) | a b. store P a = Some b \<and> in_pool b \<and> a \<notin> owned S} \<and>
     (\<forall>t u a. waiting S t = Some a \<longrightarrow> waiting S u = Some a \<longrightarrow> t = u) \<and>
     (\<forall>a \<in> owned S. a \<notin># holders S \<and> (\<exists>b. store P a = Some b \<and> in_pool b)) \<and>
     (\<forall>a. a \<in># holders S \<longrightarrow> store P a \<noteq> None) \<and>
     (\<forall>a b. store P a = Some b \<longrightarrow> counted b (if a \<in> owned S then 1 else count (holders S) a)))"

lemma cmp_zero: "CRYPTO_BUFFER_cmp a b = 0 \<longleftrightarrow> snd a = snd b"
  by (auto simp: CRYPTO_BUFFER_cmp_def memcmp_zero)

lemma buffer_equality: "equality CRYPTO_BUFFER_cmp CRYPTO_BUFFER_hash"
  unfolding equality_def cmp_zero by (simp add: CRYPTO_BUFFER_hash_def)

lemma pool_invD:
  assumes "pool_inv S"
  shows "lhash_with CRYPTO_BUFFER_hash CRYPTO_BUFFER_cmp (bufs (mem_pool S))" "lhash_ok (bufs (mem_pool S))"
    "lcomp (bufs (mem_pool S)) = CRYPTO_BUFFER_cmp"
    "(a, d) \<in> stored (bufs (mem_pool S)) \<longleftrightarrow> (\<exists>b. store (mem_pool S) a = Some b \<and> in_pool b \<and> bdata b = d \<and> a \<notin> owned S)"
    "waiting S t = Some a \<Longrightarrow> waiting S u = Some a \<Longrightarrow> t = u"
    "a \<in> owned S \<Longrightarrow> a \<notin># holders S" "a \<in> owned S \<Longrightarrow> \<exists>b. store (mem_pool S) a = Some b \<and> in_pool b"
    "a \<in># holders S \<Longrightarrow> \<exists>b. store (mem_pool S) a = Some b"
    "store (mem_pool S) a = Some b \<Longrightarrow> a \<in> owned S \<Longrightarrow> counted b 1"
    "store (mem_pool S) a = Some b \<Longrightarrow> a \<notin> owned S \<Longrightarrow> counted b (count (holders S) a)"
proof -
  note inv = assms [unfolded pool_inv_def Let_def]
  show w: "lhash_with CRYPTO_BUFFER_hash CRYPTO_BUFFER_cmp (bufs (mem_pool S))" using inv by blast
  show "lhash_ok (bufs (mem_pool S))" "lcomp (bufs (mem_pool S)) = CRYPTO_BUFFER_cmp" by (rule lhash_withD [OF w])+
  show "(a, d) \<in> stored (bufs (mem_pool S)) \<longleftrightarrow> (\<exists>b. store (mem_pool S) a = Some b \<and> in_pool b \<and> bdata b = d \<and> a \<notin> owned S)"
    using inv by auto
  show "waiting S t = Some a \<Longrightarrow> waiting S u = Some a \<Longrightarrow> t = u" using inv by blast
  show "a \<in> owned S \<Longrightarrow> a \<notin># holders S" "a \<in> owned S \<Longrightarrow> \<exists>b. store (mem_pool S) a = Some b \<and> in_pool b" using inv by blast+
  show "a \<in># holders S \<Longrightarrow> \<exists>b. store (mem_pool S) a = Some b" using inv by blast
  have c: "\<forall>a b. store (mem_pool S) a = Some b \<longrightarrow> counted b (if a \<in> owned S then 1 else count (holders S) a)" using inv by blast
  show "store (mem_pool S) a = Some b \<Longrightarrow> a \<in> owned S \<Longrightarrow> counted b 1"
    "store (mem_pool S) a = Some b \<Longrightarrow> a \<notin> owned S \<Longrightarrow> counted b (count (holders S) a)"
    using c by presburger+
qed

lemma pool_invI:
  assumes "lhash_with CRYPTO_BUFFER_hash CRYPTO_BUFFER_cmp (bufs (mem_pool S))"
    "\<And>a d. (a, d) \<in> stored (bufs (mem_pool S)) \<longleftrightarrow> (\<exists>b. store (mem_pool S) a = Some b \<and> in_pool b \<and> bdata b = d \<and> a \<notin> owned S)"
    "\<And>t u a. waiting S t = Some a \<Longrightarrow> waiting S u = Some a \<Longrightarrow> t = u"
    "\<And>a. a \<in> owned S \<Longrightarrow> a \<notin># holders S \<and> (\<exists>b. store (mem_pool S) a = Some b \<and> in_pool b)"
    "\<And>a. a \<in># holders S \<Longrightarrow> store (mem_pool S) a \<noteq> None"
    "\<And>a b. store (mem_pool S) a = Some b \<Longrightarrow> counted b (if a \<in> owned S then 1 else count (holders S) a)"
  shows "pool_inv S"
proof -
  have "stored (bufs (mem_pool S)) = {(a, bdata b) | a b. store (mem_pool S) a = Some b \<and> in_pool b \<and> a \<notin> owned S}"
    using assms(2) by auto
  then show ?thesis unfolding pool_inv_def Let_def using assms(1,3-6) by blast
qed

lemma counted_inc:
  assumes "counted b n"
  shows "counted (b\<lparr>brefs := CRYPTO_refcount_inc (brefs b)\<rparr>) (Suc n)"
proof (cases "brefs b < CRYPTO_REFCOUNT_MAX")
  case True
  then have "unat (brefs b) < 0xffffffff" by (simp add: CRYPTO_REFCOUNT_MAX_def word_less_nat_alt)
  then have "unat (brefs b + 1) = Suc (unat (brefs b))" by (simp add: unat_word_ariths)
  moreover from this have "brefs b + 1 \<noteq> 0" by (metis nat.distinct(1) unat_0)
  ultimately show ?thesis using assms True by (simp add: counted_def CRYPTO_refcount_inc_def)
qed (use assms in \<open>simp add: counted_def CRYPTO_refcount_inc_def\<close>)

lemma counted_dec:
  assumes "counted b n" "0 < n"
  obtains c where "CRYPTO_refcount_dec_and_test_zero (brefs b) = Some (c = 0, c)"
    "c = 0 \<Longrightarrow> n = 1" "c \<noteq> 0 \<Longrightarrow> counted (b\<lparr>brefs := c\<rparr>) (n - 1)"
proof (cases "brefs b < CRYPTO_REFCOUNT_MAX")
  case True
  have nz: "brefs b \<noteq> 0" and n: "unat (brefs b) = n" using assms(1) True by (simp_all add: counted_def)
  have u: "unat (brefs b - 1) = n - 1" using unat_minus_one [OF nz] n by simp
  have "n = 1" if "brefs b - 1 = 0" using that assms(2) u by simp
  then show thesis using that [of "brefs b - 1"] True nz u by (simp add: counted_def CRYPTO_refcount_dec_and_test_zero_def)
next
  case False
  then show thesis using that [of "brefs b"] assms(1) by (simp add: counted_def CRYPTO_refcount_dec_and_test_zero_def)
qed

text \<open>Looking up.\<close>

lemma pool_retrieve:
  assumes "pool_inv S"
  obtains "lh_retrieve (bufs (mem_pool S)) (x, d) = Some None" "\<And>a. (a, d) \<notin> stored (bufs (mem_pool S))"
  | a where "lh_retrieve (bufs (mem_pool S)) (x, d) = Some (Some (a, d))" "(a, d) \<in> stored (bufs (mem_pool S))"
proof (cases "retrieved (bufs (mem_pool S)) (x, d)")
  case None
  with retrieved_found [OF pool_invD(2) [OF assms], of "(x, d)"] show thesis
    by (intro that(1)) (auto simp: found_def pool_invD(3) [OF assms] cmp_zero)
next
  case (Some y)
  with retrieved_found [OF pool_invD(2) [OF assms], of "(x, d)"] that(2) [of "fst y"] show thesis
    by (cases y) (auto simp: found_def pool_invD(3) [OF assms] cmp_zero)
qed

lemma stored_same_bytes:
  assumes "pool_inv S" "(a, d) \<in> stored (bufs (mem_pool S))" "(b, d) \<in> stored (bufs (mem_pool S))"
  shows "a = b"
proof -
  obtain cs where "lh_ok (bufs (mem_pool S)) cs" "equality (lcomp (bufs (mem_pool S))) (hash (bufs (mem_pool S)))"
    using pool_invD(2) [OF assms(1)] unfolding lhash_ok_def by blast
  from stored_unique [OF this assms(2,3), of "(a, d)"] show ?thesis
    by (simp add: pool_invD(3) [OF assms(1)] cmp_zero)
qed

text \<open>Another reference to a buffer.\<close>

lemma up_ref_inv:
  assumes "pool_inv S" "store (mem_pool S) a = Some b" "a \<notin> owned S"
  shows "pool_inv (returns (Some a) (CRYPTO_BUFFER_up_ref a (mem_pool S)) S)"
proof (rule pool_invI)
  let ?S = "returns (Some a) (CRYPTO_BUFFER_up_ref a (mem_pool S)) S"
  have st: "store (mem_pool ?S) x = (if x = a then Some (b\<lparr>brefs := CRYPTO_refcount_inc (brefs b)\<rparr>) else store (mem_pool S) x)" for x
    by (simp add: returns_def CRYPTO_BUFFER_up_ref_def upd_buffer_def assms(2))
  have o: "owned ?S = owned S" "bufs (mem_pool ?S) = bufs (mem_pool S)" "holders ?S = add_mset a (holders S)" "waiting ?S = waiting S"
    by (simp_all add: returns_def CRYPTO_BUFFER_up_ref_def upd_buffer_def)
  show "lhash_with CRYPTO_BUFFER_hash CRYPTO_BUFFER_cmp (bufs (mem_pool ?S))" unfolding o by (rule pool_invD(1) [OF assms(1)])
  show "(x, d) \<in> stored (bufs (mem_pool ?S)) \<longleftrightarrow> (\<exists>b. store (mem_pool ?S) x = Some b \<and> in_pool b \<and> bdata b = d \<and> x \<notin> owned ?S)" for x d
    unfolding o st pool_invD(4) [OF assms(1)] using assms(2) by auto
  show "waiting ?S t = Some x \<Longrightarrow> waiting ?S u = Some x \<Longrightarrow> t = u" for t u x unfolding o by (rule pool_invD(5) [OF assms(1)])
  show "x \<in> owned ?S \<Longrightarrow> x \<notin># holders ?S \<and> (\<exists>b. store (mem_pool ?S) x = Some b \<and> in_pool b)" for x
    using pool_invD(6,7) [OF assms(1), of x] assms(3) unfolding o st by auto
  show "x \<in># holders ?S \<Longrightarrow> store (mem_pool ?S) x \<noteq> None" for x
    using pool_invD(8) [OF assms(1), of x] unfolding o st by auto
  show "store (mem_pool ?S) x = Some c \<Longrightarrow> counted c (if x \<in> owned ?S then 1 else count (holders ?S) x)" for x c
    using pool_invD(9,10) [OF assms(1), of x c] counted_inc [OF pool_invD(10) [OF assms]] assms(3) unfolding o st by (auto split: if_splits)
qed

text \<open>A thread gives up its own buffer.\<close>

lemma owned_without:
  assumes "pool_inv S" "waiting S t = Some a"
  shows "ran ((waiting S)(t := None)) = owned S - {a}"
proof (intro subset_antisym subsetI)
  fix x assume "x \<in> ran ((waiting S)(t := None))"
  then obtain u where "u \<noteq> t" "waiting S u = Some x" by (auto simp: ran_def split: if_splits)
  with pool_invD(5) [OF assms(1) _ assms(2), of u] show "x \<in> owned S - {a}" by (auto simp: ran_def)
next
  fix x assume "x \<in> owned S - {a}"
  then obtain u where "waiting S u = Some x" "x \<noteq> a" by (auto simp: ran_def)
  moreover from this have "u \<noteq> t" using assms(2) by auto
  ultimately have "((waiting S)(t := None)) u = Some x" by simp
  then show "x \<in> ran ((waiting S)(t := None))" by (rule ranI)
qed

lemma give_up_inv:
  assumes "pool_inv S" "waiting S t = Some a"
  shows "pool_inv (S\<lparr>mem_pool := (mem_pool S)\<lparr>store := (store (mem_pool S))(a := None)\<rparr>, waiting := (waiting S)(t := None)\<rparr>)"
    (is "pool_inv ?S")
proof (rule pool_invI)
  have own: "a \<in> owned S" using assms(2) by (auto simp: ran_def)
  have o: "owned ?S = owned S - {a}" using owned_without [OF assms] by simp
  show "lhash_with CRYPTO_BUFFER_hash CRYPTO_BUFFER_cmp (bufs (mem_pool ?S))" using pool_invD(1) [OF assms(1)] by simp
  show "(x, d) \<in> stored (bufs (mem_pool ?S)) \<longleftrightarrow> (\<exists>b. store (mem_pool ?S) x = Some b \<and> in_pool b \<and> bdata b = d \<and> x \<notin> owned ?S)" for x d
    using pool_invD(4) [OF assms(1), of x d] own unfolding o by auto
  show "waiting ?S u = Some x \<Longrightarrow> waiting ?S v = Some x \<Longrightarrow> u = v" for u v x
    using pool_invD(5) [OF assms(1)] by (auto split: if_splits)
  show "x \<in> owned ?S \<Longrightarrow> x \<notin># holders ?S \<and> (\<exists>b. store (mem_pool ?S) x = Some b \<and> in_pool b)" for x
    using pool_invD(6,7) [OF assms(1), of x] unfolding o by auto
  show "x \<in># holders ?S \<Longrightarrow> store (mem_pool ?S) x \<noteq> None" for x
    using pool_invD(8) [OF assms(1), of x] pool_invD(6) [OF assms(1) own] by auto
  show "store (mem_pool ?S) x = Some c \<Longrightarrow> counted c (if x \<in> owned ?S then 1 else count (holders ?S) x)" for x c
    using pool_invD(9,10) [OF assms(1), of x c] unfolding o by (auto split: if_splits)
qed

section \<open>Every step keeps it\<close>

lemma new_lookup_inv:
  assumes "pool_inv S" "new_lookup d (mem_pool S) = Some (r, P)"
  shows "case r of None \<Rightarrow> P = mem_pool S \<and> (\<forall>a. (a, d) \<notin> stored (bufs (mem_pool S)))
    | Some a \<Rightarrow> (a, d) \<in> stored (bufs (mem_pool S)) \<and> P = CRYPTO_BUFFER_up_ref a (mem_pool S)"
  by (rule pool_retrieve [OF assms(1), of 0 d]) (use assms(2) in \<open>auto simp: new_lookup_def\<close>)

lemma fresh_inv:
  fixes pooled :: bool and d :: "byte list"
  assumes "pool_inv S" "store (mem_pool S) a = None"
  defines "P \<equiv> (mem_pool S)\<lparr>store := (store (mem_pool S))(a \<mapsto> \<lparr>in_pool = pooled, bdata = d, brefs = 1\<rparr>)\<rparr>"
  shows "\<not> pooled \<Longrightarrow> pool_inv (returns (Some a) P S)"
    and "pooled \<Longrightarrow> waiting S t = None \<Longrightarrow> pool_inv (S\<lparr>mem_pool := P, waiting := (waiting S)(t \<mapsto> a)\<rparr>)"
proof -
  have a: "a \<notin># holders S" "a \<notin> owned S" using pool_invD(7,8) [OF assms(1), of a] assms(2) by auto
  have P: "bufs P = bufs (mem_pool S)" "store P x = (if x = a then Some \<lparr>in_pool = pooled, bdata = d, brefs = 1\<rparr> else store (mem_pool S) x)" for x
    by (simp_all add: P_def)
  note [simp] = P
  show "pool_inv (returns (Some a) P S)" (is "pool_inv ?S") if p: "\<not> pooled"
  proof (rule pool_invI)
    show "lhash_with CRYPTO_BUFFER_hash CRYPTO_BUFFER_cmp (bufs (mem_pool ?S))"
      using pool_invD(1) [OF assms(1)] by (simp add: returns_def)
    show "(x, d) \<in> stored (bufs (mem_pool ?S)) \<longleftrightarrow> (\<exists>b. store (mem_pool ?S) x = Some b \<and> in_pool b \<and> bdata b = d \<and> x \<notin> owned ?S)" for x d
      using pool_invD(4) [OF assms(1), of x d] p assms(2) by (auto simp: returns_def)
    show "waiting ?S u = Some x \<Longrightarrow> waiting ?S v = Some x \<Longrightarrow> u = v" for u v x
      using pool_invD(5) [OF assms(1), of u x v] by (simp add: returns_def)
    show "x \<in> owned ?S \<Longrightarrow> x \<notin># holders ?S \<and> (\<exists>b. store (mem_pool ?S) x = Some b \<and> in_pool b)" for x
      using pool_invD(6,7) [OF assms(1), of x] a by (auto simp: returns_def)
    show "x \<in># holders ?S \<Longrightarrow> store (mem_pool ?S) x \<noteq> None" for x
      using pool_invD(8) [OF assms(1), of x] by (auto simp: returns_def)
    show "store (mem_pool ?S) x = Some c \<Longrightarrow> counted c (if x \<in> owned ?S then 1 else count (holders ?S) x)" for x c
      using pool_invD(9,10) [OF assms(1), of x c] a
      by (auto simp: returns_def counted_def not_in_iff split: if_splits)
  qed
  show "pool_inv (S\<lparr>mem_pool := P, waiting := (waiting S)(t \<mapsto> a)\<rparr>)" (is "pool_inv ?S") if p: "pooled" "waiting S t = None"
  proof (rule pool_invI)
    have o: "owned ?S = insert a (owned S)" using p(2) by simp
    show "lhash_with CRYPTO_BUFFER_hash CRYPTO_BUFFER_cmp (bufs (mem_pool ?S))"
      using pool_invD(1) [OF assms(1)] by simp
    show "(x, d) \<in> stored (bufs (mem_pool ?S)) \<longleftrightarrow> (\<exists>b. store (mem_pool ?S) x = Some b \<and> in_pool b \<and> bdata b = d \<and> x \<notin> owned ?S)" for x d
      using pool_invD(4) [OF assms(1), of x d] assms(2) unfolding o by auto
    show "waiting ?S u = Some x \<Longrightarrow> waiting ?S v = Some x \<Longrightarrow> u = v" for u v x
      using pool_invD(5) [OF assms(1), of u x v] a(2) by (auto simp: ran_def split: if_splits)
    show "x \<in> owned ?S \<Longrightarrow> x \<notin># holders ?S \<and> (\<exists>b. store (mem_pool ?S) x = Some b \<and> in_pool b)" for x
      using pool_invD(6,7) [OF assms(1), of x] a p(1) unfolding o by auto
    show "x \<in># holders ?S \<Longrightarrow> store (mem_pool ?S) x \<noteq> None" for x
      using pool_invD(8) [OF assms(1), of x] by auto
    show "store (mem_pool ?S) x = Some c \<Longrightarrow> counted c (if x \<in> owned ?S then 1 else count (holders ?S) x)" for x c
      using pool_invD(9,10) [OF assms(1), of x c] a unfolding o by (auto simp: counted_def split: if_splits)
  qed
qed

lemma stored_byte: "pool_inv S \<Longrightarrow> (x, d) \<in> stored (bufs (mem_pool S)) \<Longrightarrow> (x, e) \<in> stored (bufs (mem_pool S)) \<Longrightarrow> d = e"
  by (auto simp: pool_invD(4))

text \<open>The insertion under the write lock; \<open>r\<close> is what it returns, with the bytes that were asked for.\<close>

lemma new_insert_ok:
  assumes "pool_inv S" "waiting S t = Some a" "free_item slot (mem_pool S)"
  shows "\<exists>r P. new_insert ok slot a (mem_pool S) = Some (r, P) \<and> pool_inv ((returns r P S)\<lparr>waiting := (waiting S)(t := None)\<rparr>) \<and>
    (\<forall>x. x \<noteq> a \<longrightarrow> map_option bdata (store P x) = map_option bdata (store (mem_pool S) x)) \<and>
    (case r of None \<Rightarrow> slot = None | Some b \<Rightarrow> map_option bdata (store P b) = map_option bdata (store (mem_pool S) a))"
proof -
  have own: "a \<in> owned S" using assms(2) by (auto simp: ran_def)
  obtain b where b: "store (mem_pool S) a = Some b" "in_pool b" using pool_invD(7) [OF assms(1) own] by blast
  let ?buf = "(a, bdata b)" and ?P = "mem_pool S"
  show ?thesis
  proof (rule pool_retrieve [OF assms(1), of a "bdata b"])
    fix c assume r: "lh_retrieve (bufs ?P) ?buf = Some (Some (c, bdata b))" "(c, bdata b) \<in> stored (bufs ?P)"
    then obtain c' where c: "store ?P c = Some c'" "bdata c' = bdata b" "c \<notin> owned S" using pool_invD(4) [OF assms(1)] by auto
    let ?P1 = "CRYPTO_BUFFER_up_ref c ?P"
    have up: "pool_inv (returns (Some c) ?P1 S)" by (rule up_ref_inv [OF assms(1) c(1,3)])
    have "waiting (returns (Some c) ?P1 S) t = Some a" using assms(2) by (simp add: returns_def)
    from give_up_inv [OF up this] have "pool_inv ((returns (Some c) (?P1\<lparr>store := (store ?P1)(a := None)\<rparr>) S)\<lparr>waiting := (waiting S)(t := None)\<rparr>)"
      by (cases S) (simp add: returns_def)
    moreover have "c \<noteq> a" using c(3) own by blast
    ultimately show ?thesis using r(1) b c
      by (intro exI [of _ "Some c"] exI [of _ "?P1\<lparr>store := (store ?P1)(a := None)\<rparr>"])
        (auto simp: new_insert_def Let_def CRYPTO_BUFFER_up_ref_def upd_buffer_def)
  next
    assume r: "lh_retrieve (bufs ?P) ?buf = Some None" "\<And>x. (x, bdata b) \<notin> stored (bufs ?P)"
    have all: "{x \<in> stored (bufs ?P). CRYPTO_BUFFER_cmp x ?buf \<noteq> 0} = stored (bufs ?P)" using r(2) by (auto simp: cmp_zero)
    from lh_insert_step [OF pool_invD(2) [OF assms(1)], of slot ok ?buf] assms(3) obtain i old lh where
      l: "lh_insert ok slot ?buf (bufs ?P) = Some (i, old, lh)" "lhash_ok lh" "same_functions (bufs ?P) lh"
        "found CRYPTO_BUFFER_cmp (stored (bufs ?P)) ?buf old" "i \<longleftrightarrow> old \<noteq> None \<or> slot \<noteq> None"
        "stored lh = (if i then insert ?buf (stored (bufs ?P)) else stored (bufs ?P))"
      unfolding free_item_def pool_invD(3) [OF assms(1)] all by blast
    have old: "old = None" using l(4) r(2) by (auto simp: found_def cmp_zero split: option.splits)
    have w: "lhash_with CRYPTO_BUFFER_hash CRYPTO_BUFFER_cmp lh" by (rule lhash_withD(4) [OF pool_invD(1) [OF assms(1)] l(3,2)])
    let ?P1 = "?P\<lparr>bufs := lh\<rparr>"
    show ?thesis
    proof (cases slot)
      case None
      then have same: "stored lh = stored (bufs ?P)" using l(5,6) old by simp
      have "pool_inv (S\<lparr>mem_pool := ?P1\<rparr>)"
        using assms(1) w same unfolding pool_inv_def Let_def by (simp cong: if_cong split del: if_split)
      from give_up_inv [OF this, of t a] assms(2)
      have "pool_inv ((returns None (?P1\<lparr>store := (store ?P1)(a := None)\<rparr>) S)\<lparr>waiting := (waiting S)(t := None)\<rparr>)"
        by (cases S) (simp add: returns_def)
      then show ?thesis using r(1) b l(1,5) old None
        by (intro exI [of _ None] exI [of _ "?P1\<lparr>store := (store ?P1)(a := None)\<rparr>"]) (auto simp: new_insert_def Let_def)
    next
      case (Some s)
      then have same: "stored lh = insert ?buf (stored (bufs ?P))" and i using l(5,6) by simp_all
      let ?S = "(returns (Some a) ?P1 S)\<lparr>waiting := (waiting S)(t := None)\<rparr>"
      have "pool_inv ?S"
      proof (rule pool_invI)
        have o: "owned ?S = owned S - {a}" using owned_without [OF assms(1,2)] by simp
        have h: "a \<notin># holders S" by (rule pool_invD(6) [OF assms(1) own])
        show "lhash_with CRYPTO_BUFFER_hash CRYPTO_BUFFER_cmp (bufs (mem_pool ?S))" using w by (simp add: returns_def)
        show "(x, d) \<in> stored (bufs (mem_pool ?S)) \<longleftrightarrow> (\<exists>b. store (mem_pool ?S) x = Some b \<and> in_pool b \<and> bdata b = d \<and> x \<notin> owned ?S)" for x d
          using pool_invD(4) [OF assms(1), of x d] b own unfolding o by (auto simp: returns_def same)
        show "waiting ?S u = Some x \<Longrightarrow> waiting ?S v = Some x \<Longrightarrow> u = v" for u v x
          using pool_invD(5) [OF assms(1), of u x v] by (auto split: if_splits)
        show "x \<in> owned ?S \<Longrightarrow> x \<notin># holders ?S \<and> (\<exists>b. store (mem_pool ?S) x = Some b \<and> in_pool b)" for x
          using pool_invD(6,7) [OF assms(1), of x] unfolding o by (auto simp: returns_def)
        show "x \<in># holders ?S \<Longrightarrow> store (mem_pool ?S) x \<noteq> None" for x
          using pool_invD(8) [OF assms(1), of x] b(1) by (auto simp: returns_def)
        show "store (mem_pool ?S) x = Some c \<Longrightarrow> counted c (if x \<in> owned ?S then 1 else count (holders ?S) x)" for x c
          using pool_invD(9,10) [OF assms(1), of x c] own h unfolding o by (auto simp: returns_def not_in_iff split: if_splits)
      qed
      then show ?thesis using r(1) b l(1) old \<open>i\<close>
        by (intro exI [of _ "Some a"] exI [of _ ?P1]) (auto simp: new_insert_def Let_def)
    qed
  qed
qed

text \<open>Giving back a reference.\<close>

lemma CRYPTO_BUFFER_free_ok:
  assumes "pool_inv S" "a \<in># holders S"
  shows "\<exists>P. CRYPTO_BUFFER_free ok (Some a) (mem_pool S) = Some P \<and> pool_inv (S\<lparr>mem_pool := P, holders := holders S - {#a#}\<rparr>) \<and>
    (\<forall>x. x \<noteq> a \<longrightarrow> store P x = store (mem_pool S) x) \<and>
    (store P a \<noteq> None \<longrightarrow> map_option bdata (store P a) = map_option bdata (store (mem_pool S) a))"
proof -
  let ?P = "mem_pool S"
  obtain b where b: "store ?P a = Some b" using pool_invD(8) [OF assms] by blast
  have own: "a \<notin> owned S" using pool_invD(6) [OF assms(1)] assms(2) by blast
  have c: "counted b (count (holders S) a)" by (rule pool_invD(10) [OF assms(1) b own])
  show ?thesis
  proof (rule counted_dec [OF c])
    show "0 < count (holders S) a" using assms(2) by simp
  next
    fix k assume d: "CRYPTO_refcount_dec_and_test_zero (brefs b) = Some (k = 0, k)"
      "k = 0 \<Longrightarrow> count (holders S) a = 1" "k \<noteq> 0 \<Longrightarrow> counted (b\<lparr>brefs := k\<rparr>) (count (holders S) a - 1)"
    let ?P1 = "upd_buffer a (\<lambda>b. b\<lparr>brefs := k\<rparr>) ?P"
    have st: "store ?P1 x = (if x = a then Some (b\<lparr>brefs := k\<rparr>) else store ?P x)" "bufs ?P1 = bufs ?P" for x
      by (simp_all add: upd_buffer_def b)
    show ?thesis
    proof (cases "k = 0")
      case False
      let ?S = "S\<lparr>mem_pool := ?P1, holders := holders S - {#a#}\<rparr>"
      have "pool_inv ?S"
      proof (rule pool_invI)
        show "lhash_with CRYPTO_BUFFER_hash CRYPTO_BUFFER_cmp (bufs (mem_pool ?S))" using pool_invD(1) [OF assms(1)] by (simp add: st)
        show "(x, d) \<in> stored (bufs (mem_pool ?S)) \<longleftrightarrow> (\<exists>b. store (mem_pool ?S) x = Some b \<and> in_pool b \<and> bdata b = d \<and> x \<notin> owned ?S)" for x d
          using pool_invD(4) [OF assms(1), of x d] b by (simp add: st)
        show "waiting ?S u = Some x \<Longrightarrow> waiting ?S v = Some x \<Longrightarrow> u = v" for u v x
          using pool_invD(5) [OF assms(1), of u x v] by simp
        show "x \<in> owned ?S \<Longrightarrow> x \<notin># holders ?S \<and> (\<exists>b. store (mem_pool ?S) x = Some b \<and> in_pool b)" for x
          using pool_invD(6,7) [OF assms(1), of x] own by (auto simp: st dest: in_diffD)
        show "x \<in># holders ?S \<Longrightarrow> store (mem_pool ?S) x \<noteq> None" for x
          using pool_invD(8) [OF assms(1), of x] by (auto simp: st dest: in_diffD)
        show "store (mem_pool ?S) x = Some c \<Longrightarrow> counted c (if x \<in> owned ?S then 1 else count (holders ?S) x)" for x c
          using pool_invD(9,10) [OF assms(1), of x c] own d(3) [OF False] by (auto simp: st split: if_splits)
      qed
      moreover have "CRYPTO_BUFFER_free ok (Some a) ?P = Some ?P1" using d(1) False b by (simp add: CRYPTO_BUFFER_free_def Let_def)
      ultimately show ?thesis using b by (auto simp: st)
    next
      case True
      then have one: "count (holders S) a = 1" by (rule d(2))
      have gone: "pool_inv (S\<lparr>mem_pool := ?P\<lparr>bufs := lh, store := (store ?P)(a := None)\<rparr>, holders := holders S - {#a#}\<rparr>)"
        if w: "lhash_with CRYPTO_BUFFER_hash CRYPTO_BUFFER_cmp lh" "stored lh = {x \<in> stored (bufs ?P). fst x \<noteq> a}" for lh
      proof (rule pool_invI)
        let ?S = "S\<lparr>mem_pool := ?P\<lparr>bufs := lh, store := (store ?P)(a := None)\<rparr>, holders := holders S - {#a#}\<rparr>"
        have h: "a \<notin># holders ?S" using one by (simp add: not_in_iff)
        show "lhash_with CRYPTO_BUFFER_hash CRYPTO_BUFFER_cmp (bufs (mem_pool ?S))" using w(1) by simp
        show "(x, d) \<in> stored (bufs (mem_pool ?S)) \<longleftrightarrow> (\<exists>b. store (mem_pool ?S) x = Some b \<and> in_pool b \<and> bdata b = d \<and> x \<notin> owned ?S)" for x d
          using pool_invD(4) [OF assms(1), of x d] by (auto simp: w(2))
        show "waiting ?S u = Some x \<Longrightarrow> waiting ?S v = Some x \<Longrightarrow> u = v" for u v x
          using pool_invD(5) [OF assms(1), of u x v] by simp
        show "x \<in> owned ?S \<Longrightarrow> x \<notin># holders ?S \<and> (\<exists>b. store (mem_pool ?S) x = Some b \<and> in_pool b)" for x
          using pool_invD(6,7) [OF assms(1), of x] own by (auto dest: in_diffD)
        show "x \<in># holders ?S \<Longrightarrow> store (mem_pool ?S) x \<noteq> None" for x
          using pool_invD(8) [OF assms(1), of x] h by (auto dest: in_diffD)
        show "store (mem_pool ?S) x = Some c \<Longrightarrow> counted c (if x \<in> owned ?S then 1 else count (holders ?S) x)" for x c
          using pool_invD(9,10) [OF assms(1), of x c] by (auto split: if_splits)
      qed
      have none: "(store ?P1)(a := None) = (store ?P)(a := None)" by (auto simp: st fun_eq_iff)
      show ?thesis
      proof (cases "in_pool b")
        case False
        have "stored (bufs ?P) = {x \<in> stored (bufs ?P). fst x \<noteq> a}" using pool_invD(4) [OF assms(1), of a] b False by auto
        from gone [OF pool_invD(1) [OF assms(1)] this] show ?thesis
          using d(1) True b False none
          by (intro exI [of _ "?P\<lparr>store := (store ?P)(a := None)\<rparr>"]) (auto simp: CRYPTO_BUFFER_free_def Let_def upd_buffer_def)
      next
        case pooled: True
        have mem: "(a, bdata b) \<in> stored (bufs ?P)" using pool_invD(4) [OF assms(1)] b pooled own by blast
        have only: "fst x = a \<longleftrightarrow> CRYPTO_BUFFER_cmp x (a, bdata b) = 0" if "x \<in> stored (bufs ?P)" for x
        proof -
          obtain y e where x: "x = (y, e)" by (cases x)
          show ?thesis using stored_byte [OF assms(1) mem, of e] stored_same_bytes [OF assms(1) mem, of y] that
            unfolding cmp_zero x by auto
        qed
        obtain r lh where l: "lh_delete ok (a, bdata b) (bufs ?P) = Some (r, lh)" "lhash_ok lh" "same_functions (bufs ?P) lh"
          "found CRYPTO_BUFFER_cmp (stored (bufs ?P)) (a, bdata b) r" "stored lh = {x \<in> stored (bufs ?P). CRYPTO_BUFFER_cmp x (a, bdata b) \<noteq> 0}"
          using lh_delete_step [OF pool_invD(2) [OF assms(1)], of ok "(a, bdata b)"] unfolding pool_invD(3) [OF assms(1)] by blast
        have "r \<noteq> None" using l(4) mem by (cases r) (auto simp: found_def cmp_zero)
        then obtain x where x: "r = Some x" by blast
        then have "fst x = a" using l(4) only [of x] by (simp add: found_def)
        then obtain e where r: "r = Some (a, e)" using x by (cases x) simp
        have "stored lh = {x \<in> stored (bufs ?P). fst x \<noteq> a}" unfolding l(5) using only by blast
        from gone [OF lhash_withD(4) [OF pool_invD(1) [OF assms(1)] l(3,2)] this] show ?thesis
          using d(1) True b pooled none l(1) r
          by (intro exI [of _ "?P\<lparr>bufs := lh, store := (store ?P)(a := None)\<rparr>"])
            (auto simp: CRYPTO_BUFFER_free_def Let_def upd_buffer_def)
      qed
    qed
  qed
qed

lemma pool_step_inv:
  assumes "pool_step S S'" "pool_inv S"
  shows "pool_inv S'"
  using assms
proof cases
  case (lookup_hit d a P)
  then have "(a, d) \<in> stored (bufs (mem_pool S))" "P = CRYPTO_BUFFER_up_ref a (mem_pool S)"
    using new_lookup_inv [OF assms(2)] by fastforce+
  moreover from this obtain b where "store (mem_pool S) a = Some b" "a \<notin> owned S" using pool_invD(4) [OF assms(2)] by auto
  ultimately show ?thesis using lookup_hit(1) up_ref_inv [OF assms(2)] by simp
next
  case (lookup_miss d P addr t dup r P')
  have P: "P = mem_pool S" using new_lookup_inv [OF assms(2) lookup_miss(2)] by simp
  show ?thesis
  proof (cases r)
    case None
    then have "P' = P" using lookup_miss(5) by (auto simp: new_alloc_def split: option.splits if_splits)
    moreover have "(waiting S)(t := None) = waiting S" using lookup_miss(4) by auto
    ultimately have "S' = S" using lookup_miss(1) P None by simp
    then show ?thesis using assms(2) by simp
  next
    case (Some a)
    then have "P' = P\<lparr>store := (store P)(a \<mapsto> \<lparr>in_pool = True, bdata = d, brefs = 1\<rparr>)\<rparr>" "store P a = None"
      using lookup_miss(3,5) by (auto simp: new_alloc_def split: option.splits if_splits)
    then show ?thesis using fresh_inv(2) [OF assms(2), of a True t d] lookup_miss(1,4) P Some by simp
  qed
next
  case (insert t a slot ok r P)
  from new_insert_ok [OF assms(2) insert(2,3), of ok] insert(1,4) show ?thesis by auto
next
  case (alloc addr dup d r P)
  show ?thesis
  proof (cases r)
    case None
    then have "P = mem_pool S" using alloc(3) by (auto simp: CRYPTO_BUFFER_alloc_def new_alloc_def split: option.splits if_splits)
    then show ?thesis using assms(2) alloc(1) None by (simp add: returns_def)
  next
    case (Some a)
    then have "P = (mem_pool S)\<lparr>store := (store (mem_pool S))(a \<mapsto> \<lparr>in_pool = False, bdata = d, brefs = 1\<rparr>)\<rparr>" "store (mem_pool S) a = None"
      using alloc(2,3) by (auto simp: CRYPTO_BUFFER_alloc_def new_alloc_def split: option.splits if_splits)
    then show ?thesis using fresh_inv(1) [OF assms(2), of a False d] alloc(1) Some by simp
  qed
next
  case (up_ref a)
  obtain b where "store (mem_pool S) a = Some b" using pool_invD(8) [OF assms(2) up_ref(2)] by blast
  moreover have "a \<notin> owned S" using pool_invD(6) [OF assms(2)] up_ref(2) by blast
  ultimately show ?thesis using up_ref(1) up_ref_inv [OF assms(2)] by simp
next
  case (free a ok P)
  from CRYPTO_BUFFER_free_ok [OF assms(2) free(2), of ok] free(1,3) show ?thesis by auto
qed

lemma pool_reachable_inv: "pool_reachable S \<Longrightarrow> pool_inv S"
proof (induction rule: pool_reachable.induct)
  case (start P)
  then obtain lh where lh: "lh_new True True CRYPTO_BUFFER_hash CRYPTO_BUFFER_cmp = Some lh" "P = \<lparr>bufs = lh, store = Map.empty\<rparr>"
    by (auto simp: CRYPTO_BUFFER_POOL_new_def)
  from lh_new_ok(1,2) [OF buffer_equality lh(1)] show ?case by (intro pool_invI) (simp_all add: lh(2))
next
  case (step S S')
  from pool_step_inv [OF step.hyps(2) step.IH] show ?case .
qed

text \<open>A pool with one buffer, held once, for the examples below.\<close>

lemma one_buffer:
  obtains S where "pool_reachable S" "holders S = {#1#}" "waiting S = Map.empty"
    "store (mem_pool S) = Map.empty(1 \<mapsto> \<lparr>in_pool = True, bdata = [7], brefs = 1\<rparr>)"
proof -
  obtain P0 where P0: "CRYPTO_BUFFER_POOL_new True True True Map.empty = Some P0" "store P0 = Map.empty"
    "heap (bufs P0) = Map.empty"
    by (simp add: CRYPTO_BUFFER_POOL_new_def lh_new_def)
  let ?S0 = "\<lparr>mem_pool = P0, holders = {#}, waiting = Map.empty\<rparr>"
  have r0: "pool_reachable ?S0" by (rule pool_reachable.start [OF P0(1)])
  note i0 = pool_reachable_inv [OF r0]
  have "\<And>a d. (a, d) \<notin> stored (bufs P0)" using pool_invD(4) [OF i0] P0(2) by auto
  then have l: "new_lookup [7] (mem_pool ?S0) = Some (None, P0)"
    using pool_retrieve [OF i0, of 0 "[7]"] by (fastforce simp: new_lookup_def)
  let ?P1 = "P0\<lparr>store := (store P0)(1 \<mapsto> \<lparr>in_pool = True, bdata = [7], brefs = 1\<rparr>)\<rparr>"
  let ?S1 = "?S0\<lparr>mem_pool := ?P1, waiting := (waiting ?S0)(5 := Some 1)\<rparr>"
  have "pool_step ?S0 ?S1"
    by (rule pool_step.lookup_miss [OF l, of "Some 1" 5 True "Some 1" ?P1]) (simp_all add: P0 new_alloc_def)
  then have r1: "pool_reachable ?S1" by (rule pool_reachable.step [OF r0])
  have w: "waiting ?S1 5 = Some 1" and f: "free_item (Some 0) (mem_pool ?S1)" by (simp_all add: free_item_def P0 address_limit_def)
  obtain r P where n: "new_insert True (Some 0) 1 (mem_pool ?S1) = Some (r, P)" "r \<noteq> None"
    using new_insert_ok [OF pool_reachable_inv [OF r1] w f, of True] by (auto split: option.splits)
  have "stored (bufs P0) = {}" using \<open>\<And>a d. (a, d) \<notin> stored (bufs P0)\<close> by auto
  then have "lh_retrieve (bufs P0) (1, [7]) = Some None"
    using pool_retrieve [OF i0, of 1 "[7]"] by fastforce
  then have r: "r = Some 1 \<and> store P = store ?P1"
    using n by (auto simp: new_insert_def Let_def bind_eq_Some_conv split: if_splits prod.splits)
  let ?S2 = "(returns r P ?S1)\<lparr>waiting := (waiting ?S1)(5 := None)\<rparr>"
  have "pool_reachable ?S2" by (rule pool_reachable.step [OF r1 pool_step.insert [OF w f n(1)]])
  moreover have "holders ?S2 = {#1#}" "waiting ?S2 = Map.empty" "mem_pool ?S2 = P" by (auto simp: returns_def r)
  ultimately show thesis using that [of ?S2] r P0(2) by simp
qed

section \<open>Properties\<close>

text \<open>C7:
  Whatever threads do with a pool and its buffers at the same time: a reference that a caller holds points to a
  buffer that is there; two references to buffers of the pool with the same bytes are the same pointer,
  except for the buffer that a thread has not yet put into the table; and no assertion of the code fails, no
  reference count is dropped below zero, and no loop runs forever, in any call that a thread can make.
\<close>

theorem pool_safe:
  assumes "pool_reachable S"
  shows "(\<forall>a \<in># holders S. \<exists>b. store (mem_pool S) a = Some b \<and>
      (in_pool b \<longrightarrow> (\<forall>c \<in># holders S. \<forall>e. store (mem_pool S) c = Some e \<longrightarrow> in_pool e \<longrightarrow> bdata e = bdata b \<longrightarrow> c = a))) \<and>
    (\<forall>a \<in># holders S. \<forall>ok. CRYPTO_BUFFER_free ok (Some a) (mem_pool S) \<noteq> None) \<and>
    (\<forall>t a slot ok. waiting S t = Some a \<longrightarrow> free_item slot (mem_pool S) \<longrightarrow> new_insert ok slot a (mem_pool S) \<noteq> None) \<and>
    (\<forall>d. new_lookup d (mem_pool S) \<noteq> None)"
proof -
  have inv: "pool_inv S" by (rule pool_reachable_inv [OF assms])
  have same: "c = a" if "a \<in># holders S" "c \<in># holders S" "store (mem_pool S) a = Some b" "store (mem_pool S) c = Some e"
    "in_pool b" "in_pool e" "bdata e = bdata b" for a b c e
  proof (rule stored_same_bytes [OF inv])
    have "a \<notin> owned S" "c \<notin> owned S" using pool_invD(6) [OF inv] that(1,2) by blast+
    then show "(c, bdata b) \<in> stored (bufs (mem_pool S))" "(a, bdata b) \<in> stored (bufs (mem_pool S))"
      using pool_invD(4) [OF inv] that(3-7) by blast+
  qed
  show ?thesis
  proof (intro conjI ballI allI impI)
    fix a assume a: "a \<in># holders S"
    obtain b where b: "store (mem_pool S) a = Some b" using pool_invD(8) [OF inv a] by blast
    show "\<exists>b. store (mem_pool S) a = Some b \<and>
      (in_pool b \<longrightarrow> (\<forall>c \<in># holders S. \<forall>e. store (mem_pool S) c = Some e \<longrightarrow> in_pool e \<longrightarrow> bdata e = bdata b \<longrightarrow> c = a))"
      using b same [OF a _ b] by (intro exI [of _ b]) simp
    show "CRYPTO_BUFFER_free ok (Some a) (mem_pool S) \<noteq> None" for ok using CRYPTO_BUFFER_free_ok [OF inv a, of ok] by auto
  next
    fix t a slot ok assume "waiting S t = Some a" "free_item slot (mem_pool S)"
    from new_insert_ok [OF inv this, of ok] show "new_insert ok slot a (mem_pool S) \<noteq> None" by auto
  next
    fix d show "new_lookup d (mem_pool S) \<noteq> None"
      by (rule pool_retrieve [OF inv, of 0 d]) (simp_all add: new_lookup_def)
  qed
qed

theorem pool_safe_witness:
  "\<exists>S. pool_reachable S \<and> holders S = {#1#} \<and> (\<exists>P. CRYPTO_BUFFER_free True (Some 1) (mem_pool S) = Some P)"
proof (rule one_buffer)
  fix S assume "pool_reachable S" "holders S = {#1#}"
  with pool_safe [OF this(1)] show ?thesis by auto
qed

text \<open>
  What a caller gets has the bytes that it asked for, and keeps them: a lookup that finds something returns a
  buffer with those bytes, an insertion returns one with the bytes of the thread's own buffer, whichever of
  the two threads that raced was first, and no step of any thread changes the bytes of a buffer while a
  reference to it is held.
\<close>

theorem pool_bytes:
  assumes "pool_reachable S"
  shows "(\<forall>d a P. new_lookup d (mem_pool S) = Some (Some a, P) \<longrightarrow> CRYPTO_BUFFER_data a P = d) \<and>
    (\<forall>t a slot ok b P. waiting S t = Some a \<longrightarrow> free_item slot (mem_pool S) \<longrightarrow>
       new_insert ok slot a (mem_pool S) = Some (Some b, P) \<longrightarrow> CRYPTO_BUFFER_data b P = CRYPTO_BUFFER_data a (mem_pool S)) \<and>
    (\<forall>S' a. pool_step S S' \<longrightarrow> a \<in># holders S \<longrightarrow> a \<in># holders S' \<longrightarrow>
       CRYPTO_BUFFER_data a (mem_pool S') = CRYPTO_BUFFER_data a (mem_pool S))"
proof (intro conjI allI impI)
  have inv: "pool_inv S" by (rule pool_reachable_inv [OF assms])
  have up: "map_option bdata (store (CRYPTO_BUFFER_up_ref a P) x) = map_option bdata (store P x)"
    if "store P a \<noteq> None" for a P x
    using that by (auto simp: CRYPTO_BUFFER_up_ref_def upd_buffer_def)
  have data: "CRYPTO_BUFFER_data a P = d" if "map_option bdata (store P a) = Some d" for a P d
    using that by (auto simp: CRYPTO_BUFFER_data_def)
  have there: "\<exists>d. map_option bdata (store (mem_pool S) a) = Some d" if "a \<in># holders S" for a
    using pool_invD(8) [OF inv that] by auto
  show hit: "CRYPTO_BUFFER_data a P = d" if l: "new_lookup d (mem_pool S) = Some (Some a, P)" for d a P
  proof -
    have "(a, d) \<in> stored (bufs (mem_pool S))" and P: "P = CRYPTO_BUFFER_up_ref a (mem_pool S)"
      using new_lookup_inv [OF inv l] by simp_all
    then obtain b where "store (mem_pool S) a = Some b" "bdata b = d" using pool_invD(4) [OF inv] by blast
    then show ?thesis using up [of "mem_pool S" a a] by (intro data) (simp add: P)
  qed
  show "CRYPTO_BUFFER_data b P = CRYPTO_BUFFER_data a (mem_pool S)"
    if "waiting S t = Some a" "free_item slot (mem_pool S)" "new_insert ok slot a (mem_pool S) = Some (Some b, P)" for t a slot ok b P
  proof -
    have "a \<in> owned S" using that(1) by (rule ranI)
    then obtain e where "store (mem_pool S) a = Some e" using pool_invD(7) [OF inv] by blast
    then show ?thesis using new_insert_ok [OF inv that(1,2), of ok] that(3) by (auto simp: CRYPTO_BUFFER_data_def)
  qed
  show "CRYPTO_BUFFER_data a (mem_pool S') = CRYPTO_BUFFER_data a (mem_pool S)"
    if st: "pool_step S S'" and a: "a \<in># holders S" "a \<in># holders S'" for S' a
  proof -
    obtain d where d: "map_option bdata (store (mem_pool S) a) = Some d" using there [OF a(1)] by blast
    have na: "x \<noteq> a" if "store (mem_pool S) x = None" for x using d that by auto
    have own: "x \<noteq> a" if "waiting S t = Some x" for x t using pool_invD(6) [OF inv ranI [of "waiting S", OF that]] a(1) by auto
    have "map_option bdata (store (mem_pool S') a) = Some d"
      using st
    proof cases
      case (lookup_hit e x P)
      then have "(x, e) \<in> stored (bufs (mem_pool S))" "P = CRYPTO_BUFFER_up_ref x (mem_pool S)"
        using new_lookup_inv [OF inv] by fastforce+
      then show ?thesis using up [of "mem_pool S" x a] pool_invD(4) [OF inv] d lookup_hit(1) by (auto simp: returns_def)
    next
      case (lookup_miss e P addr t dup r P')
      then show ?thesis using new_lookup_inv [OF inv lookup_miss(2)] d na
        by (auto simp: new_alloc_def split: option.splits if_splits)
    next
      case (insert t x slot ok r P)
      have "a \<noteq> x" using own insert(2) by blast
      then have "map_option bdata (store P a) = map_option bdata (store (mem_pool S) a)"
        using new_insert_ok [OF inv insert(2,3), of ok] insert(4) by auto
      then show ?thesis using d insert(1) by (simp add: returns_def)
    next
      case (alloc addr dup e r P)
      then show ?thesis using d na
        by (auto simp: CRYPTO_BUFFER_alloc_def new_alloc_def returns_def split: option.splits if_splits)
    next
      case (up_ref x)
      then show ?thesis using up [of "mem_pool S" x a] pool_invD(8) [OF inv] d by (auto simp: returns_def)
    next
      case (free x ok P)
      have f: "\<forall>y. y \<noteq> x \<longrightarrow> store P y = store (mem_pool S) y"
        "store P x \<noteq> None \<longrightarrow> map_option bdata (store P x) = map_option bdata (store (mem_pool S) x)"
        using CRYPTO_BUFFER_free_ok [OF inv free(2), of ok] free(3) by auto
      have "pool_inv S'" by (rule pool_step_inv [OF st inv])
      then have "store P a \<noteq> None" using pool_invD(8) [of S' a] a(2) free(1) by auto
      then show ?thesis using f d free(1) by (cases "a = x") auto
    qed
    with d show ?thesis by (simp add: data)
  qed
qed

theorem pool_bytes_witness:
  "\<exists>S a P. pool_reachable S \<and> holders S = {#1#} \<and> new_lookup [7] (mem_pool S) = Some (Some a, P) \<and> CRYPTO_BUFFER_data a P = [7]"
proof (rule one_buffer)
  fix S assume r: "pool_reachable S" "holders S = {#1#}" "waiting S = Map.empty"
    "store (mem_pool S) = Map.empty(1 \<mapsto> \<lparr>in_pool = True, bdata = [7], brefs = 1\<rparr>)"
  note inv = pool_reachable_inv [OF r(1)]
  have "(1, [7]) \<in> stored (bufs (mem_pool S))" using pool_invD(4) [OF inv] r(3,4) by simp
  then obtain a P where "new_lookup [7] (mem_pool S) = Some (Some a, P)"
    by (rule_tac pool_retrieve [OF inv, of 0 "[7]"]) (auto simp: new_lookup_def)
  with r(1,2) pool_bytes [OF r(1)] show ?thesis by blast
qed

text \<open>C20:
  A call of \<open>CRYPTO_BUFFER_new\<close> that no other thread interrupts returns a buffer with the bytes it was given, or NULL,
  and then memory has run out somewhere. It is made of steps of the relation, so all of the above holds
  afterwards; and when the pool has a buffer with those bytes, that one is returned without any memory.
\<close>

theorem CRYPTO_BUFFER_new_correct:
  assumes "pool_reachable S" "waiting S t = None" "case addr of None \<Rightarrow> True | Some a \<Rightarrow> store (mem_pool S) a = None"
    "free_item slot (mem_pool S)"
  shows "\<exists>r P. CRYPTO_BUFFER_new addr dup ok slot d pooled (mem_pool S) = Some (r, P) \<and> pool_reachable (returns r P S) \<and>
    (case r of None \<Rightarrow> addr = None \<or> \<not> dup \<or> slot = None | Some a \<Rightarrow> CRYPTO_BUFFER_data a P = d) \<and>
    (\<forall>a \<in># holders S. pooled \<longrightarrow> in_pool (the_buffer (mem_pool S) a) \<longrightarrow> CRYPTO_BUFFER_data a (mem_pool S) = d \<longrightarrow> r = Some a)"
proof -
  have inv: "pool_inv S" by (rule pool_reachable_inv [OF assms(1)])
  have held: "(a, d) \<in> stored (bufs (mem_pool S))"
    if "a \<in># holders S" "in_pool (the_buffer (mem_pool S) a)" "CRYPTO_BUFFER_data a (mem_pool S) = d" for a
    using pool_invD(4,6,8) [OF inv, of a] that by (auto simp: CRYPTO_BUFFER_data_def)
  obtain l where l: "new_lookup d (mem_pool S) = Some l"
    by (rule pool_retrieve [OF inv, of 0 d]) (auto simp: new_lookup_def)
  show ?thesis
  proof (cases "pooled \<and> fst l \<noteq> None")
    case True
    then obtain a P where a: "l = (Some a, P)" "pooled" by (cases l) auto
    have "(a, d) \<in> stored (bufs (mem_pool S))" using new_lookup_inv [OF inv l [unfolded a]] by simp
    then have "a = c" if "(c, d) \<in> stored (bufs (mem_pool S))" for c using stored_same_bytes [OF inv] that by blast
    moreover have "CRYPTO_BUFFER_data a P = d" using pool_bytes [OF assms(1)] l a by blast
    moreover have "pool_reachable (returns (Some a) P S)"
      using pool_reachable.step [OF assms(1) pool_step.lookup_hit] l a by blast
    ultimately show ?thesis using l a held
      by (intro exI [of _ "Some a"] exI [of _ P]) (auto simp: CRYPTO_BUFFER_new_def)
  next
    case False
    have miss: "pooled \<Longrightarrow> l = (None, mem_pool S) \<and> (\<forall>a. (a, d) \<notin> stored (bufs (mem_pool S)))"
      using new_lookup_inv [OF inv, of d "fst l" "snd l"] l False by (cases l) auto
    obtain r P where al: "new_alloc addr dup pooled d (mem_pool S) = (r, P)" by fastforce
    have start: "CRYPTO_BUFFER_new addr dup ok slot d pooled (mem_pool S) =
      (case r of None \<Rightarrow> Some (None, P) | Some a \<Rightarrow> if \<not> pooled then Some (Some a, P) else new_insert ok slot a P)"
      using miss l al by (auto simp: CRYPTO_BUFFER_new_def split: option.splits)
    have al': "r = None \<Longrightarrow> P = mem_pool S \<and> (addr = None \<or> \<not> dup)"
      "r = Some a \<Longrightarrow> P = (mem_pool S)\<lparr>store := (store (mem_pool S))(a \<mapsto> \<lparr>in_pool = pooled, bdata = d, brefs = 1\<rparr>)\<rparr>" for a
      using al by (auto simp: new_alloc_def split: option.splits if_splits)
    have others: "\<forall>a \<in># holders S. pooled \<longrightarrow> in_pool (the_buffer (mem_pool S) a) \<longrightarrow> CRYPTO_BUFFER_data a (mem_pool S) = d \<longrightarrow> False"
      using miss held by blast
    show ?thesis
    proof (cases r)
      case None
      then show ?thesis using start al' others assms(1) by (auto simp: returns_def)
    next
      case (Some a)
      show ?thesis
      proof (cases pooled)
        case False
        have "pool_step S (returns (Some a) P S)"
          using pool_step.alloc [OF assms(3), of dup d "Some a" P] al Some False by (simp add: CRYPTO_BUFFER_alloc_def)
        then show ?thesis using start Some False al'(2) [OF Some] pool_reachable.step [OF assms(1)]
          by (auto simp: CRYPTO_BUFFER_data_def)
      next
        case True
        let ?S1 = "S\<lparr>mem_pool := P, waiting := (waiting S)(t := Some a)\<rparr>"
        have "pool_step S ?S1"
          by (rule pool_step.lookup_miss [where addr = addr]) (use miss l al Some True assms(2,3) in auto)
        then have r1: "pool_reachable ?S1" by (rule pool_reachable.step [OF assms(1)])
        have w: "waiting ?S1 t = Some a" and f: "free_item slot (mem_pool ?S1)"
          using assms(4) al'(2) [OF Some] by (simp_all add: free_item_def cong: option.case_cong)
        from new_insert_ok [OF pool_reachable_inv [OF r1] w f, of ok] obtain r' P' where
          n: "new_insert ok slot a P = Some (r', P')"
          "case r' of None \<Rightarrow> slot = None | Some b \<Rightarrow> map_option bdata (store P' b) = map_option bdata (store P a)"
          by (auto cong: option.case_cong)
        have "pool_reachable ((returns r' P' ?S1)\<lparr>waiting := (waiting ?S1)(t := None)\<rparr>)"
          by (rule pool_reachable.step [OF r1 pool_step.insert [OF w f, of ok]]) (simp add: n(1))
        moreover have "(waiting S)(t := None) = waiting S" using assms(2) by auto
        then have "(returns r' P' ?S1)\<lparr>waiting := (waiting ?S1)(t := None)\<rparr> = returns r' P' S"
          by (cases S) (simp add: returns_def)
        moreover have "case r' of None \<Rightarrow> slot = None | Some b \<Rightarrow> CRYPTO_BUFFER_data b P' = d"
          using n(2) al'(2) [OF Some] by (auto simp: CRYPTO_BUFFER_data_def split: option.splits)
        ultimately show ?thesis using start Some True n(1) others
          by (intro exI [of _ r'] exI [of _ P']) (auto split: option.splits)
      qed
    qed
  qed
qed

theorem CRYPTO_BUFFER_new_correct_witness:
  "\<exists>S P. pool_reachable S \<and> holders S = {#1#} \<and>
    CRYPTO_BUFFER_new None False False None [7] True (mem_pool S) = Some (Some 1, P) \<and> pool_reachable (returns (Some 1) P S)"
proof (rule one_buffer)
  fix S assume r: "pool_reachable S" "holders S = {#1#}" "waiting S = Map.empty"
    "store (mem_pool S) = Map.empty(1 \<mapsto> \<lparr>in_pool = True, bdata = [7], brefs = 1\<rparr>)"
  have "waiting S 0 = None" using r(3) by simp
  from CRYPTO_BUFFER_new_correct [OF r(1) this, of None None False False "[7]" True] r
  show ?thesis by (auto simp: free_item_def CRYPTO_BUFFER_data_def)
qed

text \<open>C19:
  Nothing is leaked, buffer by buffer: in every reachable state, a buffer that no caller holds a reference to and
  no thread inside \<open>CRYPTO_BUFFER_new\<close> owns is allocated only if its own count is at its maximum. So a buffer
  whose count never reached the maximum has been freed when its last reference is given back, whatever the other
  buffers are. When all references are given back and no count is at its maximum, the pool is empty, so that
  freeing it does not fail.
\<close>

theorem pool_drained:
  assumes "pool_reachable S"
  shows "(\<forall>a b. store (mem_pool S) a = Some b \<and> a \<notin># holders S \<and> (\<forall>t. waiting S t \<noteq> Some a) \<longrightarrow>
      brefs b = CRYPTO_REFCOUNT_MAX) \<and>
    (holders S = {#} \<and> waiting S = Map.empty \<and> (\<forall>b \<in> ran (store (mem_pool S)). brefs b \<noteq> CRYPTO_REFCOUNT_MAX) \<longrightarrow>
      store (mem_pool S) = Map.empty \<and> CRYPTO_BUFFER_POOL_free (Some (mem_pool S)) = Some [])"
proof -
  have inv: "pool_inv S" by (rule pool_reachable_inv [OF assms(1)])
  have left: "brefs b = CRYPTO_REFCOUNT_MAX"
    if "store (mem_pool S) a = Some b" "a \<notin># holders S" "\<forall>t. waiting S t \<noteq> Some a" for a b
  proof -
    have "a \<notin> owned S" using that(3) by (auto simp: ran_def)
    then have "counted b 0" using pool_invD(10) [OF inv that(1)] that(2) by (simp add: not_in_iff)
    then have "\<not> brefs b < CRYPTO_REFCOUNT_MAX" by (auto simp: counted_def unat_eq_zero)
    then show ?thesis by (simp add: CRYPTO_REFCOUNT_MAX_def not_less word_le_nat_alt word_unat_eq_iff)
      (use unsigned_less [of "brefs b", where ?'a = nat] in simp)
  qed
  moreover have "store (mem_pool S) = Map.empty \<and> CRYPTO_BUFFER_POOL_free (Some (mem_pool S)) = Some []"
    if drained: "holders S = {#}" "waiting S = Map.empty" "\<forall>b \<in> ran (store (mem_pool S)). brefs b \<noteq> CRYPTO_REFCOUNT_MAX"
  proof -
    have "store (mem_pool S) a = None" for a
      using left [of a] drained by (cases "store (mem_pool S) a") (auto intro: ranI)
    then have empty: "store (mem_pool S) = Map.empty" by blast
    then have "stored (bufs (mem_pool S)) = {}" using pool_invD(4) [OF inv] by auto
    then have "heap (bufs (mem_pool S)) a \<noteq> Some it" for a it unfolding stored_def by blast
    then have "heap (bufs (mem_pool S)) a = None" for a by (cases "heap (bufs (mem_pool S)) a") simp_all
    then have none: "heap (bufs (mem_pool S)) = Map.empty" by blast
    obtain as where as: "lh_free (Some (bufs (mem_pool S))) = Some as" "set as = dom (heap (bufs (mem_pool S)))"
      using free_all [OF pool_invD(2) [OF inv]] by blast
    obtain cs where "lh_ok (bufs (mem_pool S)) cs" using pool_invD(2) [OF inv] by (auto simp: lhash_ok_def)
    then have "lh_num_items (bufs (mem_pool S)) = 0" using item_count(1) [of "bufs (mem_pool S)" cs] none by (simp add: lh_num_items_def)
    with empty as none show ?thesis by (simp add: CRYPTO_BUFFER_POOL_free_def)
  qed
  ultimately show ?thesis by blast
qed

theorem pool_drained_witness:
  "\<exists>S. pool_reachable S \<and> store (mem_pool S) = Map.empty \<and> CRYPTO_BUFFER_POOL_free (Some (mem_pool S)) = Some []"
proof (rule one_buffer)
  fix S assume r: "pool_reachable S" "holders S = {#1#}" "waiting S = Map.empty"
    "store (mem_pool S) = Map.empty(1 \<mapsto> \<lparr>in_pool = True, bdata = [7], brefs = 1\<rparr>)"
  obtain P where P: "CRYPTO_BUFFER_free True (Some 1) (mem_pool S) = Some P"
    using CRYPTO_BUFFER_free_ok [OF pool_reachable_inv [OF r(1)], of 1 True] r(2) by auto
  then have e: "store P = Map.empty" using r(4)
    by (auto simp: CRYPTO_BUFFER_free_def CRYPTO_refcount_dec_and_test_zero_def CRYPTO_REFCOUNT_MAX_def Let_def
        upd_buffer_def bind_eq_Some_conv split: option.splits if_splits prod.splits)
  have "pool_reachable (S\<lparr>mem_pool := P, holders := holders S - {#1#}\<rparr>)"
    by (rule pool_reachable.step [OF r(1) pool_step.free [OF _ P]]) (simp add: r(2))
  from pool_drained [OF this] this e r(2,3) show ?thesis by auto
qed

end
